(* ===== verification/Prelude.thy ===== *)
theory Prelude
  imports Complex_Main "HOL-Library.Multiset" "HOL-Library.Char_ord" "HOL-Library.List_Lexorder"
begin

text \<open>
  Shared ground of the development: the signed 64-bit wrap-around of Go's \<open>int\<close>, error results
  as sums, the contract of \<open>sort.Slice\<close> as a locale with the sorting lemmas proved once inside
  it, and the list and table lemmas several components use.
\<close>

named_theorems wrap_simps "the 64-bit wrap-around on values that fit"
named_theorems go_strings "the string functions of the Go library on the shapes the code meets"

section \<open>Machine integers\<close>

text \<open>
  Go's \<open>int\<close> and \<open>int64\<close> are 64 bits wide and wrap around. They are modelled as \<open>int\<close>; an
  operation whose operands the code does not bound is followed by \<open>wrap64\<close>.
\<close>

definition wrap64 :: "int \<Rightarrow> int" where
  "wrap64 n = (n + 2 ^ 63) mod 2 ^ 64 - 2 ^ 63"

lemma wrap64_id [wrap_simps]: "- (2 ^ 63) \<le> n \<Longrightarrow> n < 2 ^ 63 \<Longrightarrow> wrap64 n = n"
  by (simp add: wrap64_def)

lemma wrap64_range: "- (2 ^ 63) \<le> wrap64 n \<and> wrap64 n < 2 ^ 63"
proof -
  have "0 \<le> (n + 2 ^ 63) mod 2 ^ 64" and "(n + 2 ^ 63) mod 2 ^ 64 < 2 ^ 64"
    by simp_all
  then show ?thesis by (simp add: wrap64_def)
qed

text \<open>A conversion to \<open>int16\<close>, as in \<open>int16(winner)\<close>.\<close>

definition to_int16 :: "int \<Rightarrow> int" where
  "to_int16 n = (n + 2 ^ 15) mod 2 ^ 16 - 2 ^ 15"

lemma to_int16_id [wrap_simps]: "- 32768 \<le> n \<Longrightarrow> n < 32768 \<Longrightarrow> to_int16 n = n"
  by (simp add: to_int16_def)

section \<open>sort.Slice\<close>

text \<open>
  \<open>sort.Slice\<close> orders a slice by a \<open>less\<close> function. The model inserts each element before the
  first one it is not greater than. Go does not say in which order it leaves elements neither of
  which is less than the other, so every result that needs the order asks for a \<open>less\<close> that is
  total on the elements: then there is only one sorted arrangement (\<open>sorted_arrangement_unique\<close>).
\<close>

fun insert_by :: "('a \<Rightarrow> 'a \<Rightarrow> bool) \<Rightarrow> 'a \<Rightarrow> 'a list \<Rightarrow> 'a list" where
  "insert_by lt x [] = [x]"
| "insert_by lt x (y # ys) = (if lt y x then y # insert_by lt x ys else x # y # ys)"

fun sort_slice :: "('a \<Rightarrow> 'a \<Rightarrow> bool) \<Rightarrow> 'a list \<Rightarrow> 'a list" where
  "sort_slice lt [] = []"
| "sort_slice lt (x # xs) = insert_by lt x (sort_slice lt xs)"

lemma mset_insert_by [simp]: "mset (insert_by lt x xs) = add_mset x (mset xs)"
  by (induction xs) auto

lemma mset_sort_slice [simp]: "mset (sort_slice lt xs) = mset xs"
  by (induction xs) auto

lemma set_sort_slice [simp]: "set (sort_slice lt xs) = set xs"
  by (metis mset_sort_slice set_mset_mset)

lemma length_sort_slice [simp]: "length (sort_slice lt xs) = length xs"
  by (metis mset_sort_slice size_mset)

lemma distinct_sort_slice [simp]: "distinct (sort_slice lt xs) = distinct xs"
  by (metis mset_sort_slice mset_eq_imp_distinct_iff)

text \<open>A strict weak order, which is what \<open>sort.Slice\<close> requires of \<open>less\<close>.\<close>

locale slice_order =
  fixes lt :: "'a \<Rightarrow> 'a \<Rightarrow> bool"
  assumes less_irrefl: "\<not> lt x x"
    and less_trans: "lt x y \<Longrightarrow> lt y z \<Longrightarrow> lt x z"
    and incomparable_trans: "\<not> lt x y \<Longrightarrow> \<not> lt y z \<Longrightarrow> \<not> lt x z"
begin

definition arranged :: "'a list \<Rightarrow> bool" where
  "arranged xs \<longleftrightarrow> sorted_wrt (\<lambda>x y. \<not> lt y x) xs"

lemma arranged_insert_by: "arranged xs \<Longrightarrow> arranged (insert_by lt x xs)"
proof (induction xs)
  case Nil
  then show ?case by (simp add: arranged_def)
next
  case (Cons y ys)
  have mem: "set (insert_by lt x ys) = insert x (set ys)"
    by (metis mset_insert_by set_mset_add_mset_insert set_mset_mset)
  show ?case
  proof (cases "lt y x")
    case True
    then have "\<not> lt x y" using less_irrefl less_trans by blast
    with True Cons mem show ?thesis by (auto simp: arranged_def)
  next
    case False
    moreover have "\<not> lt z x" if "z \<in> set ys" for z
      using that Cons.prems False by (auto simp: arranged_def dest: incomparable_trans)
    ultimately show ?thesis using Cons.prems by (auto simp: arranged_def)
  qed
qed

lemma arranged_sort_slice: "arranged (sort_slice lt xs)"
  by (induction xs) (simp add: arranged_def, simp add: arranged_insert_by)

lemma sorted_arrangement_unique:
  assumes "arranged xs" and "arranged ys" and "mset xs = mset ys"
    and total: "\<And>x y. x \<in> set xs \<Longrightarrow> y \<in> set xs \<Longrightarrow> x \<noteq> y \<Longrightarrow> lt x y \<or> lt y x"
  shows "xs = ys"
  using assms
proof (induction xs arbitrary: ys)
  case Nil
  then show ?case by simp
next
  case (Cons x xs)
  from Cons.prems(3) obtain y ys' where ys: "ys = y # ys'"
    by (cases ys) auto
  have sets: "set (x # xs) = set ys"
    using Cons.prems(3) by (metis set_mset_mset)
  have "x = y"
  proof (rule ccontr)
    assume ne: "x \<noteq> y"
    then have "y \<in> set xs" and "x \<in> set ys'"
      using sets ys by auto
    then have "\<not> lt y x" and "\<not> lt x y"
      using Cons.prems(1,2) ys by (auto simp: arranged_def)
    moreover have "y \<in> set (x # xs)" using sets ys by simp
    ultimately show False using Cons.prems(4) [of x y] ne by auto
  qed
  moreover have "xs = ys'"
    using Cons.prems ys \<open>x = y\<close> by (intro Cons.IH) (auto simp: arranged_def)
  ultimately show ?case using ys by simp
qed

lemma sort_slice_deterministic:
  assumes "mset xs = mset ys"
    and "\<And>x y. x \<in> set xs \<Longrightarrow> y \<in> set xs \<Longrightarrow> x \<noteq> y \<Longrightarrow> lt x y \<or> lt y x"
  shows "sort_slice lt xs = sort_slice lt ys"
  by (rule sorted_arrangement_unique) (use assms in \<open>auto simp: arranged_sort_slice\<close>)

lemma arranged_strict:
  assumes "arranged xs" and "distinct xs"
    and "\<And>x y. x \<in> set xs \<Longrightarrow> y \<in> set xs \<Longrightarrow> x \<noteq> y \<Longrightarrow> lt x y \<or> lt y x"
  shows "sorted_wrt lt xs"
  using assms
proof (induction xs)
  case (Cons x xs)
  have "lt x y" if "y \<in> set xs" for y
    using that Cons.prems(3) [of x y] Cons.prems(1,2) by (auto simp: arranged_def)
  moreover have "sorted_wrt lt xs"
    using Cons by (auto simp: arranged_def)
  ultimately show ?case by simp
qed simp

lemma sort_slice_strict:
  assumes "distinct xs"
    and "\<And>x y. x \<in> set xs \<Longrightarrow> y \<in> set xs \<Longrightarrow> x \<noteq> y \<Longrightarrow> lt x y \<or> lt y x"
  shows "sorted_wrt lt (sort_slice lt xs)"
  by (rule arranged_strict) (use assms in \<open>auto simp: arranged_sort_slice\<close>)

lemma hd_sort_slice_least:
  "x \<in> set xs \<Longrightarrow> \<not> lt x (hd (sort_slice lt xs))"
proof -
  assume x: "x \<in> set xs"
  obtain z zs where z: "sort_slice lt xs = z # zs"
    using x by (metis list.exhaust set_sort_slice empty_iff empty_set)
  have "x = z \<or> x \<in> set zs" using x z by (metis set_ConsD set_sort_slice)
  moreover have "arranged (z # zs)" using arranged_sort_slice z by metis
  ultimately show ?thesis using z less_irrefl by (auto simp: arranged_def)
qed

end

text \<open>The order of \<open>sort.Ints\<close> and of plain numbers is the first instance.\<close>

interpretation int_slice: slice_order "(<) :: int \<Rightarrow> int \<Rightarrow> bool"
  by unfold_locales auto

section \<open>Association lists as Go maps\<close>

text \<open>
  A Go map that the code only reads and writes by key is a function to \<open>option\<close>. A map the code
  ranges over is an association list; Go leaves the order of a range open, so a result that
  ranges over a map is stated for the set of its pairs.
\<close>

fun put :: "'k \<Rightarrow> 'v \<Rightarrow> ('k \<times> 'v) list \<Rightarrow> ('k \<times> 'v) list" where
  "put k v [] = [(k, v)]"
| "put k v ((k', v') # m) = (if k' = k then (k, v) # m else (k', v') # put k v m)"

lemma map_of_put [simp]: "map_of (put k v m) = (map_of m)(k \<mapsto> v)"
  by (induction m) (auto simp: fun_eq_iff)

lemma keys_put [simp]: "set (map fst (put k v m)) = insert k (set (map fst m))"
  by (induction k v m rule: put.induct) auto

lemma keys_put_image [simp]: "fst ` set (put k v m) = insert k (fst ` set m)"
  using keys_put [of k v m] by simp

lemma distinct_put [simp]: "distinct (map fst (put k v m)) = distinct (map fst m)"
  by (induction k v m rule: put.induct) auto

lemma set_put:
  "distinct (map fst m) \<Longrightarrow> set (put k v m) = insert (k, v) {p \<in> set m. fst p \<noteq> k}"
proof (induction k v m rule: put.induct)
  case (2 k v k' v' m)
  then show ?case by (cases "k' = k") (auto simp: image_iff)
qed simp

text \<open>Go's \<open>append(m[k], x)\<close> on a map of slices.\<close>

definition put_append :: "'k \<Rightarrow> 'v \<Rightarrow> ('k \<times> 'v list) list \<Rightarrow> ('k \<times> 'v list) list" where
  "put_append k x m = put k ((case map_of m k of None \<Rightarrow> [] | Some xs \<Rightarrow> xs) @ [x]) m"

definition group_by :: "('a \<Rightarrow> 'k) \<Rightarrow> 'a list \<Rightarrow> ('k \<times> 'a list) list" where
  "group_by f xs = fold (\<lambda>x m. put_append (f x) x m) xs []"

lemma map_of_put_append:
  "map_of (put_append k x m) k' =
     (if k' = k then Some ((case map_of m k of None \<Rightarrow> [] | Some xs \<Rightarrow> xs) @ [x]) else map_of m k')"
  by (simp add: put_append_def)

lemma map_of_fold_append:
  "map_of (fold (\<lambda>x m. put_append (f x) x m) xs m) k =
     (let ys = [x \<leftarrow> xs. f x = k] in
      if ys = [] then map_of m k
      else Some ((case map_of m k of None \<Rightarrow> [] | Some zs \<Rightarrow> zs) @ ys))"
  by (induction xs arbitrary: m) (auto simp: map_of_put_append Let_def split: option.splits)

lemma map_of_group_by:
  "map_of (group_by f xs) k = (let ys = [x \<leftarrow> xs. f x = k] in if ys = [] then None else Some ys)"
  by (simp add: group_by_def map_of_fold_append Let_def)

lemma distinct_group_by: "distinct (map fst (group_by f xs))"
proof -
  have "distinct (map fst m) \<Longrightarrow> distinct (map fst (fold (\<lambda>x m. put_append (f x) x m) xs m))" for m
    by (induction xs arbitrary: m) (auto simp: put_append_def)
  then show ?thesis by (simp add: group_by_def)
qed

lemma group_by_iff:
  "(k, g) \<in> set (group_by f xs) \<longleftrightarrow> g = [x \<leftarrow> xs. f x = k] \<and> g \<noteq> []"
proof -
  have "(k, g) \<in> set (group_by f xs) \<longleftrightarrow> map_of (group_by f xs) k = Some g"
    using distinct_group_by [of f xs] by (simp add: map_of_eq_Some_iff)
  then show ?thesis by (auto simp: map_of_group_by Let_def)
qed

lemma group_by_key_eq:
  "(k, g) \<in> set (group_by f xs) \<Longrightarrow> (k, h) \<in> set (group_by f xs) \<Longrightarrow> g = h"
  by (simp add: group_by_iff)

section \<open>Lists\<close>

lemma distinct_concat_map:
  assumes "distinct ds" and "\<And>d. d \<in> set ds \<Longrightarrow> distinct (f d)"
    and "\<And>d d'. d \<in> set ds \<Longrightarrow> d' \<in> set ds \<Longrightarrow> d \<noteq> d' \<Longrightarrow> set (f d) \<inter> set (f d') = {}"
  shows "distinct (concat (map f ds))"
  using assms
proof (induction ds)
  case (Cons d ds)
  have "set (f d) \<inter> set (f e) = {}" if "e \<in> set ds" for e
    using Cons.prems that by auto
  then have "set (f d) \<inter> set (concat (map f ds)) = {}" by auto
  then show ?case using Cons by simp
qed simp

text \<open>Two texts split at the first occurrence of a separator.\<close>

lemma append_sep_eq: "c \<notin> set a \<Longrightarrow> c \<notin> set b \<Longrightarrow> a @ c # x = b @ c # y \<longleftrightarrow> a = b \<and> x = y"
  by (induction a arbitrary: b) (case_tac [!] b, auto)

lemma append_sep_none: "c \<notin> set a \<Longrightarrow> a \<noteq> b @ c # y"
  by auto

lemma sort_distinct_sets:
  "distinct xs \<Longrightarrow> distinct ys \<Longrightarrow> set xs = set ys \<Longrightarrow> mset xs = mset ys"
  by (simp add: set_eq_iff_mset_eq_distinct)

end
