(* ===== verification/GoStrings.thy ===== *)
theory GoStrings
  imports Prelude
begin

text \<open>
  The functions of Go's \<open>strings\<close>, \<open>strconv\<close> and \<open>unicode\<close> packages the program calls, on
  \<open>string\<close>: a Go string is a list of bytes, and \<open>char\<close> is a byte. They follow the library on
  ASCII text; a byte above 127 is neither white space nor a letter here. \<open>a < b\<close> on strings is the
  bytewise order of Go's \<open><\<close> (\<open>List_Lexorder\<close> over \<open>Char_ord\<close>). Player and event names, where
  accents matter, are lists of code points instead: see theory \<open>Name\<close>.
\<close>

section \<open>Characters\<close>

definition is_space :: "char \<Rightarrow> bool" where
  "is_space c \<longleftrightarrow> c \<in> {CHR 0x09, CHR 0x0A, CHR 0x0B, CHR 0x0C, CHR 0x0D, CHR '' ''}"

definition is_digit :: "char \<Rightarrow> bool" where
  "is_digit c \<longleftrightarrow> 48 \<le> (of_char c :: nat) \<and> (of_char c :: nat) \<le> 57"

definition digit_val :: "char \<Rightarrow> int" where
  "digit_val c = of_char c - 48"

definition upper_char :: "char \<Rightarrow> char" where
  "upper_char c = (if 97 \<le> (of_char c :: nat) \<and> (of_char c :: nat) \<le> 122
     then char_of ((of_char c :: nat) - 32) else c)"

definition lower_char :: "char \<Rightarrow> char" where
  "lower_char c = (if 65 \<le> (of_char c :: nat) \<and> (of_char c :: nat) \<le> 90
     then char_of ((of_char c :: nat) + 32) else c)"

definition to_upper :: "string \<Rightarrow> string" where
  "to_upper s = map upper_char s"

definition to_lower :: "string \<Rightarrow> string" where
  "to_lower s = map lower_char s"

lemma digit_val_range: "is_digit c \<Longrightarrow> 0 \<le> digit_val c \<and> digit_val c \<le> 9"
proof -
  assume "is_digit c"
  then have "48 \<le> (of_char c :: nat)" and "(of_char c :: nat) \<le> 57"
    by (auto simp: is_digit_def)
  then have "48 \<le> int (of_char c :: nat)" and "int (of_char c :: nat) \<le> 57"
    by linarith+
  moreover have "int (of_char c :: nat) = (of_char c :: int)"
    by (simp only: of_nat_of_char)
  ultimately show ?thesis by (simp add: digit_val_def)
qed

lemma digit_not_space [go_strings]: "is_digit c \<Longrightarrow> \<not> is_space c"
  by (auto simp: is_digit_def is_space_def)

lemma upper_lower_not_letter [go_strings]:
  "is_digit c \<Longrightarrow> upper_char c = c" "is_digit c \<Longrightarrow> lower_char c = c"
  by (auto simp: is_digit_def upper_char_def lower_char_def)

section \<open>Trimming, splitting, searching\<close>

definition trim_left :: "(char \<Rightarrow> bool) \<Rightarrow> string \<Rightarrow> string" where
  "trim_left p s = dropWhile p s"

definition trim_by :: "(char \<Rightarrow> bool) \<Rightarrow> string \<Rightarrow> string" where
  "trim_by p s = rev (dropWhile p (rev (dropWhile p s)))"

definition trim_space :: "string \<Rightarrow> string" where
  "trim_space s = trim_by is_space s"

text \<open>\<open>strings.Trim(s, cutset)\<close>.\<close>

definition trim_set :: "string \<Rightarrow> string \<Rightarrow> string" where
  "trim_set s cs = trim_by (\<lambda>c. c \<in> set cs) s"

definition has_prefix :: "string \<Rightarrow> string \<Rightarrow> bool" where
  "has_prefix s p \<longleftrightarrow> take (length p) s = p"

definition has_suffix :: "string \<Rightarrow> string \<Rightarrow> bool" where
  "has_suffix s p \<longleftrightarrow> length p \<le> length s \<and> drop (length s - length p) s = p"

definition trim_prefix :: "string \<Rightarrow> string \<Rightarrow> string" where
  "trim_prefix s p = (if has_prefix s p then drop (length p) s else s)"

definition trim_suffix :: "string \<Rightarrow> string \<Rightarrow> string" where
  "trim_suffix s p = (if has_suffix s p then take (length s - length p) s else s)"

text \<open>\<open>strings.Index\<close>: the position of the first occurrence, \<open>None\<close> for -1.\<close>

fun index_sub :: "string \<Rightarrow> string \<Rightarrow> nat option" where
  "index_sub [] p = (if p = [] then Some 0 else None)"
| "index_sub (c # s) p =
     (if has_prefix (c # s) p then Some 0 else map_option Suc (index_sub s p))"

definition contains_sub :: "string \<Rightarrow> string \<Rightarrow> bool" where
  "contains_sub s p \<longleftrightarrow> index_sub s p \<noteq> None"

text \<open>\<open>strings.Fields\<close>: the maximal runs of bytes that are not white space.\<close>

fun words_acc :: "string \<Rightarrow> string \<Rightarrow> string list" where
  "words_acc w [] = (if w = [] then [] else [w])"
| "words_acc w (c # s) =
     (if is_space c then (if w = [] then words_acc [] s else w # words_acc [] s)
      else words_acc (w @ [c]) s)"

definition str_fields :: "string \<Rightarrow> string list" where
  "str_fields s = words_acc [] s"

text \<open>\<open>strings.Join\<close>, \<open>strings.Split\<close> at one byte, \<open>strings.ReplaceAll\<close> of one byte.\<close>

fun join :: "string list \<Rightarrow> string \<Rightarrow> string" where
  "join [] sep = []"
| "join [x] sep = x"
| "join (x # y # xs) sep = x @ sep @ join (y # xs) sep"

fun split_on :: "string \<Rightarrow> char \<Rightarrow> string list" where
  "split_on [] c = [[]]"
| "split_on (x # s) c =
     (if x = c then [] # split_on s c
      else case split_on s c of [] \<Rightarrow> [[x]] | w # ws \<Rightarrow> (x # w) # ws)"

section \<open>Numbers\<close>

text \<open>\<open>strconv.Itoa\<close>.\<close>

fun digits_of :: "nat \<Rightarrow> string" where
  "digits_of n = (if n < 10 then [char_of (48 + n)]
     else digits_of (n div 10) @ [char_of (48 + n mod 10)])"

declare digits_of.simps [simp del]

definition itoa :: "int \<Rightarrow> string" where
  "itoa n = (if n < 0 then ''-'' @ digits_of (nat (- n)) else digits_of (nat n))"

text \<open>
  \<open>strconv.Atoi\<close> and \<open>strconv.ParseInt(s, 10, bits)\<close>: an optional sign, at least one digit,
  and a value that fits in the given number of bits; \<open>None\<close> stands for the error.
\<close>

definition digits_val :: "string \<Rightarrow> int" where
  "digits_val s = foldl (\<lambda>n c. n * 10 + digit_val c) 0 s"

definition parse_int :: "nat \<Rightarrow> string \<Rightarrow> int option" where
  "parse_int bits s =
     (let neg = (s \<noteq> [] \<and> hd s = CHR ''-'');
          body = (if s \<noteq> [] \<and> hd s \<in> {CHR ''-'', CHR ''+''} then tl s else s);
          n = (if neg then - digits_val body else digits_val body)
      in if body = [] \<or> \<not> list_all is_digit body then None
         else if n < - (2 ^ (bits - 1)) \<or> 2 ^ (bits - 1) \<le> n then None
         else Some n)"

definition atoi :: "string \<Rightarrow> int option" where
  "atoi s = parse_int 64 s"

section \<open>Facts\<close>

definition word_text :: "string \<Rightarrow> bool" where
  "word_text w \<longleftrightarrow> w \<noteq> [] \<and> list_all (\<lambda>c. \<not> is_space c) w"

lemma str_fields_acc_words:
  "list_all (\<lambda>c. \<not> is_space c) v \<Longrightarrow> list_all word_text (words_acc v s)"
  by (induction v s rule: words_acc.induct) (simp_all add: word_text_def)

lemma str_fields_words: "w \<in> set (str_fields s) \<Longrightarrow> word_text w"
  using str_fields_acc_words [of "[]" s] by (auto simp: str_fields_def list_all_iff)

lemma str_fields_acc_chars:
  "w \<in> set (words_acc v s) \<Longrightarrow> set w \<subseteq> set v \<union> set s"
  by (induction v s rule: words_acc.induct) (auto split: if_splits)

lemma str_fields_chars: "w \<in> set (str_fields s) \<Longrightarrow> set w \<subseteq> set s"
  using str_fields_acc_chars [of w "[]" s] by (simp add: str_fields_def)

lemma str_fields_acc_word:
  "list_all (\<lambda>c. \<not> is_space c) u \<Longrightarrow> words_acc w (u @ s) = words_acc (w @ u) s"
  by (induction u arbitrary: w) auto

lemma str_fields_join:
  assumes "list_all word_text ws"
  shows "str_fields (join ws '' '') = ws"
  using assms
proof (induction ws rule: induct_list012)
  case 1
  then show ?case by (simp add: str_fields_def)
next
  case (2 x)
  then show ?case using str_fields_acc_word [of x "[]" "[]"] by (simp add: str_fields_def word_text_def)
next
  case (3 x y xs)
  have "words_acc [] (x @ '' '' @ join (y # xs) '' '') = x # words_acc [] (join (y # xs) '' '')"
    using str_fields_acc_word [of x "[]" "'' '' @ join (y # xs) '' ''"] 3(3) by (simp add: is_space_def word_text_def)
  moreover have "str_fields (join (y # xs) '' '') = y # xs" using 3 by simp
  ultimately show ?case by (simp add: str_fields_def)
qed

lemma set_join: "set (join ws sep) \<subseteq> (\<Union>w \<in> set ws. set w) \<union> set sep"
  by (induction ws sep rule: join.induct) auto

lemma has_prefix_iff: "has_prefix s p \<longleftrightarrow> (\<exists>t. s = p @ t)"
  by (auto simp: has_prefix_def) (metis append_take_drop_id)

lemma has_prefix_Cons [simp]: "has_prefix (c # s) (d # p) \<longleftrightarrow> c = d \<and> has_prefix s p"
  by (auto simp: has_prefix_def)

lemma has_prefix_Nil [simp]: "has_prefix s []" "has_prefix [] (d # p) = False"
  by (auto simp: has_prefix_def)

lemma has_suffix_iff: "has_suffix s p \<longleftrightarrow> (\<exists>t. s = t @ p)"
proof
  assume "has_suffix s p"
  then show "\<exists>t. s = t @ p" unfolding has_suffix_def by (metis append_take_drop_id)
qed (auto simp: has_suffix_def)

lemma has_suffix_single: "has_suffix s [c] \<longleftrightarrow> s \<noteq> [] \<and> last s = c"
  by (auto simp: has_suffix_iff) (metis append_butlast_last_id)

lemma index_sub_chars: "index_sub s p = Some i \<Longrightarrow> set p \<subseteq> set s"
  by (induction s p arbitrary: i rule: index_sub.induct)
    (auto simp: has_prefix_iff split: if_splits, metis Cons_eq_appendI Un_iff set_ConsD set_append)

lemma index_sub_absent: "c \<in> set p \<Longrightarrow> c \<notin> set s \<Longrightarrow> index_sub s p = None"
  using index_sub_chars [of s p] by (cases "index_sub s p") auto

lemma contains_single: "contains_sub s [c] \<longleftrightarrow> c \<in> set s"
  by (induction s) (auto simp: contains_sub_def split: if_splits)

lemma trim_by_id:
  assumes "s = [] \<or> (\<not> p (hd s) \<and> \<not> p (last s))"
  shows "trim_by p s = s"
proof (cases "s = []")
  case False
  then have "dropWhile p s = s" and "dropWhile p (rev s) = rev s"
    using assms by (simp_all add: dropWhile_eq_self_iff hd_rev)
  then show ?thesis by (simp add: trim_by_def)
qed (simp add: trim_by_def)

lemma trim_by_none: "\<forall>c \<in> set s. \<not> p c \<Longrightarrow> trim_by p s = s"
  by (cases "s = []") (auto intro!: trim_by_id)

lemma trim_by_chars: "set (trim_by p s) \<subseteq> set s"
  by (auto simp: trim_by_def dest!: set_dropWhileD)

lemma trim_by_ends: "trim_by p s \<noteq> [] \<Longrightarrow> \<not> p (hd (trim_by p s)) \<and> \<not> p (last (trim_by p s))"
proof -
  let ?d = "dropWhile p s" and ?t = "trim_by p s"
  assume ne: "?t \<noteq> []"
  then have l: "\<not> p (last ?t)"
    by (simp add: trim_by_def last_rev hd_dropWhile)
  obtain u where u: "?d = ?t @ u"
    unfolding trim_by_def by (metis rev_append rev_rev_ident takeWhile_dropWhile_id)
  then have "hd ?d = hd ?t" and "?d \<noteq> []" using ne by auto
  then show ?thesis using l hd_dropWhile [of p s] by auto
qed

section \<open>Decimal numerals\<close>

lemma of_char_digit: "n < 10 \<Longrightarrow> (of_char (char_of (48 + n :: nat)) :: nat) = 48 + n"
  by (simp add: of_char_of)

lemma is_digit_char_of: "n < 10 \<Longrightarrow> is_digit (char_of (48 + n :: nat))"
  by (simp add: is_digit_def of_char_digit)

lemma digit_val_char_of: "n < 10 \<Longrightarrow> digit_val (char_of (48 + n :: nat)) = int n"
proof -
  assume "n < 10"
  have "(of_char (char_of (48 + n :: nat)) :: int) = int (of_char (char_of (48 + n :: nat)))"
    by (simp only: of_nat_of_char)
  then show ?thesis using \<open>n < 10\<close> by (simp add: digit_val_def of_char_digit)
qed

lemma digits_of_digits: "c \<in> set (digits_of n) \<Longrightarrow> is_digit c"
proof (induction n rule: digits_of.induct)
  case (1 n)
  then show ?case
    by (cases "n < 10") (auto simp: digits_of.simps [of n] is_digit_char_of)
qed

lemma digits_of_nonempty [simp]: "digits_of n \<noteq> []"
  by (subst digits_of.simps) simp

lemma digits_val_append: "digits_val (s @ [c]) = digits_val s * 10 + digit_val c"
  by (simp add: digits_val_def)

lemma digits_val_digits_of: "digits_val (digits_of n) = int n"
proof (induction n rule: digits_of.induct)
  case (1 n)
  show ?case
  proof (cases "n < 10")
    case True
    then show ?thesis
      by (subst digits_of.simps) (simp add: digits_val_def digit_val_char_of)
  next
    case False
    have "int n = int (n div 10) * 10 + int (n mod 10)"
      by (metis div_mult_mod_eq of_nat_add of_nat_mult of_nat_numeral)
    with 1 False show ?thesis
      by (subst digits_of.simps) (simp add: digits_val_append digit_val_char_of)
  qed
qed

lemma digits_of_length: "n < 100 \<Longrightarrow> length (digits_of n) \<le> 2"
proof -
  assume "n < 100"
  then have "n div 10 < 10" by simp
  then show ?thesis by (subst digits_of.simps, subst digits_of.simps) simp
qed

lemma digits_val_nonneg: "list_all is_digit s \<Longrightarrow> 0 \<le> digits_val s"
  by (induction s rule: rev_induct) (auto simp: digits_val_append digits_val_def dest: digit_val_range)

lemma digits_val_bound: "list_all is_digit s \<Longrightarrow> digits_val s < 10 ^ length s"
proof (induction s rule: rev_induct)
  case (snoc c s)
  then have "digits_val s + 1 \<le> 10 ^ length s" and "digit_val c \<le> 9"
    using digit_val_range by auto
  then show ?case by (simp add: digits_val_append)
qed (simp add: digits_val_def)

lemma itoa_nonneg: "0 \<le> n \<Longrightarrow> itoa n = digits_of (nat n)"
  by (simp add: itoa_def)

text \<open>Reading back a printed number: \<open>Atoi (Itoa n) = n\<close> for every 64-bit \<open>n\<close>.\<close>

lemma atoi_itoa:
  assumes "- (2 ^ 63) \<le> n" and "n < 2 ^ 63"
  shows "atoi (itoa n) = Some n"
proof -
  have all: "list_all is_digit (digits_of m)" for m
    by (auto simp: list_all_iff digits_of_digits)
  have hd: "hd (digits_of m) \<noteq> CHR ''-'' \<and> hd (digits_of m) \<noteq> CHR ''+''" for m
    using digits_of_digits [of "hd (digits_of m)" m] by (auto simp: is_digit_def)
  show ?thesis
  proof (cases "n < 0")
    case True
    then show ?thesis using assms all
      by (simp add: atoi_def parse_int_def itoa_def Let_def digits_val_digits_of)
  next
    case False
    then show ?thesis using assms all hd
      by (simp add: atoi_def parse_int_def itoa_def Let_def digits_val_digits_of)
  qed
qed

end
