(* ===== verification/Score.thy ===== *)
theory Score
  imports GoStrings
begin

text \<open>
  Package \<open>internal/score\<close>, file \<open>score.go\<close>: how a match ended, the sets of a score line, the
  figures counted from them, and the printed form. Theory \<open>ScoreParse\<close> holds the parser.
  Games and points are Go's \<open>int\<close>, modelled as \<open>int\<close>.
\<close>

section \<open>Outcomes and sets\<close>

datatype outcome = Complete | Retired | Walkover | Defaulted | Abandoned | Unknown

fun outcome_string :: "outcome \<Rightarrow> string" where
  "outcome_string Complete = ''complete''"
| "outcome_string Retired = ''retired''"
| "outcome_string Walkover = ''walkover''"
| "outcome_string Defaulted = ''defaulted''"
| "outcome_string Abandoned = ''abandoned''"
| "outcome_string Unknown = ''unknown''"

record tset =
  games_winner :: int
  games_loser :: int
  tiebreak_winner :: int
  tiebreak_loser :: int
  super_tiebreak :: bool

definition has_tiebreak :: "tset \<Rightarrow> bool" where
  "has_tiebreak s \<longleftrightarrow> tiebreak_winner s > 0 \<or> tiebreak_loser s > 0"

definition tiebreak_set :: "tset \<Rightarrow> bool" where
  "tiebreak_set s =
     (if super_tiebreak s then False
      else if has_tiebreak s then True
      else let high = games_winner s; low = games_loser s;
               (high, low) = (if low > high then (low, high) else (high, low))
           in high \<ge> 7 \<and> high - low = 1)"

text \<open>The winning points of a tiebreak of which only the loser's are written: first to seven, by two.\<close>

definition implied_tiebreak_winner :: "int \<Rightarrow> int" where
  "implied_tiebreak_winner loser = (if loser + 2 > 7 then loser + 2 else 7)"

definition set_string :: "tset \<Rightarrow> string" where
  "set_string s =
     (if super_tiebreak s
      then ''['' @ itoa (tiebreak_winner s) @ ''-'' @ itoa (tiebreak_loser s) @ '']''
      else let games = itoa (games_winner s) @ ''-'' @ itoa (games_loser s) in
        if \<not> has_tiebreak s then games
        else if tiebreak_winner s = implied_tiebreak_winner (tiebreak_loser s)
        then games @ ''('' @ itoa (tiebreak_loser s) @ '')''
        else games @ ''('' @ itoa (tiebreak_winner s) @ ''-'' @ itoa (tiebreak_loser s) @ '')'')"

section \<open>Score lines\<close>

record score =
  sets :: "tset list"
  outcome :: outcome
  raw :: string

definition incomplete :: "score \<Rightarrow> bool" where
  "incomplete s \<longleftrightarrow> outcome s \<noteq> Complete"

text \<open>The loop body \<open>SetsWon\<close> and \<open>Tiebreaks\<close> share: a set counts for the side with more games.\<close>

definition count_set :: "tset \<Rightarrow> int \<times> int \<Rightarrow> int \<times> int" where
  "count_set st = (\<lambda>(winner, loser).
     if games_winner st > games_loser st then (winner + 1, loser)
     else if games_loser st > games_winner st then (winner, loser + 1)
     else (winner, loser))"

definition sets_won :: "score \<Rightarrow> int \<times> int" where
  "sets_won s = fold count_set (sets s) (0, 0)"

definition sets_decided :: "score \<Rightarrow> int \<times> int" where
  "sets_decided s =
     fold (\<lambda>st (winner, loser). if super_tiebreak st then (winner + 1, loser) else (winner, loser))
       (sets s) (sets_won s)"

definition games :: "score \<Rightarrow> int \<times> int" where
  "games s =
     fold (\<lambda>st (winner, loser).
         if super_tiebreak st then (winner, loser)
         else (winner + games_winner st, loser + games_loser st))
       (sets s) (0, 0)"

definition tiebreaks :: "score \<Rightarrow> int \<times> int" where
  "tiebreaks s =
     fold (\<lambda>st acc. if \<not> tiebreak_set st then acc else count_set st acc) (sets s) (0, 0)"

definition went_to_decider :: "int \<Rightarrow> score \<Rightarrow> bool" where
  "went_to_decider best_of s =
     (if outcome s \<noteq> Complete \<or> (best_of \<noteq> 3 \<and> best_of \<noteq> 5) then False
      else int (length (sets s)) = best_of)"

fun outcome_suffix :: "outcome \<Rightarrow> string" where
  "outcome_suffix Retired = ''RET''"
| "outcome_suffix Walkover = ''W/O''"
| "outcome_suffix Defaulted = ''DEF''"
| "outcome_suffix Unknown = ''UNK''"
| "outcome_suffix _ = []"

definition score_string :: "score \<Rightarrow> string" where
  "score_string s =
     join (map set_string (sets s) @
           (if outcome_suffix (outcome s) \<noteq> [] then [outcome_suffix (outcome s)] else [])) '' ''"

section \<open>The figures as counts over the sets\<close>

text \<open>
  Each loop is a count of the sets with a property. \<open>won_by_winner\<close> and \<open>won_by_loser\<close> are the
  two arms of its switch.
\<close>

definition won_by_winner :: "tset \<Rightarrow> bool" where
  "won_by_winner st \<longleftrightarrow> games_winner st > games_loser st"

definition won_by_loser :: "tset \<Rightarrow> bool" where
  "won_by_loser st \<longleftrightarrow> games_loser st > games_winner st"

abbreviation count_if :: "('a \<Rightarrow> bool) \<Rightarrow> 'a list \<Rightarrow> int" where
  "count_if p xs \<equiv> int (length (filter p xs))"

lemma fold_count_set:
  "fold (\<lambda>st acc. if p st then count_set st acc else acc) xs (a, b) =
     (a + count_if (\<lambda>st. p st \<and> won_by_winner st) xs, b + count_if (\<lambda>st. p st \<and> won_by_loser st) xs)"
  by (induction xs arbitrary: a b) (auto simp: count_set_def won_by_winner_def won_by_loser_def)

lemma sets_won_counts:
  "sets_won s = (count_if won_by_winner (sets s), count_if won_by_loser (sets s))"
  using fold_count_set [of "\<lambda>_. True" "sets s" 0 0] by (simp add: sets_won_def)

lemma tiebreaks_counts:
  "tiebreaks s = (count_if (\<lambda>st. tiebreak_set st \<and> won_by_winner st) (sets s),
                  count_if (\<lambda>st. tiebreak_set st \<and> won_by_loser st) (sets s))"
proof -
  have "(\<lambda>st acc. if \<not> tiebreak_set st then acc else count_set st acc)
      = (\<lambda>st acc. if tiebreak_set st then count_set st acc else acc)"
    by (auto simp: fun_eq_iff)
  then show ?thesis
    using fold_count_set [of tiebreak_set "sets s" 0 0] by (simp add: tiebreaks_def)
qed

lemma sets_decided_counts:
  "sets_decided s = (fst (sets_won s) + count_if super_tiebreak (sets s), snd (sets_won s))"
proof -
  have "fold (\<lambda>st (winner, loser). if super_tiebreak st then (winner + 1, loser) else (winner, loser))
      xs (a, b) = (a + count_if super_tiebreak xs, b)" for xs :: "tset list" and a b :: int
    by (induction xs arbitrary: a b) auto
  then show ?thesis by (cases "sets_won s") (simp add: sets_decided_def)
qed

lemma games_sums:
  "games s = (\<Sum>st \<leftarrow> filter (\<lambda>st. \<not> super_tiebreak st) (sets s). games_winner st,
              \<Sum>st \<leftarrow> filter (\<lambda>st. \<not> super_tiebreak st) (sets s). games_loser st)"
proof -
  have "fold (\<lambda>st (winner, loser).
         if super_tiebreak st then (winner, loser)
         else (winner + games_winner st, loser + games_loser st)) xs (a, b)
      = (a + (\<Sum>st \<leftarrow> filter (\<lambda>st. \<not> super_tiebreak st) xs. games_winner st),
         b + (\<Sum>st \<leftarrow> filter (\<lambda>st. \<not> super_tiebreak st) xs. games_loser st))" for xs :: "tset list" and a b :: int
    by (induction xs arbitrary: a b) auto
  then show ?thesis by (simp add: games_def)
qed

lemma count_if_disjoint:
  "\<forall>x \<in> set xs. \<not> (p x \<and> q x) \<Longrightarrow> count_if p xs + count_if q xs \<le> int (length xs)"
  by (induction xs) auto

section \<open>Well-formed sets\<close>

text \<open>
  The sets the parser is meant to produce: every number at most 99, and a tiebreak winner above
  that only where it is implied by the loser's points. A match tiebreak has no games.
\<close>

definition number_ok :: "int \<Rightarrow> bool" where
  "number_ok n \<longleftrightarrow> 0 \<le> n \<and> n \<le> 99"

definition wf_set :: "tset \<Rightarrow> bool" where
  "wf_set s \<longleftrightarrow>
     (if super_tiebreak s
      then games_winner s = 0 \<and> games_loser s = 0 \<and>
           number_ok (tiebreak_winner s) \<and> number_ok (tiebreak_loser s)
      else number_ok (games_winner s) \<and> number_ok (games_loser s) \<and> number_ok (tiebreak_loser s) \<and>
           (number_ok (tiebreak_winner s) \<or>
            tiebreak_winner s = implied_tiebreak_winner (tiebreak_loser s)))"

lemma wf_set_tiebreak_nonneg: "wf_set s \<Longrightarrow> 0 \<le> tiebreak_winner s \<and> 0 \<le> tiebreak_loser s"
  by (auto simp: wf_set_def number_ok_def implied_tiebreak_winner_def split: if_splits)

end
