(* ===== verification/ScoreParse.thy ===== *)
theory ScoreParse
  imports Score "HOL-Library.Sublist"
begin

text \<open>
  Package \<open>internal/score\<close>, file \<open>parse.go\<close>: the scanner over one token, the token and line
  parser and the repair of the source's formatting. A \<open>malformed\<close> value is an error wrapping
  \<open>ErrMalformed\<close>, one constructor per message. The scanner keeps a position in its text as the
  code does; \<open>rest\<close> relates it to the text still to be read, and the lemmas on each operation
  are stated over \<open>rest\<close>.
\<close>

section \<open>The scanner\<close>

definition maxGames :: int where
  "maxGames = 99"

datatype malformed =
    ExpectedNumber nat string
  | ImplausibleScore int string
  | ExpectedDash string
  | UnclosedTiebreak string
  | UnexpectedText string string
  | TrailingText string

record scanner =
  src :: string
  pos :: nat
  max_digits :: nat

definition scan_done :: "scanner \<Rightarrow> bool" where
  "scan_done p \<longleftrightarrow> pos p \<ge> length (src p)"

definition at_digit :: "scanner \<Rightarrow> bool" where
  "at_digit p \<longleftrightarrow> \<not> scan_done p \<and> is_digit (src p ! pos p)"

definition peek :: "scanner \<Rightarrow> string" where
  "peek p = (if scan_done p then [] else [src p ! pos p])"

definition accept :: "char \<Rightarrow> scanner \<Rightarrow> bool \<times> scanner" where
  "accept c p =
     (if \<not> scan_done p \<and> src p ! pos p = c then (True, p\<lparr>pos := pos p + 1\<rparr>) else (False, p))"

text \<open>The loop of \<open>int\<close> over the digits, from the position \<open>start\<close>.\<close>

function skip_digits :: "nat \<Rightarrow> scanner \<Rightarrow> scanner" where
  "skip_digits start p =
     (if at_digit p \<and> \<not> (max_digits p > 0 \<and> pos p - start \<ge> max_digits p)
      then skip_digits start (p\<lparr>pos := pos p + 1\<rparr>) else p)"
  by pat_completeness auto
termination
  by (relation "measure (\<lambda>(start, p). length (src p) - pos p)")
    (auto simp: at_digit_def scan_done_def)

declare skip_digits.simps [simp del]

definition scan_value :: "string \<Rightarrow> int" where
  "scan_value s = foldl (\<lambda>n c. wrap64 (n * 10 + digit_val c)) 0 s"

definition scan_int :: "scanner \<Rightarrow> malformed + (int \<times> scanner)" where
  "scan_int p =
     (let start = pos p; q = skip_digits start p
      in if start = pos q then Inl (ExpectedNumber start (src q))
         else let n = scan_value (take (pos q - start) (drop start (src q)))
              in if n > maxGames then Inl (ImplausibleScore n (src q)) else Inr (n, q))"

definition scan_tiebreak :: "scanner \<Rightarrow> malformed + ((int \<times> int) \<times> scanner)" where
  "scan_tiebreak p =
     (case scan_int p of Inl e \<Rightarrow> Inl e | Inr (first, p) \<Rightarrow>
        (case accept CHR ''-'' p of
           (True, p) \<Rightarrow>
             (case scan_int p of Inl e \<Rightarrow> Inl e | Inr (second, p) \<Rightarrow> Inr ((first, second), p))
         | (False, p) \<Rightarrow> Inr ((implied_tiebreak_winner first, first), p)))"

text \<open>The end of \<open>set\<close>: what follows the games, which may be a tiebreak in brackets.\<close>

definition scan_points :: "int \<Rightarrow> int \<Rightarrow> scanner \<Rightarrow> malformed + (tset \<times> scanner)" where
  "scan_points w l p =
     (case accept CHR ''('' p of
        (False, p) \<Rightarrow>
          Inr (\<lparr>games_winner = w, games_loser = l, tiebreak_winner = 0, tiebreak_loser = 0,
                super_tiebreak = False\<rparr>, p)
      | (True, p) \<Rightarrow>
          (case scan_tiebreak p of Inl e \<Rightarrow> Inl e | Inr ((first, second), p) \<Rightarrow>
          (case accept CHR '')'' p of
             (False, p) \<Rightarrow> Inl (UnclosedTiebreak (src p))
           | (True, p) \<Rightarrow>
               Inr (\<lparr>games_winner = w, games_loser = l, tiebreak_winner = first,
                     tiebreak_loser = second, super_tiebreak = False\<rparr>, p))))"

definition scan_set :: "scanner \<Rightarrow> malformed + (tset \<times> scanner)" where
  "scan_set p =
     (case scan_int p of Inl e \<Rightarrow> Inl e | Inr (w, p) \<Rightarrow>
      (case accept CHR ''-'' p of (False, p) \<Rightarrow> Inl (ExpectedDash (src p)) | (True, p) \<Rightarrow>
      (case scan_int p of Inl e \<Rightarrow> Inl e | Inr (l, p) \<Rightarrow> scan_points w l p)))"

section \<open>Progress of the scanner\<close>

definition moved :: "scanner \<Rightarrow> scanner \<Rightarrow> bool" where
  "moved p q \<longleftrightarrow> src q = src p \<and> max_digits q = max_digits p \<and> pos p \<le> pos q"

lemma moved_refl [simp]: "moved p p"
  by (simp add: moved_def)

lemma moved_trans: "moved p q \<Longrightarrow> moved q r \<Longrightarrow> moved p r"
  by (simp add: moved_def)

lemma moved_skip_digits: "moved p (skip_digits st p)"
proof (induction st p rule: skip_digits.induct)
  case (1 st p)
  then show ?case
    by (subst skip_digits.simps) (auto simp: moved_def)
qed

lemma moved_accept: "accept c p = (b, q) \<Longrightarrow> moved p q"
  by (auto simp: accept_def moved_def split: if_splits)

lemma scan_int_moved: "scan_int p = Inr (n, q) \<Longrightarrow> moved p q \<and> pos p < pos q"
  using moved_skip_digits [of p "pos p"]
  by (auto simp: scan_int_def Let_def moved_def split: if_splits)

lemma scan_tiebreak_moved: "scan_tiebreak p = Inr (v, q) \<Longrightarrow> moved p q"
  by (auto simp: scan_tiebreak_def split: sum.splits prod.splits bool.splits
      dest!: scan_int_moved moved_accept intro: moved_trans)

lemma scan_points_moved: "scan_points w l p = Inr (s, q) \<Longrightarrow> moved p q"
  by (auto simp: scan_points_def split: sum.splits prod.splits bool.splits
      dest!: scan_tiebreak_moved moved_accept intro: moved_trans)

lemma scan_set_moved: "scan_set p = Inr (s, q) \<Longrightarrow> moved p q \<and> pos p < pos q"
proof -
  assume a: "scan_set p = Inr (s, q)"
  obtain w p1 where 1: "scan_int p = Inr (w, p1)"
    using a by (auto simp: scan_set_def split: sum.splits)
  have "moved p1 q"
    using a 1 by (auto simp: scan_set_def split: sum.splits prod.splits bool.splits
        dest!: scan_int_moved scan_points_moved moved_accept intro: moved_trans)
  then show ?thesis using scan_int_moved [OF 1] by (auto simp: moved_def)
qed

section \<open>Tokens\<close>

function scan_sets_loop :: "string \<Rightarrow> scanner \<Rightarrow> tset list \<Rightarrow> malformed + tset list" where
  "scan_sets_loop token p acc =
     (case scan_set p of Inl e \<Rightarrow> Inl e | Inr (st, q) \<Rightarrow>
        let acc = acc @ [st] in
        if scan_done q then Inr acc
        else let (dash, r) = accept CHR ''-'' q in
          if \<not> dash \<and> \<not> at_digit r then Inl (UnexpectedText (peek r) token)
          else scan_sets_loop token r acc)"
  by pat_completeness auto
termination
proof (relation "measure (\<lambda>(token, p, acc). length (src p) - pos p)", goal_cases)
  case (2 token p acc a st q acc' x dash r)
  then have "moved p q" and "pos p < pos q" and "\<not> scan_done q" and "moved q r"
    using scan_set_moved [of p st q] moved_accept [of "CHR ''-''" q dash r] by auto
  then show ?case by (auto simp: moved_def scan_done_def)
qed simp

declare scan_sets_loop.simps [simp del]

definition scan_sets :: "string \<Rightarrow> nat \<Rightarrow> malformed + tset list" where
  "scan_sets token maxd = scan_sets_loop token \<lparr>src = token, pos = 0, max_digits = maxd\<rparr> []"

definition parse_super_tiebreak :: "string \<Rightarrow> malformed + tset" where
  "parse_super_tiebreak token =
     (let body = trim_suffix (trim_prefix token ''['') '']'';
          p = \<lparr>src = body, pos = 0, max_digits = 0\<rparr>
      in case scan_int p of Inl e \<Rightarrow> Inl e | Inr (w, p) \<Rightarrow>
        (case accept CHR ''-'' p of (False, p) \<Rightarrow> Inl (ExpectedDash token) | (True, p) \<Rightarrow>
        (case scan_int p of Inl e \<Rightarrow> Inl e | Inr (l, p) \<Rightarrow>
           if \<not> scan_done p then Inl (TrailingText token)
           else Inr \<lparr>games_winner = 0, games_loser = 0, tiebreak_winner = w, tiebreak_loser = l,
                     super_tiebreak = True\<rparr>)))"

text \<open>A token may hold several sets: \<open>6-4-6-2\<close>, or \<open>6-36-3\<close> read with one digit per number.\<close>

definition parse_token :: "string \<Rightarrow> malformed + tset list" where
  "parse_token token =
     (if has_prefix token ''['' then
        (case parse_super_tiebreak token of Inl e \<Rightarrow> Inl e | Inr st \<Rightarrow> Inr [st])
      else if has_suffix token ''-'' then Inr []
      else (case scan_sets token 0 of
              Inr found \<Rightarrow> Inr found
            | Inl err \<Rightarrow>
                (case scan_sets token 1 of Inr retry \<Rightarrow> Inr retry | Inl _ \<Rightarrow> Inl err)))"

definition looks_like_set :: "string \<Rightarrow> bool" where
  "looks_like_set token =
     (if token = [] then False
      else if token ! 0 = CHR ''['' then True
      else is_digit (token ! 0) \<and> contains_sub token ''-'')"

section \<open>Lines\<close>

definition index_fold :: "string \<Rightarrow> string \<Rightarrow> nat option" where
  "index_fold s sub = index_sub (to_lower s) sub"

fun heal_loop :: "string list \<Rightarrow> string list \<Rightarrow> string list" where
  "heal_loop [] out = out"
| "heal_loop (f # fs) out =
     (if has_suffix f ''-'' \<and> fs \<noteq> [] then heal_loop (tl fs) (out @ [f @ hd fs])
      else if has_prefix f ''('' \<and> out \<noteq> [] then heal_loop fs (butlast out @ [last out @ f])
      else heal_loop fs (out @ [f]))"

definition heal_spacing :: "string \<Rightarrow> string" where
  "heal_spacing text = join (heal_loop (str_fields text) []) '' ''"

definition markers :: "(string \<times> outcome) list" where
  "markers = [(''W/O'', Walkover), (''WO'', Walkover), (''RET'', Retired), (''DEF'', Defaulted),
              (''ABD'', Abandoned), (''UNK'', Unknown)]"

text \<open>The prose suffixes: the text is cut at the first of each word found in it.\<close>

definition cut_at :: "string \<Rightarrow> string \<times> outcome \<Rightarrow> string \<times> outcome" where
  "cut_at word = (\<lambda>(text, out).
     case index_fold text word of Some i \<Rightarrow> (take i text, Abandoned) | None \<Rightarrow> (text, out))"

fun strip_markers :: "string list \<Rightarrow> string list \<Rightarrow> outcome \<Rightarrow> string list \<times> outcome" where
  "strip_markers [] kept out = (kept, out)"
| "strip_markers (field # fs) kept out =
     (case map_of markers (to_upper (trim_set field ''.,'')) of
        Some m \<Rightarrow> strip_markers fs kept m
      | None \<Rightarrow>
          if contains_sub field ''?''
          then strip_markers fs kept (if out = Complete then Unknown else out)
          else strip_markers fs (kept @ [field]) out)"

definition normalise_score :: "string \<Rightarrow> string \<times> outcome" where
  "normalise_score raw_text =
     (let start = (trim_space raw_text, Complete);
          (text, out) = fold cut_at [''played and'', ''unfinished'', ''abandoned''] start;
          (kept, out) = strip_markers (str_fields text) [] out
      in (heal_spacing (join kept '' ''), out))"

fun parse_tokens :: "string list \<Rightarrow> tset list \<Rightarrow> bool \<Rightarrow> malformed + (tset list \<times> bool)" where
  "parse_tokens [] acc skipped = Inr (acc, skipped)"
| "parse_tokens (token # ts) acc skipped =
     (if \<not> looks_like_set token then parse_tokens ts acc True
      else case parse_token token of
             Inl e \<Rightarrow> Inl e
           | Inr found \<Rightarrow> parse_tokens ts (acc @ found) (if found = [] then True else skipped))"

definition parse_score :: "string \<Rightarrow> malformed + score" where
  "parse_score raw_text =
     (let (normalised, out) = normalise_score raw_text
      in if normalised = [] then
           Inr \<lparr>sets = [], outcome = (if out = Complete then Unknown else out), raw = raw_text\<rparr>
         else case parse_tokens (str_fields normalised) [] False of
           Inl e \<Rightarrow> Inl e
         | Inr (found, skipped) \<Rightarrow>
             Inr \<lparr>sets = found,
                  outcome = (if out = Complete \<and> (skipped \<or> found = []) then Unknown else out),
                  raw = raw_text\<rparr>)"

end
