(* ===== verification/ScoreFacts.thy ===== *)
theory ScoreFacts
  imports ScoreParse
begin

text \<open>
  What package \<open>score\<close> promises: the scanner's operations over the text still to be read, the
  round trip from a printed score line back to the same sets and outcome, the numbers an accepted
  token can hold, and how the counted figures of a score bound each other.
\<close>

section \<open>The scanner over the remaining text\<close>

definition scan_rest :: "scanner \<Rightarrow> string" where
  "scan_rest p = drop (pos p) (src p)"

definition advance :: "nat \<Rightarrow> scanner \<Rightarrow> scanner" where
  "advance k p = p\<lparr>pos := pos p + k\<rparr>"

lemma advance_simps [simp]:
  "src (advance k p) = src p" "max_digits (advance k p) = max_digits p"
  "pos (advance k p) = pos p + k"
  by (simp_all add: advance_def)

lemma advance_advance [simp]: "advance j (advance k p) = advance (k + j) p"
  by (simp add: advance_def add.assoc)

lemma rest_advance: "scan_rest p = u @ r \<Longrightarrow> scan_rest (advance (length u) p) = r"
  by (simp add: scan_rest_def add.commute flip: drop_drop)

lemma scan_done_rest: "scan_done p \<longleftrightarrow> scan_rest p = []"
  by (simp add: scan_done_def scan_rest_def)

lemma scan_char: "scan_rest p = c # r \<Longrightarrow> \<not> scan_done p \<and> src p ! pos p = c"
  unfolding scan_rest_def scan_done_def
  by (metis drop_eq_Nil hd_drop_conv_nth list.distinct(1) list.sel(1) not_le_imp_less)

lemma at_digit_rest: "at_digit p \<longleftrightarrow> (case scan_rest p of [] \<Rightarrow> False | c # _ \<Rightarrow> is_digit c)"
proof (cases "scan_rest p")
  case Nil
  then show ?thesis by (simp add: at_digit_def scan_done_rest)
next
  case (Cons c r)
  with scan_char [OF this] show ?thesis by (simp add: at_digit_def)
qed

lemma accept_hit: "scan_rest p = c # r \<Longrightarrow> accept c p = (True, advance 1 p)"
  using scan_char [of p c r] by (simp add: accept_def advance_def)

lemma accept_miss:
  "(case scan_rest p of [] \<Rightarrow> True | d # _ \<Rightarrow> d \<noteq> c) \<Longrightarrow> accept c p = (False, p)"
  by (auto simp: accept_def scan_done_rest dest: scan_char split: list.splits)

definition ends_number :: "string \<Rightarrow> bool" where
  "ends_number r \<longleftrightarrow> (case r of [] \<Rightarrow> True | c # _ \<Rightarrow> \<not> is_digit c)"

lemma skip_digits_all:
  assumes "scan_rest p = u @ r" and "list_all is_digit u" and "ends_number r" and "max_digits p = 0"
  shows "skip_digits st p = advance (length u) p"
  using assms
proof (induction u arbitrary: p)
  case Nil
  then have "\<not> at_digit p" by (auto simp: at_digit_rest ends_number_def split: list.splits)
  then show ?case by (subst skip_digits.simps) (simp add: advance_def)
next
  case (Cons c u)
  then have "at_digit p" by (simp add: at_digit_rest)
  moreover have "scan_rest (advance 1 p) = u @ r"
    using rest_advance [of p "[c]" "u @ r"] Cons.prems(1) by simp
  then have "skip_digits st (advance 1 p) = advance (length u) (advance 1 p)"
    using Cons.prems by (intro Cons.IH) simp_all
  ultimately show ?case
    using Cons.prems(4) by (subst skip_digits.simps) (simp add: advance_def)
qed

lemma scan_value_exact:
  "list_all is_digit u \<Longrightarrow> length u \<le> 18 \<Longrightarrow> scan_value u = digits_val u"
proof (induction u rule: rev_induct)
  case (snoc c u)
  then have u: "list_all is_digit u" "length u \<le> 17" and c: "0 \<le> digit_val c" "digit_val c \<le> 9"
    using digit_val_range [of c] by auto
  have "digits_val u < 10 ^ 17"
    using digits_val_bound [OF u(1)] power_increasing [of "length u" 17 "10 :: int"] u(2) by linarith
  moreover have "0 \<le> digits_val u" by (rule digits_val_nonneg [OF u(1)])
  ultimately have "wrap64 (digits_val u * 10 + digit_val c) = digits_val u * 10 + digit_val c"
    using c by (simp add: wrap64_id)
  moreover have "scan_value u = digits_val u" using snoc by simp
  ultimately show ?case by (simp add: scan_value_def digits_val_append)
qed (simp add: scan_value_def digits_val_def)

lemma scan_int_text:
  assumes "scan_rest p = u @ r" and "u \<noteq> []" and "list_all is_digit u" and "ends_number r"
    and "max_digits p = 0" and "scan_value u \<le> 99"
  shows "scan_int p = Inr (scan_value u, advance (length u) p)"
proof -
  have "skip_digits (pos p) p = advance (length u) p"
    using assms by (intro skip_digits_all)
  moreover have "take (length u) (drop (pos p) (src p)) = u"
    using assms(1) by (simp add: scan_rest_def)
  ultimately show ?thesis
    using assms(2,6) by (simp add: scan_int_def Let_def maxGames_def)
qed

lemma scan_int_itoa:
  assumes "scan_rest p = itoa n @ r" and "number_ok n" and "ends_number r" and "max_digits p = 0"
  shows "scan_int p = Inr (n, advance (length (itoa n)) p)"
proof -
  have n: "0 \<le> n" "n \<le> 99" using assms(2) by (simp_all add: number_ok_def)
  let ?u = "digits_of (nat n)"
  have digits: "list_all is_digit ?u" by (auto simp: list_all_iff digits_of_digits)
  moreover have "length ?u \<le> 18" using digits_of_length [of "nat n"] n by linarith
  ultimately have "scan_value ?u = n"
    using n by (simp add: scan_value_exact digits_val_digits_of)
  with n digits show ?thesis
    using scan_int_text [of p ?u r] assms by (simp add: itoa_nonneg)
qed

section \<open>The round trip of one set\<close>

lemma ends_number_simps [simp]:
  "ends_number []" "ends_number (CHR ''-'' # r)" "ends_number (CHR ''('' # r)"
  "ends_number (CHR '')'' # r)" "ends_number (CHR '']'' # r)"
  by (simp_all add: ends_number_def is_digit_def)

lemma scan_tiebreak_points:
  assumes "scan_rest p = itoa w @ ''-'' @ itoa l @ '')'' @ r" and "number_ok w" and "number_ok l"
    and "max_digits p = 0"
  shows "\<exists>k. scan_tiebreak p = Inr ((w, l), advance k p) \<and> scan_rest (advance k p) = '')'' @ r"
proof -
  let ?p1 = "advance (length (itoa w)) p" and ?p2 = "advance (length (itoa w) + 1) p"
  have r1: "scan_rest ?p1 = CHR ''-'' # itoa l @ '')'' @ r"
    using rest_advance [OF assms(1)] by simp
  have r2: "scan_rest ?p2 = itoa l @ '')'' @ r"
    using rest_advance [of ?p1 "''-''" "itoa l @ '')'' @ r"] r1 by simp
  have "scan_int p = Inr (w, ?p1)"
    using assms by (intro scan_int_itoa [where r = "''-'' @ itoa l @ '')'' @ r"]) simp_all
  moreover have "accept CHR ''-'' ?p1 = (True, ?p2)"
    using accept_hit [OF r1] by simp
  moreover have "scan_int ?p2 = Inr (l, advance (length (itoa l)) ?p2)"
    using r2 assms by (intro scan_int_itoa [where r = "'')'' @ r"]) simp_all
  ultimately show ?thesis
    using rest_advance [OF r2] by (auto simp: scan_tiebreak_def)
qed

lemma scan_tiebreak_short:
  assumes "scan_rest p = itoa l @ '')'' @ r" and "number_ok l" and "max_digits p = 0"
  shows "\<exists>k. scan_tiebreak p = Inr ((implied_tiebreak_winner l, l), advance k p) \<and>
             scan_rest (advance k p) = '')'' @ r"
proof -
  let ?p1 = "advance (length (itoa l)) p"
  have r1: "scan_rest ?p1 = '')'' @ r" by (rule rest_advance [OF assms(1)])
  have "scan_int p = Inr (l, ?p1)"
    using assms by (intro scan_int_itoa [where r = "'')'' @ r"]) simp_all
  moreover have "accept CHR ''-'' ?p1 = (False, ?p1)"
    using r1 by (intro accept_miss) simp
  ultimately show ?thesis using r1 by (auto simp: scan_tiebreak_def)
qed

lemma scan_set_games:
  assumes "scan_rest p = itoa w @ ''-'' @ itoa l @ t" and "number_ok w" and "number_ok l"
    and "max_digits p = 0" and "ends_number t"
  shows "\<exists>k. scan_set p = scan_points w l (advance k p) \<and> scan_rest (advance k p) = t"
proof -
  let ?p1 = "advance (length (itoa w)) p" and ?p2 = "advance (length (itoa w) + 1) p"
  let ?q = "advance (length (itoa l)) ?p2"
  have r1: "scan_rest ?p1 = CHR ''-'' # itoa l @ t"
    using rest_advance [OF assms(1)] by simp
  have r2: "scan_rest ?p2 = itoa l @ t"
    using rest_advance [of ?p1 "''-''" "itoa l @ t"] r1 by simp
  have "scan_int p = Inr (w, ?p1)"
    using assms by (intro scan_int_itoa [where r = "''-'' @ itoa l @ t"]) simp_all
  moreover have "accept CHR ''-'' ?p1 = (True, ?p2)" using accept_hit [OF r1] by simp
  moreover have "scan_int ?p2 = Inr (l, ?q)"
    using r2 assms by (intro scan_int_itoa [where r = t]) simp_all
  ultimately have "scan_set p = scan_points w l ?q" by (simp add: scan_set_def)
  then show ?thesis using rest_advance [OF r2] by (metis advance_advance)
qed

lemma scan_points_none:
  "scan_rest p = [] \<Longrightarrow> scan_points w l p =
     Inr (\<lparr>games_winner = w, games_loser = l, tiebreak_winner = 0, tiebreak_loser = 0,
           super_tiebreak = False\<rparr>, p)"
  by (simp add: scan_points_def accept_miss)

lemma scan_points_tiebreak:
  assumes "scan_rest p = ''('' @ t" and
    "\<And>q. scan_rest q = t \<Longrightarrow> max_digits q = 0 \<Longrightarrow>
       \<exists>k. scan_tiebreak q = Inr ((x, y), advance k q) \<and> scan_rest (advance k q) = '')'' @ []"
    and "max_digits p = 0"
  shows "\<exists>q. scan_points w l p =
     Inr (\<lparr>games_winner = w, games_loser = l, tiebreak_winner = x, tiebreak_loser = y,
           super_tiebreak = False\<rparr>, q) \<and> scan_done q"
proof -
  have "scan_rest (advance 1 p) = t" using rest_advance [of p "''(''" t] assms(1) by simp
  then obtain k where k: "scan_tiebreak (advance 1 p) = Inr ((x, y), advance k (advance 1 p))"
    "scan_rest (advance k (advance 1 p)) = '')'' @ []"
    using assms(2) [of "advance 1 p"] assms(3) by auto
  then have "scan_rest (advance 1 (advance k (advance 1 p))) = []"
    using rest_advance [of "advance k (advance 1 p)" "'')''" "[]"] by simp
  with k show ?thesis
    using accept_hit [of p "CHR ''(''" t] accept_hit [of "advance k (advance 1 p)" "CHR '')''" "[]"]
      assms(1) by (auto simp: scan_points_def scan_done_rest)
qed

lemma scan_set_string:
  assumes "wf_set s" and "\<not> super_tiebreak s" and "scan_rest p = set_string s"
    and "max_digits p = 0"
  shows "\<exists>q. scan_set p = Inr (s, q) \<and> scan_done q"
proof -
  obtain w l x y where s: "s = \<lparr>games_winner = w, games_loser = l, tiebreak_winner = x,
      tiebreak_loser = y, super_tiebreak = False\<rparr>"
    using assms(2) by (cases s) auto
  have nums: "number_ok w" "number_ok l" "number_ok y"
    and x: "number_ok x \<or> x = implied_tiebreak_winner y"
    using assms(1) by (auto simp: s wf_set_def)
  consider (none) "\<not> has_tiebreak s" | (short) "has_tiebreak s" "x = implied_tiebreak_winner y"
    | (full) "has_tiebreak s" "x \<noteq> implied_tiebreak_winner y" "number_ok x"
    using x by blast
  then show ?thesis
  proof cases
    case none
    then have "x = 0" "y = 0"
      using wf_set_tiebreak_nonneg [OF assms(1)] by (auto simp: s has_tiebreak_def)
    moreover obtain k where "scan_set p = scan_points w l (advance k p)" "scan_rest (advance k p) = []"
      using scan_set_games [of p w l "[]"] nums assms none by (auto simp: s set_string_def Let_def)
    ultimately show ?thesis by (simp add: scan_points_none s scan_done_rest)
  next
    case short
    then obtain k where "scan_set p = scan_points w l (advance k p)"
      and "scan_rest (advance k p) = ''('' @ itoa y @ '')'' @ []"
      using scan_set_games [of p w l "''('' @ itoa y @ '')'' @ []"] nums assms
      by (auto simp: s set_string_def Let_def)
    then show ?thesis
      using scan_points_tiebreak [of "advance k p" "itoa y @ '')'' @ []" x y w l]
        scan_tiebreak_short [of _ y "[]"] nums assms(4) short(2) by (auto simp: s)
  next
    case full
    then obtain k where "scan_set p = scan_points w l (advance k p)"
      and "scan_rest (advance k p) = ''('' @ itoa x @ ''-'' @ itoa y @ '')'' @ []"
      using scan_set_games [of p w l "''('' @ itoa x @ ''-'' @ itoa y @ '')'' @ []"] nums assms
      by (auto simp: s set_string_def Let_def)
    then show ?thesis
      using scan_points_tiebreak [of "advance k p" "itoa x @ ''-'' @ itoa y @ '')'' @ []" x y w l]
        scan_tiebreak_points [of _ x y "[]"] nums assms(4) full(3) by (auto simp: s)
  qed
qed

section \<open>The round trip of a token\<close>

definition score_char :: "char \<Rightarrow> bool" where
  "score_char c \<longleftrightarrow> is_digit c \<or> c \<in> set ''-()[]''"

lemma itoa_digits: "number_ok n \<Longrightarrow> list_all is_digit (itoa n) \<and> itoa n \<noteq> []"
  by (auto simp: number_ok_def itoa_nonneg list_all_iff digits_of_digits)

lemma itoa_chars: "number_ok n \<Longrightarrow> list_all score_char (itoa n)"
  using itoa_digits [of n] by (auto simp: list_all_iff score_char_def)

lemma set_string_chars: "wf_set s \<Longrightarrow> list_all score_char (set_string s)"
  by (auto simp: set_string_def wf_set_def Let_def itoa_chars split: if_splits)
    (auto simp: score_char_def)

lemma hd_itoa: "number_ok n \<Longrightarrow> hd (itoa n @ r) = hd (itoa n) \<and> is_digit (hd (itoa n))"
  using itoa_digits [of n] by (cases "itoa n") auto

lemma last_itoa: "number_ok n \<Longrightarrow> is_digit (last (itoa n))"
  using itoa_digits [of n] by (auto simp: list_all_iff)

lemma set_string_ends:
  assumes "wf_set s"
  shows "set_string s \<noteq> []"
    and "if super_tiebreak s then hd (set_string s) = CHR ''['' else is_digit (hd (set_string s))"
    and "is_digit (last (set_string s)) \<or> last (set_string s) \<in> set '')]''"
  using assms itoa_digits
  by (auto simp: set_string_def wf_set_def Let_def hd_itoa last_itoa split: if_splits)

lemma dash_in_set_string: "wf_set s \<Longrightarrow> CHR ''-'' \<in> set (set_string s)"
  by (auto simp: set_string_def Let_def)

lemma looks_like_set_string: "wf_set s \<Longrightarrow> looks_like_set (set_string s)"
  using set_string_ends [of s] dash_in_set_string [of s]
  by (auto simp: looks_like_set_def contains_single hd_conv_nth split: if_splits)

lemma scan_sets_string:
  "wf_set s \<Longrightarrow> \<not> super_tiebreak s \<Longrightarrow> scan_sets (set_string s) 0 = Inr [s]"
  using scan_set_string [of s "\<lparr>src = set_string s, pos = 0, max_digits = 0\<rparr>"]
  by (auto simp: scan_sets_def scan_sets_loop.simps scan_rest_def)

lemma parse_super_tiebreak_string:
  assumes "number_ok w" and "number_ok l"
  shows "parse_super_tiebreak (''['' @ itoa w @ ''-'' @ itoa l @ '']'') =
    Inr \<lparr>games_winner = 0, games_loser = 0, tiebreak_winner = w, tiebreak_loser = l,
         super_tiebreak = True\<rparr>"
proof -
  let ?body = "itoa w @ ''-'' @ itoa l"
  let ?p = "\<lparr>src = ?body, pos = 0, max_digits = 0\<rparr>"
  let ?p1 = "advance (length (itoa w)) ?p" and ?p2 = "advance (length (itoa w) + 1) ?p"
  have body: "trim_suffix (trim_prefix (''['' @ itoa w @ ''-'' @ itoa l @ '']'') ''['') '']'' = ?body"
    by (simp add: trim_prefix_def trim_suffix_def has_suffix_single)
  have r0: "scan_rest ?p = itoa w @ ''-'' @ itoa l" by (simp add: scan_rest_def)
  have r1: "scan_rest ?p1 = CHR ''-'' # itoa l" using rest_advance [OF r0] by simp
  have r2: "scan_rest ?p2 = itoa l @ []"
    using rest_advance [of ?p1 "''-''" "itoa l"] r1 by simp
  have "scan_int ?p = Inr (w, ?p1)"
    using assms by (intro scan_int_itoa [where r = "''-'' @ itoa l"]) (simp_all add: scan_rest_def)
  moreover have "accept CHR ''-'' ?p1 = (True, ?p2)" using accept_hit [OF r1] by simp
  moreover have "scan_int ?p2 = Inr (l, advance (length (itoa l)) ?p2)"
    using r2 assms by (intro scan_int_itoa [where r = "[]"]) simp_all
  ultimately show ?thesis
    using rest_advance [OF r2] body
    by (simp add: parse_super_tiebreak_def Let_def scan_done_rest)
qed

lemma parse_token_string: "wf_set s \<Longrightarrow> parse_token (set_string s) = Inr [s]"
proof (cases "super_tiebreak s")
  case True
  assume wf: "wf_set s"
  with True have s: "s = \<lparr>games_winner = 0, games_loser = 0, tiebreak_winner = tiebreak_winner s,
      tiebreak_loser = tiebreak_loser s, super_tiebreak = True\<rparr>"
    and nums: "number_ok (tiebreak_winner s)" "number_ok (tiebreak_loser s)"
    by (auto simp: wf_set_def)
  show ?thesis
    using parse_super_tiebreak_string [OF nums] True
    by (simp add: parse_token_def set_string_def flip: s)
next
  case False
  assume wf: "wf_set s"
  have "\<not> has_prefix (set_string s) ''[''"
    using set_string_ends [OF wf] False
    by (cases "set_string s") (auto simp: is_digit_def)
  moreover have "\<not> has_suffix (set_string s) ''-''"
    using set_string_ends(3) [OF wf] by (auto simp: has_suffix_single is_digit_def)
  ultimately show ?thesis
    using scan_sets_string [OF wf False] by (simp add: parse_token_def)
qed

section \<open>The round trip of a line\<close>

lemma score_char_not_space: "score_char c \<Longrightarrow> \<not> is_space c"
  by (auto simp: score_char_def is_space_def is_digit_def)

lemma score_char_case: "score_char c \<Longrightarrow> upper_char c = c \<and> lower_char c = c"
  by (auto simp: score_char_def upper_char_def lower_char_def is_digit_def)

lemma set_string_word: "wf_set s \<Longrightarrow> word_text (set_string s)"
  using set_string_chars [of s] set_string_ends(1) [of s]
  by (auto simp: word_text_def list_all_iff score_char_not_space)

lemma to_upper_score_chars: "list_all score_char u \<Longrightarrow> to_upper u = u"
  by (induction u) (auto simp: to_upper_def score_char_case)

lemma no_marker: "wf_set s \<Longrightarrow> map_of markers (to_upper (trim_set (set_string s) ''.,'')) = None"
proof -
  assume wf: "wf_set s"
  have "trim_set (set_string s) ''.,'' = set_string s"
    using set_string_chars [OF wf] unfolding trim_set_def
    by (intro trim_by_none) (auto simp: list_all_iff score_char_def is_digit_def)
  moreover have "score_char (hd (set_string s))"
    using set_string_chars [OF wf] set_string_ends(1) [OF wf] by (auto simp: list_all_iff)
  then have "set_string s \<noteq> k" if "hd k \<in> set ''WRDAU''" for k
    using that by (auto simp: score_char_def is_digit_def)
  ultimately show ?thesis
    using to_upper_score_chars [OF set_string_chars [OF wf]] by (simp add: markers_def)
qed

lemma strip_markers_sets:
  "list_all wf_set ss \<Longrightarrow>
     strip_markers (map set_string ss @ ts) kept out = strip_markers ts (kept @ map set_string ss) out"
proof (induction ss arbitrary: kept)
  case (Cons s ss)
  have "\<not> contains_sub (set_string s) ''?''"
    using set_string_chars [of s] Cons.prems
    by (auto simp: contains_single list_all_iff score_char_def is_digit_def)
  with Cons show ?case by (simp add: no_marker)
qed simp

text \<open>The outcomes the printed form carries: every one but \<open>Abandoned\<close>, which prints no suffix.\<close>

lemma strip_markers_suffix:
  "out \<noteq> Abandoned \<Longrightarrow>
     strip_markers (if outcome_suffix out \<noteq> [] then [outcome_suffix out] else []) kept Complete
       = (kept, out)"
  by (cases out) (simp_all add: markers_def trim_set_def trim_by_def to_upper_def upper_char_def)

lemma heal_loop_id:
  "list_all (\<lambda>w. \<not> has_suffix w ''-'' \<and> \<not> has_prefix w ''('') ws \<Longrightarrow> heal_loop ws out = out @ ws"
  by (induction ws arbitrary: out) auto

lemma heal_spacing_sets:
  assumes "list_all wf_set ss"
  shows "heal_spacing (join (map set_string ss) '' '') = join (map set_string ss) '' ''"
proof -
  have "\<not> has_suffix (set_string s) ''-'' \<and> \<not> has_prefix (set_string s) ''(''" if "wf_set s" for s
    using set_string_ends [OF that]
    by (cases "set_string s") (auto simp: has_suffix_single is_digit_def split: if_splits)
  then have "heal_loop (map set_string ss) [] = map set_string ss"
    using assms by (subst heal_loop_id) (auto simp: list_all_iff)
  moreover have "str_fields (join (map set_string ss) '' '') = map set_string ss"
    using assms by (intro str_fields_join) (auto simp: list_all_iff set_string_word)
  ultimately show ?thesis by (simp add: heal_spacing_def)
qed

definition printable :: "score \<Rightarrow> bool" where
  "printable s \<longleftrightarrow> list_all wf_set (sets s) \<and> outcome s \<noteq> Abandoned \<and>
     (outcome s = Complete \<longrightarrow> sets s \<noteq> [])"

definition score_words :: "score \<Rightarrow> string list" where
  "score_words s = map set_string (sets s) @
     (if outcome_suffix (outcome s) \<noteq> [] then [outcome_suffix (outcome s)] else [])"

lemma score_words_text: "printable s \<Longrightarrow> list_all word_text (score_words s)"
proof -
  assume "printable s"
  then have "list_all word_text (map set_string (sets s))"
    by (auto simp: printable_def list_all_iff set_string_word)
  moreover have "outcome_suffix out \<noteq> [] \<Longrightarrow> word_text (outcome_suffix out)" for out
    by (cases out) (simp_all add: word_text_def is_space_def)
  ultimately show ?thesis by (auto simp: score_words_def)
qed

lemma score_words_lower:
  assumes "printable s" and "w \<in> set (score_words s)" and "c \<in> set w"
  shows "lower_char c \<notin> set ''pia''"
proof -
  have "score_char c \<or> c \<in> set ''RETW/ODFUNK''"
    using assms set_string_chars
    by (cases "outcome s") (auto simp: score_words_def printable_def list_all_iff)
  then show ?thesis
    by (auto simp: score_char_def lower_char_def is_digit_def char_of_eq_iff)
qed

lemma word_join_ends:
  "list_all word_text ws \<Longrightarrow> ws \<noteq> [] \<Longrightarrow>
     join ws sep \<noteq> [] \<and> \<not> is_space (hd (join ws sep)) \<and> \<not> is_space (last (join ws sep))"
proof (induction ws sep rule: join.induct)
  case (2 x sep)
  then show ?case by (auto simp: word_text_def list_all_iff)
next
  case (3 x y xs sep)
  then show ?case by (auto simp: word_text_def list_all_iff)
qed simp

lemma score_string_trim: "printable s \<Longrightarrow> trim_space (score_string s) = score_string s"
  unfolding trim_space_def score_string_def score_words_def [symmetric]
  using word_join_ends [OF score_words_text, of s "'' ''"]
  by (cases "score_words s = []") (auto intro!: trim_by_id)

lemma score_string_no_prose:
  assumes "printable s" and "c \<in> set word" and "c \<in> set ''pia''"
  shows "index_fold (score_string s) word = None"
proof -
  have "c \<notin> set (to_lower (score_string s))"
  proof
    assume "c \<in> set (to_lower (score_string s))"
    then obtain d where d: "d \<in> set (score_string s)" "c = lower_char d"
      by (auto simp: to_lower_def)
    have "(\<exists>w \<in> set (score_words s). d \<in> set w) \<or> d = CHR '' ''"
      using d(1) set_join [of "score_words s" "'' ''"]
      by (auto simp: score_string_def score_words_def [symmetric])
    then show False
      using score_words_lower [OF assms(1)] d(2) assms(3) by (auto simp: lower_char_def)
  qed
  then show ?thesis
    using assms(2) by (simp add: index_fold_def index_sub_absent)
qed

lemma normalise_score_string:
  assumes "printable s"
  shows "normalise_score (score_string s) = (join (map set_string (sets s)) '' '', outcome s)"
proof -
  have "fold cut_at [''played and'', ''unfinished'', ''abandoned''] (score_string s, Complete)
      = (score_string s, Complete)"
    using score_string_no_prose [OF assms, of "CHR ''p''" "''played and''"]
      score_string_no_prose [OF assms, of "CHR ''i''" "''unfinished''"]
      score_string_no_prose [OF assms, of "CHR ''a''" "''abandoned''"]
    by (simp add: cut_at_def)
  moreover have "str_fields (score_string s) = score_words s"
    using str_fields_join [OF score_words_text [OF assms]]
    by (simp add: score_string_def score_words_def)
  moreover have "strip_markers (score_words s) [] Complete = (map set_string (sets s), outcome s)"
    using assms by (simp add: score_words_def strip_markers_sets strip_markers_suffix printable_def
        del: strip_markers.simps)
  ultimately show ?thesis
    using assms by (simp add: normalise_score_def Let_def score_string_trim heal_spacing_sets
        printable_def del: fold_simps)
qed

lemma parse_tokens_strings:
  "list_all wf_set ss \<Longrightarrow> parse_tokens (map set_string ss) acc skipped = Inr (acc @ ss, skipped)"
  by (induction ss arbitrary: acc) (simp_all add: looks_like_set_string parse_token_string)

lemma parse_score_string:
  assumes "printable s"
  shows "parse_score (score_string s) = Inr (s\<lparr>raw := score_string s\<rparr>)"
proof -
  have wf: "list_all wf_set (sets s)" using assms by (simp add: printable_def)
  have fields: "str_fields (join (map set_string (sets s)) '' '') = map set_string (sets s)"
    using wf by (intro str_fields_join) (auto simp: list_all_iff set_string_word)
  show ?thesis
  proof (cases "sets s = []")
    case True
    then show ?thesis using assms normalise_score_string [OF assms]
      by (cases s) (auto simp: parse_score_def printable_def)
  next
    case False
    then have "map set_string (sets s) \<noteq> []" by simp
    then have "join (map set_string (sets s)) '' '' \<noteq> []"
      using word_join_ends [of "map set_string (sets s)" "'' ''"] wf
      by (auto simp: list_all_iff set_string_word)
    then show ?thesis using normalise_score_string [OF assms] False fields wf
      by (cases s) (simp add: parse_score_def parse_tokens_strings)
  qed
qed

section \<open>What an accepted token holds\<close>

text \<open>
  The accumulator of \<open>int\<close> is 64 bits wide and only its final value is compared with
  \<open>maxGames\<close>, so the bound needs that no run of digits is longer than 18.
\<close>

definition short_runs :: "string \<Rightarrow> bool" where
  "short_runs s \<longleftrightarrow> (\<forall>u. sublist u s \<longrightarrow> list_all is_digit u \<longrightarrow> length u \<le> 18)"

lemma short_runs_sublist: "short_runs s \<Longrightarrow> sublist t s \<Longrightarrow> short_runs t"
  by (auto simp: short_runs_def intro: sublist_order.order_trans)

lemma short_runs_length: "length s \<le> 18 \<Longrightarrow> short_runs s"
  by (auto simp: short_runs_def dest!: sublist_length_le)

lemma skip_digits_between:
  "skip_digits st p = q \<Longrightarrow> pos p \<le> i \<Longrightarrow> i < pos q \<Longrightarrow> i < length (src p) \<and> is_digit (src p ! i)"
proof (induction st p arbitrary: q rule: skip_digits.induct)
  case (1 st p)
  show ?case
  proof (cases "at_digit p \<and> \<not> (max_digits p > 0 \<and> pos p - st \<ge> max_digits p)")
    case True
    with "1.prems"(1) have "skip_digits st (p\<lparr>pos := pos p + 1\<rparr>) = q"
      by (subst (asm) skip_digits.simps) simp
    with 1 True show ?thesis
      by (cases "i = pos p") (auto simp: at_digit_def scan_done_def)
  next
    case False
    then have "skip_digits st p = p" by (subst skip_digits.simps) auto
    with "1.prems" show ?thesis by simp
  qed
qed

lemma scan_int_ok:
  assumes "scan_int p = Inr (n, q)" and "short_runs (src p)"
  shows "number_ok n"
proof -
  let ?r = "skip_digits (pos p) p"
  let ?u = "take (pos ?r - pos p) (drop (pos p) (src p))"
  have src: "src ?r = src p" using moved_skip_digits by (simp add: moved_def)
  then have n: "n = scan_value ?u" "n \<le> 99"
    using assms(1) by (auto simp: scan_int_def Let_def maxGames_def split: if_splits)
  have "sublist ?u (src p)"
    by (metis append_take_drop_id sublist_appendI sublist_take sublist_drop sublist_order.order_trans)
  moreover have digits: "list_all is_digit ?u"
    using skip_digits_between [of "pos p" p ?r] by (auto simp: list_all_length)
  ultimately have "length ?u \<le> 18" using assms(2) unfolding short_runs_def by blast
  then have "n = digits_val ?u" using n(1) digits by (simp add: scan_value_exact)
  then show ?thesis using n(2) digits_val_nonneg [OF digits] by (simp add: number_ok_def)
qed

lemma scan_tiebreak_ok:
  "scan_tiebreak p = Inr ((x, y), q) \<Longrightarrow> short_runs (src p) \<Longrightarrow>
     number_ok y \<and> (number_ok x \<or> x = implied_tiebreak_winner y)"
  by (auto simp: scan_tiebreak_def split: sum.splits prod.splits bool.splits)
    (metis moved_accept moved_def scan_int_moved scan_int_ok)+

lemma scan_points_ok:
  assumes "scan_points w l p = Inr (s, q)" and "short_runs (src p)" and "number_ok w" and "number_ok l"
  shows "wf_set s"
proof (cases "accept CHR ''('' p")
  case (Pair b p1)
  show ?thesis
  proof (cases b)
    case True
    have "src p1 = src p" using moved_accept [OF Pair] by (simp add: moved_def)
    moreover obtain x y p2 where 2: "scan_tiebreak p1 = Inr ((x, y), p2)"
      using assms(1) Pair True by (auto simp: scan_points_def split: sum.splits)
    ultimately have "number_ok y \<and> (number_ok x \<or> x = implied_tiebreak_winner y)"
      using scan_tiebreak_ok [OF 2] assms(2) by simp
    then show ?thesis
      using assms Pair True 2 by (auto simp: scan_points_def wf_set_def split: prod.splits bool.splits)
  next
    case False
    then show ?thesis
      using assms Pair by (auto simp: scan_points_def wf_set_def number_ok_def)
  qed
qed

lemma scan_set_ok:
  assumes "scan_set p = Inr (s, q)" and "short_runs (src p)"
  shows "wf_set s"
proof -
  obtain w p1 where 1: "scan_int p = Inr (w, p1)"
    using assms(1) by (auto simp: scan_set_def split: sum.splits)
  obtain p2 where 2: "accept CHR ''-'' p1 = (True, p2)"
    using assms(1) 1 by (auto simp: scan_set_def split: prod.splits bool.splits)
  obtain l p3 where 3: "scan_int p2 = Inr (l, p3)" and 4: "scan_points w l p3 = Inr (s, q)"
    using assms(1) 1 2 by (auto simp: scan_set_def split: sum.splits)
  have "src p2 = src p" and "src p3 = src p"
    using scan_int_moved [OF 1] moved_accept [OF 2] scan_int_moved [OF 3] by (auto simp: moved_def)
  then show ?thesis
    using scan_int_ok [OF 1] scan_int_ok [OF 3] scan_points_ok [OF 4] assms(2) by simp
qed

lemma scan_sets_loop_ok:
  "scan_sets_loop token p acc = Inr ss \<Longrightarrow> short_runs (src p) \<Longrightarrow> list_all wf_set acc \<Longrightarrow>
     list_all wf_set ss"
proof (induction token p acc arbitrary: ss rule: scan_sets_loop.induct)
  case (1 token p acc)
  obtain s q where s: "scan_set p = Inr (s, q)"
    using "1.prems"(1) by (subst (asm) scan_sets_loop.simps) (auto split: sum.splits)
  then have ok: "wf_set s" and "src q = src p"
    using scan_set_ok "1.prems"(2) scan_set_moved [OF s] by (auto simp: moved_def)
  show ?case
  proof (cases "scan_done q")
    case True
    then show ?thesis
      using "1.prems" s ok by (subst (asm) scan_sets_loop.simps) auto
  next
    case False
    obtain d r where r: "accept CHR ''-'' q = (d, r)" by fastforce
    then have "src r = src p" using moved_accept [OF r] \<open>src q = src p\<close> by (simp add: moved_def)
    moreover have "scan_sets_loop token r (acc @ [s]) = Inr ss"
      using "1.prems"(1) s r False
      by (subst (asm) scan_sets_loop.simps) (auto simp: Let_def split: if_splits)
    moreover have "d \<or> at_digit r"
      using "1.prems"(1) s r False
      by (subst (asm) scan_sets_loop.simps) (auto simp: Let_def split: if_splits)
    ultimately show ?thesis
      using "1.IH" [OF s refl refl False refl r [symmetric]] "1.prems"(2,3) ok
      by (auto simp: list_all_append)
  qed
qed

lemma sublist_trims: "sublist (trim_suffix (trim_prefix s p) q) s"
  unfolding trim_suffix_def trim_prefix_def
  by (auto intro: sublist_order.order_trans sublist_take sublist_drop)

lemma parse_super_tiebreak_ok:
  assumes "parse_super_tiebreak token = Inr s" and "short_runs token"
  shows "wf_set s"
proof -
  let ?p = "\<lparr>src = trim_suffix (trim_prefix token ''['') '']'', pos = 0, max_digits = 0\<rparr>"
  obtain w p1 where 1: "scan_int ?p = Inr (w, p1)"
    using assms(1) by (auto simp: parse_super_tiebreak_def Let_def split: sum.splits)
  obtain p2 where 2: "accept CHR ''-'' p1 = (True, p2)"
    using assms(1) 1 by (auto simp: parse_super_tiebreak_def Let_def split: prod.splits bool.splits)
  obtain l p3 where 3: "scan_int p2 = Inr (l, p3)"
    using assms(1) 1 2 by (auto simp: parse_super_tiebreak_def Let_def split: sum.splits)
  have "src p2 = src ?p" using scan_int_moved [OF 1] moved_accept [OF 2] by (simp add: moved_def)
  moreover have "short_runs (src ?p)"
    using short_runs_sublist [OF assms(2) sublist_trims] by simp
  ultimately have "number_ok w" and "number_ok l"
    using scan_int_ok [OF 1] scan_int_ok [OF 3] by simp_all
  then show ?thesis
    using assms(1) 1 2 3
    by (auto simp: parse_super_tiebreak_def Let_def wf_set_def split: if_splits)
qed

lemma parse_token_ok:
  "parse_token t = Inr ss \<Longrightarrow> short_runs t \<Longrightarrow> list_all wf_set ss"
  by (auto simp: parse_token_def scan_sets_def parse_super_tiebreak_ok
      split: if_splits sum.splits dest!: scan_sets_loop_ok)

lemma parse_tokens_ok:
  "parse_tokens ts acc skipped = Inr (ss, k) \<Longrightarrow> list_all short_runs ts \<Longrightarrow> list_all wf_set acc \<Longrightarrow>
     list_all wf_set ss"
  by (induction ts acc skipped rule: parse_tokens.induct)
    (auto split: if_splits sum.splits dest: parse_token_ok)

definition score_tokens :: "string \<Rightarrow> string list" where
  "score_tokens raw_text = str_fields (fst (normalise_score raw_text))"

lemma parse_score_wf:
  "parse_score raw_text = Inr s \<Longrightarrow> list_all short_runs (score_tokens raw_text) \<Longrightarrow>
     list_all wf_set (sets s)"
  by (auto simp: parse_score_def score_tokens_def Let_def split: prod.splits if_splits sum.splits
      dest!: parse_tokens_ok)

lemma parse_score_complete: "parse_score raw_text = Inr s \<Longrightarrow> outcome s = Complete \<Longrightarrow> sets s \<noteq> []"
  by (auto simp: parse_score_def Let_def split: prod.splits if_splits sum.splits)

section \<open>Properties\<close>

text \<open>
  The outcome that is read back from a printed score. \<open>String\<close> has no suffix for an abandoned match or a complete
  one, so these two print alike, and a line without sets and without a suffix is empty.
\<close>

definition printed_outcome :: "score \<Rightarrow> outcome" where
  "printed_outcome s =
     (if outcome s \<noteq> Complete \<and> outcome s \<noteq> Abandoned then outcome s
      else if sets s = [] then Unknown else Complete)"

lemma parse_printed:
  assumes "list_all wf_set (sets s)"
  shows "parse_score (score_string s) = Inr (s\<lparr>outcome := printed_outcome s, raw := score_string s\<rparr>)"
proof (cases "outcome s = Complete \<or> outcome s = Abandoned")
  case False
  then have "printable s" "s\<lparr>outcome := printed_outcome s\<rparr> = s" using assms by (simp_all add: printable_def printed_outcome_def)
  then show ?thesis using parse_score_string [of s] by simp
next
  case True
  show ?thesis
  proof (cases "sets s = []")
    case empty: True
    then have "score_string s = []" using True by (auto simp: score_string_def)
    moreover have "normalise_score [] = ([], Complete)" by code_simp
    ultimately show ?thesis using empty True by (cases s) (auto simp: parse_score_def printed_outcome_def)
  next
    case False
    let ?s = "s\<lparr>outcome := Complete\<rparr>"
    have p: "printable ?s" using assms False by (simp add: printable_def)
    have "score_string ?s = score_string s" using True by (auto simp: score_string_def)
    then show ?thesis using parse_score_string [OF p] True False by (auto simp: printed_outcome_def)
  qed
qed

text \<open>
  C1: Printing a score whose sets are well formed and parsing it again gives the same sets, tiebreak points in the
  short and the long form and match tiebreaks included, and the same outcome for a retirement, a walkover, a default,
  an unknown outcome and a complete match with a set. \<open>Abandoned\<close> has no printed form: it comes back as
  \<open>Complete\<close>. Without sets both come back as \<open>Unknown\<close>.
\<close>

theorem score_roundtrip:
  assumes "list_all wf_set (sets s)"
  shows "parse_score (score_string s) = Inr (s\<lparr>outcome := printed_outcome s, raw := score_string s\<rparr>)"
  by (rule parse_printed [OF assms])

theorem score_roundtrip_witness:
  "parse_score ''7-6(5) 6-7(8-10) [10-7] RET'' =
     Inr \<lparr>sets =
        [\<lparr>games_winner = 7, games_loser = 6, tiebreak_winner = 7, tiebreak_loser = 5,
          super_tiebreak = False\<rparr>,
         \<lparr>games_winner = 6, games_loser = 7, tiebreak_winner = 8, tiebreak_loser = 10,
          super_tiebreak = False\<rparr>,
         \<lparr>games_winner = 0, games_loser = 0, tiebreak_winner = 10, tiebreak_loser = 7,
          super_tiebreak = True\<rparr>],
       outcome = Retired, raw = ''7-6(5) 6-7(8-10) [10-7] RET''\<rparr>"
proof -
  let ?s = "\<lparr>sets =
        [\<lparr>games_winner = 7, games_loser = 6, tiebreak_winner = 7, tiebreak_loser = 5,
          super_tiebreak = False\<rparr>,
         \<lparr>games_winner = 6, games_loser = 7, tiebreak_winner = 8, tiebreak_loser = 10,
          super_tiebreak = False\<rparr>,
         \<lparr>games_winner = 0, games_loser = 0, tiebreak_winner = 10, tiebreak_loser = 7,
          super_tiebreak = True\<rparr>],
       outcome = Retired, raw = []\<rparr>"
  have "list_all wf_set (sets ?s)" by (simp add: wf_set_def number_ok_def)
  moreover have "score_string ?s = ''7-6(5) 6-7(8-10) [10-7] RET''" by code_simp
  ultimately show ?thesis using score_roundtrip [of ?s] by (simp add: printed_outcome_def)
qed

text \<open>An abandoned match is printed as if it were complete.\<close>

lemma abandoned_reprints_complete:
  "(case parse_score ''2-2 Played and abandoned'' of Inl _ \<Rightarrow> None
    | Inr s \<Rightarrow> Some (outcome s, score_string s, case parse_score (score_string s) of Inl _ \<Rightarrow> None | Inr t \<Rightarrow> Some (outcome t)))
   = Some (Abandoned, ''2-2'', Some Complete)"
  by code_simp

text \<open>
  C40: Whatever source text without a run of more than 18 digits the parser accepts, its result is stable. Every
  number in a set is from 0 to 99, but for the winner's points that a short tiebreak implies, which are two more than
  the loser's and so at most 101. Printing the result and parsing it again gives the same sets and the same outcome;
  only \<open>Abandoned\<close>, which is not printed, becomes \<open>Complete\<close>, or \<open>Unknown\<close> where no set was read. A second
  round changes nothing at all.
\<close>

theorem parse_result_stable:
  assumes "parse_score text = Inr s" and "list_all short_runs (score_tokens text)"
  shows "list_all wf_set (sets s)
    \<and> parse_score (score_string s) = Inr (s\<lparr>outcome := (if outcome s = Abandoned then if sets s = [] then Unknown else Complete
        else outcome s), raw := score_string s\<rparr>)
    \<and> (\<forall>t. parse_score (score_string s) = Inr t \<longrightarrow> parse_score (score_string t) = Inr (t\<lparr>raw := score_string t\<rparr>))"
proof -
  have wf: "list_all wf_set (sets s)" by (rule parse_score_wf [OF assms])
  have out: "printed_outcome s = (if outcome s = Abandoned then if sets s = [] then Unknown else Complete else outcome s)"
    using parse_score_complete [OF assms(1)] by (simp add: printed_outcome_def)
  have again: "parse_score (score_string t) = Inr (t\<lparr>raw := score_string t\<rparr>)"
    if t: "t = s\<lparr>outcome := printed_outcome s, raw := score_string s\<rparr>" for t
  proof -
    have "printed_outcome t = outcome t" "sets t = sets s" using t by (auto simp: printed_outcome_def)
    then show ?thesis using parse_printed [of t] wf by simp
  qed
  show ?thesis using wf parse_printed [OF wf] again unfolding out by simp
qed

theorem parse_result_stable_witness:
  "parse_score ''6- 3 3-6 7-6 (5)'' =
     Inr \<lparr>sets =
        [\<lparr>games_winner = 6, games_loser = 3, tiebreak_winner = 0, tiebreak_loser = 0,
          super_tiebreak = False\<rparr>,
         \<lparr>games_winner = 3, games_loser = 6, tiebreak_winner = 0, tiebreak_loser = 0,
          super_tiebreak = False\<rparr>,
         \<lparr>games_winner = 7, games_loser = 6, tiebreak_winner = 7, tiebreak_loser = 5,
          super_tiebreak = False\<rparr>],
       outcome = Complete, raw = ''6- 3 3-6 7-6 (5)''\<rparr> \<and>
   (\<exists>s. parse_score ''6-3 3-6 7-6(5)'' = Inr s \<and> list_all wf_set (sets s))"
proof -
  let ?t = "''6- 3 3-6 7-6 (5)''"
  let ?s = "\<lparr>sets =
        [\<lparr>games_winner = 6, games_loser = 3, tiebreak_winner = 0, tiebreak_loser = 0,
          super_tiebreak = False\<rparr>,
         \<lparr>games_winner = 3, games_loser = 6, tiebreak_winner = 0, tiebreak_loser = 0,
          super_tiebreak = False\<rparr>,
         \<lparr>games_winner = 7, games_loser = 6, tiebreak_winner = 7, tiebreak_loser = 5,
          super_tiebreak = False\<rparr>],
       outcome = Complete, raw = ?t\<rparr>"
  have p: "parse_score ?t = Inr ?s" by code_simp
  have "score_tokens ?t = [''6-3'', ''3-6'', ''7-6(5)'']" by code_simp
  then have "list_all short_runs (score_tokens ?t)" by (simp add: short_runs_length)
  moreover have "score_string ?s = ''6-3 3-6 7-6(5)''" by code_simp
  ultimately show ?thesis using parse_result_stable [OF p] p by (auto simp: wf_set_def)
qed

text \<open>
  The guard against implausible scores can be passed by a corrupt row. \<open>int\<close> accumulates in 64
  bits and compares only the wrapped value with \<open>maxGames\<close>, so 18446744073709551616 (\<open>2^64\<close>) reads
  as 0 and 18446744073709551615 as -1, and the line is accepted as a complete match.
\<close>

theorem parse_wraps_long_numbers:
  "parse_score ''18446744073709551616-6 6-18446744073709551615'' =
     Inr \<lparr>sets =
        [\<lparr>games_winner = 0, games_loser = 6, tiebreak_winner = 0, tiebreak_loser = 0,
          super_tiebreak = False\<rparr>,
         \<lparr>games_winner = 6, games_loser = -1, tiebreak_winner = 0, tiebreak_loser = 0,
          super_tiebreak = False\<rparr>],
       outcome = Complete, raw = ''18446744073709551616-6 6-18446744073709551615''\<rparr>"
  by code_simp

text \<open>
  The figures of a score bound each other. Each side's tiebreaks are among the sets it won, the
  sets won are at most the sets played, and a match tiebreak adds one set to the winner's decided
  sets and none to the loser's, so that for well-formed sets the decided sets are at most the sets
  played as well.
\<close>

theorem score_figures_bounded:
  "fst (tiebreaks s) \<le> fst (sets_won s) \<and> snd (tiebreaks s) \<le> snd (sets_won s) \<and>
   fst (sets_won s) + snd (sets_won s) \<le> int (length (sets s)) \<and>
   snd (sets_decided s) = snd (sets_won s) \<and>
   fst (sets_decided s) = fst (sets_won s) + count_if super_tiebreak (sets s) \<and>
   (list_all wf_set (sets s) \<longrightarrow>
      fst (sets_decided s) + snd (sets_decided s) \<le> int (length (sets s)))"
proof -
  have sub: "count_if (\<lambda>st. tiebreak_set st \<and> p st) xs \<le> count_if p xs" for p and xs :: "tset list"
    by (induction xs) auto
  have won: "count_if won_by_winner xs + count_if won_by_loser xs \<le> int (length xs)"
    for xs :: "tset list"
    by (rule count_if_disjoint) (simp add: won_by_winner_def won_by_loser_def)
  have decided: "list_all wf_set xs \<Longrightarrow> count_if won_by_winner xs + count_if super_tiebreak xs
      + count_if won_by_loser xs \<le> int (length xs)" for xs
    by (induction xs) (auto simp: won_by_winner_def won_by_loser_def wf_set_def)
  show ?thesis
    using sub won [of "sets s"] decided [of "sets s"]
    by (simp add: tiebreaks_counts sets_won_counts sets_decided_counts)
qed

theorem score_figures_bounded_witness:
  "fst (sets_decided \<lparr>sets = [\<lparr>games_winner = 6, games_loser = 3, tiebreak_winner = 0,
      tiebreak_loser = 0, super_tiebreak = False\<rparr>], outcome = Complete, raw = []\<rparr>) \<le> 1"
proof -
  let ?s = "\<lparr>sets = [\<lparr>games_winner = 6, games_loser = 3, tiebreak_winner = 0,
      tiebreak_loser = 0, super_tiebreak = False\<rparr>], outcome = Complete, raw = []\<rparr>"
  have "list_all wf_set (sets ?s)" by (simp add: wf_set_def number_ok_def)
  moreover have "0 \<le> snd (sets_decided ?s)" by (simp add: sets_decided_counts sets_won_counts)
  ultimately show ?thesis using score_figures_bounded [of ?s] by simp
qed

end
