(* ===== verification/Name.thy ===== *)
theory Name
  imports GoStrings
begin

text \<open>
  Package \<open>internal/name\<close>: the folding of player names to ASCII that slugs and searches share.
  A name is a list of code points (a Go \<open>rune\<close> is a number), what \<open>range\<close> over the string
  yields. The functions of package \<open>unicode\<close> are written out where their value can reach the
  result; which code points above 127 count as letters or digits is the table of that package and
  is the parameter \<open>ul\<close>: such a code point is either dropped or reads as a separator. Every
  property below holds for any table.
\<close>

type_synonym rune = nat

type_synonym gotext = "rune list"

section \<open>Runes\<close>

definition space_rune :: "rune \<Rightarrow> bool" where
  "space_rune r \<longleftrightarrow> (9 \<le> r \<and> r \<le> 13) \<or> r \<in> {32, 0x85, 0xA0, 0x1680} \<or>
     (0x2000 \<le> r \<and> r \<le> 0x200A) \<or> r \<in> {0x2028, 0x2029, 0x202F, 0x205F, 0x3000}"

definition ascii_alnum :: "rune \<Rightarrow> bool" where
  "ascii_alnum r \<longleftrightarrow> (48 \<le> r \<and> r \<le> 57) \<or> (65 \<le> r \<and> r \<le> 90) \<or> (97 \<le> r \<and> r \<le> 122)"

text \<open>
  \<open>strings.ToLower\<close>, rune by rune: exact wherever its value is ASCII or one of the letters \<open>fold\<close>
  knows. Every other code point with a lower case is a letter before and after, or neither before
  nor after, and is left as it is.
\<close>

definition lower_rune :: "rune \<Rightarrow> rune" where
  "lower_rune r =
     (if 65 \<le> r \<and> r \<le> 90 then r + 32
      else if 0xC0 \<le> r \<and> r \<le> 0xDE \<and> r \<noteq> 0xD7 then r + 32
      else if r = 0x130 then 105
      else if (0x100 \<le> r \<and> r \<le> 0x136 \<and> even r) \<or> (0x139 \<le> r \<and> r \<le> 0x147 \<and> odd r) \<or>
              (0x14A \<le> r \<and> r \<le> 0x176 \<and> even r) \<or> (0x179 \<le> r \<and> r \<le> 0x17D \<and> odd r) \<or>
              r \<in> {0x218, 0x21A} then r + 1
      else if r = 0x178 then 0xFF
      else if r = 0x1E9E then 0xDF
      else if r = 0x212A then 107
      else if r = 0x212B then 0xE5
      else r)"

definition trim_text :: "gotext \<Rightarrow> gotext" where
  "trim_text t = rev (dropWhile space_rune (rev (dropWhile space_rune t)))"

text \<open>The letters of the switch in \<open>fold\<close>, in its order.\<close>

definition fold_table :: "(rune list \<times> string) list" where
  "fold_table =
    [([0xE1, 0xE0, 0xE2, 0xE4, 0xE3, 0xE5, 0x101, 0x103, 0x105], ''a''),
     ([0xE6], ''ae''),
     ([0xE7, 0x107, 0x10D, 0x109], ''c''),
     ([0x10F, 0x111], ''d''),
     ([0xE9, 0xE8, 0xEA, 0xEB, 0x113, 0x115, 0x117, 0x119, 0x11B], ''e''),
     ([0x11F, 0x123], ''g''),
     ([0x127], ''h''),
     ([0xED, 0xEC, 0xEE, 0xEF, 0x12B, 0x12F, 0x131], ''i''),
     ([0x13A, 0x13E, 0x142], ''l''),
     ([0xF1, 0x144, 0x148], ''n''),
     ([0xF3, 0xF2, 0xF4, 0xF6, 0xF5, 0xF8, 0x14D, 0x151], ''o''),
     ([0x153], ''oe''),
     ([0x155, 0x159], ''r''),
     ([0x15B, 0x161, 0x15F, 0x219], ''s''),
     ([0xDF], ''ss''),
     ([0x165, 0x163, 0x21B], ''t''),
     ([0xFA, 0xF9, 0xFB, 0xFC, 0x16B, 0x16F, 0x171, 0x173], ''u''),
     ([0xFD, 0xFF], ''y''),
     ([0x17A, 0x17E, 0x17C], ''z'')]"

definition fold_rune :: "rune \<Rightarrow> string" where
  "fold_rune r =
     (case find (\<lambda>(runes, _). r \<in> set runes) fold_table of Some (_, s) \<Rightarrow> s | None \<Rightarrow> [])"

section \<open>Conversion\<close>

text \<open>
  The loop of \<open>convert\<close> over the runes, with the text built so far and \<open>lastSep\<close>. \<open>ul\<close> is the
  letter-or-digit table above ASCII.
\<close>

fun convert_loop :: "(rune \<Rightarrow> bool) \<Rightarrow> char \<Rightarrow> gotext \<Rightarrow> string \<Rightarrow> bool \<Rightarrow> string" where
  "convert_loop ul sep [] b last_sep = b"
| "convert_loop ul sep (r # rs) b last_sep =
     (if r < 127 \<and> ascii_alnum r then convert_loop ul sep rs (b @ [char_of r]) False
      else if fold_rune r \<noteq> [] then convert_loop ul sep rs (b @ fold_rune r) False
      else if ascii_alnum r \<or> (127 < r \<and> ul r) then convert_loop ul sep rs b last_sep
      else if \<not> last_sep then convert_loop ul sep rs (b @ [sep]) True
      else convert_loop ul sep rs b last_sep)"

definition convert :: "(rune \<Rightarrow> bool) \<Rightarrow> char \<Rightarrow> gotext \<Rightarrow> string" where
  "convert ul sep t =
     trim_set (convert_loop ul sep (map lower_rune (trim_text t)) [] True) [sep]"

definition slug :: "(rune \<Rightarrow> bool) \<Rightarrow> gotext \<Rightarrow> string" where
  "slug ul t = convert ul CHR ''-'' t"

definition normalise :: "(rune \<Rightarrow> bool) \<Rightarrow> gotext \<Rightarrow> string" where
  "normalise ul t = convert ul CHR '' '' t"

text \<open>An ASCII string as text.\<close>

definition text_of :: "string \<Rightarrow> gotext" where
  "text_of s = map of_char s"

section \<open>What the loop writes\<close>

definition slug_char :: "char \<Rightarrow> bool" where
  "slug_char c \<longleftrightarrow> is_digit c \<or> (97 \<le> (of_char c :: nat) \<and> (of_char c :: nat) \<le> 122)"

lemma fold_rune_chars: "list_all slug_char (fold_rune r)"
proof -
  have "list_all (\<lambda>(_, s). list_all slug_char s) fold_table"
    by (simp add: fold_table_def slug_char_def)
  moreover have "x \<in> set fold_table" if "find P fold_table = Some x" for P x
    using that by (auto simp: find_Some_iff)
  ultimately show ?thesis
    by (cases "find (\<lambda>(runes, _). r \<in> set runes) fold_table")
      (force simp: fold_rune_def list_all_iff)+
qed

lemma lower_rune_high: "128 \<le> r \<Longrightarrow> 90 < lower_rune r"
  by (simp add: lower_rune_def)

lemma lower_rune_low: "r < 128 \<Longrightarrow> lower_rune r = (if 65 \<le> r \<and> r \<le> 90 then r + 32 else r)"
  by (simp add: lower_rune_def)

lemma lower_rune_alnum:
  assumes "ascii_alnum (lower_rune r)"
  shows "(48 \<le> lower_rune r \<and> lower_rune r \<le> 57) \<or> (97 \<le> lower_rune r \<and> lower_rune r \<le> 122)"
proof -
  have "\<not> (65 \<le> lower_rune r \<and> lower_rune r \<le> 90)"
    using lower_rune_high [of r] lower_rune_low [of r] by (cases "r < 128") auto
  then show ?thesis using assms by (auto simp: ascii_alnum_def)
qed

text \<open>
  The text written so far: slug characters and single separators, the first of them not a
  separator, and its last one a separator exactly when \<open>last_sep\<close> says so and something was
  written.
\<close>

definition no_double :: "char \<Rightarrow> string \<Rightarrow> bool" where
  "no_double sep b \<longleftrightarrow> (\<forall>u v. b \<noteq> u @ [sep, sep] @ v)"

definition loop_inv :: "char \<Rightarrow> string \<Rightarrow> bool \<Rightarrow> bool" where
  "loop_inv sep b last_sep \<longleftrightarrow>
     list_all (\<lambda>c. slug_char c \<or> c = sep) b \<and> (b \<noteq> [] \<longrightarrow> hd b \<noteq> sep) \<and> no_double sep b \<and>
     (last_sep \<longleftrightarrow> b = [] \<or> last b = sep)"

lemma no_double_Nil [simp]: "no_double sep []"
  by (simp add: no_double_def)

lemma no_double_snoc:
  "no_double sep (b @ [c]) \<longleftrightarrow> no_double sep b \<and> \<not> (c = sep \<and> b \<noteq> [] \<and> last b = sep)"
proof
  assume l: "no_double sep (b @ [c])"
  have "no_double sep b"
    unfolding no_double_def using l unfolding no_double_def by (metis append.assoc)
  moreover have "\<not> (c = sep \<and> b \<noteq> [] \<and> last b = sep)"
  proof
    assume "c = sep \<and> b \<noteq> [] \<and> last b = sep"
    then have "b @ [c] = butlast b @ [sep, sep] @ []"
      by (metis append.assoc append_Cons append_Nil append_butlast_last_id)
    then show False using l unfolding no_double_def by blast
  qed
  ultimately show "no_double sep b \<and> \<not> (c = sep \<and> b \<noteq> [] \<and> last b = sep)" ..
next
  assume r: "no_double sep b \<and> \<not> (c = sep \<and> b \<noteq> [] \<and> last b = sep)"
  show "no_double sep (b @ [c])"
    unfolding no_double_def
  proof (intro allI notI)
    fix u v assume eq: "b @ [c] = u @ [sep, sep] @ v"
    show False
    proof (cases v rule: rev_cases)
      case Nil
      then have "b = u @ [sep]" and "c = sep"
        using eq by (metis append_Nil2 append.assoc append_Cons append_Nil append1_eq_conv)+
      then show False using r by simp
    next
      case (snoc v' x)
      then have "b = u @ [sep, sep] @ v'" using eq by simp
      then show False using r unfolding no_double_def by blast
    qed
  qed
qed

lemma loop_inv_chars:
  "loop_inv sep b ls \<Longrightarrow> list_all slug_char w \<Longrightarrow> w \<noteq> [] \<Longrightarrow> \<not> slug_char sep \<Longrightarrow>
     loop_inv sep (b @ w) False"
proof (induction w arbitrary: b ls)
  case (Cons c w)
  have "c \<noteq> sep" using Cons.prems by auto
  then have one: "loop_inv sep (b @ [c]) False"
    using Cons.prems by (auto simp: loop_inv_def no_double_snoc hd_append split: if_splits)
  show ?case
  proof (cases "w = []")
    case True
    with one show ?thesis by simp
  next
    case False
    then show ?thesis using Cons.IH [OF one] Cons.prems by simp
  qed
qed simp

lemma convert_loop_inv:
  assumes "loop_inv sep b ls" and "\<forall>r \<in> set rs. \<exists>q. r = lower_rune q" and "\<not> slug_char sep"
  shows "\<exists>ls'. loop_inv sep (convert_loop ul sep rs b ls) ls'"
  using assms
proof (induction ul sep rs b ls rule: convert_loop.induct)
  case (2 ul sep r rs b ls)
  obtain q where q: "r = lower_rune q" using "2.prems"(2) by auto
  consider (ascii) "r < 127 \<and> ascii_alnum r" | (fold) "\<not> (r < 127 \<and> ascii_alnum r)" "fold_rune r \<noteq> []"
    | (drop) "\<not> (r < 127 \<and> ascii_alnum r)" "fold_rune r = []" "ascii_alnum r \<or> (127 < r \<and> ul r)"
    | (sep) "\<not> (r < 127 \<and> ascii_alnum r)" "fold_rune r = []" "\<not> (ascii_alnum r \<or> (127 < r \<and> ul r))"
    by blast
  then show ?case
  proof cases
    case ascii
    then have "slug_char (char_of r)"
      using lower_rune_alnum [of q] q by (auto simp: slug_char_def is_digit_def of_char_of)
    then have "loop_inv sep (b @ [char_of r]) False"
      using "2.prems" loop_inv_chars [of sep b ls "[char_of r]"] by simp
    moreover have "convert_loop ul sep (r # rs) b ls = convert_loop ul sep rs (b @ [char_of r]) False"
      using ascii by simp
    ultimately show ?thesis using "2.IH"(1) [OF ascii] "2.prems" by simp
  next
    case fold
    then have "loop_inv sep (b @ fold_rune r) False"
      using "2.prems" loop_inv_chars fold_rune_chars by blast
    moreover have "convert_loop ul sep (r # rs) b ls = convert_loop ul sep rs (b @ fold_rune r) False"
      using fold by auto
    ultimately show ?thesis using "2.IH"(2) [OF fold] "2.prems" by simp
  next
    case drop
    then have eq: "convert_loop ul sep (r # rs) b ls = convert_loop ul sep rs b ls" by auto
    show ?thesis unfolding eq using "2.IH"(3) drop "2.prems" by simp
  next
    case sep
    show ?thesis
    proof (cases ls)
      case True
      then have eq: "convert_loop ul sep (r # rs) b ls = convert_loop ul sep rs b ls" using sep by auto
      show ?thesis unfolding eq using "2.IH"(5) sep True "2.prems" by simp
    next
      case False
      then have "loop_inv sep (b @ [sep]) True"
        using "2.prems" by (auto simp: loop_inv_def no_double_snoc hd_append split: if_splits)
      moreover have eq: "convert_loop ul sep (r # rs) b ls = convert_loop ul sep rs (b @ [sep]) True"
        using sep False by auto
      ultimately show ?thesis unfolding eq using "2.IH"(4) sep False "2.prems" by simp
    qed
  qed
qed auto

lemma convert_loop_start:
  "\<not> slug_char sep \<Longrightarrow> \<exists>ls. loop_inv sep (convert_loop ul sep (map lower_rune t) [] True) ls"
  by (rule convert_loop_inv) (auto simp: loop_inv_def)

section \<open>The finished text\<close>

definition folded :: "char \<Rightarrow> string \<Rightarrow> bool" where
  "folded sep s \<longleftrightarrow> list_all (\<lambda>c. slug_char c \<or> c = sep) s \<and> no_double sep s \<and>
     (s \<noteq> [] \<longrightarrow> hd s \<noteq> sep \<and> last s \<noteq> sep)"

lemma trim_loop_result:
  assumes "loop_inv sep b ls"
  shows "trim_set b [sep] = (if b \<noteq> [] \<and> last b = sep then butlast b else b)"
proof (cases "b \<noteq> [] \<and> last b = sep")
  case True
  then obtain c where b: "b = c @ [sep]" by (metis append_butlast_last_id)
  have hd: "hd b \<noteq> sep" and nd: "no_double sep b" using assms True by (auto simp: loop_inv_def)
  have c: "c \<noteq> []" using hd b by auto
  then have "hd c \<noteq> sep" and "last c \<noteq> sep" using hd nd b by (auto simp: no_double_snoc)
  note c = c this
  then have "dropWhile (\<lambda>x. x = sep) (c @ [sep]) = c @ [sep]"
    by (simp add: dropWhile_eq_self_iff hd_append)
  moreover have "dropWhile (\<lambda>x. x = sep) (rev c) = rev c"
    using c by (simp add: dropWhile_eq_self_iff hd_rev)
  ultimately show ?thesis using b by (simp add: trim_set_def trim_by_def)
next
  case False
  then show ?thesis using assms
    by (auto simp: trim_set_def loop_inv_def intro!: trim_by_id)
qed

lemma folded_loop_result: "loop_inv sep b ls \<Longrightarrow> folded sep (trim_set b [sep])"
proof -
  assume inv: "loop_inv sep b ls"
  show ?thesis
  proof (cases "b \<noteq> [] \<and> last b = sep")
    case True
    then obtain c where b: "b = c @ [sep]" by (metis append_butlast_last_id)
    then have "trim_set b [sep] = c" using trim_loop_result [OF inv] by simp
    moreover have "list_all (\<lambda>c. slug_char c \<or> c = sep) c" and "no_double sep c"
      and "c \<noteq> [] \<longrightarrow> hd c \<noteq> sep \<and> last c \<noteq> sep"
      using inv b by (auto simp: loop_inv_def no_double_snoc)
    ultimately show ?thesis by (simp add: folded_def)
  next
    case False
    then show ?thesis using inv by (auto simp: trim_loop_result [OF inv] folded_def loop_inv_def)
  qed
qed

lemma folded_convert: "\<not> slug_char sep \<Longrightarrow> folded sep (convert ul sep t)"
  using convert_loop_start [of sep ul "trim_text t"] folded_loop_result
  by (auto simp: convert_def)

section \<open>Slugs and searches fold alike\<close>

definition resep :: "char \<Rightarrow> char \<Rightarrow> string \<Rightarrow> string" where
  "resep a b s = map (\<lambda>c. if c = a then b else c) s"

lemma resep_append: "resep a b (u @ v) = resep a b u @ resep a b v"
  by (simp add: resep_def)

lemma resep_slug_chars: "list_all slug_char w \<Longrightarrow> \<not> slug_char a \<Longrightarrow> resep a b w = w"
  by (induction w) (auto simp: resep_def)

lemma convert_loop_resep:
  assumes "\<not> slug_char a" and "\<forall>r \<in> set rs. \<exists>q. r = lower_rune q"
  shows "resep a b (convert_loop ul a rs w ls) = convert_loop ul b rs (resep a b w) ls"
  using assms(2)
proof (induction rs arbitrary: w ls)
  case (Cons r rs)
  obtain q where q: "r = lower_rune q" using Cons.prems by auto
  have "resep a b [char_of r] = [char_of r]" if "r < 127 \<and> ascii_alnum r"
    using that lower_rune_alnum [of q] q assms(1)
    by (intro resep_slug_chars) (auto simp: slug_char_def is_digit_def of_char_of)
  moreover have "resep a b (fold_rune r) = fold_rune r"
    using assms(1) by (intro resep_slug_chars fold_rune_chars)
  moreover have "resep a b [a] = [b]" by (simp add: resep_def)
  ultimately show ?case using Cons by (simp add: resep_append)
qed simp

lemma trim_by_map: "trim_by p (map f s) = map f (trim_by (\<lambda>c. p (f c)) s)"
  by (simp add: trim_by_def dropWhile_map comp_def rev_map)

lemma trim_by_cong: "(\<And>c. c \<in> set s \<Longrightarrow> p c = q c) \<Longrightarrow> trim_by p s = trim_by q s"
proof -
  assume eq: "\<And>c. c \<in> set s \<Longrightarrow> p c = q c"
  then have d: "dropWhile p s = dropWhile q s" by (intro dropWhile_cong) auto
  have "dropWhile p (rev (dropWhile q s)) = dropWhile q (rev (dropWhile q s))"
    using eq by (intro dropWhile_cong) (auto dest: set_dropWhileD)
  then show ?thesis by (simp add: trim_by_def d)
qed

lemma convert_resep:
  assumes "\<not> slug_char a" and "\<not> slug_char b"
  shows "convert ul b t = resep a b (convert ul a t)"
proof -
  let ?rs = "map lower_rune (trim_text t)"
  let ?w = "convert_loop ul a ?rs [] True"
  obtain ls where "loop_inv a ?w ls" using convert_loop_start [OF assms(1)] by blast
  then have chars: "c \<in> set ?w \<Longrightarrow> slug_char c \<or> c = a" for c
    by (auto simp: loop_inv_def list_all_iff)
  have "convert_loop ul b ?rs [] True = resep a b ?w"
    using convert_loop_resep [OF assms(1), of ?rs b ul "[]" True]
    by (simp add: resep_def) (metis image_iff list.set_map)
  moreover have "trim_by (\<lambda>c. (if c = a then b else c) \<in> set [b]) ?w = trim_by (\<lambda>c. c \<in> set [a]) ?w"
    using chars assms by (intro trim_by_cong) auto
  ultimately show ?thesis
    by (simp add: convert_def trim_set_def resep_def trim_by_map)
qed

section \<open>Folding is idempotent\<close>

lemma slug_char_rune:
  assumes "slug_char c"
  shows "(of_char c :: nat) < 127 \<and> ascii_alnum (of_char c) \<and> lower_rune (of_char c) = of_char c"
proof -
  let ?n = "of_char c :: nat"
  have n: "(48 \<le> ?n \<and> ?n \<le> 57) \<or> (97 \<le> ?n \<and> ?n \<le> 122)"
    using assms by (simp add: slug_char_def is_digit_def)
  then have "?n < 128" and "\<not> (65 \<le> ?n \<and> ?n \<le> 90)" by linarith+
  then show ?thesis using n lower_rune_low [of ?n] by (auto simp: ascii_alnum_def)
qed

lemma fold_rune_ascii: "r < 128 \<Longrightarrow> fold_rune r = []"
proof -
  assume r: "r < 128"
  have "list_all (\<lambda>(runes, _). list_all (\<lambda>q. 128 \<le> q) runes) fold_table"
    by (simp add: fold_table_def)
  then have "find (\<lambda>(runes, _). r \<in> set runes) fold_table = None"
    using r by (fastforce simp: find_None_iff list_all_iff)
  then show ?thesis by (simp add: fold_rune_def)
qed

lemma sep_rune:
  assumes "sep \<in> {CHR ''-'', CHR '' ''}"
  shows "\<not> slug_char sep \<and> \<not> ascii_alnum (of_char sep) \<and> (of_char sep :: nat) < 127 \<and>
     fold_rune (of_char sep) = [] \<and> lower_rune (of_char sep) = of_char sep"
proof -
  have "(of_char sep :: nat) = 45 \<or> (of_char sep :: nat) = 32" using assms by auto
  then show ?thesis
    by (auto simp: slug_char_def is_digit_def ascii_alnum_def lower_rune_low fold_rune_ascii)
qed

lemma convert_loop_folded:
  assumes "sep \<in> {CHR ''-'', CHR '' ''}"
  shows "list_all (\<lambda>c. slug_char c \<or> c = sep) s \<Longrightarrow> loop_inv sep b ls \<Longrightarrow> no_double sep (b @ s) \<Longrightarrow>
    (b = [] \<Longrightarrow> s \<noteq> [] \<Longrightarrow> hd s \<noteq> sep) \<Longrightarrow> convert_loop ul sep (map of_char s) b ls = b @ s"
proof (induction s arbitrary: b ls)
  case (Cons c s)
  note sep = sep_rune [OF assms]
  show ?case
  proof (cases "c = sep")
    case True
    have "b \<noteq> []" using Cons.prems(4) True by auto
    moreover have "last b \<noteq> sep"
    proof
      assume "last b = sep"
      then have "b @ c # s = butlast b @ [sep, sep] @ s"
        using True \<open>b \<noteq> []\<close> by (metis append.assoc append_Cons append_Nil append_butlast_last_id)
      then show False using Cons.prems(3) unfolding no_double_def by blast
    qed
    ultimately have "\<not> ls" and inv: "loop_inv sep (b @ [sep]) True"
      using Cons.prems(2) by (auto simp: loop_inv_def no_double_snoc hd_append)
    then show ?thesis
      using Cons.IH [OF _ inv] Cons.prems(1,3) True sep by simp
  next
    case False
    then have c: "slug_char c" using Cons.prems(1) by simp
    then have inv: "loop_inv sep (b @ [c]) False"
      using loop_inv_chars [OF Cons.prems(2), of "[c]"] sep by simp
    show ?thesis
      using Cons.IH [OF _ inv] Cons.prems(1,3) slug_char_rune [OF c] by simp
  qed
qed simp

lemma trim_text_folded:
  assumes "folded sep s" and "sep \<in> {CHR ''-'', CHR '' ''}"
  shows "trim_text (text_of s) = text_of s"
proof -
  have space: "\<not> space_rune (of_char c)" if "c \<in> set s" "c \<noteq> sep" for c
  proof -
    have "slug_char c" using that assms(1) by (auto simp: folded_def list_all_iff)
    then have "48 \<le> (of_char c :: nat) \<and> (of_char c :: nat) \<le> 122"
      by (auto simp: slug_char_def is_digit_def)
    then show ?thesis by (auto simp: space_rune_def)
  qed
  show ?thesis
  proof (cases "s = []")
    case False
    then have "\<not> space_rune (of_char (hd s))" and "\<not> space_rune (of_char (last s))"
      using assms(1) space [OF hd_in_set] space [OF last_in_set] by (auto simp: folded_def)
    then have "dropWhile space_rune (text_of s) = text_of s"
      and "dropWhile space_rune (rev (text_of s)) = rev (text_of s)"
      using False by (simp_all add: dropWhile_eq_self_iff text_of_def hd_map hd_rev last_map flip: rev_map)
    then show ?thesis by (simp add: trim_text_def)
  qed (simp add: trim_text_def text_of_def)
qed

lemma convert_folded:
  assumes "folded sep s" and "sep \<in> {CHR ''-'', CHR '' ''}"
  shows "convert ul sep (text_of s) = s"
proof -
  have chars: "list_all (\<lambda>c. slug_char c \<or> c = sep) s" using assms(1) by (simp add: folded_def)
  have "map lower_rune (text_of s) = text_of s"
    using chars sep_rune [OF assms(2)] slug_char_rune by (auto simp: text_of_def list_all_iff)
  moreover have "convert_loop ul sep (text_of s) [] True = [] @ s"
    unfolding text_of_def using assms chars
    by (intro convert_loop_folded) (auto simp: folded_def loop_inv_def)
  moreover have "trim_set s [sep] = s"
    using assms(1) by (auto simp: trim_set_def folded_def intro!: trim_by_id)
  ultimately show ?thesis
    by (simp add: convert_def trim_text_folded [OF assms])
qed

section \<open>Properties\<close>

text \<open>
  A slug is lower-case ASCII words joined by single hyphens, with none at either end, whatever
  the name and the letter table. It is the search form of the same name with hyphens for spaces, so
  the two foldings agree, and slugging a slug changes nothing.
\<close>

theorem slug_folded:
  "folded CHR ''-'' (slug ul t) \<and> slug ul t = resep CHR '' '' CHR ''-'' (normalise ul t) \<and>
   slug ul (text_of (slug ul t)) = slug ul t"
proof -
  have f: "folded CHR ''-'' (slug ul t)"
    using sep_rune by (simp add: slug_def folded_convert)
  moreover have "slug ul t = resep CHR '' '' CHR ''-'' (normalise ul t)"
    unfolding slug_def normalise_def using sep_rune by (intro convert_resep) auto
  moreover have "slug ul (text_of (slug ul t)) = slug ul t"
    unfolding slug_def [of ul "text_of (slug ul t)"] using f by (intro convert_folded) auto
  ultimately show ?thesis by blast
qed

end
