(* ===== verification/SimMatch.thy ===== *)
theory SimMatch
  imports Prelude
begin

text \<open>
  Package \<open>internal/simulate\<close>, file \<open>match.go\<close>: the chain from a point to a match and its
  inversion. \<open>float64\<close> is modelled by \<open>real\<close>: the arithmetic is exact and rounding is not
  modelled. The tables of \<open>Tiebreak\<close> and \<open>Set\<close> are functions of two scores updated in the order
  of the code's loops; \<open>tb_value\<close> and \<open>set_value\<close> are the \<open>value\<close> closures.
\<close>

section \<open>Points and games\<close>

record format =
  BestOf :: int
  FinalSetAdvantage :: bool

definition format_sets :: "format \<Rightarrow> int" where
  "format_sets f = (if BestOf f = 5 then 5 else 3)"

definition twoPointRace :: "real \<Rightarrow> real \<Rightarrow> real" where
  "twoPointRace winBoth loseBoth =
     (let total = winBoth * winBoth + loseBoth * loseBoth
      in if total = 0 then 1 / 2 else winBoth * winBoth / total)"

definition game :: "real \<Rightarrow> real" where
  "game p =
     (let q = 1 - p;
          straight = p * p * p * p * (1 + 4 * q + 10 * q * q);
          toDeuce = 20 * p * p * p * q * q * q
      in straight + toDeuce * twoPointRace p q)"

section \<open>The score table\<close>

text \<open>
  Both tables are filled for \<open>n\<close> from 12 down to 0 and, for each \<open>n\<close>, \<open>a\<close> from 0 to 6, at the
  cell \<open>(a, n - a)\<close> when that is inside the seven by seven array.
\<close>

type_synonym table = "nat \<Rightarrow> nat \<Rightarrow> real"

definition write_cell :: "table \<Rightarrow> nat \<Rightarrow> nat \<Rightarrow> real \<Rightarrow> table" where
  "write_cell win a b v = (\<lambda>i j. if i = a \<and> j = b then v else win i j)"

definition table_cells :: "(nat \<times> nat) list" where
  "table_cells = concat (map (\<lambda>n. map (\<lambda>a. (a, n - a)) [a \<leftarrow> [0..<7]. a \<le> n \<and> n - a \<le> 6])
     (rev [0..<13]))"

definition tb_value :: "table \<Rightarrow> nat \<Rightarrow> nat \<Rightarrow> real" where
  "tb_value win a b = (if a = 7 then 1 else if b = 7 then 0 else win a b)"

definition serverIsA :: "nat \<Rightarrow> bool" where
  "serverIsA n \<longleftrightarrow> n mod 4 = 0 \<or> n mod 4 = 3"

definition tb_cell :: "real \<Rightarrow> real \<Rightarrow> table \<Rightarrow> nat \<times> nat \<Rightarrow> table" where
  "tb_cell pA pB win = (\<lambda>(a, b).
     if a = 6 \<and> b = 6
     then write_cell win a b (twoPointRace (pA * (1 - pB)) ((1 - pA) * pB))
     else let p = (if serverIsA (a + b) then pA else 1 - pB)
          in write_cell win a b
               (p * tb_value win (a + 1) b + (1 - p) * tb_value win a (b + 1)))"

definition tiebreak :: "real \<Rightarrow> real \<Rightarrow> real" where
  "tiebreak pA pB = foldl (tb_cell pA pB) (\<lambda>_ _. 0) table_cells 0 0"

definition set_value :: "table \<Rightarrow> nat \<Rightarrow> nat \<Rightarrow> real" where
  "set_value win a b =
     (if a = 6 \<and> b \<le> 4 then 1
      else if b = 6 \<and> a \<le> 4 then 0
      else if a = 7 then 1
      else if b = 7 then 0
      else win a b)"

definition set_cell :: "real \<Rightarrow> real \<Rightarrow> real \<Rightarrow> table \<Rightarrow> nat \<times> nat \<Rightarrow> table" where
  "set_cell holdA holdB atSixAll win = (\<lambda>(a, b).
     if (a = 6 \<and> b \<le> 4) \<or> (b = 6 \<and> a \<le> 4) then win
     else if a = 6 \<and> b = 6 then write_cell win a b atSixAll
     else let p = (if (a + b) mod 2 = 1 then 1 - holdB else holdA)
          in write_cell win a b
               (p * set_value win (a + 1) b + (1 - p) * set_value win a (b + 1)))"

definition set_prob :: "real \<Rightarrow> real \<Rightarrow> bool \<Rightarrow> real" where
  "set_prob pA pB advantage =
     (let holdA = game pA; holdB = game pB;
          atSixAll = (if advantage
            then twoPointRace (holdA * (1 - holdB)) ((1 - holdA) * holdB)
            else tiebreak pA pB);
          win = foldl (set_cell holdA holdB atSixAll) (\<lambda>_ _. 0) table_cells
      in set_value win 0 0)"

section \<open>Matches\<close>

definition match_prob :: "real \<Rightarrow> real \<Rightarrow> int \<Rightarrow> real" where
  "match_prob won decider bestOf =
     (let lose = 1 - won
      in if bestOf = 5
         then won * won * won + 3 * won * won * won * lose + 6 * won * won * lose * lose * decider
         else won * won + 2 * won * lose * decider)"

record chain =
  Point :: "real \<times> real"
  Hold :: "real \<times> real"
  SetP :: "real \<times> real"
  MatchP :: "real \<times> real"

definition solve :: "real \<Rightarrow> real \<Rightarrow> format \<Rightarrow> chain" where
  "solve pA pB f =
     (let holdA = game pA; holdB = game pB;
          setA = set_prob pA pB False;
          decider = (if FinalSetAdvantage f then set_prob pA pB True else setA);
          matchA = match_prob setA decider (format_sets f)
      in \<lparr>Point = (pA, pB), Hold = (holdA, holdB), SetP = (setA, 1 - setA),
          MatchP = (matchA, 1 - matchA)\<rparr>)"

section \<open>Inversion\<close>

definition minServe :: real where "minServe = 1 / 100"
definition maxServe :: real where "maxServe = 99 / 100"
definition invertSteps :: nat where "invertSteps = 60"

definition clamp :: "real \<Rightarrow> real \<Rightarrow> real \<Rightarrow> real" where
  "clamp v lo hi = max lo (min hi v)"

text \<open>The bisection loop of \<open>Invert\<close>, over any test that says to move the lower end up.\<close>

fun bisect :: "(real \<Rightarrow> bool) \<Rightarrow> nat \<Rightarrow> real \<Rightarrow> real \<Rightarrow> real \<times> real" where
  "bisect below 0 lo hi = (lo, hi)"
| "bisect below (Suc n) lo hi =
     (let mid = (lo + hi) / 2
      in if below mid then bisect below n mid hi else bisect below n lo mid)"

definition invert :: "real \<Rightarrow> real \<Rightarrow> format \<Rightarrow> real \<times> real \<times> real" where
  "invert target anchor0 f =
     (let anchor = clamp anchor0 minServe maxServe;
          spread = min (anchor - minServe) (maxServe - anchor);
          (lo, hi) = bisect (\<lambda>mid. fst (MatchP (solve (anchor + mid) (anchor - mid) f)) < target)
                       invertSteps (- spread) spread;
          d = (lo + hi) / 2;
          pA = anchor + d; pB = anchor - d
      in (pA, pB, fst (MatchP (solve pA pB f))))"

section \<open>Two-point races and games\<close>

definition prob :: "real \<Rightarrow> bool" where
  "prob p \<longleftrightarrow> 0 \<le> p \<and> p \<le> 1"

lemma prob_compl [simp]: "prob (1 - p) = prob p"
  by (auto simp: prob_def)

lemma prob_mult: "prob p \<Longrightarrow> prob q \<Longrightarrow> prob (p * q)"
  by (auto simp: prob_def mult_le_one)

lemma prob_mix: "prob p \<Longrightarrow> prob x \<Longrightarrow> prob y \<Longrightarrow> prob (p * x + (1 - p) * y)"
proof -
  assume p: "prob p" and x: "prob x" and y: "prob y"
  then have "p * x \<le> p" and "(1 - p) * y \<le> 1 - p"
    by (auto simp: prob_def intro!: mult_left_le)
  then have "p * x + (1 - p) * y \<le> 1" by simp
  moreover have "0 \<le> p * x + (1 - p) * y" using p x y by (simp add: prob_def)
  ultimately show ?thesis by (simp add: prob_def)
qed

lemma sum_squares_pos: "w * w + l * l \<noteq> 0 \<Longrightarrow> 0 < w * w + l * (l :: real)"
  by (metis add_nonneg_nonneg order_le_less zero_le_square)

lemma sum_squares_zero: "w * w + l * (l :: real) = 0 \<longleftrightarrow> w = 0 \<and> l = 0"
  by (metis add_nonneg_eq_0_iff mult_eq_0_iff zero_le_square)

lemma race_zero: "twoPointRace 0 0 = 1 / 2"
  by (simp add: twoPointRace_def)

lemma race_quotient: "w \<noteq> 0 \<or> l \<noteq> 0 \<Longrightarrow> twoPointRace w l = w * w / (w * w + l * l)"
  by (simp add: twoPointRace_def Let_def sum_squares_zero)

lemma prob_race: "prob (twoPointRace w l)"
proof (cases "w = 0 \<and> l = 0")
  case False
  then have "0 < w * w + l * l" using sum_squares_pos sum_squares_zero by blast
  then show ?thesis using False by (simp add: race_quotient prob_def divide_le_eq)
qed (simp add: race_zero prob_def)

lemma race_flip: "twoPointRace l w = 1 - twoPointRace w l"
proof (cases "w = 0 \<and> l = 0")
  case False
  then have "w * w + l * l \<noteq> 0" using sum_squares_zero by blast
  then have "w * w / (w * w + l * l) + l * l / (w * w + l * l) = 1"
    by (simp flip: add_divide_distrib)
  moreover have "twoPointRace w l = w * w / (w * w + l * l)"
    and "twoPointRace l w = l * l / (w * w + l * l)"
    using False race_quotient [of w l] race_quotient [of l w] by (auto simp: add.commute)
  ultimately show ?thesis by linarith
qed (simp add: race_zero)

lemma race_mono:
  assumes "0 \<le> w" "w \<le> w'" "0 \<le> l'" "l' \<le> l"
  shows "twoPointRace w l \<le> twoPointRace w' l'"
proof -
  consider "w' = 0 \<and> l' = 0" | "w = 0 \<and> l = 0" "w' \<noteq> 0" | "w' \<noteq> 0 \<or> l' \<noteq> 0" "w \<noteq> 0 \<or> l \<noteq> 0"
    using assms by fastforce
  then show ?thesis
  proof cases
    case 1
    then have "w = 0" using assms by simp
    then show ?thesis using 1 by (simp add: race_zero) (simp add: twoPointRace_def Let_def)
  next
    case 2
    then have "l' = 0" using assms by simp
    then show ?thesis using 2 by (simp add: race_zero race_quotient)
  next
    case 3
    have ww: "w * w \<le> w' * w'" and ll: "l' * l' \<le> l * l"
      using mult_mono [OF assms(2) assms(2)] mult_mono [OF assms(4) assms(4)] assms by linarith+
    have pos: "0 < w * w + l * l" and pos': "0 < w' * w' + l' * l'"
      using 3 sum_squares_pos sum_squares_zero by blast+
    have "(w * w) * (l' * l') \<le> (w' * w') * (l * l)"
      using ww ll by (rule mult_mono) auto
    then have "(w * w) * (w' * w' + l' * l') \<le> (w' * w') * (w * w + l * l)"
      by (simp add: algebra_simps)
    then have "w * w / (w * w + l * l) \<le> w' * w' / (w' * w' + l' * l')"
      using pos pos' by (simp add: pos_divide_le_eq pos_le_divide_eq mult.commute)
    then show ?thesis using 3 by (simp add: race_quotient)
  qed
qed

section \<open>Races over a fixed number of trials\<close>

text \<open>
  The abstract form of a game, a tiebreak and a set: a list of trials, each with player A's chance
  of winning it, and the value of each final count of trials won. \<open>trials ps v a\<close> is the expected
  value when A has won \<open>a\<close> so far.
\<close>

definition trial :: "real \<Rightarrow> (nat \<Rightarrow> real) \<Rightarrow> nat \<Rightarrow> real" where
  "trial p v a = p * v (a + 1) + (1 - p) * v a"

definition trials :: "real list \<Rightarrow> (nat \<Rightarrow> real) \<Rightarrow> nat \<Rightarrow> real" where
  "trials ps v = fold trial ps v"

lemma trial_commute: "trial p (trial q v) = trial q (trial p v)"
  by (simp add: trial_def fun_eq_iff algebra_simps)

lemma trials_Nil [simp]: "trials [] v = v"
  by (simp add: trials_def)

lemma trials_Cons: "trials (p # ps) v = trials ps (trial p v)"
  by (simp add: trials_def)

lemma trials_append: "trials (ps @ qs) v = trials qs (trials ps v)"
  by (simp add: trials_def)

text \<open>The order of the trials does not matter: serving first is worth nothing.\<close>

lemma trials_order: "mset ps = mset qs \<Longrightarrow> trials ps = trials qs"
  unfolding trials_def
  by (rule ext, rule fold_multiset_equiv [THEN fun_cong]) (auto simp: fun_eq_iff trial_commute)

lemma trials_first: "trials (p # ps) v = trial p (trials ps v)"
  using trials_order [of "p # ps" "ps @ [p]"] by (simp add: trials_append trials_Cons)

lemma trials_prob:
  "list_all prob ps \<Longrightarrow> (\<And>a. prob (v a)) \<Longrightarrow> prob (trials ps v a)"
  by (induction ps arbitrary: a) (simp_all add: trials_first trial_def prob_mix)

lemma trials_const:
  "(\<And>k. a \<le> k \<Longrightarrow> k \<le> a + length ps \<Longrightarrow> v k = c) \<Longrightarrow> trials ps v a = c"
proof (induction ps arbitrary: a)
  case (Cons p ps)
  have "trials ps v (Suc a) = c" and "trials ps v a = c"
    using Cons.prems by (intro Cons.IH; simp)+
  then show ?case by (simp add: trials_first trial_def algebra_simps)
qed simp

lemma trials_mono_value: "mono v \<Longrightarrow> list_all prob ps \<Longrightarrow> mono (trials ps v)"
proof (induction ps)
  case (Cons p ps)
  then have m: "mono (trials ps v)" and p: "prob p" by simp_all
  show ?case
  proof (rule monoI)
    fix x y :: nat assume "x \<le> y"
    then have "p * trials ps v (x + 1) \<le> p * trials ps v (y + 1)"
      and "(1 - p) * trials ps v x \<le> (1 - p) * trials ps v y"
      using m p by (auto intro!: mult_left_mono simp: prob_def monoD)
    then show "trials (p # ps) v x \<le> trials (p # ps) v y"
      by (simp add: trials_first trial_def)
  qed
qed simp

lemma trials_mono:
  assumes "list_all2 (\<le>) ps qs" and "list_all prob ps" and "list_all prob qs"
    and "mono v" and "\<And>a. v a \<le> w a"
  shows "trials ps v a \<le> trials qs w a"
  using assms
proof (induction ps qs arbitrary: a rule: list_all2_induct)
  case (Cons p ps q qs)
  let ?V = "trials ps v" and ?W = "trials qs w"
  have IH: "?V b \<le> ?W b" for b using Cons by simp
  have step: "?V a \<le> ?V (a + 1)"
    using trials_mono_value [of v ps] Cons.prems by (simp add: monoD)
  have "p * ?V (a + 1) + (1 - p) * ?V a = ?V a + p * (?V (a + 1) - ?V a)"
    by (simp add: algebra_simps)
  also have "\<dots> \<le> ?V a + q * (?V (a + 1) - ?V a)"
    using Cons.hyps(1) step by (simp add: mult_right_mono)
  also have "\<dots> = q * ?V (a + 1) + (1 - q) * ?V a" by (simp add: algebra_simps)
  also have "\<dots> \<le> q * ?W (a + 1) + (1 - q) * ?W a"
    using IH Cons.prems by (intro add_mono mult_left_mono) (auto simp: prob_def)
  finally show ?case by (simp add: trials_first trial_def)
qed simp

text \<open>Seen from the other side, every trial and every value is complemented.\<close>

lemma trials_flip:
  "(\<And>k. k \<le> length ps \<Longrightarrow> w (b + (length ps - k)) = 1 - v (a + k)) \<Longrightarrow>
     trials (map (\<lambda>p. 1 - p) ps) w b = 1 - trials ps v a"
proof (induction ps arbitrary: a b)
  case (Cons p ps)
  have "trials (map (\<lambda>p. 1 - p) ps) w b = 1 - trials ps v (a + 1)"
  proof (rule Cons.IH)
    fix k assume "k \<le> length ps"
    then show "w (b + (length ps - k)) = 1 - v (a + 1 + k)" using Cons.prems [of "k + 1"] by simp
  qed
  moreover have "trials (map (\<lambda>p. 1 - p) ps) w (b + 1) = 1 - trials ps v a"
  proof (rule Cons.IH)
    fix k assume "k \<le> length ps"
    then show "w (b + 1 + (length ps - k)) = 1 - v (a + k)"
      using Cons.prems [of k] by (simp add: Suc_diff_le)
  qed
  ultimately show ?case
    unfolding list.map(2) trials_first trial_def
    by (simp only: Suc_eq_plus1 [symmetric]) (simp add: algebra_simps)
qed simp

text \<open>
  First to \<open>k + 1\<close> in \<open>2 k\<close> trials, with \<open>tie\<close> for an even split: the value every race of the
  chain has after its fixed part.
\<close>

definition majority :: "nat \<Rightarrow> real \<Rightarrow> nat \<Rightarrow> real" where
  "majority k tie a = (if a > k then 1 else if a = k then tie else 0)"

lemma majority_prob: "prob tie \<Longrightarrow> prob (majority k tie a)"
  by (simp add: majority_def prob_def)

lemma majority_mono: "prob tie \<Longrightarrow> mono (majority k tie)"
  by (auto simp: majority_def prob_def intro!: monoI)

lemma majority_le: "t \<le> t' \<Longrightarrow> majority k t a \<le> majority k t' a"
  by (simp add: majority_def)

lemma trials_majority_flip:
  assumes "length ps = 2 * k"
  shows "trials (map (\<lambda>p. 1 - p) ps) (majority k (1 - tie)) 0 = 1 - trials ps (majority k tie) 0"
  by (rule trials_flip) (use assms in \<open>auto simp: majority_def\<close>)

end
