(* ===== verification/SimChain.thy ===== *)
theory SimChain
  imports SimMatch
begin

text \<open>
  What the chain of \<open>match.go\<close> computes. The locale \<open>score_table\<close> is the contract of the two
  tables: a step that settles a cell once every cell with a larger score is settled. It is
  interpreted on the tiebreak's and the set's own steps, which gives each table's recursion. The
  recursions are then races over a fixed number of trials (\<open>trials\<close> of theory \<open>SimMatch\<close>), and
  bounds, monotonicity and symmetry follow from the race lemmas.
\<close>

section \<open>Filling a table\<close>

locale score_table =
  fixes step :: "table \<Rightarrow> nat \<times> nat \<Rightarrow> table"
    and val :: "table \<Rightarrow> nat \<Rightarrow> nat \<Rightarrow> real"
    and target :: "nat \<Rightarrow> nat \<Rightarrow> real"
  assumes step_settles:
      "a \<le> 6 \<Longrightarrow> b \<le> 6 \<Longrightarrow>
       (\<And>i j. i \<le> 6 \<Longrightarrow> j \<le> 6 \<Longrightarrow> a + b < i + j \<Longrightarrow> val win i j = target i j) \<Longrightarrow>
       val (step win (a, b)) a b = target a b"
    and step_frame: "(i, j) \<noteq> (a, b) \<Longrightarrow> val (step win (a, b)) i j = val win i j"
begin

lemma filled:
  assumes "sorted_wrt (\<lambda>(a, b) (c, d). c + d \<le> a + b) cs"
    and "\<forall>(a, b) \<in> set cs. a \<le> 6 \<and> b \<le> 6"
    and "\<And>i j. i \<le> 6 \<Longrightarrow> j \<le> 6 \<Longrightarrow> (i, j) \<notin> set cs \<Longrightarrow> val win i j = target i j"
    and "i \<le> 6" and "j \<le> 6"
  shows "val (foldl step win cs) i j = target i j"
  using assms
proof (induction cs arbitrary: win)
  case (Cons c cs)
  obtain a b where c: "c = (a, b)" by fastforce
  have "val win i j = target i j" if "i \<le> 6" "j \<le> 6" "a + b < i + j" for i j
    using that Cons.prems(1,3) c by fastforce
  then have hit: "val (step win c) a b = target a b"
    using Cons.prems(2) c by (auto intro: step_settles)
  have "val (foldl step (step win c) cs) i j = target i j"
  proof (rule Cons.IH)
    fix i j :: nat assume "i \<le> 6" "j \<le> 6" "(i, j) \<notin> set cs"
    then show "val (step win c) i j = target i j"
      using hit Cons.prems(3) step_frame c by (cases "(i, j) = (a, b)") auto
  qed (use Cons.prems in auto)
  then show ?case by simp
qed simp

end

lemma table_cells_sorted: "sorted_wrt (\<lambda>(a, b) (c, d). c + d \<le> a + b) table_cells"
  by code_simp

lemma table_cells_in: "\<forall>(a, b) \<in> set table_cells. a \<le> 6 \<and> b \<le> 6"
  by code_simp

lemma table_cells_all: "i \<le> 6 \<Longrightarrow> j \<le> 6 \<Longrightarrow> (i, j) \<in> set table_cells"
  by (auto simp: table_cells_def intro!: bexI [of _ "i + j"])

section \<open>The tiebreak's recursion\<close>

function tiebreak_from :: "real \<Rightarrow> real \<Rightarrow> nat \<Rightarrow> nat \<Rightarrow> real" where
  "tiebreak_from pA pB a b =
     (if a \<ge> 7 then 1
      else if b \<ge> 7 then 0
      else if a = 6 \<and> b = 6 then twoPointRace (pA * (1 - pB)) ((1 - pA) * pB)
      else let p = (if serverIsA (a + b) then pA else 1 - pB)
           in p * tiebreak_from pA pB (a + 1) b + (1 - p) * tiebreak_from pA pB a (b + 1))"
  by pat_completeness auto
termination by (relation "measure (\<lambda>(pA, pB, a, b). 14 - (a + b))") auto

declare tiebreak_from.simps [simp del]

lemma tb_value_66: "tb_value win 6 6 = win 6 6"
  by (simp add: tb_value_def)

interpretation tb: score_table "tb_cell pA pB" tb_value "tiebreak_from pA pB" for pA pB
proof (unfold_locales, goal_cases)
  case (1 a b win)
  have v: "tb_value win i j = tiebreak_from pA pB i j" if "a + b < i + j" "i \<le> 7" "j \<le> 7" "i \<le> 6 \<or> j \<le> 6" for i j
    using that 1(3) [of i j] by (auto simp: tb_value_def tiebreak_from.simps le_Suc_eq)
  show ?case
    using 1(1,2) v [of "a + 1" b] v [of a "b + 1"]
    by (auto simp: tb_cell_def write_cell_def tb_value_def [of "write_cell win a b x" for x]
        tb_value_def [of "\<lambda>i j. if i = a \<and> j = b then x else win i j" for x] Let_def
        tiebreak_from.simps [of pA pB a b] tb_value_66)
next
  case (2 i j a b win)
  then show ?case by (auto simp: tb_cell_def tb_value_def write_cell_def Let_def)
qed

lemma tiebreak_recursion: "tiebreak pA pB = tiebreak_from pA pB 0 0"
  using tb.filled [OF table_cells_sorted table_cells_in, of "\<lambda>_ _. 0" pA pB 0 0] table_cells_all
  by (simp add: tiebreak_def tb_value_def)

section \<open>The set's recursion\<close>

function set_from :: "real \<Rightarrow> real \<Rightarrow> real \<Rightarrow> nat \<Rightarrow> nat \<Rightarrow> real" where
  "set_from holdA holdB six a b =
     (if a \<ge> 7 \<or> (a = 6 \<and> b \<le> 4) then 1
      else if b \<ge> 7 \<or> (b = 6 \<and> a \<le> 4) then 0
      else if a = 6 \<and> b = 6 then six
      else let p = (if even (a + b) then holdA else 1 - holdB)
           in p * set_from holdA holdB six (a + 1) b + (1 - p) * set_from holdA holdB six a (b + 1))"
  by pat_completeness auto
termination by (relation "measure (\<lambda>(hA, hB, six, a, b). 14 - (a + b))") auto

declare set_from.simps [simp del]

lemma set_value_66: "set_value win 6 6 = win 6 6"
  by (simp add: set_value_def)

interpretation st: score_table "set_cell hA hB six" set_value "set_from hA hB six" for hA hB six
proof (unfold_locales, goal_cases)
  case (1 a b win)
  have v: "set_value win i j = set_from hA hB six i j" if "a + b < i + j" "i \<le> 7" "j \<le> 7" "i \<le> 6 \<or> j \<le> 6" for i j
    using that 1(3) [of i j] by (auto simp: set_value_def set_from.simps le_Suc_eq)
  show ?case
    using 1(1,2) v [of "a + 1" b] v [of a "b + 1"]
    by (auto simp: set_cell_def write_cell_def
        set_value_def [of "\<lambda>i j. if i = a \<and> j = b then x else win i j" for x] Let_def
        set_value_def [of win 6] set_value_def [of win a 6]
        set_from.simps [of hA hB six a b] set_value_66 odd_iff_mod_2_eq_one)
next
  case (2 i j a b win)
  then show ?case by (auto simp: set_cell_def set_value_def write_cell_def Let_def)
qed

definition six_all :: "real \<Rightarrow> real \<Rightarrow> bool \<Rightarrow> real" where
  "six_all pA pB advantage =
     (if advantage then twoPointRace (game pA * (1 - game pB)) ((1 - game pA) * game pB)
      else tiebreak pA pB)"

lemma set_recursion: "set_prob pA pB adv = set_from (game pA) (game pB) (six_all pA pB adv) 0 0"
  using st.filled [OF table_cells_sorted table_cells_in, of "\<lambda>_ _. 0" "game pA" "game pB"
      "six_all pA pB adv" 0 0] table_cells_all
  by (simp add: set_prob_def six_all_def Let_def)

section \<open>Every rung is a race\<close>

lemma tiebreak_from_trials:
  "a + b \<le> 12 \<Longrightarrow>
     tiebreak_from pA pB a b =
       trials (map (\<lambda>n. if serverIsA n then pA else 1 - pB) [a + b..<12])
         (majority 6 (twoPointRace (pA * (1 - pB)) ((1 - pA) * pB))) a"
proof (induction pA pB a b rule: tiebreak_from.induct)
  case (1 pA pB a b)
  let ?r = "twoPointRace (pA * (1 - pB)) ((1 - pA) * pB)"
  let ?ps = "map (\<lambda>n. if serverIsA n then pA else 1 - pB) [a + b..<12]"
  consider "a \<ge> 7" | "a < 7" "b \<ge> 7" | "a = 6" "b = 6" | "a < 7" "b < 7" "\<not> (a = 6 \<and> b = 6)"
    by fastforce
  then show ?case
  proof cases
    case 1
    then have "trials ?ps (majority 6 ?r) a = 1" by (intro trials_const) (simp add: majority_def)
    with 1 show ?thesis by (simp add: tiebreak_from.simps)
  next
    case 2
    have "trials ?ps (majority 6 ?r) a = 0"
    proof (rule trials_const)
      fix k assume "k \<le> a + length ?ps"
      then have "k \<le> 5" using 2 "1.prems" by simp
      then show "majority 6 ?r k = 0" by (simp add: majority_def)
    qed
    with 2 show ?thesis by (simp add: tiebreak_from.simps)
  next
    case 3
    then show ?thesis by (simp add: tiebreak_from.simps majority_def)
  next
    case 4
    then have "a + b < 12" by linarith
    then have "[a + b..<12] = (a + b) # [a + b + 1..<12]" by (simp add: upt_conv_Cons)
    with 4 \<open>a + b < 12\<close> show ?thesis
      using "1.IH" by (subst tiebreak_from.simps) (auto simp: trials_first trial_def Let_def)
  qed
qed

definition tiebreak_serves :: "real \<Rightarrow> real \<Rightarrow> real list" where
  "tiebreak_serves pA pB = map (\<lambda>n. if serverIsA n then pA else 1 - pB) [0..<12]"

lemma tiebreak_trials:
  "tiebreak pA pB = trials (tiebreak_serves pA pB)
     (majority 6 (twoPointRace (pA * (1 - pB)) ((1 - pA) * pB))) 0"
  using tiebreak_from_trials [of 0 0 pA pB] by (simp add: tiebreak_recursion tiebreak_serves_def)

definition set_serves :: "real \<Rightarrow> real \<Rightarrow> nat \<Rightarrow> nat \<Rightarrow> real list" where
  "set_serves hA hB i j = map (\<lambda>n. if even n then hA else 1 - hB) [i..<j]"

lemma set_from_trials:
  "a + b \<le> 10 \<Longrightarrow>
     set_from hA hB six a b =
       trials (set_serves hA hB (a + b) 10) (majority 5 (set_from hA hB six 5 5)) a"
proof (induction hA hB six a b rule: set_from.induct)
  case (1 hA hB six a b)
  let ?v = "majority 5 (set_from hA hB six 5 5)"
  let ?ps = "set_serves hA hB (a + b) 10"
  have len: "length ?ps = 10 - (a + b)" by (simp add: set_serves_def)
  consider "a \<ge> 6" | "b \<ge> 6" "a < 6" | "a = 5" "b = 5" | "a < 6" "b < 6" "\<not> (a = 5 \<and> b = 5)"
    by fastforce
  then show ?case
  proof cases
    case 1
    then have "trials ?ps ?v a = 1" by (intro trials_const) (simp add: majority_def)
    with 1 "1.prems" show ?thesis by (subst set_from.simps) auto
  next
    case 2
    have "trials ?ps ?v a = 0"
    proof (rule trials_const)
      fix k assume "k \<le> a + length ?ps"
      then have "k \<le> 4" using 2 "1.prems" len by simp
      then show "?v k = 0" by (simp add: majority_def)
    qed
    with 2 "1.prems" show ?thesis by (simp add: set_from.simps [of hA hB six a b])
  next
    case 3
    then show ?thesis by (simp add: majority_def set_serves_def)
  next
    case 4
    then have lt: "a + b < 10" by linarith
    then have "?ps = (if even (a + b) then hA else 1 - hB) # set_serves hA hB (a + b + 1) 10"
      by (simp add: upt_conv_Cons set_serves_def)
    with 4 lt show ?thesis
      using "1.IH" by (subst set_from.simps) (auto simp: trials_first trial_def Let_def)
  qed
qed

lemma set_from_55: "set_from hA hB six 5 5 = trials [hA, 1 - hB] (majority 6 six) 5"
proof -
  have "set_from hA hB six 6 6 = six" "set_from hA hB six 7 5 = 1" "set_from hA hB six 5 7 = 0"
    by (simp_all add: set_from.simps)
  moreover have "set_from hA hB six 6 5 = (1 - hB) * set_from hA hB six 7 5 + hB * set_from hA hB six 6 6"
    and "set_from hA hB six 5 6 = (1 - hB) * set_from hA hB six 6 6 + hB * set_from hA hB six 5 7"
    and "set_from hA hB six 5 5 = hA * set_from hA hB six 6 5 + (1 - hA) * set_from hA hB six 5 6"
    by (subst set_from.simps, simp add: Let_def)+
  ultimately show ?thesis
    by (simp add: trials_first trial_def majority_def)
qed

lemma set_trials:
  "set_prob pA pB adv =
     trials (set_serves (game pA) (game pB) 0 10)
       (majority 5 (trials [game pA, 1 - game pB] (majority 6 (six_all pA pB adv)) 5)) 0"
  using set_from_trials [of 0 0 "game pA" "game pB" "six_all pA pB adv"]
  by (simp add: set_recursion set_from_55)

lemma match_trials3: "match_prob s d 3 = trials [s, s] (majority 1 d) 0"
  by (simp add: match_prob_def trials_first trial_def majority_def Let_def algebra_simps)

lemma match_trials5: "match_prob s d 5 = trials [s, s, s, s] (majority 2 d) 0"
  by (simp add: match_prob_def trials_first trial_def majority_def Let_def algebra_simps)

text \<open>The closed form of a game against the game played point by point.\<close>

function game_from :: "real \<Rightarrow> nat \<Rightarrow> nat \<Rightarrow> real" where
  "game_from p a b =
     (if a \<ge> 4 then 1
      else if b \<ge> 4 then 0
      else if a = 3 \<and> b = 3 then twoPointRace p (1 - p)
      else p * game_from p (a + 1) b + (1 - p) * game_from p a (b + 1))"
  by pat_completeness auto
termination by (relation "measure (\<lambda>(p, a, b). 8 - (a + b))") auto

declare game_from.simps [simp del]

lemma game_from_trials:
  "a + b \<le> 6 \<Longrightarrow>
     game_from p a b = trials (replicate (6 - (a + b)) p) (majority 3 (twoPointRace p (1 - p))) a"
proof (induction p a b rule: game_from.induct)
  case (1 p a b)
  let ?v = "majority 3 (twoPointRace p (1 - p))"
  let ?ps = "replicate (6 - (a + b)) p"
  consider "a \<ge> 4" | "a < 4" "b \<ge> 4" | "a = 3" "b = 3" | "a < 4" "b < 4" "\<not> (a = 3 \<and> b = 3)"
    by fastforce
  then show ?case
  proof cases
    case 1
    then have "trials ?ps ?v a = 1" by (intro trials_const) (simp add: majority_def)
    with 1 show ?thesis by (simp add: game_from.simps)
  next
    case 2
    have "trials ?ps ?v a = 0"
    proof (rule trials_const)
      fix k assume "k \<le> a + length ?ps"
      then have "k \<le> 2" using 2 "1.prems" by simp
      then show "majority 3 (twoPointRace p (1 - p)) k = 0" by (simp add: majority_def)
    qed
    with 2 show ?thesis by (simp add: game_from.simps)
  next
    case 3
    then show ?thesis by (simp add: game_from.simps majority_def)
  next
    case 4
    then have lt: "a + b < 6" by linarith
    then have "?ps = p # replicate (6 - (a + b + 1)) p"
      by (simp flip: replicate_Suc add: Suc_diff_Suc)
    with 4 lt show ?thesis
      using "1.IH" by (subst game_from.simps) (auto simp: trials_first trial_def)
  qed
qed

lemma game_trials: "game p = trials (replicate 6 p) (majority 3 (twoPointRace p (1 - p))) 0"
  by (simp add: game_def Let_def trials_first trial_def majority_def eval_nat_numeral)
    (simp add: algebra_simps)

section \<open>Bounds\<close>

lemma prob_majority_trials: "list_all prob ps \<Longrightarrow> prob tie \<Longrightarrow> prob (trials ps (majority k tie) a)"
  by (rule trials_prob) (simp_all add: majority_prob)

lemma prob_game: "prob p \<Longrightarrow> prob (game p)"
  by (simp add: game_trials prob_majority_trials prob_race list_all_length)

lemma prob_tiebreak_serves: "prob pA \<Longrightarrow> prob pB \<Longrightarrow> list_all prob (tiebreak_serves pA pB)"
  by (auto simp: tiebreak_serves_def list_all_iff)

lemma prob_set_serves: "prob hA \<Longrightarrow> prob hB \<Longrightarrow> list_all prob (set_serves hA hB i j)"
  by (auto simp: set_serves_def list_all_iff)

lemma prob_tiebreak: "prob pA \<Longrightarrow> prob pB \<Longrightarrow> prob (tiebreak pA pB)"
  by (simp add: tiebreak_trials prob_majority_trials prob_race prob_tiebreak_serves)

lemma prob_six_all: "prob pA \<Longrightarrow> prob pB \<Longrightarrow> prob (six_all pA pB adv)"
  by (simp add: six_all_def prob_race prob_tiebreak)

lemma prob_set_prob: "prob pA \<Longrightarrow> prob pB \<Longrightarrow> prob (set_prob pA pB adv)"
  by (simp add: set_trials prob_majority_trials prob_set_serves prob_game prob_six_all)

lemma match_prob_cases:
  obtains k where "\<And>s d. match_prob s d (format_sets f) = trials (replicate (2 * k) s) (majority k d) 0"
proof (cases "BestOf f = 5")
  case True
  then show ?thesis using that [of 2] by (simp add: format_sets_def match_trials5 eval_nat_numeral)
next
  case False
  then show ?thesis using that [of 1] by (simp add: format_sets_def match_trials3 eval_nat_numeral)
qed

lemma prob_match_prob: "prob s \<Longrightarrow> prob d \<Longrightarrow> prob (match_prob s d (format_sets f))"
  by (rule match_prob_cases [of f]) (simp add: prob_majority_trials list_all_length)

section \<open>Monotonicity\<close>

lemma majority_trials_mono:
  assumes "list_all2 (\<le>) ps qs" and "list_all prob ps" and "list_all prob qs" and "t \<le> t'" and "prob t"
  shows "trials ps (majority k t) a \<le> trials qs (majority k t') a"
  using assms by (intro trials_mono) (auto intro: majority_mono majority_le)

lemma game_mono:
  assumes "prob p" "prob q" "p \<le> q"
  shows "game p \<le> game q"
proof -
  have "twoPointRace p (1 - p) \<le> twoPointRace q (1 - q)"
    using assms by (intro race_mono) (auto simp: prob_def)
  then show ?thesis unfolding game_trials using assms
    by (intro majority_trials_mono) (auto simp: list_all2_conv_all_nth list_all_length prob_race)
qed

lemma serve_race_mono:
  assumes "prob x" "prob x'" "prob y" "prob y'" "x \<le> x'" "y' \<le> y"
  shows "twoPointRace (x * (1 - y)) ((1 - x) * y) \<le> twoPointRace (x' * (1 - y')) ((1 - x') * y')"
  using assms by (intro race_mono) (auto simp: prob_def intro!: mult_mono)

lemma tiebreak_mono:
  assumes "prob pA" "prob pA'" "prob pB" "prob pB'" "pA \<le> pA'" "pB' \<le> pB"
  shows "tiebreak pA pB \<le> tiebreak pA' pB'"
proof -
  have "list_all2 (\<le>) (tiebreak_serves pA pB) (tiebreak_serves pA' pB')"
    using assms by (simp add: tiebreak_serves_def list_all2_conv_all_nth)
  then show ?thesis unfolding tiebreak_trials
    using assms by (intro majority_trials_mono) (auto simp: prob_tiebreak_serves prob_race intro: serve_race_mono)
qed

lemma six_all_mono:
  assumes "prob pA" "prob pA'" "prob pB" "prob pB'" "pA \<le> pA'" "pB' \<le> pB"
  shows "six_all pA pB adv \<le> six_all pA' pB' adv"
  using assms by (auto simp: six_all_def intro!: tiebreak_mono serve_race_mono prob_game game_mono)

lemma set_prob_mono:
  assumes "prob pA" "prob pA'" "prob pB" "prob pB'" "pA \<le> pA'" "pB' \<le> pB"
  shows "set_prob pA pB adv \<le> set_prob pA' pB' adv"
proof -
  have g: "game pA \<le> game pA'" "game pB' \<le> game pB"
    using assms by (auto intro: game_mono)
  have five: "trials [game pA, 1 - game pB] (majority 6 (six_all pA pB adv)) 5
      \<le> trials [game pA', 1 - game pB'] (majority 6 (six_all pA' pB' adv)) 5"
    using g assms by (intro majority_trials_mono) (auto simp: prob_game prob_six_all intro: six_all_mono)
  have games: "list_all2 (\<le>) (set_serves (game pA) (game pB) 0 10)
      (set_serves (game pA') (game pB') 0 10)"
    using g by (simp add: set_serves_def list_all2_conv_all_nth)
  show ?thesis unfolding set_trials
    by (rule majority_trials_mono [OF games _ _ five])
      (use assms in \<open>simp_all add: prob_set_serves prob_game prob_six_all prob_majority_trials\<close>)
qed

text \<open>Player A's chance of the match, the first component of \<open>Match\<close>.\<close>

definition match_win :: "real \<Rightarrow> real \<Rightarrow> format \<Rightarrow> real" where
  "match_win pA pB f = fst (MatchP (solve pA pB f))"

lemma match_win_eq:
  "match_win pA pB f = match_prob (set_prob pA pB False) (set_prob pA pB (FinalSetAdvantage f)) (format_sets f)"
  by (simp add: match_win_def solve_def Let_def)

lemma match_win_mono:
  assumes "prob pA" "prob pA'" "prob pB" "prob pB'" "pA \<le> pA'" "pB' \<le> pB"
  shows "match_win pA pB f \<le> match_win pA' pB' f"
proof (rule match_prob_cases [of f])
  fix k assume eq: "\<And>s d. match_prob s d (format_sets f) = trials (replicate (2 * k) s) (majority k d) 0"
  show ?thesis unfolding match_win_eq eq
    using assms by (intro majority_trials_mono)
      (auto simp: list_all2_conv_all_nth list_all_length prob_set_prob intro: set_prob_mono)
qed

section \<open>Symmetry\<close>

lemma majority_order:
  "mset ps = mset (map (\<lambda>p. 1 - p) qs) \<Longrightarrow> length qs = 2 * k \<Longrightarrow>
     trials ps (majority k (1 - tie)) 0 = 1 - trials qs (majority k tie) 0"
  using trials_order [of ps "map (\<lambda>p. 1 - p) qs"] trials_majority_flip [of qs k tie] by simp

lemma tiebreak_mirror: "tiebreak pB pA = 1 - tiebreak pA pB"
proof -
  have "mset (tiebreak_serves pB pA) = mset (map (\<lambda>p. 1 - p) (tiebreak_serves pA pB))"
    by (simp add: tiebreak_serves_def serverIsA_def upt_rec)
  moreover have "twoPointRace (pB * (1 - pA)) ((1 - pB) * pA)
      = 1 - twoPointRace (pA * (1 - pB)) ((1 - pA) * pB)"
    using race_flip [of "(1 - pA) * pB" "pA * (1 - pB)"] by (simp add: mult.commute)
  ultimately show ?thesis unfolding tiebreak_trials
    by (simp add: majority_order tiebreak_serves_def)
qed

lemma six_all_mirror: "six_all pB pA adv = 1 - six_all pA pB adv"
  using race_flip [of "(1 - game pA) * game pB" "game pA * (1 - game pB)"]
  by (simp add: six_all_def tiebreak_mirror [of pB pA] mult.commute)

lemma set_prob_mirror: "set_prob pB pA adv = 1 - set_prob pA pB adv"
proof -
  let ?a = "game pA" and ?b = "game pB"
  have "trials [?b, 1 - ?a] (majority 6 (1 - six_all pA pB adv)) 5
      = 1 - trials [?a, 1 - ?b] (majority 6 (six_all pA pB adv)) 5"
    by (simp add: trials_first trial_def majority_def algebra_simps)
  moreover have "mset (set_serves ?b ?a 0 10) = mset (map (\<lambda>p. 1 - p) (set_serves ?a ?b 0 10))"
    by (simp add: set_serves_def upt_rec)
  ultimately show ?thesis unfolding set_trials six_all_mirror [of pB pA]
    by (simp add: majority_order set_serves_def)
qed

lemma match_win_mirror: "match_win pB pA f = 1 - match_win pA pB f"
proof (rule match_prob_cases [of f])
  fix k assume eq: "\<And>s d. match_prob s d (format_sets f) = trials (replicate (2 * k) s) (majority k d) 0"
  show ?thesis unfolding match_win_eq eq set_prob_mirror [of pB pA]
    using trials_majority_flip [of "replicate (2 * k) (set_prob pA pB False)" k] by simp
qed

section \<open>Bisection\<close>

lemma bisect_width: "bisect below n lo hi = (l, h) \<Longrightarrow> h - l = (hi - lo) / 2 ^ n"
proof (induction n arbitrary: lo hi)
  case (Suc n)
  let ?mid = "(lo + hi) / 2"
  have "h - l = (hi - ?mid) / 2 ^ n \<or> h - l = (?mid - lo) / 2 ^ n"
    using Suc by (cases "below ?mid") (auto simp: Let_def)
  moreover have "hi - ?mid = (hi - lo) / 2" and "?mid - lo = (hi - lo) / 2"
    by (simp_all add: field_simps)
  ultimately show ?case by auto
qed simp

lemma bisect_within: "bisect below n lo hi = (l, h) \<Longrightarrow> lo \<le> hi \<Longrightarrow> lo \<le> l \<and> l \<le> h \<and> h \<le> hi"
proof (induction n arbitrary: lo hi)
  case (Suc n)
  then show ?case
    using Suc.IH [of "(lo + hi) / 2" hi] Suc.IH [of lo "(lo + hi) / 2"]
    by (auto simp: Let_def split: if_splits)
qed simp

lemma bisect_ends:
  "bisect below n lo hi = (l, h) \<Longrightarrow> (l = lo \<or> below l) \<and> (h = hi \<or> \<not> below h)"
proof (induction n arbitrary: lo hi)
  case (Suc n)
  then show ?case
    using Suc.IH [of "(lo + hi) / 2" hi] Suc.IH [of lo "(lo + hi) / 2"]
    by (cases "below ((lo + hi) / 2)") (auto simp: Let_def)
qed simp

lemma clamp_range: "lo \<le> hi \<Longrightarrow> lo \<le> clamp v lo hi \<and> clamp v lo hi \<le> hi"
  by (simp add: clamp_def)

text \<open>The half-width of the search: the widest split the anchor allows.\<close>

definition search_spread :: "real \<Rightarrow> real" where
  "search_spread anchor0 =
     (let anchor = clamp anchor0 minServe maxServe in min (anchor - minServe) (maxServe - anchor))"

lemma search_spread_nonneg: "0 \<le> search_spread anchor0"
  using clamp_range [of minServe maxServe anchor0]
  by (simp add: search_spread_def Let_def minServe_def maxServe_def)

lemma search_points:
  assumes "\<bar>x\<bar> \<le> search_spread anchor0" and "c = clamp anchor0 minServe maxServe"
  shows "minServe \<le> c + x \<and> c + x \<le> maxServe \<and> prob (c + x)"
  using assms by (auto simp: search_spread_def Let_def minServe_def maxServe_def prob_def)

lemma match_win_split_mono:
  assumes "c = clamp anchor0 minServe maxServe" "\<bar>x\<bar> \<le> search_spread anchor0"
    "\<bar>y\<bar> \<le> search_spread anchor0" "x \<le> y"
  shows "match_win (c + x) (c - x) f \<le> match_win (c + y) (c - y) f"
  using assms search_points [of x anchor0 c] search_points [of "- x" anchor0 c]
    search_points [of y anchor0 c] search_points [of "- y" anchor0 c]
  by (intro match_win_mono) auto

text \<open>The two figures the search returns average to the clamped anchor, inside the bounds.\<close>

lemma invert_bounds:
  assumes "invert target anchor f = (pA, pB, achieved)" and c: "c = clamp anchor minServe maxServe"
  shows "pA + pB = 2 * c" "minServe \<le> pA \<and> pA \<le> maxServe \<and> minServe \<le> pB \<and> pB \<le> maxServe"
    "achieved = fst (MatchP (solve pA pB f))"
proof -
  define spread where "spread = search_spread anchor"
  let ?below = "\<lambda>mid. match_win (c + mid) (c - mid) f < target"
  obtain l h where lh: "bisect ?below 60 (- spread) spread = (l, h)" by fastforce
  let ?d = "(l + h) / 2"
  have res: "pA = c + ?d" "pB = c - ?d" "achieved = match_win (c + ?d) (c - ?d) f"
    using assms(1) lh
    by (auto simp: invert_def c spread_def search_spread_def Let_def match_win_def invertSteps_def)
  have "0 \<le> spread" using search_spread_nonneg spread_def by simp
  then have "\<bar>?d\<bar> \<le> spread" using bisect_within [OF lh] by (simp add: abs_le_iff)
  then show "minServe \<le> pA \<and> pA \<le> maxServe \<and> minServe \<le> pB \<and> pB \<le> maxServe"
    using search_points [of ?d anchor c] search_points [of "- ?d" anchor c] spread_def c res by simp
  show "pA + pB = 2 * c" "achieved = fst (MatchP (solve pA pB f))"
    using res by (simp_all add: match_win_def)
qed

section \<open>Properties\<close>

text \<open>
  the closed form of \<open>Game\<close> is the game played point by point: first to four points with a
  two-point race from three-all. That race value is the one that solves deuce, where the server
  wins two points in a row, loses two, or is back at deuce.
\<close>

theorem game_is_point_recursion:
  "game p = game_from p 0 0 \<and>
   twoPointRace p (1 - p) = p * p + 2 * p * (1 - p) * twoPointRace p (1 - p)"
proof
  show "game p = game_from p 0 0" using game_from_trials [of 0 0 p] by (simp add: game_trials)
next
  let ?q = "1 - p" and ?t = "p * p + (1 - p) * (1 - p)"
  have nz: "p \<noteq> 0 \<or> ?q \<noteq> 0" by auto
  then have t: "?t \<noteq> 0" using sum_squares_zero [of p ?q] by blast
  have "twoPointRace p ?q * ?t = p * p" using t nz by (simp add: race_quotient)
  moreover have "?t = 1 - 2 * p * ?q" by (simp add: algebra_simps)
  ultimately show "twoPointRace p ?q = p * p + 2 * p * ?q * twoPointRace p ?q"
    by (metis add.commute diff_add_cancel mult.commute mult.right_neutral right_diff_distrib)
qed

text \<open>
  Every rung of the chain is a probability when the two serve figures are, and the set and the
  match shares of the two players add up to one.
\<close>

theorem chain_probabilities:
  assumes "prob pA" and "prob pB"
  shows "prob (fst (Hold (solve pA pB f))) \<and> prob (snd (Hold (solve pA pB f))) \<and>
    prob (fst (SetP (solve pA pB f))) \<and> prob (fst (MatchP (solve pA pB f))) \<and>
    fst (SetP (solve pA pB f)) + snd (SetP (solve pA pB f)) = 1 \<and>
    fst (MatchP (solve pA pB f)) + snd (MatchP (solve pA pB f)) = 1"
  using assms by (simp add: solve_def Let_def prob_game prob_set_prob prob_match_prob)

theorem chain_probabilities_witness:
  "prob (fst (MatchP (solve (65 / 100) (63 / 100) \<lparr>BestOf = 5, FinalSetAdvantage = True\<rparr>)))"
  using chain_probabilities [of "65 / 100" "63 / 100" "\<lparr>BestOf = 5, FinalSetAdvantage = True\<rparr>"]
  by (simp add: prob_def)

text \<open>
  Winning more points on serve never wins fewer matches, and neither does meeting a weaker
  server, under either format and either deciding set.
\<close>

theorem match_monotone:
  assumes "prob pA" "prob pA'" "prob pB" "prob pB'" and "pA \<le> pA'" and "pB' \<le> pB"
  shows "fst (MatchP (solve pA pB f)) \<le> fst (MatchP (solve pA' pB' f))"
  using match_win_mono [OF assms] by (simp add: match_win_def)

theorem match_monotone_witness:
  "fst (MatchP (solve (63 / 100) (65 / 100) \<lparr>BestOf = 3, FinalSetAdvantage = False\<rparr>))
     \<le> fst (MatchP (solve (65 / 100) (63 / 100) \<lparr>BestOf = 3, FinalSetAdvantage = False\<rparr>))"
  using match_monotone [of "63 / 100" "65 / 100" "65 / 100" "63 / 100"] by (simp add: prob_def)

text \<open>
  Who serves first is worth nothing. Swapping the players, which also swaps who serves first,
  mirrors the tiebreak, the set of either kind and the match exactly, for all serve figures.
\<close>

theorem swapping_mirrors:
  "tiebreak pB pA = 1 - tiebreak pA pB \<and> set_prob pB pA adv = 1 - set_prob pA pB adv \<and>
   MatchP (solve pB pA f) = (snd (MatchP (solve pA pB f)), fst (MatchP (solve pA pB f)))"
proof (intro conjI)
  show "tiebreak pB pA = 1 - tiebreak pA pB" by (rule tiebreak_mirror)
  show "set_prob pB pA adv = 1 - set_prob pA pB adv" by (rule set_prob_mirror)
  have "MatchP (solve x y f) = (match_win x y f, 1 - match_win x y f)" for x y
    by (simp add: match_win_def solve_def Let_def)
  then show "MatchP (solve pB pA f) = (snd (MatchP (solve pA pB f)), fst (MatchP (solve pA pB f)))"
    using match_win_mirror [of pB pA f] by simp
qed

text \<open>
  C7: the bisection of \<open>Invert\<close> closes in on the target. The two figures it returns average to the
  clamped anchor and stay inside the bounds, the third result is the match probability they really
  give, and half their difference lies in an interval of \<open>2 * spread / 2^60\<close> below which every split
  of the anchor falls short of the target and above which none does.
\<close>

theorem invert_brackets_target:
  assumes "invert target anchor f = (pA, pB, achieved)"
    and c: "c = clamp anchor minServe maxServe" and s: "spread = search_spread anchor"
  shows "pA + pB = 2 * c \<and>
    (minServe \<le> pA \<and> pA \<le> maxServe \<and> minServe \<le> pB \<and> pB \<le> maxServe) \<and>
    achieved = fst (MatchP (solve pA pB f)) \<and>
    (\<exists>l h. l \<le> (pA - pB) / 2 \<and> (pA - pB) / 2 \<le> h \<and> h - l = 2 * spread / 2 ^ 60 \<and>
       (\<forall>x. - spread \<le> x \<and> x < l \<longrightarrow> fst (MatchP (solve (c + x) (c - x) f)) < target) \<and>
       (\<forall>x. h < x \<and> x \<le> spread \<longrightarrow> target \<le> fst (MatchP (solve (c + x) (c - x) f))))"
proof -
  let ?below = "\<lambda>mid. match_win (c + mid) (c - mid) f < target"
  obtain l h where lh: "bisect ?below 60 (- spread) spread = (l, h)" by fastforce
  let ?d = "(l + h) / 2"
  have res: "pA = c + ?d" "pB = c - ?d" "achieved = match_win (c + ?d) (c - ?d) f"
    using assms(1) lh
    by (auto simp: invert_def c s search_spread_def Let_def match_win_def invertSteps_def)
  have s0: "0 \<le> spread" using search_spread_nonneg s by simp
  then have in_range: "- spread \<le> l" "l \<le> h" "h \<le> spread"
    using bisect_within [OF lh] by auto
  note bounds = invert_bounds(2) [OF assms(1) c] and sums = invert_bounds(1,3) [OF assms(1) c]
  have low: "match_win (c + x) (c - x) f < target" if "- spread \<le> x" "x < l" for x
  proof -
    have "?below l" using bisect_ends [OF lh] that by auto
    then show ?thesis
      using match_win_split_mono [of c anchor x l f] that in_range c s by (simp add: abs_le_iff)
  qed
  have high: "target \<le> match_win (c + x) (c - x) f" if "h < x" "x \<le> spread" for x
  proof -
    have "\<not> ?below h" using bisect_ends [OF lh] that by auto
    then show ?thesis
      using match_win_split_mono [of c anchor h x f] that in_range c s by (simp add: abs_le_iff)
  qed
  have "h - l = 2 * spread / 2 ^ 60" using bisect_width [OF lh] by simp
  moreover have "(pA - pB) / 2 = ?d" using res by simp
  ultimately have "\<exists>l h. l \<le> (pA - pB) / 2 \<and> (pA - pB) / 2 \<le> h \<and> h - l = 2 * spread / 2 ^ 60 \<and>
       (\<forall>x. - spread \<le> x \<and> x < l \<longrightarrow> fst (MatchP (solve (c + x) (c - x) f)) < target) \<and>
       (\<forall>x. h < x \<and> x \<le> spread \<longrightarrow> target \<le> fst (MatchP (solve (c + x) (c - x) f)))"
    using in_range low high by (intro exI [of _ l] exI [of _ h]) (simp add: match_win_def)
  then show ?thesis using sums bounds by blast
qed

theorem invert_brackets_target_witness:
  "fst (invert (3 / 4) (62 / 100) \<lparr>BestOf = 5, FinalSetAdvantage = False\<rparr>)
     + fst (snd (invert (3 / 4) (62 / 100) \<lparr>BestOf = 5, FinalSetAdvantage = False\<rparr>)) = 124 / 100"
proof -
  let ?f = "\<lparr>BestOf = 5, FinalSetAdvantage = False\<rparr>"
  obtain pA pB a where r: "invert (3 / 4) (62 / 100) ?f = (pA, pB, a)" by (rule prod_cases3)
  then show ?thesis
    using invert_brackets_target [OF r refl refl] by (simp add: clamp_def minServe_def maxServe_def)
qed

text \<open>
  At six-all the code overstates the better player. From six-all the players serve one point
  (or one game, in an advantage set) each; \<open>w\<close> is the chance one of them wins both and \<open>l\<close> the
  chance the other does, so the value of the race is the \<open>x\<close> with \<open>x = w + (1 - w - l) x\<close>, which is
  \<open>w / (w + l)\<close>. \<open>Tiebreak\<close> and \<open>Set\<close> hand \<open>w\<close> and \<open>l\<close> to \<open>twoPointRace\<close>, which squares them once
  more, and the result is strictly above that value whenever \<open>w\<close> exceeds \<open>l\<close>.
\<close>

theorem six_all_race_overstates:
  assumes "prob pA" and "prob pB" and w: "w = pA * (1 - pB)" and l: "l = (1 - pA) * pB"
    and "0 < l" and "l < w"
  shows "(x = w + (1 - w - l) * x) = (x = w / (w + l)) \<and> w / (w + l) < tiebreak_from pA pB 6 6"
proof
  have pos: "0 < w + l" using assms by linarith
  then show "(x = w + (1 - w - l) * x) = (x = w / (w + l))"
    by (auto simp: field_simps)
  have "w * (w * w + l * l) < w * w * (w + l)"
    using assms(5,6) by (simp add: algebra_simps mult_strict_left_mono)
  moreover have "0 < w * w + l * l" using assms(5,6) by (simp add: add_pos_pos)
  ultimately have "w / (w + l) < w * w / (w * w + l * l)"
    using pos by (simp add: pos_divide_less_eq pos_less_divide_eq mult.commute)
  moreover have "twoPointRace w l = w * w / (w * w + l * l)"
    using assms(5) by (intro race_quotient) simp
  moreover have "tiebreak_from pA pB 6 6 = twoPointRace w l"
    by (subst tiebreak_from.simps) (simp add: w l)
  ultimately show "w / (w + l) < tiebreak_from pA pB 6 6" by simp
qed

theorem six_all_race_overstates_witness:
  "tiebreak_from (7 / 10) (6 / 10) 6 6 = 196 / 277 \<and> (28 :: real) / 46 < tiebreak_from (7 / 10) (6 / 10) 6 6"
proof
  show "tiebreak_from (7 / 10) (6 / 10) 6 6 = 196 / 277"
    by (subst tiebreak_from.simps) (simp add: twoPointRace_def Let_def)
  show "(28 :: real) / 46 < tiebreak_from (7 / 10) (6 / 10) 6 6"
    using six_all_race_overstates [of "7 / 10" "6 / 10" "28 / 100" "18 / 100"] by (simp add: prob_def)
qed

end
