(* ===== verification/SimAnchor.thy ===== *)
theory SimAnchor
  imports Prelude Complex_Main
begin

text \<open>
  The serve anchor of internal/simulate/anchor.go: the rate of service points won that the
  inversion is pinned on, pooled from the baseline cells of one tour. The lookup widens from the
  tier, surface and decade asked for to the whole tour until it has enough points. The totals are
  \<open>int64\<close> sums and wrap; the quotient is a real number.
\<close>

record baseline =
  BTier :: string
  BSurface :: string
  BDecade :: int
  ServePoints :: int
  ServeWon :: int

datatype scope = ScopeExact | ScopeSurface | ScopeTier | ScopeTour | ScopeNone

definition minAnchorPoints :: int where "minAnchorPoints = 1000"

text \<open>The candidates in the order of the code, each scope with its \<open>match\<close>.\<close>

definition candidates :: "string \<Rightarrow> string \<Rightarrow> int \<Rightarrow> (scope \<times> (baseline \<Rightarrow> bool)) list" where
  "candidates tier surface decade =
     [(ScopeExact, \<lambda>b. BTier b = tier \<and> BSurface b = surface \<and> BDecade b = decade),
      (ScopeSurface, \<lambda>b. BTier b = tier \<and> BSurface b = surface),
      (ScopeTier, \<lambda>b. BTier b = tier),
      (ScopeTour, \<lambda>b. True)]"

definition pool :: "(baseline \<Rightarrow> bool) \<Rightarrow> baseline list \<Rightarrow> int \<times> int" where
  "pool match cells =
     fold (\<lambda>b (won, total).
       if match b then (wrap64 (won + ServeWon b), wrap64 (total + ServePoints b))
       else (won, total)) cells (0, 0)"

fun anchor_loop :: "baseline list \<Rightarrow> (scope \<times> (baseline \<Rightarrow> bool)) list \<Rightarrow> real \<times> scope \<times> int" where
  "anchor_loop cells [] = (0, ScopeNone, 0)"
| "anchor_loop cells ((sc, match) # rest) =
     (let (won, total) = pool match cells in
      if minAnchorPoints \<le> total \<or> sc = ScopeTour \<and> 0 < total
      then (of_int won / of_int total, sc, total)
      else anchor_loop cells rest)"

definition anchor :: "baseline list \<Rightarrow> string \<Rightarrow> string \<Rightarrow> int \<Rightarrow> real \<times> scope \<times> int" where
  "anchor cells tier surface decade = anchor_loop cells (candidates tier surface decade)"

section \<open>The population of a scope\<close>

text \<open>What each scope pools, and its totals without the wrap.\<close>

fun in_scope :: "string \<Rightarrow> string \<Rightarrow> int \<Rightarrow> scope \<Rightarrow> baseline \<Rightarrow> bool" where
  "in_scope tier surface decade ScopeExact b \<longleftrightarrow> BTier b = tier \<and> BSurface b = surface \<and> BDecade b = decade"
| "in_scope tier surface decade ScopeSurface b \<longleftrightarrow> BTier b = tier \<and> BSurface b = surface"
| "in_scope tier surface decade ScopeTier b \<longleftrightarrow> BTier b = tier"
| "in_scope tier surface decade ScopeTour b \<longleftrightarrow> True"
| "in_scope tier surface decade ScopeNone b \<longleftrightarrow> False"

fun width :: "scope \<Rightarrow> nat" where
  "width ScopeExact = 0" | "width ScopeSurface = 1" | "width ScopeTier = 2"
| "width ScopeTour = 3" | "width ScopeNone = 4"

instantiation scope :: linorder
begin

definition less_eq_scope :: "scope \<Rightarrow> scope \<Rightarrow> bool" where
  "less_eq_scope a b \<longleftrightarrow> width a \<le> width b"

definition less_scope :: "scope \<Rightarrow> scope \<Rightarrow> bool" where
  "less_scope a b \<longleftrightarrow> width a < width b"

instance
proof
  fix a b :: scope
  show "a \<le> b \<Longrightarrow> b \<le> a \<Longrightarrow> a = b"
    by (cases a; cases b) (simp_all add: less_eq_scope_def)
qed (auto simp: less_eq_scope_def less_scope_def)

end

definition points_in :: "(baseline \<Rightarrow> bool) \<Rightarrow> baseline list \<Rightarrow> int" where
  "points_in match cells = (\<Sum>b \<leftarrow> filter match cells. ServePoints b)"

definition won_in :: "(baseline \<Rightarrow> bool) \<Rightarrow> baseline list \<Rightarrow> int" where
  "won_in match cells = (\<Sum>b \<leftarrow> filter match cells. ServeWon b)"

text \<open>Cells as the database holds them: no cell wins more points than it served, and the points
  of a tour fit a signed 64-bit integer.\<close>

definition wf_cells :: "baseline list \<Rightarrow> bool" where
  "wf_cells cells \<longleftrightarrow>
     list_all (\<lambda>b. 0 \<le> ServeWon b \<and> ServeWon b \<le> ServePoints b) cells
     \<and> (\<Sum>b \<leftarrow> cells. ServePoints b) < 2 ^ 63"

lemma pool_exact_aux:
  assumes "list_all (\<lambda>b. 0 \<le> ServeWon b \<and> ServeWon b \<le> ServePoints b) cells"
    and "0 \<le> w" "w \<le> t" "t + (\<Sum>b \<leftarrow> cells. ServePoints b) < 2 ^ 63"
  shows "fold (\<lambda>b (won, total).
       if match b then (wrap64 (won + ServeWon b), wrap64 (total + ServePoints b))
       else (won, total)) cells (w, t) = (w + won_in match cells, t + points_in match cells)"
  using assms
proof (induction cells arbitrary: w t)
  case Nil
  then show ?case by (simp add: won_in_def points_in_def)
next
  case (Cons b cells)
  have "0 \<le> (\<Sum>b \<leftarrow> cells. ServePoints b)"
    using Cons.prems(1) by (intro sum_list_nonneg) (auto simp: list_all_iff)
  with Cons.prems show ?case
    by (auto simp: Cons.IH won_in_def points_in_def wrap64_def)
qed

lemma pool_exact: "wf_cells cells \<Longrightarrow> pool match cells = (won_in match cells, points_in match cells)"
  using pool_exact_aux [of cells 0 0 match] by (simp add: pool_def wf_cells_def)

lemma pooled_bounds:
  assumes "wf_cells cells"
  shows "0 \<le> won_in match cells" "won_in match cells \<le> points_in match cells"
proof -
  have all: "list_all (\<lambda>b. 0 \<le> ServeWon b \<and> ServeWon b \<le> ServePoints b) cells"
    using assms by (simp add: wf_cells_def)
  then show "0 \<le> won_in match cells"
    unfolding won_in_def by (intro sum_list_nonneg) (auto simp: list_all_iff)
  show "won_in match cells \<le> points_in match cells"
    using all by (auto simp: won_in_def points_in_def list_all_iff intro!: sum_list_mono)
qed

lemma points_mono:
  assumes "wf_cells cells" and "\<And>b. p b \<Longrightarrow> q b"
  shows "points_in p cells \<le> points_in q cells"
proof -
  have "list_all (\<lambda>b. 0 \<le> ServePoints b) cells"
    using assms(1) by (auto simp: wf_cells_def list_all_iff)
  then show ?thesis
    using assms(2) by (induction cells) (auto simp: points_in_def intro: add_increasing)
qed

lemma in_scope_nested:
  "a \<le> c \<Longrightarrow> c \<noteq> ScopeNone \<Longrightarrow> in_scope tier surface decade a b \<Longrightarrow> in_scope tier surface decade c b"
  by (cases a; cases c) (auto simp: less_eq_scope_def)

lemma anchor_cases:
  fixes tier surface :: string and decade :: int
  assumes wf: "wf_cells cells"
  defines "ps \<equiv> \<lambda>sc. points_in (in_scope tier surface decade sc) cells"
    and "ws \<equiv> \<lambda>sc. won_in (in_scope tier surface decade sc) cells"
  shows "anchor cells tier surface decade =
     (if 1000 \<le> ps ScopeExact then (of_int (ws ScopeExact) / of_int (ps ScopeExact), ScopeExact, ps ScopeExact)
      else if 1000 \<le> ps ScopeSurface then (of_int (ws ScopeSurface) / of_int (ps ScopeSurface), ScopeSurface, ps ScopeSurface)
      else if 1000 \<le> ps ScopeTier then (of_int (ws ScopeTier) / of_int (ps ScopeTier), ScopeTier, ps ScopeTier)
      else if 0 < ps ScopeTour then (of_int (ws ScopeTour) / of_int (ps ScopeTour), ScopeTour, ps ScopeTour)
      else (0, ScopeNone, 0))"
  by (auto simp: anchor_def candidates_def pool_exact [OF wf] minAnchorPoints_def ps_def ws_def
        in_scope.simps [abs_def])

text \<open>
  The anchor is the rate of the narrowest population with a thousand points, or of the whole
  tour when none has that many. The rate is a probability with the points of the named scope behind
  it, every narrower scope is too thin, and no anchor is given only for a tour without points.
\<close>

theorem anchor_is_narrowest:
  assumes wf: "wf_cells cells" and eq: "anchor cells tier surface decade = (rate, sc, n)"
  shows "0 \<le> rate \<and> rate \<le> 1 \<and> n = points_in (in_scope tier surface decade sc) cells
     \<and> rate * of_int n = of_int (won_in (in_scope tier surface decade sc) cells)
     \<and> (\<forall>s < sc. points_in (in_scope tier surface decade s) cells < minAnchorPoints)
     \<and> (n < minAnchorPoints \<longrightarrow> ScopeTour \<le> sc)
     \<and> (sc = ScopeNone \<longleftrightarrow> points_in (\<lambda>b. True) cells = 0)"
proof -
  let ?in = "in_scope tier surface decade"
  note bounds = pooled_bounds [OF wf]
  have tour: "?in ScopeTour = (\<lambda>b. True)" and none: "?in ScopeNone = (\<lambda>b. False)"
    by (simp_all add: fun_eq_iff)
  have empty: "points_in (\<lambda>b. False) cells = 0" "won_in (\<lambda>b. False) cells = 0"
    by (simp_all add: points_in_def won_in_def)
  have nested: "points_in (?in a) cells \<le> points_in (\<lambda>b. True) cells" for a
    by (rule points_mono [OF wf]) simp
  have total: "0 \<le> points_in (\<lambda>b. True) cells"
    using bounds [of "\<lambda>b. True"] by linarith
  have ratio: "0 \<le> real_of_int (won_in p cells) / real_of_int (points_in p cells)
      \<and> real_of_int (won_in p cells) / real_of_int (points_in p cells) \<le> 1" for p
    using bounds [of p] by (auto simp: divide_le_eq_1)
  have narrower: "(\<forall>s < c. P s) \<longleftrightarrow> (\<forall>s \<in> {ScopeExact, ScopeSurface, ScopeTier, ScopeTour, ScopeNone}. s < c \<longrightarrow> P s)"
    for c and P :: "scope \<Rightarrow> bool"
  proof -
    have "s \<in> {ScopeExact, ScopeSurface, ScopeTier, ScopeTour, ScopeNone}" for s
      by (cases s) simp_all
    then show ?thesis by blast
  qed
  have fits: "0 \<le> rate \<and> rate \<le> 1 \<and> rate * of_int n = of_int (won_in (?in sc) cells)"
    if "rate = of_int (won_in (?in sc) cells) / of_int (points_in (?in sc) cells)"
      and "n = points_in (?in sc) cells" and "0 < n"
    using that ratio by auto
  show ?thesis
  proof (cases "sc = ScopeNone")
    case True
    then show ?thesis
      using eq total nested [of ScopeExact] nested [of ScopeSurface] nested [of ScopeTier]
      unfolding anchor_cases [OF wf] narrower
      by (auto simp: tour none empty less_scope_def less_eq_scope_def minAnchorPoints_def split: if_splits)
  next
    case False
    then have n: "n = points_in (?in sc) cells" "0 < n"
      and rate: "rate = of_int (won_in (?in sc) cells) / of_int (points_in (?in sc) cells)"
      using eq unfolding anchor_cases [OF wf] by (auto split: if_splits)
    have thin: "\<forall>s < sc. points_in (?in s) cells < minAnchorPoints"
      using eq False unfolding anchor_cases [OF wf] narrower
      by (auto simp: less_scope_def minAnchorPoints_def split: if_splits)
    have wide: "n < minAnchorPoints \<longrightarrow> ScopeTour \<le> sc"
      using eq False unfolding anchor_cases [OF wf]
      by (auto simp: less_eq_scope_def minAnchorPoints_def split: if_splits)
    have some: "points_in (\<lambda>b. True) cells \<noteq> 0"
      using n nested [of sc] by linarith
    show ?thesis using fits [OF rate n(1,2)] n(1) thin wide some False by blast
  qed
qed

lemma anchor_is_narrowest_witness:
  "0 \<le> (31 / 50 :: real) \<and> points_in (in_scope ''G'' ''Hard'' 2020 ScopeSurface)
     [\<lparr>BTier = ''G'', BSurface = ''Hard'', BDecade = 2020, ServePoints = 900, ServeWon = 540\<rparr>,
      \<lparr>BTier = ''G'', BSurface = ''Hard'', BDecade = 2010, ServePoints = 1100, ServeWon = 700\<rparr>] = 2000"
  using anchor_is_narrowest
      [of "[\<lparr>BTier = ''G'', BSurface = ''Hard'', BDecade = 2020, ServePoints = 900, ServeWon = 540\<rparr>,
            \<lparr>BTier = ''G'', BSurface = ''Hard'', BDecade = 2010, ServePoints = 1100, ServeWon = 700\<rparr>]"
          "''G''" "''Hard''" 2020 "31 / 50" ScopeSurface 2000]
  by (simp add: wf_cells_def anchor_def candidates_def pool_def wrap64_def minAnchorPoints_def)

end
