(* ===== verification/SimBracket.thy ===== *)
theory SimBracket
  imports Prelude
begin

text \<open>
  Draw reconstruction, internal/simulate/draw.go: the entrants of a knock-out draw in bracket
  order, found by walking down from the final. Player ids are integers and the zero id is a bye.
  The map of players is a function to \<open>option\<close> and a missing key reads as the zero entrant, as a
  Go map does.
\<close>

record bracket_match =
  Round :: string
  RoundIdx :: int
  WinnerID :: int
  LoserID :: int

record entrant =
  PlayerID :: int
  ESlug :: string
  EName :: string
  Seed :: "int option"

definition no_entrant :: entrant where
  "no_entrant = \<lparr>PlayerID = 0, ESlug = [], EName = [], Seed = None\<rparr>"

definition is_bye :: "entrant \<Rightarrow> bool" where
  "is_bye e \<longleftrightarrow> PlayerID e = 0"

record bracket =
  Entrants :: "entrant list"
  Byes :: nat
  Rounds :: "string list"
  Champion :: int

definition bracket_size :: "bracket \<Rightarrow> nat" where
  "bracket_size b = length (Entrants b)"

definition entered :: "bracket \<Rightarrow> int" where
  "entered b = int (length (Entrants b)) - int (Byes b)"

datatype draw_error =
    ErrNoMatches
  | ErrNotPowerOfTwo string int int
  | ErrBrokenTree string int
  | ErrUnreached int int

definition lookup :: "(int \<Rightarrow> entrant option) \<Rightarrow> int \<Rightarrow> entrant" where
  "lookup players p = (case players p of None \<Rightarrow> no_entrant | Some e \<Rightarrow> e)"

text \<open>The loop over the rounds in order: \<open>want\<close> halves, and the first round may be short.\<close>

fun round_sizes :: "bool \<Rightarrow> int \<Rightarrow> bracket_match list list \<Rightarrow> draw_error + string list" where
  "round_sizes first want [] = Inr []"
| "round_sizes first want (ms # rest) =
     (let n = int (length ms) in
      if want < n \<or> \<not> first \<and> n \<noteq> want then Inl (ErrNotPowerOfTwo (Round (hd ms)) n want)
      else case round_sizes False (want div 2) rest of
             Inl e \<Rightarrow> Inl e
           | Inr names \<Rightarrow> Inr (Round (hd ms) # names))"

text \<open>\<open>wonBy[round]\<close>: a later match of the same winner replaces an earlier one.\<close>

definition won_by :: "bracket_match list \<Rightarrow> int \<Rightarrow> bracket_match option" where
  "won_by ms = fold (\<lambda>m w. w(WinnerID m \<mapsto> m)) ms Map.empty"

text \<open>\<open>walk\<close> appends the lines under the match \<open>winner\<close> won to \<open>entrants\<close> and counts the byes.\<close>

fun walk :: "(int \<Rightarrow> entrant option) \<Rightarrow> bracket_match list list \<Rightarrow> string list \<Rightarrow> nat \<Rightarrow> int
    \<Rightarrow> entrant list \<times> nat \<Rightarrow> draw_error + (entrant list \<times> nat)" where
  "walk players groups rounds 0 winner (es, byes) =
     (case won_by (groups ! 0) winner of
        None \<Rightarrow> Inr (es @ [lookup players winner, no_entrant], byes + 1)
      | Some m \<Rightarrow> Inr (es @ [lookup players (WinnerID m), lookup players (LoserID m)], byes))"
| "walk players groups rounds (Suc depth) winner (es, byes) =
     (case won_by (groups ! Suc depth) winner of
        None \<Rightarrow> Inl (ErrBrokenTree (rounds ! Suc depth) winner)
      | Some m \<Rightarrow>
          (case walk players groups rounds depth (WinnerID m) (es, byes) of
             Inl e \<Rightarrow> Inl e
           | Inr acc \<Rightarrow> walk players groups rounds depth (LoserID m) acc))"

text \<open>The groups by round, in the order of the round index.\<close>

definition round_order :: "bracket_match list \<Rightarrow> int list" where
  "round_order ms = sort (map fst (group_by RoundIdx ms))"

definition round_groups :: "bracket_match list \<Rightarrow> bracket_match list list" where
  "round_groups ms = map (\<lambda>i. the (map_of (group_by RoundIdx ms) i)) (round_order ms)"

definition build_bracket :: "bracket_match list \<Rightarrow> (int \<Rightarrow> entrant option) \<Rightarrow> draw_error + bracket" where
  "build_bracket ms players =
     (if ms = [] then Inl ErrNoMatches
      else
        let groups = round_groups ms; n = length groups in
        case round_sizes True (wrap64 (2 ^ (n - 1))) groups of
          Inl e \<Rightarrow> Inl e
        | Inr rounds \<Rightarrow>
            let final = hd (groups ! (n - 1)) in
            case walk players groups rounds (n - 1) (WinnerID final) ([], 0) of
              Inl e \<Rightarrow> Inl e
            | Inr (es, byes) \<Rightarrow>
                if int (length es) - int byes \<noteq> int (length ms) + 1
                then Inl (ErrUnreached (int (length es) - int byes) (int (length ms) + 1))
                else Inr \<lparr>Entrants = es, Byes = byes, Rounds = rounds, Champion = WinnerID final\<rparr>)"

section \<open>Rounds and their groups\<close>

lemma round_order_set: "set (round_order ms) = RoundIdx ` set ms"
proof -
  have "fst ` set (group_by RoundIdx ms) = RoundIdx ` set ms"
    by (auto simp: image_iff group_by_iff filter_empty_conv Bex_def) 
  then show ?thesis by (simp add: round_order_def)
qed

lemma round_order_sorted: "sorted (round_order ms)" "distinct (round_order ms)"
  by (simp_all add: round_order_def distinct_group_by)

lemma round_groups_eq: "round_groups ms = map (\<lambda>i. [m \<leftarrow> ms. RoundIdx m = i]) (round_order ms)"
proof -
  have "the (map_of (group_by RoundIdx ms) i) = [m \<leftarrow> ms. RoundIdx m = i]"
    if "i \<in> set (round_order ms)" for i
    using that by (auto simp: map_of_group_by Let_def round_order_set filter_empty_conv)
  then show ?thesis by (simp add: round_groups_def)
qed

lemma length_round_groups: "length (round_groups ms) = length (round_order ms)"
  by (simp add: round_groups_def)

lemma won_by_fold:
  "fold (\<lambda>m w. w(WinnerID m \<mapsto> m)) ms w0 p =
     (case find (\<lambda>m. WinnerID m = p) (rev ms) of None \<Rightarrow> w0 p | Some m \<Rightarrow> Some m)"
proof (induction ms arbitrary: w0 rule: rev_induct)
  case (snoc m ms)
  then show ?case by simp
qed simp

lemma won_by_find: "won_by ms p = find (\<lambda>m. WinnerID m = p) (rev ms)"
  by (simp add: won_by_def won_by_fold split: option.splits)

lemma won_by_Some: "won_by ms p = Some m \<Longrightarrow> m \<in> set ms \<and> WinnerID m = p"
  by (metis (mono_tags, lifting) find_Some_iff nth_mem length_rev set_rev won_by_find)

lemma won_by_None: "won_by ms p = None \<longleftrightarrow> (\<forall>m \<in> set ms. WinnerID m \<noteq> p)"
  by (auto simp: won_by_find find_None_iff)

lemma won_by_distinct:
  "distinct (map WinnerID ms) \<Longrightarrow> m \<in> set ms \<Longrightarrow> won_by ms (WinnerID m) = Some m"
  by (cases "won_by ms (WinnerID m)")
    (auto simp: won_by_None distinct_map inj_on_def dest: won_by_Some)

section \<open>The walk\<close>

text \<open>\<open>walk\<close> threads the lines and the count. What it adds does not depend on what is there, so
  it is the append of the lines of a subtree on their own.\<close>

fun subtree :: "(int \<Rightarrow> entrant option) \<Rightarrow> bracket_match list list \<Rightarrow> string list \<Rightarrow> nat \<Rightarrow> int
    \<Rightarrow> draw_error + (entrant list \<times> nat)" where
  "subtree players groups rounds 0 winner =
     (case won_by (groups ! 0) winner of
        None \<Rightarrow> Inr ([lookup players winner, no_entrant], 1)
      | Some m \<Rightarrow> Inr ([lookup players (WinnerID m), lookup players (LoserID m)], 0))"
| "subtree players groups rounds (Suc depth) winner =
     (case won_by (groups ! Suc depth) winner of
        None \<Rightarrow> Inl (ErrBrokenTree (rounds ! Suc depth) winner)
      | Some m \<Rightarrow>
          (case subtree players groups rounds depth (WinnerID m) of
             Inl e \<Rightarrow> Inl e
           | Inr (xs, j) \<Rightarrow>
               (case subtree players groups rounds depth (LoserID m) of
                  Inl e \<Rightarrow> Inl e
                | Inr (ys, k) \<Rightarrow> Inr (xs @ ys, j + k))))"

lemma walk_subtree:
  "walk players groups rounds d w (es, k) =
     (case subtree players groups rounds d w of
        Inl e \<Rightarrow> Inl e | Inr (xs, j) \<Rightarrow> Inr (es @ xs, k + j))"
proof (induction d arbitrary: w es k)
  case 0
  then show ?case by (simp split: option.splits)
next
  case (Suc d)
  show ?case
    by (cases "won_by (groups ! Suc d) w") (auto simp: Suc.IH split: sum.splits)
qed

text \<open>The match or walk-in behind every pair of slots: \<open>slot_pair r i\<close> looks at the players at the
  top of the two halves of slot \<open>i\<close> of round \<open>r\<close>.\<close>

definition slot_pair :: "(int \<Rightarrow> entrant option) \<Rightarrow> bracket_match list list \<Rightarrow> entrant list \<Rightarrow> nat \<Rightarrow> nat \<Rightarrow> bool" where
  "slot_pair players groups es r i \<longleftrightarrow>
     (\<exists>m \<in> set (groups ! r).
        es ! (i * 2 ^ (r + 1)) = lookup players (WinnerID m)
        \<and> es ! (i * 2 ^ (r + 1) + 2 ^ r) = lookup players (LoserID m))
     \<or> r = 0 \<and> es ! (2 * i + 1) = no_entrant"

lemma subtree_SucE:
  assumes "subtree players groups rounds (Suc d) w = Inr (es, k)"
  obtains m xs j ys l where "won_by (groups ! Suc d) w = Some m"
    and "subtree players groups rounds d (WinnerID m) = Inr (xs, j)"
    and "subtree players groups rounds d (LoserID m) = Inr (ys, l)" and "es = xs @ ys" and "k = j + l"
  using assms by (auto split: option.splits sum.splits)

lemma subtree_length:
  "subtree players groups rounds d w = Inr (es, k) \<Longrightarrow> length es = 2 ^ (d + 1)"
proof (induction d arbitrary: w es k)
  case 0
  then show ?case by (auto split: option.splits)
next
  case (Suc d)
  from Suc.prems obtain m :: bracket_match and xs j ys l where a: "subtree players groups rounds d (WinnerID m) = Inr (xs, j)"
    and b: "subtree players groups rounds d (LoserID m) = Inr (ys, l)" and es: "es = xs @ ys"
    by (rule subtree_SucE) blast
  from Suc.IH [OF a] Suc.IH [OF b] show ?case by (simp add: es)
qed

lemma subtree_head:
  "subtree players groups rounds d w = Inr (es, k) \<Longrightarrow> es ! 0 = lookup players w"
proof (induction d arbitrary: w es k)
  case 0
  then show ?case by (auto split: option.splits dest: won_by_Some)
next
  case (Suc d)
  from Suc.prems obtain m xs j ys l where m: "won_by (groups ! Suc d) w = Some m"
    and l: "subtree players groups rounds d (WinnerID m) = Inr (xs, j)" and es: "es = xs @ ys"
    by (rule subtree_SucE) blast
  have "length xs = 2 ^ (d + 1)" by (rule subtree_length [OF l])
  then have "0 < length xs" by simp
  then have "es ! 0 = xs ! 0" by (simp add: es nth_append)
  with Suc.IH [OF l] won_by_Some [OF m] show ?case by simp
qed

lemma subtree_slots:
  assumes "subtree players groups rounds d w = Inr (es, k)" and "r \<le> d" and "i < 2 ^ (d - r)"
  shows "slot_pair players groups es r i"
  using assms
proof (induction d arbitrary: w es k i)
  case 0
  then show ?case by (auto simp: slot_pair_def split: option.splits dest: won_by_Some)
next
  case (Suc d)
  from Suc.prems(1) obtain m xs j ys l where m: "won_by (groups ! Suc d) w = Some m"
    and left: "subtree players groups rounds d (WinnerID m) = Inr (xs, j)"
    and right: "subtree players groups rounds d (LoserID m) = Inr (ys, l)" and es: "es = xs @ ys"
    by (rule subtree_SucE) blast
  have len: "length xs = 2 ^ (d + 1)" "length ys = 2 ^ (d + 1)"
    using subtree_length [OF left] subtree_length [OF right] by simp_all
  show ?case
  proof (cases "r = Suc d")
    case True
    then have "i = 0" using Suc.prems(3) by simp
    moreover have "es ! 0 = lookup players (WinnerID m)"
      using subtree_head [OF left] len by (simp add: es nth_append)
    moreover have "es ! (2 ^ Suc d) = lookup players (LoserID m)"
      using subtree_head [OF right] len by (simp add: es nth_append)
    ultimately show ?thesis
      using won_by_Some [OF m] True by (auto simp: slot_pair_def)
  next
    case False
    then have r: "r \<le> d" using Suc.prems(2) by simp
    have pow: "2 ^ (d - r) * 2 ^ (r + 1) = (2 ^ (d + 1) :: nat)"
      using r by (simp flip: power_add)
    show ?thesis
    proof (cases "i < 2 ^ (d - r)")
      case True
      have "i * 2 ^ (r + 1) + 2 ^ (r + 1) \<le> 2 ^ (d - r) * 2 ^ (r + 1)"
        using True by (metis Suc_leI add.commute mult_Suc mult_le_mono1)
      moreover have "(2::nat) ^ r < 2 ^ (r + 1)" by simp
      ultimately have at: "i * 2 ^ (r + 1) + 2 ^ r < length xs" "i * 2 ^ (r + 1) < length xs"
        using pow len by linarith+
      have first: "r = 0 \<Longrightarrow> 2 * i + 1 < length xs" using at(1) by simp
      show ?thesis
        using Suc.IH [OF left r True] at first
        by (auto simp: slot_pair_def es nth_append)
    next
      case False
      define i' where "i' = i - 2 ^ (d - r)"
      have i: "i = 2 ^ (d - r) + i'" using False by (simp add: i'_def)
      have lt: "i' < 2 ^ (d - r)"
        using Suc.prems(3) r by (simp add: i Suc_diff_le)
      have shift: "i * 2 ^ (r + 1) = length xs + i' * 2 ^ (r + 1)"
        unfolding i add_mult_distrib pow len ..
      have at: "es ! (i * 2 ^ (r + 1)) = ys ! (i' * 2 ^ (r + 1))"
        "es ! (i * 2 ^ (r + 1) + 2 ^ r) = ys ! (i' * 2 ^ (r + 1) + 2 ^ r)"
        unfolding es shift by (simp_all add: nth_append add.assoc)
      have first: "r = 0 \<Longrightarrow> es ! (2 * i + 1) = ys ! (2 * i' + 1)"
        using at(2) by (simp add: mult.commute)
      show ?thesis
        using Suc.IH [OF right r lt] at first by (auto simp: slot_pair_def)
    qed
  qed
qed

section \<open>A draw that reconstructs is the draw that was played\<close>

lemma round_sizes_names: "round_sizes first want gs = Inr names \<Longrightarrow> names = map (\<lambda>g. Round (hd g)) gs"
  by (induction first want gs arbitrary: names rule: round_sizes.induct)
    (auto simp: Let_def split: if_splits sum.splits)

lemma final_group:
  assumes "ms \<noteq> []"
  shows "round_order ms \<noteq> []"
    and "hd (round_groups ms ! (length (round_groups ms) - 1)) \<in> set ms"
    and "RoundIdx (hd (round_groups ms ! (length (round_groups ms) - 1))) = Max (RoundIdx ` set ms)"
proof -
  show ne: "round_order ms \<noteq> []"
    using assms round_order_set [of ms] by force
  let ?n = "length (round_order ms) - 1"
  have last: "round_order ms ! ?n = Max (RoundIdx ` set ms)"
  proof (rule Max_eqI [symmetric])
    show "finite (RoundIdx ` set ms)" by simp
    show "round_order ms ! ?n \<in> RoundIdx ` set ms"
      using ne by (simp flip: round_order_set)
    show "x \<le> round_order ms ! ?n" if "x \<in> RoundIdx ` set ms" for x
    proof -
      from that obtain j where "j < length (round_order ms)" "x = round_order ms ! j"
        by (metis in_set_conv_nth round_order_set)
      then show ?thesis using sorted_nth_mono [OF round_order_sorted(1), of j ?n] by simp
    qed
  qed
  have g: "round_groups ms ! ?n = [m \<leftarrow> ms. RoundIdx m = round_order ms ! ?n]"
    using ne by (simp add: round_groups_eq)
  have "round_order ms ! ?n \<in> set (round_order ms)" using ne by simp
  then have "round_groups ms ! ?n \<noteq> []"
    unfolding g round_order_set by (auto simp: filter_empty_conv)
  then have "hd (round_groups ms ! ?n) \<in> set [m \<leftarrow> ms. RoundIdx m = round_order ms ! ?n]"
    using g by (metis list.set_sel(1))
  then show "hd (round_groups ms ! (length (round_groups ms) - 1)) \<in> set ms"
    and "RoundIdx (hd (round_groups ms ! (length (round_groups ms) - 1))) = Max (RoundIdx ` set ms)"
    using last by (simp_all add: length_round_groups)
qed

lemma build_bracket_Inr:
  assumes "build_bracket ms players = Inr b"
  defines "groups \<equiv> round_groups ms"
  shows "ms \<noteq> []" and "Rounds b = map (\<lambda>g. Round (hd g)) groups"
    and "subtree players groups (Rounds b) (length groups - 1) (Champion b) = Inr (Entrants b, Byes b)"
    and "Champion b = WinnerID (hd (groups ! (length groups - 1)))"
    and "entered b = int (length ms) + 1"
  using assms(1)
  by (auto simp: build_bracket_def Let_def walk_subtree entered_def groups_def
      split: if_splits sum.splits dest!: round_sizes_names)

text \<open>
  A draw that reconstructs is the draw that was played. It has a power of two of lines, one
  entrant more than matches, the winner of the last round's match on its top line, and at every slot
  of every round the players at the top of the two halves are the winner and the loser of a match of
  that round, or, in the first round only, a player and a bye.
\<close>

theorem bracket_is_played:
  assumes "build_bracket ms players = Inr b"
  shows "bracket_size b = 2 ^ length (Rounds b) \<and> entered b = int (length ms) + 1
     \<and> Entrants b ! 0 = lookup players (Champion b)
     \<and> (\<exists>m \<in> set ms. Champion b = WinnerID m \<and> RoundIdx m = Max (RoundIdx ` set ms))
     \<and> (\<forall>r < length (Rounds b). \<forall>i < 2 ^ (length (Rounds b) - 1 - r).
          slot_pair players (round_groups ms) (Entrants b) r i)"
proof -
  note b = build_bracket_Inr [OF assms]
  note final = final_group [OF b(1)]
  have n: "length (Rounds b) = length (round_groups ms)" and pos: "0 < length (round_groups ms)"
    using b(2) final(1) by (simp_all add: length_round_groups)
  show ?thesis
    using b(4,5) n pos final(2,3) subtree_length [OF b(3)] subtree_head [OF b(3)]
      subtree_slots [OF b(3)]
    by (auto simp: bracket_size_def)
qed

lemma bracket_is_played_witness:
  "bracket_size \<lparr>Entrants = [lookup Map.empty 1, lookup Map.empty 2, lookup Map.empty 3, no_entrant],
      Byes = 1, Rounds = [''SF'', ''F''], Champion = 1\<rparr> = 2 ^ 2"
  using bracket_is_played
      [of "[\<lparr>Round = ''F'', RoundIdx = 7, WinnerID = 1, LoserID = 3\<rparr>,
            \<lparr>Round = ''SF'', RoundIdx = 6, WinnerID = 1, LoserID = 2\<rparr>]" Map.empty
          "\<lparr>Entrants = [lookup Map.empty 1, lookup Map.empty 2, lookup Map.empty 3, no_entrant],
            Byes = 1, Rounds = [''SF'', ''F''], Champion = 1\<rparr>"]
  by (simp add: build_bracket_def round_groups_def round_order_def group_by_def put_append_def
      won_by_def wrap64_def)

section \<open>Every knock-out reconstructs\<close>

text \<open>
  A played draw as a tree: an opening match, a player with a first-round bye, or the match between
  the tops of two halves. The left half is the winner's. \<open>ko_results\<close> lists its matches as round,
  winner and loser, \<open>ko_lines\<close> its lines (\<open>None\<close> for a bye).
\<close>

datatype knockout = Opening int int | WalkIn int | Tie knockout knockout

fun top :: "knockout \<Rightarrow> int" where
  "top (Opening w l) = w"
| "top (WalkIn w) = w"
| "top (Tie a b) = top a"

fun ids :: "knockout \<Rightarrow> int list" where
  "ids (Opening w l) = [w, l]"
| "ids (WalkIn w) = [w]"
| "ids (Tie a b) = ids a @ ids b"

fun ko_lines :: "knockout \<Rightarrow> int option list" where
  "ko_lines (Opening w l) = [Some w, Some l]"
| "ko_lines (WalkIn w) = [Some w, None]"
| "ko_lines (Tie a b) = ko_lines a @ ko_lines b"

fun walkins :: "knockout \<Rightarrow> int list" where
  "walkins (Opening w l) = []"
| "walkins (WalkIn w) = [w]"
| "walkins (Tie a b) = walkins a @ walkins b"

fun full_draw :: "nat \<Rightarrow> knockout \<Rightarrow> bool" where
  "full_draw 0 (Tie a b) = False"
| "full_draw 0 t = True"
| "full_draw (Suc d) (Tie a b) = (full_draw d a \<and> full_draw d b)"
| "full_draw (Suc d) t = False"

fun ko_results :: "nat \<Rightarrow> knockout \<Rightarrow> (nat \<times> int \<times> int) list" where
  "ko_results d (Opening w l) = [(d, w, l)]"
| "ko_results d (WalkIn w) = []"
| "ko_results d (Tie a b) = (d, top a, top b) # ko_results (d - 1) a @ ko_results (d - 1) b"

definition as_match :: "(nat \<Rightarrow> int) \<Rightarrow> (nat \<Rightarrow> string) \<Rightarrow> nat \<times> int \<times> int \<Rightarrow> bracket_match" where
  "as_match idx code x =
     (case x of (r, w, l) \<Rightarrow> \<lparr>Round = code r, RoundIdx = idx r, WinnerID = w, LoserID = l\<rparr>)"

definition line_of :: "(int \<Rightarrow> entrant option) \<Rightarrow> int option \<Rightarrow> entrant" where
  "line_of players x = (case x of None \<Rightarrow> no_entrant | Some p \<Rightarrow> lookup players p)"

lemma full_draw_induct [consumes 1, case_names first walkin tie]:
  assumes "full_draw d t"
    and "\<And>w l. P 0 (Opening w l)" and "\<And>w. P 0 (WalkIn w)"
    and "\<And>d a b. full_draw d a \<Longrightarrow> full_draw d b \<Longrightarrow> P d a \<Longrightarrow> P d b \<Longrightarrow> P (Suc d) (Tie a b)"
  shows "P d t"
  using assms(1) by (induction d t rule: full_draw.induct) (simp_all add: assms(2-4))

lemma top_in_ids: "top t \<in> set (ids t)"
  by (induction t) auto

lemma results_round: "full_draw d t \<Longrightarrow> (r, w, l) \<in> set (ko_results d t) \<Longrightarrow> r \<le> d \<and> w \<in> set (ids t)"
  by (induction d t rule: full_draw_induct) (auto simp: top_in_ids le_SucI)

lemma walkins_in_ids: "set (walkins t) \<subseteq> set (ids t)"
  by (induction t) auto

lemma walkins_no_win:
  "full_draw d t \<Longrightarrow> distinct (ids t) \<Longrightarrow> w \<in> set (walkins t) \<Longrightarrow> (0, w, l) \<notin> set (ko_results d t)"
proof (induction d t rule: full_draw_induct)
  case (tie d a b)
  then show ?case
    using walkins_in_ids [of a] walkins_in_ids [of b]
    by (auto dest!: results_round [of d a] results_round [of d b])
qed auto

lemma winners_once:
  "full_draw d t \<Longrightarrow> distinct (ids t) \<Longrightarrow> (r, w, l) \<in> set (ko_results d t) \<Longrightarrow>
   (r, w, l') \<in> set (ko_results d t) \<Longrightarrow> l = l'"
proof (induction d t rule: full_draw_induct)
  case (tie d a b)
  then show ?case
    by (auto dest: results_round [of d a] results_round [of d b])
qed auto

lemma results_count:
  "full_draw d t \<Longrightarrow> r \<le> d \<Longrightarrow>
   length (filter (\<lambda>x. fst x = r) (ko_results d t)) = 2 ^ (d - r) - (if r = 0 then length (walkins t) else 0)
   \<and> (r = 0 \<longrightarrow> length (walkins t) \<le> 2 ^ d)"
proof (induction d t rule: full_draw_induct)
  case (tie d a b)
  have none: "filter (\<lambda>x. fst x = Suc d) (ko_results d c) = []" if "full_draw d c" for c
    using results_round [OF that] by (fastforce simp: filter_empty_conv)
  show ?case
  proof (cases "r = Suc d")
    case True
    then show ?thesis using tie none by simp
  next
    case False
    then have "2 ^ (Suc d - r) = (2 ^ (d - r) + 2 ^ (d - r) :: nat)"
      using tie.prems by (simp add: Suc_diff_le)
    then show ?thesis using tie False by auto
  qed
qed auto

lemma lines_count:
  "full_draw d t \<Longrightarrow> length (ko_lines t) = length (ko_results d t) + 1 + length (walkins t)"
  by (induction d t rule: full_draw_induct) auto

lemma subtree_ko:
  assumes "full_draw d t"
    and "\<And>r w l. (r, w, l) \<in> set (ko_results d t) \<Longrightarrow> won_by (groups ! r) w = Some (as_match idx code (r, w, l))"
    and "\<And>w. w \<in> set (walkins t) \<Longrightarrow> won_by (groups ! 0) w = None"
  shows "subtree players groups rounds d (top t) = Inr (map (line_of players) (ko_lines t), length (walkins t))"
  using assms
proof (induction d t rule: full_draw_induct)
  case (tie d a b)
  have "subtree players groups rounds d (top a) = Inr (map (line_of players) (ko_lines a), length (walkins a))"
    and "subtree players groups rounds d (top b) = Inr (map (line_of players) (ko_lines b), length (walkins b))"
    using tie by auto
  moreover have "won_by (groups ! Suc d) (top a) = Some (as_match idx code (Suc d, top a, top b))"
    by (rule tie.prems) simp
  ultimately show ?case by (simp add: as_match_def)
qed (auto simp: as_match_def line_of_def)

lemma round_sizes_halving:
  "(\<And>i. i < length gs \<Longrightarrow> int (length (gs ! i)) = want div 2 ^ i) \<Longrightarrow>
   round_sizes False want gs = Inr (map (\<lambda>g. Round (hd g)) gs)"
proof (induction gs arbitrary: want)
  case (Cons g gs)
  have "int (length g) = want" using Cons.prems [of 0] by simp
  moreover have "int (length (gs ! i)) = want div 2 div 2 ^ i" if "i < length gs" for i
    using Cons.prems [of "Suc i"] that by (simp add: zdiv_zmult2_eq)
  then have "round_sizes False (want div 2) gs = Inr (map (\<lambda>g. Round (hd g)) gs)"
    by (rule Cons.IH)
  ultimately show ?case by simp
qed simp

text \<open>A list of matches that is the results of a draw, in any order: the players are distinct, the
  rounds are numbered upwards, and at least one first-round match was played.\<close>

definition plays :: "knockout \<Rightarrow> nat \<Rightarrow> (nat \<Rightarrow> int) \<Rightarrow> (nat \<Rightarrow> string) \<Rightarrow> bracket_match list \<Rightarrow> bool" where
  "plays t d idx code ms \<longleftrightarrow>
     full_draw d t \<and> distinct (ids t) \<and> length (walkins t) < 2 ^ d \<and> d < 63 \<and> strict_mono idx
     \<and> mset ms = mset (map (as_match idx code) (ko_results d t))"

lemma plays_in:
  "plays t d idx code ms \<Longrightarrow> m \<in> set ms \<longleftrightarrow> m \<in> as_match idx code ` set (ko_results d t)"
  unfolding plays_def by (metis list.set_map set_mset_mset)

lemma plays_idx: "plays t d idx code ms \<Longrightarrow> idx i = idx j \<longleftrightarrow> i = j"
  by (simp add: plays_def strict_mono_eq)

lemma count_round:
  assumes p: "plays t d idx code ms" and r: "r \<le> d"
  shows "length [m \<leftarrow> ms. RoundIdx m = idx r] = 2 ^ (d - r) - (if r = 0 then length (walkins t) else 0)"
proof -
  have "mset [m \<leftarrow> ms. RoundIdx m = idx r] =
        mset (filter (\<lambda>m. RoundIdx m = idx r) (map (as_match idx code) (ko_results d t)))"
    using p by (simp add: plays_def)
  then have "length [m \<leftarrow> ms. RoundIdx m = idx r] =
        length (filter (\<lambda>m. RoundIdx m = idx r) (map (as_match idx code) (ko_results d t)))"
    by (rule mset_eq_length)
  also have "\<dots> = length (filter (\<lambda>x. fst x = r) (ko_results d t))"
    by (simp add: filter_map o_def as_match_def split_def plays_idx [OF p])
  finally show ?thesis
    using results_count [OF _ r] p by (simp add: plays_def)
qed

lemma round_nonempty:
  assumes p: "plays t d idx code ms" and r: "r \<le> d"
  shows "[m \<leftarrow> ms. RoundIdx m = idx r] \<noteq> []"
proof -
  have "0 < length [m \<leftarrow> ms. RoundIdx m = idx r]"
    unfolding count_round [OF p r] using p by (simp add: plays_def)
  then show ?thesis by simp
qed

lemma order_eq:
  assumes p: "plays t d idx code ms"
  shows "round_order ms = map idx [0..<Suc d]"
proof (rule sorted_distinct_set_unique)
  have "strict_mono idx" using p by (simp add: plays_def)
  then show "sorted (map idx [0..<Suc d])"
    by (simp add: sorted_iff_nth_mono strict_mono_less_eq del: upt_Suc)
  show "distinct (map idx [0..<Suc d])" by (auto simp: distinct_map inj_on_def plays_idx [OF p])
  have "RoundIdx m \<in> idx ` {..d}" if "m \<in> set ms" for m
    using that results_round [of d t] p by (auto simp: plays_in [OF p] as_match_def plays_def)
  moreover have "idx r \<in> RoundIdx ` set ms" if "r \<le> d" for r
    using round_nonempty [OF p that] by (auto simp: filter_empty_conv intro: rev_image_eqI)
  ultimately have "RoundIdx ` set ms = idx ` {..d}" by auto
  then show "set (round_order ms) = set (map idx [0..<Suc d])"
    by (simp add: round_order_set atLeast0AtMost atLeastLessThanSuc_atLeastAtMost del: upt_Suc)
qed (rule round_order_sorted)+

lemma groups_eq:
  "plays t d idx code ms \<Longrightarrow>
   round_groups ms = map (\<lambda>r. [m \<leftarrow> ms. RoundIdx m = idx r]) [0..<Suc d]"
  by (simp add: round_groups_eq order_eq o_def del: upt_Suc)

lemma group_nth:
  "plays t d idx code ms \<Longrightarrow> r \<le> d \<Longrightarrow> round_groups ms ! r = [m \<leftarrow> ms. RoundIdx m = idx r]"
  by (simp add: groups_eq del: upt_Suc)

lemma group_hd:
  assumes p: "plays t d idx code ms" and r: "r \<le> d"
  obtains w l where "(r, w, l) \<in> set (ko_results d t)"
    and "hd (round_groups ms ! r) = as_match idx code (r, w, l)"
proof -
  have "hd (round_groups ms ! r) \<in> set [m \<leftarrow> ms. RoundIdx m = idx r]"
    using round_nonempty [OF p r] by (metis group_nth [OF p r] list.set_sel(1))
  then have "hd (round_groups ms ! r) \<in> as_match idx code ` set (ko_results d t)"
    and "RoundIdx (hd (round_groups ms ! r)) = idx r"
    by (simp_all add: plays_in [OF p])
  then show ?thesis using that by (auto simp: as_match_def plays_idx [OF p])
qed

lemma names_eq:
  assumes p: "plays t d idx code ms"
  shows "map (\<lambda>g. Round (hd g)) (round_groups ms) = map code [0..<Suc d]"
proof -
  have "Round (hd [m \<leftarrow> ms. RoundIdx m = idx r]) = code r" if "r \<in> set [0..<Suc d]" for r
  proof -
    have r: "r \<le> d" using that by auto
    show ?thesis
      by (rule group_hd [OF p r]) (simp add: group_nth [OF p r] as_match_def)
  qed
  then show ?thesis
    unfolding groups_eq [OF p] map_map o_def by (rule map_cong [OF refl])
qed

lemma sizes_ok:
  assumes p: "plays t d idx code ms"
  shows "round_sizes True (wrap64 (2 ^ d)) (round_groups ms) = Inr (map code [0..<Suc d])"
proof -
  have small: "wrap64 (2 ^ d) = 2 ^ d"
  proof -
    have "(2::int) ^ d \<le> 2 ^ 62" using p by (intro power_increasing) (auto simp: plays_def)
    then show ?thesis by (simp add: wrap64_def)
  qed
  have "length (round_groups ms) = Suc d" by (simp add: groups_eq [OF p])
  then obtain g gs where gs: "round_groups ms = g # gs" and len: "length gs = d"
    by (auto simp: length_Suc_conv)
  have first: "int (length g) \<le> 2 ^ d"
    using count_round [OF p, of 0] group_nth [OF p, of 0] gs by (simp add: of_nat_diff)
  have rest: "int (length (gs ! i)) = 2 ^ d div 2 div 2 ^ i" if "i < length gs" for i
  proof -
    have i: "Suc i \<le> d" using that len by simp
    have "gs ! i = [m \<leftarrow> ms. RoundIdx m = idx (Suc i)]"
      using group_nth [OF p i] gs by simp
    then have "int (length (gs ! i)) = 2 ^ (d - Suc i)"
      using count_round [OF p i] by simp
    also have "\<dots> = 2 ^ d div 2 ^ Suc i" using i by (simp only: power_diff zero_neq_numeral not_False_eq_True)
    finally show ?thesis by (simp add: zdiv_zmult2_eq)
  qed
  have "round_sizes False (2 ^ d div 2) gs = Inr (map (\<lambda>g. Round (hd g)) gs)"
    by (rule round_sizes_halving) (rule rest)
  then show ?thesis
    using first names_eq [OF p] gs by (simp add: small del: upt_Suc)
qed

lemma round_winner:
  assumes p: "plays t d idx code ms" and won: "(r, w, l) \<in> set (ko_results d t)"
  shows "won_by (round_groups ms ! r) w = Some (as_match idx code (r, w, l))"
proof -
  have full: "full_draw d t" and dist: "distinct (ids t)" using p by (simp_all add: plays_def)
  have r: "r \<le> d" using results_round [OF full won] by simp
  have mem: "as_match idx code (r, w, l) \<in> set (round_groups ms ! r)"
    using won by (auto simp: group_nth [OF p r] plays_in [OF p]) (auto simp: as_match_def)
  then obtain m where m: "won_by (round_groups ms ! r) w = Some m"
    by (cases "won_by (round_groups ms ! r) w") (auto simp: won_by_None as_match_def)
  have "m \<in> set (round_groups ms ! r)" "WinnerID m = w" using won_by_Some [OF m] by auto
  then obtain l' where "(r, w, l') \<in> set (ko_results d t)" "m = as_match idx code (r, w, l')"
    by (auto simp: group_nth [OF p r] plays_in [OF p] as_match_def plays_idx [OF p])
  then show ?thesis using m winners_once [OF full dist won] by simp
qed

lemma walkin_absent:
  assumes p: "plays t d idx code ms" and w: "w \<in> set (walkins t)"
  shows "won_by (round_groups ms ! 0) w = None"
proof -
  have "full_draw d t" "distinct (ids t)" using p by (simp_all add: plays_def)
  then show ?thesis
    using walkins_no_win [of d t w] w
    by (auto simp: won_by_None group_nth [OF p] plays_in [OF p] as_match_def plays_idx [OF p])
qed

lemma champion_eq:
  assumes p: "plays t d idx code ms"
  shows "WinnerID (hd (round_groups ms ! d)) = top t"
proof -
  have "full_draw d t" using p by (simp add: plays_def)
  then have "(d, w, l) \<in> set (ko_results d t) \<Longrightarrow> w = top t" for w l
    by (cases d; cases t) (auto dest: results_round)
  then show ?thesis by (rule group_hd [OF p order_refl]) (simp add: as_match_def)
qed

text \<open>
  C3: every knock-out reconstructs. Take a draw with distinct players, first-round byes included, and
  give its matches in any order: the bracket is rebuilt with every player on the line the tree has
  them on (winners' half first), the byes counted, the rounds named in order and the champion on top.
\<close>

theorem knockout_rebuilt:
  assumes p: "plays t d idx code ms"
  shows "build_bracket ms players = Inr \<lparr>Entrants = map (line_of players) (ko_lines t),
     Byes = length (walkins t), Rounds = map code [0..<Suc d], Champion = top t\<rparr>"
proof -
  have full: "full_draw d t" and results: "mset ms = mset (map (as_match idx code) (ko_results d t))"
    using p by (simp_all add: plays_def)
  have n: "length (round_groups ms) - Suc 0 = d" by (simp add: groups_eq [OF p])
  have "subtree players (round_groups ms) (map code [0..<Suc d]) d (top t) =
        Inr (map (line_of players) (ko_lines t), length (walkins t))"
    by (rule subtree_ko [OF full round_winner [OF p] walkin_absent [OF p]])
  moreover have "length ms = length (ko_results d t)"
    using results by (metis length_map mset_eq_length)
  then have "int (length (ko_lines t)) - int (length (walkins t)) = int (length ms) + 1"
    using lines_count [OF full] by simp
  moreover have "ms \<noteq> []" using round_nonempty [OF p, of d] by auto
  ultimately show ?thesis
    using sizes_ok [OF p] by (simp add: build_bracket_def Let_def n champion_eq [OF p] walk_subtree del: upt_Suc)
qed

lemma knockout_rebuilt_witness:
  "build_bracket
     [\<lparr>Round = ''F'', RoundIdx = 1, WinnerID = 1, LoserID = 3\<rparr>,
      \<lparr>Round = ''SF'', RoundIdx = 0, WinnerID = 1, LoserID = 2\<rparr>] Map.empty =
   Inr \<lparr>Entrants = map (line_of Map.empty) [Some 1, Some 2, Some 3, None], Byes = 1,
      Rounds = [''SF'', ''F''], Champion = 1\<rparr>"
  using knockout_rebuilt
      [of "Tie (Opening 1 2) (WalkIn 3)" "Suc 0" int "\<lambda>r. if r = 0 then ''SF'' else ''F''"
          "[\<lparr>Round = ''F'', RoundIdx = 1, WinnerID = 1, LoserID = 3\<rparr>,
            \<lparr>Round = ''SF'', RoundIdx = 0, WinnerID = 1, LoserID = 2\<rparr>]" Map.empty]
  by (simp add: plays_def as_match_def strict_mono_def)

end
