(* ===== verification/SimDraw.thy ===== *)
theory SimDraw
  imports SimBracket Complex_Main
begin

text \<open>
  The Monte Carlo draw of internal/simulate/montecarlo.go. The random streams are a parameter:
  \<open>streams seed w k\<close> is the \<open>k\<close>-th \<open>Float64\<close> of the generator seeded with \<open>NewPCG(seed, w)\<close>, which
  the library documents to lie in [0, 1). The number of processors is a parameter too. The workers
  share nothing but the read-only odds and write each their own tally, so running them one after
  the other gives the counts of every schedule. An index out of range, where Go panics, is \<open>None\<close>.
\<close>

definition defaultRuns :: int where "defaultRuns = 10000"

record odds =
  OEntrant :: entrant
  Title :: real
  TitleInterval :: real
  Reached :: "real list"

record draw_result =
  Odds :: "odds list"
  Runs :: int
  RSeed :: nat
  RChampion :: int

section \<open>Pairwise odds\<close>

definition pair_value :: "entrant list \<Rightarrow> (entrant \<Rightarrow> entrant \<Rightarrow> real) \<Rightarrow> nat \<Rightarrow> nat \<Rightarrow> real" where
  "pair_value es win i j =
     (if is_bye (es ! i) then 0 else if is_bye (es ! j) then 1 else win (es ! i) (es ! j))"

definition pair_cells :: "nat \<Rightarrow> (nat \<times> nat) list" where
  "pair_cells sz = concat (map (\<lambda>i. map (Pair i) [i + 1..<sz]) [0..<sz])"

definition new_pair_odds :: "entrant list \<Rightarrow> (entrant \<Rightarrow> entrant \<Rightarrow> real) \<Rightarrow> real list" where
  "new_pair_odds es win =
     (let sz = length es in
      fold (\<lambda>(i, j) p. p[i * sz + j := pair_value es win i j, j * sz + i := 1 - pair_value es win i j])
        (pair_cells sz) (replicate (sz * sz) 0))"

definition odds_of :: "nat \<Rightarrow> real list \<Rightarrow> nat \<Rightarrow> nat \<Rightarrow> real" where
  "odds_of sz p a b = p ! (a * sz + b)"

section \<open>One run\<close>

text \<open>The state of a run: the field, the tally and the position in the random stream.\<close>

type_synonym run_state = "nat list \<times> nat list \<times> nat"

definition bump :: "nat \<Rightarrow> nat \<Rightarrow> nat \<Rightarrow> nat list \<Rightarrow> nat list" where
  "bump rounds r w tally = tally[w * rounds + r := tally ! (w * rounds + r) + 1]"

function play_slots :: "(nat \<Rightarrow> nat \<Rightarrow> real) \<Rightarrow> (nat \<Rightarrow> real) \<Rightarrow> nat \<Rightarrow> nat \<Rightarrow> nat \<Rightarrow> nat \<Rightarrow> run_state
    \<Rightarrow> run_state option" where
  "play_slots odds rng rounds r alive i (field, tally, k) =
     (if alive \<le> i then Some (field, tally, k)
      else if length field \<le> i + 1 then None
      else
        let a = field ! i; c = field ! (i + 1); winner = (if rng k < odds a c then a else c)
        in play_slots odds rng rounds r alive (i + 2)
             (field[i div 2 := winner], bump rounds r winner tally, k + 1))"
  by pat_completeness auto

termination by (relation "measure (\<lambda>(odds, rng, rounds, r, alive, i, st). alive - i)") auto

declare play_slots.simps [simp del]

fun play_rounds :: "(nat \<Rightarrow> nat \<Rightarrow> real) \<Rightarrow> (nat \<Rightarrow> real) \<Rightarrow> nat \<Rightarrow> nat list \<Rightarrow> nat \<Rightarrow> run_state
    \<Rightarrow> run_state option" where
  "play_rounds odds rng rounds [] alive st = Some st"
| "play_rounds odds rng rounds (r # rs) alive st =
     (case play_slots odds rng rounds r alive 0 st of
        None \<Rightarrow> None
      | Some st' \<Rightarrow> play_rounds odds rng rounds rs (alive div 2) st')"

definition play_once :: "nat \<Rightarrow> (nat \<Rightarrow> nat \<Rightarrow> real) \<Rightarrow> (nat \<Rightarrow> real) \<Rightarrow> nat \<Rightarrow> nat list \<times> nat
    \<Rightarrow> (nat list \<times> nat) option" where
  "play_once sz odds rng rounds tk =
     (case play_rounds odds rng rounds [0..<rounds] sz ([0..<sz], fst tk, snd tk) of
        None \<Rightarrow> None | Some (field, tally, k) \<Rightarrow> Some (tally, k))"

fun play_share :: "nat \<Rightarrow> (nat \<Rightarrow> nat \<Rightarrow> real) \<Rightarrow> (nat \<Rightarrow> real) \<Rightarrow> nat \<Rightarrow> nat \<Rightarrow> nat list \<times> nat
    \<Rightarrow> (nat list \<times> nat) option" where
  "play_share sz odds rng rounds 0 tk = Some tk"
| "play_share sz odds rng rounds (Suc n) tk =
     (case play_once sz odds rng rounds tk of
        None \<Rightarrow> None | Some tk' \<Rightarrow> play_share sz odds rng rounds n tk')"

section \<open>The workers and the result\<close>

definition share_of :: "nat \<Rightarrow> nat \<Rightarrow> nat \<Rightarrow> nat" where
  "share_of runs workers w = runs div workers + (if w < runs mod workers then 1 else 0)"

fun worker_tallies :: "nat \<Rightarrow> (nat \<Rightarrow> nat \<Rightarrow> real) \<Rightarrow> (nat \<Rightarrow> nat \<Rightarrow> real) \<Rightarrow> nat \<Rightarrow> nat \<Rightarrow> nat \<Rightarrow> nat list
    \<Rightarrow> nat list list option" where
  "worker_tallies sz odds streams rounds runs workers [] = Some []"
| "worker_tallies sz odds streams rounds runs workers (w # ws) =
     (case play_share sz odds (streams (w + 1)) rounds (share_of runs workers w)
             (replicate (sz * rounds) 0, 0) of
        None \<Rightarrow> None
      | Some (tally, k) \<Rightarrow>
          (case worker_tallies sz odds streams rounds runs workers ws of
             None \<Rightarrow> None | Some ts \<Rightarrow> Some (tally # ts)))"

definition add_tally :: "nat list \<Rightarrow> nat list \<Rightarrow> nat list" where
  "add_tally tally totals = map2 (+) totals tally"

definition interval :: "real \<Rightarrow> nat \<Rightarrow> real" where
  "interval p runs = (if runs < 2 then 0 else 1.96 * sqrt (p * (1 - p) / real runs))"

definition entrant_odds :: "nat \<Rightarrow> nat \<Rightarrow> nat list \<Rightarrow> nat \<times> entrant \<Rightarrow> odds" where
  "entrant_odds rounds runs totals ie =
     (let reached = map (\<lambda>r. real (totals ! (fst ie * rounds + r)) / real runs) [0..<rounds];
          title = reached ! (rounds - 1)
      in \<lparr>OEntrant = snd ie, Title = title, TitleInterval = interval title runs, Reached = reached\<rparr>)"

definition run_draw :: "nat \<Rightarrow> (nat \<Rightarrow> nat \<Rightarrow> nat \<Rightarrow> real) \<Rightarrow> bracket \<Rightarrow> (entrant \<Rightarrow> entrant \<Rightarrow> real) \<Rightarrow> int \<Rightarrow> nat
    \<Rightarrow> draw_result option" where
  "run_draw procs streams b win runs0 seed =
     (let runs = (if runs0 < 1 then defaultRuns else runs0);
          sz = bracket_size b; rounds = length (Rounds b)
      in if sz < 2 \<or> rounds = 0
         then Some \<lparr>Odds = [], Runs = runs, RSeed = seed, RChampion = Champion b\<rparr>
         else
           let odds = odds_of sz (new_pair_odds (Entrants b) win);
               workers = (if int procs > runs then nat runs else procs)
           in case worker_tallies sz odds (streams seed) rounds (nat runs) workers [0..<workers] of
                None \<Rightarrow> None
              | Some counts \<Rightarrow>
                  let totals = fold add_tally counts (replicate (sz * rounds) 0)
                  in Some \<lparr>Odds = map (entrant_odds rounds (nat runs) totals)
                       (filter (\<lambda>ie. \<not> is_bye (snd ie)) (enumerate 0 (Entrants b))),
                     Runs = runs, RSeed = seed, RChampion = Champion b\<rparr>)"

section \<open>The table of odds\<close>

lemma cell_lt: "i < n \<Longrightarrow> j < n \<Longrightarrow> i * n + j < n * (n::nat)"
proof -
  assume "i < n" "j < n"
  then have "i * n + j < i * n + n" by simp
  also have "\<dots> \<le> n * n" using \<open>i < n\<close> by (metis Suc_leI add.commute mult_Suc mult_le_mono1)
  finally show ?thesis .
qed

lemma cell_eq: "j < n \<Longrightarrow> j' < n \<Longrightarrow> i * n + j = i' * n + j' \<longleftrightarrow> i = i' \<and> j = (j'::nat)"
proof
  assume lt: "j < n" "j' < n" and eq: "i * n + j = i' * n + j'"
  have "(i * n + j) div n = i" "(i' * n + j') div n = i'" using lt by simp_all
  then have "i = i'" using eq by metis
  then show "i = i' \<and> j = j'" using eq by simp
qed simp

lemma nth_two_updates:
  "x < length p \<Longrightarrow> p[c := u, d := w] ! x = (if x = d then w else if x = c then u else p ! x)"
  by (simp add: nth_list_update)

lemma pair_odds_fold:
  assumes "list_all (\<lambda>(i, j). i < j \<and> j < n) cs" and "length p = n * n" and "a < n" "b < n"
  shows "fold (\<lambda>(i, j) p. p[i * n + j := v i j, j * n + i := 1 - v i j]) cs p ! (a * n + b) =
    (if (a, b) \<in> set cs then v a b else if (b, a) \<in> set cs then 1 - v b a else p ! (a * n + b))"
  using assms(1,2)
proof (induction cs arbitrary: p)
  case (Cons c cs)
  obtain i j where c: "c = (i, j)" by force
  then have ij: "i < j" "j < n" "i < n" using Cons.prems by auto
  let ?q = "p[i * n + j := v i j, j * n + i := 1 - v i j]"
  have cell: "a * n + b < n * n" using assms by (simp add: cell_lt)
  have q: "?q ! (a * n + b) = (if (a, b) = (i, j) then v a b else if (b, a) = (i, j) then 1 - v b a
      else p ! (a * n + b))"
  proof -
    have val: "?q ! (a * n + b) = (if a * n + b = j * n + i then 1 - v i j
        else if a * n + b = i * n + j then v i j else p ! (a * n + b))"
      using nth_two_updates [of "a * n + b" p "i * n + j" "v i j" "j * n + i" "1 - v i j"] cell Cons.prems(2)
      by (simp only:)
    have eqs: "a * n + b = j * n + i \<longleftrightarrow> a = j \<and> b = i" "a * n + b = i * n + j \<longleftrightarrow> a = i \<and> b = j"
      using cell_eq [OF assms(4) ij(3)] cell_eq [OF assms(4) ij(2)] by blast+
    show ?thesis unfolding val unfolding eqs prod.inject using ij(1)
      by (cases "a = i \<and> b = j"; cases "a = j \<and> b = i") auto
  qed
  have order: "(a, b) \<in> set (c # cs) \<Longrightarrow> a < b" "(b, a) \<in> set (c # cs) \<Longrightarrow> b < a"
    using Cons.prems(1) unfolding list_all_iff by blast+
  have step: "fold (\<lambda>(i, j) p. p[i * n + j := v i j, j * n + i := 1 - v i j]) (c # cs) p ! (a * n + b) =
      (if (a, b) \<in> set cs then v a b else if (b, a) \<in> set cs then 1 - v b a else ?q ! (a * n + b))"
    using Cons.IH [of ?q] Cons.prems by (simp add: c)
  show ?case
    unfolding step q using order
    by (cases "(a, b) \<in> set cs"; cases "(b, a) \<in> set cs") (auto simp: c)
qed simp

lemma set_pair_cells: "set (pair_cells n) = {(i, j). i < j \<and> j < n}"
  by (fastforce simp: pair_cells_def)

text \<open>The stored mirror: each pairing is asked once and its two entries add up to one.\<close>

lemma pair_odds:
  assumes "a < b" and "b < length es"
  shows "odds_of (length es) (new_pair_odds es win) a b = pair_value es win a b"
    and "odds_of (length es) (new_pair_odds es win) b a = 1 - pair_value es win a b"
proof -
  have all: "list_all (\<lambda>(i, j). i < j \<and> j < length es) (pair_cells (length es))"
    by (auto simp: list_all_iff set_pair_cells)
  show "odds_of (length es) (new_pair_odds es win) a b = pair_value es win a b"
    and "odds_of (length es) (new_pair_odds es win) b a = 1 - pair_value es win a b"
    using assms by (simp_all add: odds_of_def new_pair_odds_def Let_def
        pair_odds_fold [OF all] set_pair_cells)
qed

section \<open>A run as rounds of winners\<close>

fun winners :: "(nat \<Rightarrow> nat \<Rightarrow> real) \<Rightarrow> (nat \<Rightarrow> real) \<Rightarrow> nat \<Rightarrow> nat list \<Rightarrow> nat list" where
  "winners odds rng k (a # c # xs) =
     (if rng k < odds a c then a else c) # winners odds rng (Suc k) xs"
| "winners odds rng k xs = []"

fun run_winners :: "(nat \<Rightarrow> nat \<Rightarrow> real) \<Rightarrow> (nat \<Rightarrow> real) \<Rightarrow> nat \<Rightarrow> nat \<Rightarrow> nat list \<Rightarrow> nat list list" where
  "run_winners odds rng 0 k xs = []"
| "run_winners odds rng (Suc m) k xs =
     (let ws = winners odds rng k xs in ws # run_winners odds rng m (k + length ws) ws)"

lemma length_winners: "length (winners odds rng k xs) = length xs div 2"
  by (induction odds rng k xs rule: winners.induct) auto

lemma winners_subset: "set (winners odds rng k xs) \<subseteq> set xs"
  by (induction odds rng k xs rule: winners.induct) auto

lemma distinct_winners: "distinct xs \<Longrightarrow> distinct (winners odds rng k xs)"
  by (induction odds rng k xs rule: winners.induct) (use winners_subset in \<open>auto, blast+\<close>)

text \<open>Writing the winner of slots \<open>i\<close> and \<open>i + 1\<close> to slot \<open>i div 2\<close> never overwrites a player who is
  still to play: the loop in place computes the list of winners.\<close>

lemma play_slots_winners:
  assumes "even alive" "even i" "i \<le> alive" "alive \<le> length field"
  shows "\<exists>field'. play_slots odds rng rounds r alive i (field, tally, k) =
      Some (field', fold (bump rounds r) (winners odds rng k (drop i (take alive field))) tally,
            k + (alive - i) div 2)
    \<and> length field' = length field
    \<and> take (alive div 2) field' = take (i div 2) field @ winners odds rng k (drop i (take alive field))"
  using assms
proof (induction "alive - i" arbitrary: i field tally k rule: less_induct)
  case less
  show ?case
  proof (cases "alive \<le> i")
    case True
    then show ?thesis using less.prems by (subst play_slots.simps) simp
  next
    case False
    then have lt: "i + 1 < alive" using less.prems(1,2,3) by presburger
    let ?a = "field ! i" and ?c = "field ! (i + 1)"
    define w where "w = (if rng k < odds ?a ?c then ?a else ?c)"
    let ?f = "field[i div 2 := w]"
    have split: "drop i (take alive field) = ?a # ?c # drop (i + 2) (take alive field)"
      using lt less.prems by (simp add: Cons_nth_drop_Suc [symmetric] numeral_2_eq_2)
    have same: "drop (i + 2) (take alive ?f) = drop (i + 2) (take alive field)"
      by (simp add: take_update_swap)
    have head: "take ((i + 2) div 2) ?f = take (i div 2) field @ [w]"
      using lt less.prems by (simp add: take_Suc_conv_app_nth)
    have count: "(alive - i) div 2 = Suc ((alive - (i + 2)) div 2)"
      using lt by (metis Suc_diff_Suc Suc_lessD add_2_eq_Suc' add_Suc_right diff_Suc_Suc
          div2_Suc_Suc plus_1_eq_Suc add.commute)
    have "alive - (i + 2) < alive - i" "even (i + 2)" "i + 2 \<le> alive" "alive \<le> length ?f"
      using lt less.prems by auto
    from less.hyps [OF this(1) less.prems(1) this(2-4), of "bump rounds r w tally" "k + 1"]
    show ?thesis
      using lt less.prems unfolding same head count
      by (subst play_slots.simps, cases "rng k < odds ?a ?c") (simp_all add: split Let_def w_def)
  qed
qed

section \<open>What a run adds to the tally\<close>

text \<open>\<open>won_round\<close> counts how often line \<open>w\<close> won round \<open>r\<close> in the run that starts at draw \<open>k\<close>.\<close>

definition won_round :: "(nat \<Rightarrow> nat \<Rightarrow> real) \<Rightarrow> nat \<Rightarrow> (nat \<Rightarrow> real) \<times> nat \<Rightarrow> nat \<Rightarrow> nat \<Rightarrow> nat" where
  "won_round odds rounds run r w =
     count_list (run_winners odds (fst run) rounds (snd run) [0..<2 ^ rounds] ! r) w"

lemma length_bumps [simp]: "length (fold (bump rounds r) ws tally) = length tally"
  by (induction ws arbitrary: tally) (simp_all add: bump_def)

lemma bumps_nth:
  "list_all (\<lambda>w. w * rounds + r < length tally) ws \<Longrightarrow> r < rounds \<Longrightarrow> r' < rounds \<Longrightarrow>
   fold (bump rounds r) ws tally ! (w * rounds + r') =
   tally ! (w * rounds + r') + (if r' = r then count_list ws w else 0)"
proof (induction ws arbitrary: tally)
  case (Cons x ws)
  have "bump rounds r x tally ! (w * rounds + r') =
      tally ! (w * rounds + r') + (if x * rounds + r = w * rounds + r' then 1 else 0)"
    using Cons.prems by (auto simp: bump_def nth_list_update)
  moreover have "x * rounds + r = w * rounds + r' \<longleftrightarrow> x = w \<and> r = r'"
    using Cons.prems(2,3) by (rule cell_eq)
  moreover have "list_all (\<lambda>w. w * rounds + r < length (bump rounds r x tally)) ws"
    using Cons.prems(1) by (simp add: bump_def)
  ultimately show ?case using Cons by auto
qed simp

lemma tally_index: "w < n \<Longrightarrow> r < rounds \<Longrightarrow> w * rounds + r < n * (rounds::nat)"
proof -
  assume "w < n" "r < rounds"
  then have "w * rounds + r < Suc w * rounds" by simp
  also have "\<dots> \<le> n * rounds" using \<open>w < n\<close> by (intro mult_le_mono1) simp
  finally show ?thesis .
qed

lemma play_rounds_winners:
  assumes "r + m = rounds" and "length field = n" and "2 ^ m \<le> n" and "length tally = n * rounds"
    and "list_all (\<lambda>x. x < n) (take (2 ^ m) field)"
  shows "\<exists>field' tally'. play_rounds odds rng rounds [r..<rounds] (2 ^ m) (field, tally, k) =
      Some (field', tally', k + 2 ^ m - 1) \<and> length tally' = n * rounds
    \<and> (\<forall>w < n. \<forall>r' < rounds. tally' ! (w * rounds + r') = tally ! (w * rounds + r') +
         (if r \<le> r' then count_list (run_winners odds rng m k (take (2 ^ m) field) ! (r' - r)) w else 0))"
  using assms
proof (induction m arbitrary: r field tally k)
  case 0
  then show ?case by auto
next
  case (Suc m)
  let ?xs = "take (2 ^ Suc m) field"
  let ?ws = "winners odds rng k ?xs"
  let ?t = "fold (bump rounds r) ?ws tally"
  have r: "r < rounds" using Suc.prems(1) by simp
  have len: "length ?ws = 2 ^ m" using Suc.prems(2,3) by (simp add: length_winners)
  obtain f where f: "play_slots odds rng rounds r (2 ^ Suc m) 0 (field, tally, k) = Some (f, ?t, k + 2 ^ m)"
    and lf: "length f = length field" and tf: "take (2 ^ m) f = ?ws"
    using play_slots_winners [of "2 ^ Suc m" 0 field odds rng rounds r tally k] Suc.prems(2,3) by auto
  have small: "list_all (\<lambda>x. x < n) ?ws"
    using winners_subset [of odds rng k ?xs] Suc.prems(5) by (auto simp: list_all_iff)
  have half: "(2::nat) ^ m \<le> n" using Suc.prems(3) by simp
  obtain f' t' where play: "play_rounds odds rng rounds [Suc r..<rounds] (2 ^ m) (f, ?t, k + 2 ^ m) =
      Some (f', t', k + 2 ^ m + 2 ^ m - 1)" and lt: "length t' = n * rounds"
    and t': "\<forall>w < n. \<forall>r' < rounds. t' ! (w * rounds + r') = ?t ! (w * rounds + r') +
         (if Suc r \<le> r' then count_list (run_winners odds rng m (k + 2 ^ m) ?ws ! (r' - Suc r)) w else 0)"
    using Suc.IH [of "Suc r" f ?t "k + 2 ^ m"] Suc.prems(1,2,4) lf tf small half by auto
  have idx: "list_all (\<lambda>w. w * rounds + r < length tally) ?ws"
    using small r Suc.prems(4) by (auto simp: list_all_iff tally_index)
  have total: "t' ! (w * rounds + r') = tally ! (w * rounds + r') +
         (if r \<le> r' then count_list (run_winners odds rng (Suc m) k ?xs ! (r' - r)) w else 0)"
    if w: "w < n" and r': "r' < rounds" for w r'
  proof -
    have "run_winners odds rng (Suc m) k ?xs ! (r' - r) =
        (if r' = r then ?ws else run_winners odds rng m (k + 2 ^ m) ?ws ! (r' - Suc r))" if "r \<le> r'"
      using that unfolding run_winners.simps Let_def len nth_Cons' by auto
    then show ?thesis
      using t' w r' bumps_nth [OF idx r r', of w] by auto
  qed
  have "[r..<rounds] = r # [Suc r..<rounds]" using r by (rule upt_conv_Cons)
  then show ?case
    using f play lt total by (auto simp: mult_2)
qed

lemma play_once_tally:
  assumes "length tally = 2 ^ rounds * rounds"
  shows "\<exists>tally'. play_once (2 ^ rounds) odds rng rounds (tally, k) = Some (tally', k + 2 ^ rounds - 1)
    \<and> length tally' = 2 ^ rounds * rounds
    \<and> (\<forall>w < 2 ^ rounds. \<forall>r < rounds.
         tally' ! (w * rounds + r) = tally ! (w * rounds + r) + won_round odds rounds (rng, k) r w)"
proof -
  have take: "take (2 ^ rounds) [0..<2 ^ rounds] = [0..<2 ^ rounds]" by simp
  have small: "list_all (\<lambda>x. x < 2 ^ rounds) (take (2 ^ rounds) [0..<2 ^ rounds])"
    by (simp add: list_all_iff)
  have len: "length [0..<2 ^ rounds] = 2 ^ rounds" by simp
  from play_rounds_winners [OF add_0 len order_refl assms small, of odds rng k]
  show ?thesis
    unfolding play_once_def won_round_def take fst_conv snd_conv
    by (elim exE conjE) (simp only: option.case prod.case, simp)
qed

definition runs_of :: "nat \<Rightarrow> (nat \<Rightarrow> real) \<Rightarrow> nat \<Rightarrow> nat \<Rightarrow> ((nat \<Rightarrow> real) \<times> nat) list" where
  "runs_of rounds rng n k = map (\<lambda>i. (rng, k + i * (2 ^ rounds - 1))) [0..<n]"

lemma runs_of_Suc: "runs_of rounds rng (Suc n) k = (rng, k) # runs_of rounds rng n (k + 2 ^ rounds - 1)"
proof -
  have upt: "[0..<Suc n] = 0 # map Suc [0..<n]"
    by (simp only: upt_conv_Cons map_Suc_upt zero_less_Suc)
  have shift: "k + Suc i * (2 ^ rounds - 1) = k + 2 ^ rounds - 1 + i * (2 ^ rounds - 1)" for i
    by (cases "(2::nat) ^ rounds") simp_all
  show ?thesis
    unfolding runs_of_def upt list.map map_map o_def shift by simp
qed

lemma play_share_tally:
  assumes "length tally = 2 ^ rounds * rounds"
  shows "\<exists>tally' k'. play_share (2 ^ rounds) odds rng rounds n (tally, k) = Some (tally', k')
    \<and> length tally' = 2 ^ rounds * rounds
    \<and> (\<forall>w < 2 ^ rounds. \<forall>r < rounds. tally' ! (w * rounds + r) = tally ! (w * rounds + r) +
         (\<Sum>run \<leftarrow> runs_of rounds rng n k. won_round odds rounds run r w))"
  using assms
proof (induction n arbitrary: tally k)
  case 0
  then show ?case by (auto simp: runs_of_def)
next
  case (Suc n)
  from play_once_tally [OF Suc.prems, of odds rng k]
  obtain t where t: "play_once (2 ^ rounds) odds rng rounds (tally, k) = Some (t, k + 2 ^ rounds - 1)"
    and lt: "length t = 2 ^ rounds * rounds"
    and vt: "\<forall>w < 2 ^ rounds. \<forall>r < rounds.
         t ! (w * rounds + r) = tally ! (w * rounds + r) + won_round odds rounds (rng, k) r w"
    by blast
  from Suc.IH [OF lt, of "k + 2 ^ rounds - 1"] show ?case
    using vt by (auto simp: t runs_of_Suc)
qed

section \<open>The workers together\<close>

text \<open>The runs of all workers, and that their shares add up to the runs asked for.\<close>

definition all_runs :: "nat \<Rightarrow> (nat \<Rightarrow> nat \<Rightarrow> real) \<Rightarrow> nat \<Rightarrow> nat \<Rightarrow> nat list \<Rightarrow> ((nat \<Rightarrow> real) \<times> nat) list" where
  "all_runs rounds streams runs workers ws =
     concat (map (\<lambda>w. runs_of rounds (streams (w + 1)) (share_of runs workers w) 0) ws)"

lemma shares_sum:
  assumes "0 < workers"
  shows "(\<Sum>w \<leftarrow> [0..<workers]. share_of runs workers w) = runs"
proof -
  have extra: "(\<Sum>w \<leftarrow> [0..<n]. if w < k then 1 else 0) = min n k" for n k :: nat
    by (induction n) auto
  have const: "(\<Sum>w \<leftarrow> [0..<n]. c) = n * c" for n c :: nat
    by (induction n) auto
  have "(\<Sum>w \<leftarrow> [0..<workers]. share_of runs workers w) =
      (\<Sum>w \<leftarrow> [0..<workers]. runs div workers)
      + (\<Sum>w \<leftarrow> [0..<workers]. if w < runs mod workers then 1 else 0)"
    unfolding share_of_def by (rule sum_list_addf)
  also have "\<dots> = workers * (runs div workers) + min workers (runs mod workers)"
    unfolding extra const ..
  also have "\<dots> = runs"
    using assms by (simp add: min.absorb2 order_less_imp_le)
  finally show ?thesis .
qed

lemma length_all_runs:
  "0 < workers \<Longrightarrow> length (all_runs rounds streams runs workers [0..<workers]) = runs"
  using shares_sum [of workers runs] by (simp add: all_runs_def length_concat o_def runs_of_def)

lemma add_tallies_nth:
  "list_all (\<lambda>t. length t = length totals) ts \<Longrightarrow> i < length totals \<Longrightarrow>
   fold add_tally ts totals ! i = totals ! i + (\<Sum>t \<leftarrow> ts. t ! i)"
proof (induction ts arbitrary: totals)
  case (Cons t ts)
  then have "length (add_tally t totals) = length totals" "add_tally t totals ! i = totals ! i + t ! i"
    by (simp_all add: add_tally_def)
  then show ?case using Cons by (auto simp: list_all_iff)
qed simp

lemma worker_tallies_total:
  "\<exists>ts. worker_tallies (2 ^ rounds) odds streams rounds runs workers ws = Some ts
    \<and> list_all (\<lambda>t. length t = 2 ^ rounds * rounds) ts
    \<and> (\<forall>w < 2 ^ rounds. \<forall>r < rounds. (\<Sum>t \<leftarrow> ts. t ! (w * rounds + r)) =
         (\<Sum>run \<leftarrow> all_runs rounds streams runs workers ws. won_round odds rounds run r w))"
proof (induction ws)
  case Nil
  then show ?case by (simp add: all_runs_def)
next
  case (Cons x ws)
  obtain tally k where play: "play_share (2 ^ rounds) odds (streams (x + 1)) rounds (share_of runs workers x)
        (replicate (2 ^ rounds * rounds) 0, 0) = Some (tally, k)"
    and len: "length tally = 2 ^ rounds * rounds"
    and vals: "\<forall>w < 2 ^ rounds. \<forall>r < rounds. tally ! (w * rounds + r) =
        replicate (2 ^ rounds * rounds) 0 ! (w * rounds + r) +
        (\<Sum>run \<leftarrow> runs_of rounds (streams (x + 1)) (share_of runs workers x) 0. won_round odds rounds run r w)"
    using play_share_tally [of "replicate (2 ^ rounds * rounds) 0" rounds odds "streams (x + 1)"
        "share_of runs workers x" 0] by auto
  obtain ts where ts: "worker_tallies (2 ^ rounds) odds streams rounds runs workers ws = Some ts"
    and all: "list_all (\<lambda>t. length t = 2 ^ rounds * rounds) ts"
    and sums: "\<forall>w < 2 ^ rounds. \<forall>r < rounds. (\<Sum>t \<leftarrow> ts. t ! (w * rounds + r)) =
         (\<Sum>run \<leftarrow> all_runs rounds streams runs workers ws. won_round odds rounds run r w)"
    using Cons.IH by blast
  have "(\<Sum>t \<leftarrow> tally # ts. t ! (w * rounds + r)) =
         (\<Sum>run \<leftarrow> all_runs rounds streams runs workers (x # ws). won_round odds rounds run r w)"
    if "w < 2 ^ rounds" "r < rounds" for w r
    using that vals sums by (simp add: all_runs_def tally_index)
  then show ?case using play ts len all by simp
qed

section \<open>Facts of one run\<close>

lemma run_winners_facts:
  assumes "length xs = 2 ^ m" and "distinct xs" and "r < m"
  shows "length (run_winners odds rng m k xs ! r) = 2 ^ (m - 1 - r)
    \<and> distinct (run_winners odds rng m k xs ! r)
    \<and> set (run_winners odds rng m k xs ! r) \<subseteq> set (winners odds rng k xs)
    \<and> (Suc r < m \<longrightarrow> set (run_winners odds rng m k xs ! Suc r) \<subseteq> set (run_winners odds rng m k xs ! r))"
  using assms
proof (induction m arbitrary: k xs r)
  case (Suc m)
  let ?ws = "winners odds rng k xs"
  have len: "length ?ws = 2 ^ m" and dist: "distinct ?ws"
    using Suc.prems by (simp_all add: length_winners distinct_winners)
  note IH = Suc.IH [OF len dist, of _ "k + length ?ws"]
  have sub: "set (winners odds rng (k + length ?ws) ?ws) \<subseteq> set ?ws" by (rule winners_subset)
  show ?case
  proof (cases r)
    case 0
    then show ?thesis
      using len dist IH [of 0] sub by (auto simp: Let_def)
  next
    case (Suc r')
    then show ?thesis
      using Suc.prems IH [of r'] sub by (auto simp: Let_def)
  qed
qed simp

lemma winner_of_pair:
  "x \<in> set (winners odds rng k xs) \<Longrightarrow>
   \<exists>i j. 2 * i + 1 < length xs \<and>
     x = (if rng j < odds (xs ! (2 * i)) (xs ! (2 * i + 1)) then xs ! (2 * i) else xs ! (2 * i + 1))"
proof (induction odds rng k xs rule: winners.induct)
  case (1 odds rng k a c xs)
  show ?case
  proof (cases "x = (if rng k < odds a c then a else c)")
    case True
    then show ?thesis by (intro exI [of _ 0] exI [of _ k]) auto
  next
    case False
    then obtain i j where "2 * i + 1 < length xs"
      "x = (if rng j < odds (xs ! (2 * i)) (xs ! (2 * i + 1)) then xs ! (2 * i) else xs ! (2 * i + 1))"
      using 1 by auto
    then show ?thesis by (intro exI [of _ "Suc i"] exI [of _ j]) auto
  qed
qed auto

lemma count_list_distinct: "distinct xs \<Longrightarrow> count_list xs x = (if x \<in> set xs then 1 else 0)"
  by (induction xs) auto

text \<open>The odds of a bracket against a stream in [0, 1): a bye beats nobody in the first round, so it
  never wins one.\<close>

definition in_unit :: "(nat \<Rightarrow> real) \<Rightarrow> bool" where
  "in_unit rng \<longleftrightarrow> (\<forall>k. 0 \<le> rng k \<and> rng k < 1)"

definition no_double_bye :: "entrant list \<Rightarrow> bool" where
  "no_double_bye es \<longleftrightarrow> (\<forall>i. 2 * i + 1 < length es \<longrightarrow> \<not> (is_bye (es ! (2 * i)) \<and> is_bye (es ! (2 * i + 1))))"

lemma bye_never_wins:
  assumes "in_unit rng" and "no_double_bye es"
    and x: "x \<in> set (winners (odds_of (length es) (new_pair_odds es win)) rng k [0..<length es])"
  shows "\<not> is_bye (es ! x)"
proof -
  let ?o = "odds_of (length es) (new_pair_odds es win)"
  obtain i j where i: "2 * i + 1 < length es"
    and x: "x = (if rng j < ?o (2 * i) (2 * i + 1) then 2 * i else 2 * i + 1)"
    using winner_of_pair [OF x] by (auto split: if_splits)
  have odds: "?o (2 * i) (2 * i + 1) = pair_value es win (2 * i) (2 * i + 1)"
    using i by (intro pair_odds) auto
  have "\<not> (is_bye (es ! (2 * i)) \<and> is_bye (es ! (2 * i + 1)))"
    using assms(2) i by (simp add: no_double_bye_def)
  moreover have "0 \<le> rng j" "rng j < 1" using assms(1) by (simp_all add: in_unit_def)
  ultimately show ?thesis
    using x unfolding odds pair_value_def by (auto split: if_splits)
qed

lemma won_round_facts:
  assumes "r < rounds"
  shows "(\<Sum>w < 2 ^ rounds. won_round odds rounds run r w) = 2 ^ (rounds - 1 - r)"
    and "won_round odds rounds run r w \<le> 1"
    and "Suc r < rounds \<Longrightarrow> won_round odds rounds run (Suc r) w \<le> won_round odds rounds run r w"
    and "0 < won_round odds rounds run r w \<Longrightarrow> w \<in> set (winners odds (fst run) (snd run) [0..<2 ^ rounds])"
proof -
  let ?xs = "[0..<2 ^ rounds]"
  have base: "length ?xs = 2 ^ rounds" "distinct ?xs" by simp_all
  note facts = run_winners_facts [OF base assms, of odds "fst run" "snd run"]
  have "set (winners odds (fst run) (snd run) ?xs) \<subseteq> {..<2 ^ rounds}"
    using winners_subset [of odds "fst run" "snd run" ?xs] by auto
  then show "(\<Sum>w < 2 ^ rounds. won_round odds rounds run r w) = 2 ^ (rounds - 1 - r)"
    unfolding won_round_def using facts by (subst sum_count_set) auto
  show "won_round odds rounds run r w \<le> 1"
    unfolding won_round_def using facts by (simp add: count_list_distinct)
  show "0 < won_round odds rounds run r w \<Longrightarrow> w \<in> set (winners odds (fst run) (snd run) ?xs)"
    unfolding won_round_def using facts by (auto simp: count_list_distinct split: if_splits)
  show "won_round odds rounds run (Suc r) w \<le> won_round odds rounds run r w" if "Suc r < rounds"
    unfolding won_round_def
    using facts that run_winners_facts [OF base that, of odds "fst run" "snd run"]
    by (auto simp: count_list_distinct)
qed

section \<open>The draw as a whole\<close>

definition reach_count :: "(nat \<Rightarrow> nat \<Rightarrow> real) \<Rightarrow> nat \<Rightarrow> ((nat \<Rightarrow> real) \<times> nat) list \<Rightarrow> nat \<Rightarrow> nat \<Rightarrow> nat" where
  "reach_count odds rounds runs w r = (\<Sum>run \<leftarrow> runs. won_round odds rounds run r w)"

lemma sum_list_swap: "(\<Sum>w \<in> A. \<Sum>x \<leftarrow> xs. f x w) = (\<Sum>x \<leftarrow> xs. \<Sum>w \<in> A. f x w)"
  for f :: "'b \<Rightarrow> 'c \<Rightarrow> nat"
  by (induction xs) (simp_all add: sum.distrib)

lemma sum_list_le_length: "(\<And>x. x \<in> set xs \<Longrightarrow> f x \<le> (1::nat)) \<Longrightarrow> (\<Sum>x \<leftarrow> xs. f x) \<le> length xs"
proof (induction xs)
  case (Cons a xs)
  have "f a \<le> 1" "(\<Sum>x \<leftarrow> xs. f x) \<le> length xs" using Cons by auto
  then show ?case by simp
qed simp

lemma reach_count_facts:
  assumes "r < rounds"
  shows "(\<Sum>w < 2 ^ rounds. reach_count odds rounds runs w r) = length runs * 2 ^ (rounds - 1 - r)"
    and "reach_count odds rounds runs w r \<le> length runs"
    and "Suc r < rounds \<Longrightarrow> reach_count odds rounds runs w (Suc r) \<le> reach_count odds rounds runs w r"
proof -
  show "(\<Sum>w < 2 ^ rounds. reach_count odds rounds runs w r) = length runs * 2 ^ (rounds - 1 - r)"
    unfolding reach_count_def sum_list_swap won_round_facts(1) [OF assms]
    by (induction runs) auto
  show "reach_count odds rounds runs w r \<le> length runs"
    unfolding reach_count_def by (intro sum_list_le_length won_round_facts(2) [OF assms])
  show "Suc r < rounds \<Longrightarrow> reach_count odds rounds runs w (Suc r) \<le> reach_count odds rounds runs w r"
    unfolding reach_count_def by (intro sum_list_mono won_round_facts(3) [OF assms])
qed

lemma bye_reaches_nothing:
  assumes "r < rounds" and len: "length es = 2 ^ rounds" and "no_double_bye es"
    and "list_all (\<lambda>run. in_unit (fst run)) runs" and "is_bye (es ! w)"
  shows "reach_count (odds_of (2 ^ rounds) (new_pair_odds es win)) rounds runs w r = 0"
  using assms(4)
proof (induction runs)
  case (Cons run runs)
  have "won_round (odds_of (2 ^ rounds) (new_pair_odds es win)) rounds run r w = 0"
    using won_round_facts(4) [OF assms(1)] bye_never_wins [of "fst run" es w win "snd run"] Cons.prems assms
    unfolding len by fastforce
  then show ?case using Cons by (simp add: reach_count_def)
qed (simp add: reach_count_def)

lemma run_draw_counts:
  fixes runs0 :: int
  assumes size: "bracket_size b = 2 ^ rounds" and rounds: "rounds = length (Rounds b)" "0 < rounds"
    and procs: "0 < procs" and unit: "\<And>w. in_unit (streams seed w)"
  defines "runs \<equiv> (if runs0 < 1 then 10000 else runs0)"
  obtains rs where "length rs = nat runs" and "list_all (\<lambda>run. in_unit (fst run)) rs"
    and "run_draw procs streams b win runs0 seed = Some
      \<lparr>Odds = map (\<lambda>ie. let reached = map (\<lambda>r. real (reach_count (odds_of (2 ^ rounds) (new_pair_odds (Entrants b) win))
                                rounds rs (fst ie) r) / real (nat runs)) [0..<rounds]
                      in \<lparr>OEntrant = snd ie, Title = reached ! (rounds - 1),
                          TitleInterval = interval (reached ! (rounds - 1)) (nat runs), Reached = reached\<rparr>)
                (filter (\<lambda>ie. \<not> is_bye (snd ie)) (enumerate 0 (Entrants b))),
       Runs = runs, RSeed = seed, RChampion = Champion b\<rparr>"
proof -
  let ?o = "odds_of (2 ^ rounds) (new_pair_odds (Entrants b) win)"
  let ?workers = "if int procs > runs then nat runs else procs"
  define rs where "rs = all_runs rounds (streams seed) (nat runs) ?workers [0..<?workers]"
  have runs: "1 \<le> runs" "runs = (if runs0 < 1 then defaultRuns else runs0)"
    by (auto simp: runs_def defaultRuns_def)
  have workers: "0 < ?workers" using procs runs(1) by auto
  obtain ts where ts: "worker_tallies (2 ^ rounds) ?o (streams seed) rounds (nat runs) ?workers [0..<?workers] = Some ts"
    and lens: "list_all (\<lambda>t. length t = 2 ^ rounds * rounds) ts"
    and sums: "\<forall>w < 2 ^ rounds. \<forall>r < rounds. (\<Sum>t \<leftarrow> ts. t ! (w * rounds + r)) = reach_count ?o rounds rs w r"
    using worker_tallies_total [of rounds ?o "streams seed" "nat runs" ?workers "[0..<?workers]"]
    unfolding reach_count_def rs_def by blast
  let ?total = "fold add_tally ts (replicate (2 ^ rounds * rounds) 0)"
  have cell: "?total ! (w * rounds + r) = reach_count ?o rounds rs w r" if "w < 2 ^ rounds" "r < rounds" for w r
    using that lens sums add_tallies_nth [of "replicate (2 ^ rounds * rounds) 0" ts "w * rounds + r"]
    by (simp add: tally_index)
  have entry: "entrant_odds rounds (nat runs) ?total ie =
      (let reached = map (\<lambda>r. real (reach_count ?o rounds rs (fst ie) r) / real (nat runs)) [0..<rounds]
       in \<lparr>OEntrant = snd ie, Title = reached ! (rounds - 1),
           TitleInterval = interval (reached ! (rounds - 1)) (nat runs), Reached = reached\<rparr>)"
    if "ie \<in> set (filter (\<lambda>ie. \<not> is_bye (snd ie)) (enumerate 0 (Entrants b)))" for ie
  proof -
    have "fst ie < 2 ^ rounds"
      using that size by (auto simp: in_set_enumerate_eq bracket_size_def)
    then have "map (\<lambda>r. real (?total ! (fst ie * rounds + r)) / real (nat runs)) [0..<rounds] =
        map (\<lambda>r. real (reach_count ?o rounds rs (fst ie) r) / real (nat runs)) [0..<rounds]"
      using cell by auto
    then show ?thesis by (simp only: entrant_odds_def Let_def)
  qed
  have big: "((2::nat) ^ rounds < 2 \<or> rounds = 0) = False"
    using rounds self_le_power [of "2::nat" rounds] by auto
  note maps = map_cong [OF refl entry, unfolded Let_def]
  show ?thesis
  proof (rule that [of rs])
    show "length rs = nat runs" unfolding rs_def by (rule length_all_runs [OF workers])
    show "list_all (\<lambda>run. in_unit (fst run)) rs"
      using unit by (auto simp: rs_def all_runs_def runs_of_def list_all_iff)
    show "run_draw procs streams b win runs0 seed = Some
      \<lparr>Odds = map (\<lambda>ie. let reached = map (\<lambda>r. real (reach_count ?o rounds rs (fst ie) r) / real (nat runs)) [0..<rounds]
                      in \<lparr>OEntrant = snd ie, Title = reached ! (rounds - 1),
                          TitleInterval = interval (reached ! (rounds - 1)) (nat runs), Reached = reached\<rparr>)
                (filter (\<lambda>ie. \<not> is_bye (snd ie)) (enumerate 0 (Entrants b))),
       Runs = runs, RSeed = seed, RChampion = Champion b\<rparr>"
      unfolding run_draw_def Let_def runs(2) [symmetric] size rounds(1) [symmetric] big if_False ts option.case
      by (simp only: maps)
  qed
qed

text \<open>What a run of the draw returns; the property below states it.\<close>

lemma run_draw_odds:
  assumes "bracket_size b = 2 ^ length (Rounds b)" and "0 < length (Rounds b)" and "0 < procs"
    and "\<And>w. in_unit (streams seed w)" and "no_double_bye (Entrants b)"
  shows "\<exists>res. run_draw procs streams b win runs0 seed = Some res
     \<and> map OEntrant (Odds res) = filter (\<lambda>e. \<not> is_bye e) (Entrants b)
     \<and> (\<Sum>e \<leftarrow> Odds res. Title e) = 1
     \<and> (\<forall>r < length (Rounds b). (\<Sum>e \<leftarrow> Odds res. Reached e ! r) = 2 ^ (length (Rounds b) - 1 - r))
     \<and> list_all (\<lambda>e. length (Reached e) = length (Rounds b) \<and> Title e = last (Reached e)
          \<and> list_all (\<lambda>p. 0 \<le> p \<and> p \<le> 1) (Reached e) \<and> sorted_wrt (\<ge>) (Reached e)) (Odds res)"
proof -
  define rounds where "rounds = length (Rounds b)"
  let ?es = "Entrants b" and ?o = "odds_of (2 ^ rounds) (new_pair_odds (Entrants b) win)"
  let ?n = "nat (if runs0 < 1 then 10000 else runs0)"
  have pos: "0 < ?n" and rpos: "0 < rounds" and size: "bracket_size b = 2 ^ rounds" "length ?es = 2 ^ rounds"
    using assms(1,2) by (simp_all add: rounds_def bracket_size_def)
  obtain rs where rs: "length rs = ?n" "list_all (\<lambda>run. in_unit (fst run)) rs"
    and draw: "run_draw procs streams b win runs0 seed = Some
      \<lparr>Odds = map (\<lambda>ie. let reached = map (\<lambda>r. real (reach_count ?o rounds rs (fst ie) r) / real ?n) [0..<rounds]
                      in \<lparr>OEntrant = snd ie, Title = reached ! (rounds - 1),
                          TitleInterval = interval (reached ! (rounds - 1)) ?n, Reached = reached\<rparr>)
                (filter (\<lambda>ie. \<not> is_bye (snd ie)) (enumerate 0 ?es)),
       Runs = if runs0 < 1 then 10000 else runs0, RSeed = seed, RChampion = Champion b\<rparr>"
    by (rule run_draw_counts [OF size(1) rounds_def rpos assms(3), of streams seed runs0 win])
      (use assms(4) in auto)
  let ?p = "\<lambda>i r. real (reach_count ?o rounds rs i r) / real ?n"
  let ?row = "\<lambda>i. map (?p i) [0..<rounds]"
  let ?live = "filter (\<lambda>ie. \<not> is_bye (snd ie)) (enumerate 0 ?es)"
  have column: "(\<Sum>ie \<leftarrow> ?live. ?p (fst ie) r) = 2 ^ (rounds - 1 - r)" if r: "r < rounds" for r
  proof -
    have "?p (fst ie) r = 0" if "ie \<in> set (enumerate 0 ?es)" "\<not> \<not> is_bye (snd ie)" for ie
      using bye_reaches_nothing [OF r size(2) assms(5) rs(2), of "fst ie" win] that
      by (auto simp: in_set_enumerate_eq)
    then have "(\<Sum>ie \<leftarrow> ?live. ?p (fst ie) r) = (\<Sum>ie \<leftarrow> enumerate 0 ?es. ?p (fst ie) r)"
      by (rule sum_list_map_filter)
    also have "\<dots> = (\<Sum>i \<leftarrow> map fst (enumerate 0 ?es). ?p i r)" by (simp only: map_map o_def)
    also have "\<dots> = (\<Sum>i < 2 ^ rounds. ?p i r)"
      using size(2) by (simp add: interv_sum_list_conv_sum_set_nat atLeast0LessThan)
    also have "\<dots> = real (\<Sum>i < 2 ^ rounds. reach_count ?o rounds rs i r) / real ?n"
      by (simp only: sum_divide_distrib of_nat_sum)
    also have "\<dots> = 2 ^ (rounds - 1 - r)"
      unfolding reach_count_facts(1) [OF r] rs(1) using pos by simp
    finally show ?thesis .
  qed
  have bounds: "list_all (\<lambda>p. 0 \<le> p \<and> p \<le> 1) (?row i)" for i
  proof -
    have "?p i r \<le> 1" if "r < rounds" for r
      using reach_count_facts(2) [OF that, of ?o rs i] pos unfolding rs(1)
      by (simp only: divide_le_eq_1_pos of_nat_0_less_iff of_nat_le_iff)
    then show ?thesis by (auto simp: list_all_iff)
  qed
  have falling: "sorted_wrt (\<ge>) (?row i)" for i
  proof -
    have "?p i (Suc r) \<le> ?p i r" if "Suc r < rounds" for r
      using reach_count_facts(3) [of r rounds ?o rs i] that by (intro divide_right_mono) auto
    then have "successively (\<ge>) (?row i)"
      by (auto simp: successively_conv_nth)
    then show ?thesis by (subst (asm) successively_iff_sorted_wrt_strong) auto
  qed
  have last: "last (?row i) = ?row i ! (rounds - 1)" for i
    using rpos by (simp add: last_conv_nth)
  have names: "map (\<lambda>ie. snd ie) ?live = filter (\<lambda>e. \<not> is_bye e) ?es"
  proof -
    have "filter (\<lambda>e. \<not> is_bye e) (map snd (enumerate 0 ?es)) = map snd ?live"
      by (simp only: filter_map o_def)
    then show ?thesis by simp
  qed
  show ?thesis
    unfolding draw rounds_def [symmetric] Let_def
    by (rule exI, rule conjI, rule refl,
        insert column [of "rounds - 1"] column rpos bounds falling last names, intro conjI)
      (simp_all add: o_def list_all_iff)
qed

text \<open>
  C4: the odds of a simulated draw are consistent, however many workers share the runs. On a
  bracket of \<open>2^rounds\<close> lines in which no bye meets a bye, every run finishes within the bounds of
  its arrays; the result lists the entrants that are not byes in bracket order; the chances of
  reaching a round add up to the places in it, so the title chances add up to one; each chance is
  in [0, 1] and never grows from one round to the next.
\<close>

theorem draw_odds_consistent:
  assumes "bracket_size b = 2 ^ length (Rounds b)" and "0 < length (Rounds b)" and "0 < procs"
    and "\<And>w. in_unit (streams seed w)" and "no_double_bye (Entrants b)"
  shows "\<exists>res. run_draw procs streams b win runs0 seed = Some res
     \<and> map OEntrant (Odds res) = filter (\<lambda>e. \<not> is_bye e) (Entrants b)
     \<and> (\<Sum>e \<leftarrow> Odds res. Title e) = 1
     \<and> (\<forall>r < length (Rounds b). (\<Sum>e \<leftarrow> Odds res. Reached e ! r) = 2 ^ (length (Rounds b) - 1 - r))
     \<and> list_all (\<lambda>e. length (Reached e) = length (Rounds b) \<and> Title e = last (Reached e)
          \<and> list_all (\<lambda>p. 0 \<le> p \<and> p \<le> 1) (Reached e) \<and> sorted_wrt (\<ge>) (Reached e)) (Odds res)"
  using run_draw_odds [where streams = streams and seed = seed, OF assms] .

lemma draw_odds_consistent_witness:
  "\<exists>res. run_draw 3 (\<lambda>seed w k. 1 / 4)
     \<lparr>Entrants = [\<lparr>PlayerID = 1, ESlug = ''a'', EName = ''A'', Seed = Some 1\<rparr>, no_entrant,
        \<lparr>PlayerID = 2, ESlug = ''b'', EName = ''B'', Seed = None\<rparr>,
        \<lparr>PlayerID = 3, ESlug = ''c'', EName = ''C'', Seed = None\<rparr>],
      Byes = 1, Rounds = [''SF'', ''F''], Champion = 1\<rparr> (\<lambda>a b. 1 / 2) 100 7 = Some res
     \<and> (\<Sum>e \<leftarrow> Odds res. Title e) = 1"
proof -
  let ?es = "[\<lparr>PlayerID = 1, ESlug = ''a'', EName = ''A'', Seed = Some 1\<rparr>, no_entrant,
        \<lparr>PlayerID = 2, ESlug = ''b'', EName = ''B'', Seed = None\<rparr>,
        \<lparr>PlayerID = 3, ESlug = ''c'', EName = ''C'', Seed = None\<rparr>]"
  have "no_double_bye ?es"
    by (auto simp: no_double_bye_def is_bye_def less_Suc_eq nth_Cons' split: if_splits)
  then show ?thesis
    using draw_odds_consistent
        [of "\<lparr>Entrants = ?es, Byes = 1, Rounds = [''SF'', ''F''], Champion = 1\<rparr>" 3
            "\<lambda>seed w k. 1 / 4" 7 "\<lambda>a b. 1 / 2" 100]
    by (auto simp: bracket_size_def in_unit_def)
qed

text \<open>
  a seed does not fix the odds by itself. The number of workers is the number of processors, and
  a worker's stream is derived from its index, so two runs of a two-player final use draws 0 and 1 of
  the first stream on one processor and draw 0 of the first two streams on more. The title odds agree
  exactly when the second draw of the first stream and the first of the second fall on the same side
  of the win probability.
\<close>

theorem seed_and_processors:
  "(let final = \<lparr>Entrants = [\<lparr>PlayerID = 1, ESlug = ''a'', EName = ''A'', Seed = None\<rparr>,
                  \<lparr>PlayerID = 2, ESlug = ''b'', EName = ''B'', Seed = None\<rparr>],
                 Byes = 0, Rounds = [''F''], Champion = 1\<rparr>
    in run_draw 1 streams final (\<lambda>_ _. p) 2 seed = run_draw 2 streams final (\<lambda>_ _. p) 2 seed
       \<longleftrightarrow> (streams seed 1 1 < p \<longleftrightarrow> streams seed 2 0 < p))"
proof -
  have two: "nat 2 = Suc (Suc 0)" by simp
  show ?thesis
    by (simp add: run_draw_def Let_def bracket_size_def two share_of_def play_once_def play_slots.simps
        bump_def add_tally_def new_pair_odds_def pair_cells_def pair_value_def is_bye_def odds_of_def
        entrant_odds_def interval_def upt_rec numeral_2_eq_2)
qed

end
