(* ===== verification/RatingElo.thy ===== *)
theory RatingElo
  imports GoStrings Complex_Main "HOL-Library.Char_ord" "HOL-Library.List_Lexorder"
begin

text \<open>
  The arithmetic of the rating engine: internal/rating/elo.go, kfactor.go, tier.go, round.go and
  blend.go. Floating-point numbers are reals and \<open>math.Pow\<close> is \<open>powr\<close>; tiers, levels and series are
  strings, as in the code.
\<close>

section \<open>elo.go\<close>

definition base :: real where "base = 1500"

definition expected :: "real \<Rightarrow> real \<Rightarrow> real" where
  "expected a b = 1 / (1 + 10 powr ((b - a) / 400))"

definition update :: "real \<Rightarrow> real \<Rightarrow> real \<Rightarrow> real \<Rightarrow> real \<times> real" where
  "update winner loser kWinner kLoser =
     (let surprise = 1 - expected winner loser
      in (winner + kWinner * surprise, loser - kLoser * surprise))"

section \<open>kfactor.go\<close>

definition kNumerator :: real where "kNumerator = 250"
definition kOffset :: real where "kOffset = 5"
definition kExponent :: real where "kExponent = 4 / 10"

definition k_factor :: "int \<Rightarrow> real" where
  "k_factor n0 = (let n = (if n0 < 0 then 0 else n0)
     in kNumerator / (of_int n + kOffset) powr kExponent)"

text \<open>tier.go\<close>

definition tierTour :: string where "tierTour = ''tour''"
definition tierChallenger :: string where "tierChallenger = ''challenger''"
definition tierFutures :: string where "tierFutures = ''futures''"
definition tierITF :: string where "tierITF = ''itf''"

definition tiers :: "string list" where
  "tiers = [tierTour, tierChallenger, tierFutures, tierITF]"

definition parse_tier :: "string \<Rightarrow> string option" where
  "parse_tier s = (if s \<in> set tiers then Some s else None)"

record match_context =
  Tier :: string
  Level :: string
  IsFinal :: bool
  IsQualifying :: bool

record weights =
  GrandSlamFinal :: real
  GrandSlam :: real
  TourFinals :: real
  Masters :: real
  Tour :: real
  TeamEvent :: real
  Challenger :: real
  Futures :: real
  Qualifying :: real

definition default_weights :: weights where
  "default_weights = \<lparr>GrandSlamFinal = 1.20, GrandSlam = 1.10, TourFinals = 1.10, Masters = 1.05,
     Tour = 1.00, TeamEvent = 0.80, Challenger = 0.80, Futures = 0.60, Qualifying = 0.90\<rparr>"

definition base_weight :: "weights \<Rightarrow> match_context \<Rightarrow> real" where
  "base_weight w m =
     (if Tier m = tierChallenger then Challenger w
      else if Tier m = tierFutures \<or> Tier m = tierITF then Futures w
      else if Level m = ''G'' then (if IsFinal m then GrandSlamFinal w else GrandSlam w)
      else if Level m = ''F'' then TourFinals w
      else if Level m = ''M'' then Masters w
      else if Level m = ''D'' then TeamEvent w
      else Tour w)"

definition weight_for :: "weights \<Rightarrow> match_context \<Rightarrow> real" where
  "weight_for w m =
     (let weight = base_weight w m in if IsQualifying m then weight * Qualifying w else weight)"

section \<open>round.go\<close>

definition round_codes :: "string list" where
  "round_codes = [''Q1'', ''Q2'', ''Q3'', ''Q4'', ''Q5'', ''ER'', ''RR'', ''R128'', ''R64'', ''R32'',
     ''R16'', ''QF'', ''SF'', ''BR'', ''F'', ''CR'']"

fun rank_loop :: "string \<Rightarrow> nat \<Rightarrow> string list \<Rightarrow> nat" where
  "rank_loop rd i [] = length round_codes"
| "rank_loop rd i (r # rs) = (if r = rd then i else rank_loop rd (i + 1) rs)"

definition round_rank :: "string \<Rightarrow> nat" where
  "round_rank rd = rank_loop rd 0 round_codes"

definition quote :: string where "quote = [CHR 0x27]"

definition round_rank_sql :: "string \<Rightarrow> string" where
  "round_rank_sql column =
     fold (\<lambda>(i, r) b. b @ '' WHEN '' @ quote @ r @ quote @ '' THEN '' @ itoa (int i))
       (enumerate 0 round_codes) (''CASE '' @ column)
     @ '' ELSE '' @ itoa (int (length round_codes)) @ '' END''"

section \<open>blend.go\<close>

definition blendCap :: real where "blendCap = 75 / 100"
definition blendMatches :: real where "blendMatches = 40"

definition blend_weight :: "int \<Rightarrow> real" where
  "blend_weight n =
     (if n \<le> 0 then 0
      else let w = of_int n / blendMatches in if blendCap < w then blendCap else w)"

definition blend :: "real \<Rightarrow> int \<Rightarrow> real \<Rightarrow> real \<times> real" where
  "blend surfaceElo surfaceMatches overallElo =
     (let weight = blend_weight surfaceMatches
      in (weight * surfaceElo + (1 - weight) * overallElo, weight))"

record surface_rating =
  SElo :: real
  SMatches :: int

definition blend_optional :: "surface_rating option \<Rightarrow> real \<Rightarrow> real \<times> real" where
  "blend_optional surface overallElo =
     (case surface of None \<Rightarrow> (overallElo, 0) | Some s \<Rightarrow> blend (SElo s) (SMatches s) overallElo)"

section \<open>Expected scores and updates\<close>

lemma pow10_pos [simp]: "0 < 1 + (10::real) powr x"
  by (simp add: add_pos_pos)

lemma expected_bounds: "0 < expected a b" "expected a b < 1"
  by (simp_all add: expected_def)

lemma expected_sum: "expected a b + expected b a = 1"
proof -
  have inv: "1 / (1 + x) + 1 / (1 + y) = 1" if "0 < x" "x * y = 1" for x y :: real
  proof -
    have "0 < y" using that by (metis zero_less_mult_pos zero_less_one)
    then show ?thesis using that by (simp add: add_frac_eq) (simp add: algebra_simps)
  qed
  show ?thesis
    unfolding expected_def by (rule inv) (simp_all flip: powr_add diff_divide_distrib add_divide_distrib)
qed

lemma expected_less_iff: "expected a b < expected c d \<longleftrightarrow> a - b < c - d"
proof -
  have "expected a b < expected c d \<longleftrightarrow> (10::real) powr ((d - c) / 400) < 10 powr ((b - a) / 400)"
    unfolding expected_def by (subst divide_less_eq) (simp_all add: field_simps pos_less_divide_eq)
  also have "\<dots> \<longleftrightarrow> a - b < c - d" by (simp add: powr_less_cancel_iff) linarith
  finally show ?thesis .
qed

lemma expected_half: "expected a a = 1 / 2"
  by (simp add: expected_def)

text \<open>
  The expected scores of two players are probabilities that add up to one, and only the
  difference of the ratings counts: the score is above a half exactly for the higher-rated player,
  and a larger lead gives a larger score.
\<close>

theorem expected_is_probability:
  "0 < expected a b \<and> expected a b < 1 \<and> expected a b + expected b a = 1
   \<and> (1 / 2 < expected a b \<longleftrightarrow> b < a) \<and> (expected a b < expected c d \<longleftrightarrow> a - b < c - d)"
proof -
  have "1 / 2 < expected a b \<longleftrightarrow> b < a"
    using expected_less_iff [of b b a b] by (simp add: expected_half)
  then show ?thesis
    using expected_bounds [of a b] expected_sum [of a b] expected_less_iff [of a b c d] by blast
qed

lemma k_pos: "0 < k_factor n"
  by (simp add: k_factor_def kNumerator_def kOffset_def add_nonneg_pos powr_gt_zero)

lemma k_antimono: "0 \<le> m \<Longrightarrow> m < n \<Longrightarrow> k_factor n < k_factor m"
  unfolding k_factor_def kNumerator_def kOffset_def kExponent_def Let_def
  by (intro divide_strict_left_mono powr_less_mono2 mult_pos_pos powr_gt_zero [THEN iffD2]) auto

text \<open>
  An update moves the winner up and the loser down, each by less than their own K, and more
  experienced players move less. The total rating is conserved exactly when the two K are equal.
\<close>

theorem update_moves:
  assumes "0 \<le> m" "0 \<le> n" and "0 < weight"
    and eq: "update winner loser (k_factor m * weight) (k_factor n * weight) = (winner', loser')"
  shows "winner < winner' \<and> winner' - winner < k_factor m * weight
     \<and> loser' < loser \<and> loser - loser' < k_factor n * weight
     \<and> (winner' + loser' = winner + loser \<longleftrightarrow> m = n)
     \<and> (m < n \<longrightarrow> loser - loser' < winner' - winner)"
proof -
  let ?s = "1 - expected winner loser"
  have s: "0 < ?s" "?s < 1" using expected_bounds [of winner loser] by simp_all
  have w: "winner' = winner + k_factor m * weight * ?s" and l: "loser' = loser - k_factor n * weight * ?s"
    using eq by (simp_all add: update_def Let_def)
  have k: "0 < k_factor m * weight" "0 < k_factor n * weight"
    using k_pos assms(3) by simp_all
  have equal: "winner' + loser' = winner + loser \<longleftrightarrow> m = n"
  proof -
    have "winner' + loser' = winner + loser \<longleftrightarrow> k_factor m * (weight * ?s) = k_factor n * (weight * ?s)"
      unfolding w l by (simp add: mult.assoc)
    also have "\<dots> \<longleftrightarrow> k_factor m = k_factor n" using s(1) assms(3) by simp
    also have "\<dots> \<longleftrightarrow> m = n"
      using k_antimono [of m n] k_antimono [of n m] assms(1,2) by (cases m n rule: linorder_cases) auto
    finally show ?thesis .
  qed
  have "m < n \<Longrightarrow> k_factor n * weight * ?s < k_factor m * weight * ?s"
    using k_antimono [of m n] assms(1,3) s(1) by (intro mult_strict_right_mono) auto
  then show ?thesis
    unfolding equal using k s
      mult_strict_left_mono [OF s(2) k(1)] mult_strict_left_mono [OF s(2) k(2)]
    by (simp add: w l)
qed

lemma update_moves_witness:
  "\<exists>winner' loser'. update 1500 1500 (k_factor 0 * 1) (k_factor 3 * 1) = (winner', loser') \<and> 1500 < winner'"
proof -
  obtain w l where "update 1500 1500 (k_factor 0 * 1) (k_factor 3 * 1) = (w, l)" by force
  then show ?thesis using update_moves [of 0 3 1 1500 1500 w l] by simp
qed

section \<open>The blend\<close>

lemma blend_weight_cases: "blend_weight n = (if n \<le> 0 then 0 else min (3 / 4) (of_int n / 40))"
  by (simp add: blend_weight_def blendCap_def blendMatches_def min_def)

text \<open>
  the blend is a weighted mean. The weight of the surface grows with the matches on it from 0
  and stops at three quarters, the blended rating lies between the two ratings, and a surface never
  played leaves the overall rating. The cap is reached at 30 matches, not at \<open>BlendMatches\<close>.
\<close>

theorem blend_is_mean:
  "0 \<le> blend_weight n \<and> blend_weight n \<le> 3 / 4
   \<and> (blend_weight n = 3 / 4 \<longleftrightarrow> 30 \<le> n) \<and> (m \<le> n \<longrightarrow> blend_weight m \<le> blend_weight n)
   \<and> min s ov \<le> fst (blend s n ov) \<and> fst (blend s n ov) \<le> max s ov
   \<and> snd (blend s n ov) = blend_weight n \<and> blend_optional None ov = blend s 0 ov"
proof -
  have w: "0 \<le> blend_weight n" "blend_weight n \<le> 3 / 4"
    by (auto simp: blend_weight_cases)
  have cap: "blend_weight n = 3 / 4 \<longleftrightarrow> 30 \<le> n"
    by (auto simp: blend_weight_cases min_def)
  have mono: "m \<le> n \<longrightarrow> blend_weight m \<le> blend_weight n"
    by (auto simp: blend_weight_cases min_def)
  let ?w = "blend_weight n"
  have val: "fst (blend s n ov) = ?w * s + (1 - ?w) * ov" by (simp add: blend_def Let_def)
  have low: "min s ov \<le> ?w * s + (1 - ?w) * ov"
  proof -
    have "?w * min s ov + (1 - ?w) * min s ov \<le> ?w * s + (1 - ?w) * ov"
      using w by (intro add_mono mult_left_mono) auto
    then show ?thesis by (simp add: left_diff_distrib)
  qed
  have high: "?w * s + (1 - ?w) * ov \<le> max s ov"
  proof -
    have "?w * s + (1 - ?w) * ov \<le> ?w * max s ov + (1 - ?w) * max s ov"
      using w by (intro add_mono mult_left_mono) auto
    then show ?thesis by (simp add: left_diff_distrib)
  qed
  have "blend_optional None ov = blend s 0 ov" "snd (blend s n ov) = ?w"
    by (simp_all add: blend_optional_def blend_def blend_weight_def Let_def)
  then show ?thesis using w cap mono low high unfolding val by blast
qed

lemma blend_is_mean_witness: "blend_weight 30 = 3 / 4 \<and> blend_weight 10 \<le> blend_weight 20"
  using blend_is_mean [of 30] blend_is_mean [of 20 10] by simp

section \<open>The order of the rounds in Go and in SQL\<close>

lemma round_rank_code:
  "round_rank r = (if r \<in> set round_codes then the (map_of (zip round_codes [0..<16]) r) else 16)"
  by (simp add: round_rank_def round_codes_def upt_rec)

lemma round_rank_inj:
  assumes "r \<in> set round_codes" and "round_rank q = round_rank r"
  shows "q = r"
proof -
  have codes: "map round_rank round_codes = [0..<16]" by code_simp
  have unknown: "s \<notin> set round_codes \<Longrightarrow> round_rank s = 16" for s
    by (simp add: round_rank_code)
  have len: "length round_codes = 16" by (simp add: round_codes_def)
  have at: "round_rank (round_codes ! i) = i" if "i < 16" for i
    using arg_cong [OF codes, of "\<lambda>xs. xs ! i"] that len by (simp add: nth_upt)
  obtain i where i: "i < 16" "r = round_codes ! i" using assms(1) len by (auto simp: in_set_conv_nth)
  then have q: "round_rank q = i" using assms(2) at by simp
  then have "q \<in> set round_codes" using unknown i(1) by fastforce
  then obtain j where "j < 16" "q = round_codes ! j" using len by (auto simp: in_set_conv_nth)
  then show ?thesis using q at i(2) by auto
qed

text \<open>A \<open>CASE column WHEN 'x' THEN n ... ELSE n END\<close> expression, read as its words, on the value \<open>v\<close>
  of the column.\<close>

fun case_arms :: "string list \<Rightarrow> string \<Rightarrow> int option" where
  "case_arms (w # lit # t # n # rest) v =
     (if w = ''WHEN'' \<and> t = ''THEN''
      then (if lit = quote @ v @ quote then atoi n else case_arms rest v)
      else None)"
| "case_arms [e, n, f] v = (if e = ''ELSE'' \<and> f = ''END'' then atoi n else None)"
| "case_arms ws v = None"

definition case_value :: "string \<Rightarrow> string \<Rightarrow> string \<Rightarrow> int option" where
  "case_value expr column v =
     (case str_fields expr of
        kw # col # arms \<Rightarrow> (if kw = ''CASE'' \<and> col = column then case_arms arms v else None)
      | _ \<Rightarrow> None)"

definition sql_words :: "string list" where
  "sql_words = concat (map (\<lambda>(i, r). [''WHEN'', quote @ r @ quote, ''THEN'', itoa (int i)])
     (enumerate 0 round_codes)) @ [''ELSE'', itoa (int (length round_codes)), ''END'']"

lemma sql_words_text: "list_all word_text sql_words"
  by code_simp

lemma join_words: "xs \<noteq> [] \<Longrightarrow> join (x # xs) sep = x @ sep @ join xs sep"
  by (cases xs) auto

lemma round_rank_sql_words: "round_rank_sql column = join (''CASE'' # column # sql_words) '' ''"
  by (simp add: round_rank_sql_def sql_words_def round_codes_def join_words)

lemma quote_eq: "quote @ u @ quote = quote @ v @ quote \<longleftrightarrow> u = v"
  by (simp add: quote_def)

lemma case_arms_loop:
  assumes "length rs + i = length round_codes" and "i < 2 ^ 62"
  shows "case_arms (concat (map (\<lambda>(i, r). [''WHEN'', quote @ r @ quote, ''THEN'', itoa (int i)])
       (enumerate i rs)) @ [''ELSE'', itoa (int (length round_codes)), ''END'']) v =
     Some (int (rank_loop v i rs))"
  using assms
proof (induction rs arbitrary: i)
  case Nil
  have "atoi (itoa 16) = Some 16" by (rule atoi_itoa) simp_all
  then show ?case by (simp add: round_codes_def)
next
  case (Cons r rs)
  have "length round_codes = 16" by (simp add: round_codes_def)
  then have "atoi (itoa (int i)) = Some (int i)" "Suc i < 2 ^ 62"
    using Cons.prems by (auto intro!: atoi_itoa)
  then show ?case using Cons by (simp add: quote_eq)
qed

text \<open>
  The database sorts by the order the engine expects. On every round the rendered \<open>CASE\<close>
  expression has the value of \<open>RoundRank\<close>. Known rounds have different ranks, every unknown one
  comes after them, and no other round shares the rank of a known one.
\<close>

theorem sql_rank_agrees:
  assumes "word_text column"
  shows "case_value (round_rank_sql column) column v = Some (int (round_rank v))
     \<and> (v \<in> set round_codes \<longrightarrow> round_rank v < length round_codes \<and> (round_rank u = round_rank v \<longleftrightarrow> u = v))
     \<and> (v \<notin> set round_codes \<longrightarrow> round_rank v = length round_codes)"
proof -
  have "list_all word_text (''CASE'' # column # sql_words)"
    using assms sql_words_text by (simp add: word_text_def is_space_def)
  then have "str_fields (round_rank_sql column) = ''CASE'' # column # sql_words"
    unfolding round_rank_sql_words by (rule str_fields_join)
  then have sql: "case_value (round_rank_sql column) column v = Some (int (round_rank v))"
    using case_arms_loop [of round_codes 0 v]
    by (simp add: case_value_def sql_words_def round_rank_def)
  have len: "length round_codes = 16" by (simp add: round_codes_def)
  have "round_rank v < 16" if "v \<in> set round_codes"
    using that round_rank_inj [OF that, of "''unknown''"]
    by (auto simp: round_codes_def round_rank_def)
  then show ?thesis
    using sql round_rank_inj [of v u] by (auto simp: len round_rank_code)
qed

lemma sql_rank_agrees_witness:
  "case_value (round_rank_sql ''m.round'') ''m.round'' ''QF'' = Some (int (round_rank ''QF''))"
  using sql_rank_agrees [of "''m.round''" "''QF''" "''F''"]
  by (simp add: word_text_def is_space_def)

section \<open>Importance weights\<close>

text \<open>
  Under the default weights every match counts between 0.54 and 1.2 of its K. The tier
  dominates: below tour level neither the level nor being a final matters, and no match below tour
  level outweighs a main-draw match of the tour that is not a team tie; a qualifying match counts
  nine tenths of the same match in the main draw.
\<close>

theorem default_weights_ordered:
  "27 / 50 \<le> weight_for default_weights m \<and> weight_for default_weights m \<le> 6 / 5
   \<and> weight_for default_weights m \<le> weight_for default_weights \<lparr>Tier = ''tour'', Level = ''G'', IsFinal = True, IsQualifying = False\<rparr>
   \<and> weight_for default_weights (m\<lparr>IsQualifying := True\<rparr>) = 9 / 10 * weight_for default_weights (m\<lparr>IsQualifying := False\<rparr>)
   \<and> (Tier m \<in> {tierChallenger, tierFutures, tierITF} \<longrightarrow>
        weight_for default_weights (m\<lparr>Level := l, IsFinal := f\<rparr>) = weight_for default_weights m
        \<and> (Tier q \<notin> {tierChallenger, tierFutures, tierITF} \<and> Level q \<noteq> ''D'' \<and> \<not> IsQualifying q \<longrightarrow>
             weight_for default_weights m < weight_for default_weights q))"
  by (auto simp: weight_for_def base_weight_def default_weights_def tierChallenger_def tierFutures_def
      tierITF_def Let_def)

lemma default_weights_ordered_witness:
  "weight_for default_weights \<lparr>Tier = ''challenger'', Level = ''C'', IsFinal = True, IsQualifying = False\<rparr>
   < weight_for default_weights \<lparr>Tier = ''tour'', Level = ''A'', IsFinal = False, IsQualifying = False\<rparr>"
  using default_weights_ordered
      [of "\<lparr>Tier = ''challenger'', Level = ''C'', IsFinal = True, IsQualifying = False\<rparr>" True "''C''"
          "\<lparr>Tier = ''tour'', Level = ''A'', IsFinal = False, IsQualifying = False\<rparr>"]
  by (simp add: tierChallenger_def tierFutures_def tierITF_def)

end
