(* ===== verification/RatingEngine.thy ===== *)
theory RatingEngine
  imports RatingElo Prelude
begin

text \<open>
  The replay engine of internal/rating/engine.go: five series per player, rated match by match, and
  one snapshot per series per week it moved in. An instant is the number of nanoseconds since Go's
  zero time, Monday 1 January of year 1, in UTC. The sink \<open>emit\<close> is a parameter that threads a state
  of its own and may fail. \<open>SeriesMap\<close> is the map of series; \<open>Touched\<close> holds the keys of the set of
  touched series, whose range order Go leaves open: \<open>week_rows_order_free\<close> shows the order is lost in
  the sort. Match counts are integers, far below the 64 bits of the code.
\<close>

type_synonym series = string
type_synonym instant = int
type_synonym key = "int \<times> series"

definition overall :: series where "overall = ''overall''"

definition parse_surface :: "string \<Rightarrow> series option" where
  "parse_surface s = (if s \<in> {''hard'', ''clay'', ''grass'', ''carpet''} then Some s else None)"

definition day :: instant where "day = 24 * 3600 * 10 ^ 9"

definition week_of :: "instant \<Rightarrow> instant" where
  "week_of t =
     (let d = t div day; weekday = (d + 1) mod 7; offset = (weekday + 6) mod 7
      in (d - offset) * day)"

record result =
  WinnerID :: int
  LoserID :: int
  PlayedOn :: instant
  Surface :: series
  Context :: match_context

record snapshot =
  PlayerID :: int
  AsOf :: instant
  Series :: series
  SnapElo :: real
  SnapMatches :: int

record rstate =
  Elo :: real
  Matches :: int

record prediction =
  PTier :: string
  PPlayedOn :: instant
  PWinnerID :: int
  PLoserID :: int
  WinnerExpected :: real
  WinnerPlayed :: int
  LoserPlayed :: int

text \<open>\<open>Observed\<close> says whether \<open>OnPrediction\<close> is set, and \<open>Predicted\<close> lists what it was called with.\<close>

record engine =
  EWeights :: weights
  Observed :: bool
  Predicted :: "prediction list"
  SeriesMap :: "(key \<times> rstate) list"
  Touched :: "key list"
  Week :: instant
  Snapshots :: int

datatype 'e engine_error = OutOfOrder instant instant | EmitFailed 'e

definition new_engine :: "weights \<Rightarrow> bool \<Rightarrow> engine" where
  "new_engine w obs = \<lparr>EWeights = w, Observed = obs, Predicted = [], SeriesMap = [], Touched = [],
     Week = 0, Snapshots = 0\<rparr>"

definition fresh_state :: rstate where "fresh_state = \<lparr>Elo = base, Matches = 0\<rparr>"

definition held :: "engine \<Rightarrow> key \<Rightarrow> rstate" where
  "held e k = (case map_of (SeriesMap e) k of None \<Rightarrow> fresh_state | Some st \<Rightarrow> st)"

definition rating :: "engine \<Rightarrow> int \<Rightarrow> series \<Rightarrow> real \<times> int" where
  "rating e player s = (Elo (held e (player, s)), Matches (held e (player, s)))"

text \<open>\<open>stateOf\<close> hands out a pointer to the state of a key, made on first use. \<open>store\<close> writes through it.\<close>

definition state_of :: "key \<Rightarrow> engine \<Rightarrow> rstate \<times> engine" where
  "state_of k e =
     (case map_of (SeriesMap e) k of
        Some st \<Rightarrow> (st, e)
      | None \<Rightarrow> (fresh_state, e\<lparr>SeriesMap := put k fresh_state (SeriesMap e)\<rparr>))"

definition store :: "key \<Rightarrow> (rstate \<Rightarrow> rstate) \<Rightarrow> engine \<Rightarrow> engine" where
  "store k f e = e\<lparr>SeriesMap := put k (f (held e k)) (SeriesMap e)\<rparr>"

definition touch :: "key \<Rightarrow> engine \<Rightarrow> engine" where
  "touch k e = (if k \<in> set (Touched e) then e else e\<lparr>Touched := Touched e @ [k]\<rparr>)"

definition rate :: "int \<Rightarrow> int \<Rightarrow> series \<Rightarrow> real \<Rightarrow> engine \<Rightarrow> engine" where
  "rate winner loser s weight e =
     (let kw = (winner, s); kl = (loser, s);
          (w, e1) = state_of kw e; (l, e2) = state_of kl e1;
          (we, le) = update (Elo w) (Elo l) (k_factor (Matches w) * weight) (k_factor (Matches l) * weight);
          e3 = store kl (\<lambda>st. st\<lparr>Elo := le\<rparr>) (store kw (\<lambda>st. st\<lparr>Elo := we\<rparr>) e2);
          e4 = store kl (\<lambda>st. st\<lparr>Matches := Matches st + 1\<rparr>)
                 (store kw (\<lambda>st. st\<lparr>Matches := Matches st + 1\<rparr>) e3)
      in touch kl (touch kw e4))"

definition predict :: "result \<Rightarrow> engine \<Rightarrow> prediction \<times> engine" where
  "predict r e =
     (let (w, e1) = state_of (WinnerID r, overall) e; (l, e2) = state_of (LoserID r, overall) e1
      in (\<lparr>PTier = Tier (Context r), PPlayedOn = PlayedOn r, PWinnerID = WinnerID r, PLoserID = LoserID r,
           WinnerExpected = expected (Elo w) (Elo l), WinnerPlayed = Matches w, LoserPlayed = Matches l\<rparr>, e2))"

definition favourite :: "prediction \<Rightarrow> real \<times> bool" where
  "favourite p =
     (if 1 / 2 < WinnerExpected p then (WinnerExpected p, True)
      else if WinnerExpected p < 1 / 2 then (1 - WinnerExpected p, False)
      else (1 / 2, PWinnerID p < PLoserID p))"

definition players :: "engine \<Rightarrow> int" where
  "players e = int (length (filter (\<lambda>((p, s), st). s = overall) (SeriesMap e)))"

definition key_less :: "key \<Rightarrow> key \<Rightarrow> bool" where
  "key_less a b = (if fst a \<noteq> fst b then fst a < fst b else snd a < snd b)"

definition snapshot_of :: "engine \<Rightarrow> key \<Rightarrow> snapshot" where
  "snapshot_of e k = \<lparr>PlayerID = fst k, AsOf = Week e, Series = snd k,
     SnapElo = Elo (held e k), SnapMatches = Matches (held e k)\<rparr>"

fun emit_loop :: "('s \<Rightarrow> snapshot \<Rightarrow> 'e + 's) \<Rightarrow> key list \<Rightarrow> engine \<times> 's \<Rightarrow> 'e engine_error + (engine \<times> 's)" where
  "emit_loop emit [] es = Inr es"
| "emit_loop emit (k # ks) (e, s) =
     (case emit s (snapshot_of e k) of
        Inl err \<Rightarrow> Inl (EmitFailed err)
      | Inr s' \<Rightarrow> emit_loop emit ks (e\<lparr>Snapshots := Snapshots e + 1\<rparr>, s'))"

definition flush :: "('s \<Rightarrow> snapshot \<Rightarrow> 'e + 's) \<Rightarrow> engine \<times> 's \<Rightarrow> 'e engine_error + (engine \<times> 's)" where
  "flush emit es =
     (if Touched (fst es) = [] then Inr es
      else case emit_loop emit (sort_slice key_less (Touched (fst es))) es of
             Inl err \<Rightarrow> Inl err
           | Inr (e, s) \<Rightarrow> Inr (e\<lparr>Touched := []\<rparr>, s))"

definition observe :: "result \<Rightarrow> engine \<Rightarrow> engine" where
  "observe r e =
     (if Observed e then let (p, e1) = predict r e in e1\<lparr>Predicted := Predicted e1 @ [p]\<rparr> else e)"

definition add_result :: "('s \<Rightarrow> snapshot \<Rightarrow> 'e + 's) \<Rightarrow> result \<Rightarrow> engine \<times> 's \<Rightarrow> 'e engine_error + (engine \<times> 's)" where
  "add_result emit r es =
     (let week = week_of (PlayedOn r) in
      if week < Week (fst es) then Inl (OutOfOrder (PlayedOn r) (Week (fst es)))
      else
        case (if Week (fst es) < week
              then case flush emit es of Inl err \<Rightarrow> Inl err | Inr (e, s) \<Rightarrow> Inr (e\<lparr>Week := week\<rparr>, s)
              else Inr es) of
          Inl err \<Rightarrow> Inl err
        | Inr (e, s) \<Rightarrow>
            let e1 = observe r e;
                weight = weight_for (EWeights e1) (Context r);
                e2 = rate (WinnerID r) (LoserID r) overall weight e1
            in Inr (if Surface r \<noteq> [] then rate (WinnerID r) (LoserID r) (Surface r) weight e2 else e2, s))"

fun replay_loop :: "('s \<Rightarrow> snapshot \<Rightarrow> 'e + 's) \<Rightarrow> result list \<Rightarrow> engine \<times> 's \<Rightarrow> 'e engine_error + (engine \<times> 's)" where
  "replay_loop emit [] es = Inr es"
| "replay_loop emit (r # rs) es =
     (case add_result emit r es of Inl err \<Rightarrow> Inl err | Inr es' \<Rightarrow> replay_loop emit rs es')"

text \<open>The replay that \<open>Run\<close> drives: every result, then \<open>Close\<close>.\<close>

definition replay :: "('s \<Rightarrow> snapshot \<Rightarrow> 'e + 's) \<Rightarrow> result list \<Rightarrow> engine \<times> 's \<Rightarrow> 'e engine_error + (engine \<times> 's)" where
  "replay emit rs es =
     (case replay_loop emit rs es of Inl err \<Rightarrow> Inl err | Inr es' \<Rightarrow> flush emit es')"

section \<open>Weeks\<close>

lemma week_of_floor: "week_of t = t div (7 * day) * (7 * day)"
proof -
  have "((d + 1) mod 7 + 6) mod 7 = d mod 7" for d :: int
    by presburger
  then have "week_of t = (t div day - t div day mod 7) * day"
    by (simp add: week_of_def Let_def)
  also have "\<dots> = t div day div 7 * 7 * day"
    by (simp add: minus_mod_eq_div_mult)
  also have "t div day div 7 = t div (7 * day)"
    by (simp add: day_def flip: zdiv_zmult2_eq)
  finally show ?thesis by simp
qed

lemma week_of_le: "week_of t \<le> t"
  by (simp add: week_of_floor day_def) 

lemma week_of_mono: "s \<le> t \<Longrightarrow> week_of s \<le> week_of t"
  by (simp add: week_of_floor day_def zdiv_mono1)

lemma week_of_idem: "week_of (week_of t) = week_of t"
  by (simp add: week_of_floor day_def)

lemma week_le_iff: "week_of s \<le> t \<longleftrightarrow> week_of s \<le> week_of t"
  using week_of_mono [of "week_of s" t] week_of_le [of t] by (auto simp: week_of_idem)

section \<open>The order of the keys\<close>

lemma key_less_linear: "x \<noteq> y \<Longrightarrow> key_less x y \<or> key_less y x"
  by (auto simp: key_less_def prod_eq_iff)

interpretation engine_keys: slice_order key_less
  by unfold_locales (auto simp: key_less_def split: if_splits)

definition week_rows :: "engine \<Rightarrow> snapshot list" where
  "week_rows e = map (snapshot_of e) (sort_slice key_less (Touched e))"

lemma week_rows_order_free:
  "mset ks = mset (Touched e) \<Longrightarrow> map (snapshot_of e) (sort_slice key_less ks) = week_rows e"
  unfolding week_rows_def
  by (subst engine_keys.sort_slice_deterministic [of ks "Touched e"]) (simp_all add: key_less_linear)

end
