(* ===== verification/RatingReplay.thy ===== *)
theory RatingReplay
  imports RatingEngine
begin

text \<open>
  What a replay computes. The ratings of internal/rating/engine.go refine a pure fold over the
  results (\<open>standing\<close>), and the invariant \<open>tracks\<close> relates an engine and the snapshots it has emitted
  to the results it has seen.
\<close>

section \<open>Specification\<close>

definition duel :: "int \<Rightarrow> int \<Rightarrow> series \<Rightarrow> real \<Rightarrow> (key \<Rightarrow> rstate) \<Rightarrow> key \<Rightarrow> rstate" where
  "duel winner loser s weight f =
     (let kw = (winner, s); kl = (loser, s);
          (we, le) = update (Elo (f kw)) (Elo (f kl)) (k_factor (Matches (f kw)) * weight)
                       (k_factor (Matches (f kl)) * weight);
          f1 = f(kw := (f kw)\<lparr>Elo := we\<rparr>);
          f2 = f1(kl := (f1 kl)\<lparr>Elo := le\<rparr>);
          f3 = f2(kw := (f2 kw)\<lparr>Matches := Matches (f2 kw) + 1\<rparr>)
      in f3(kl := (f3 kl)\<lparr>Matches := Matches (f3 kl) + 1\<rparr>))"

definition standing_step :: "weights \<Rightarrow> result \<Rightarrow> (key \<Rightarrow> rstate) \<Rightarrow> key \<Rightarrow> rstate" where
  "standing_step w r f =
     (let weight = weight_for w (Context r); f1 = duel (WinnerID r) (LoserID r) overall weight f
      in if Surface r \<noteq> [] then duel (WinnerID r) (LoserID r) (Surface r) weight f1 else f1)"

definition standing :: "weights \<Rightarrow> result list \<Rightarrow> key \<Rightarrow> rstate" where
  "standing w rs = fold (standing_step w) rs (\<lambda>k. fresh_state)"

definition feeds :: "result \<Rightarrow> key \<Rightarrow> bool" where
  "feeds r k \<longleftrightarrow> (fst k = WinnerID r \<or> fst k = LoserID r)
     \<and> (snd k = overall \<or> snd k = Surface r \<and> Surface r \<noteq> [])"

definition prior :: "(key \<Rightarrow> rstate) \<Rightarrow> result \<Rightarrow> prediction" where
  "prior f r =
     \<lparr>PTier = Tier (Context r), PPlayedOn = PlayedOn r, PWinnerID = WinnerID r, PLoserID = LoserID r,
      WinnerExpected = expected (Elo (f (WinnerID r, overall))) (Elo (f (LoserID r, overall))),
      WinnerPlayed = Matches (f (WinnerID r, overall)), LoserPlayed = Matches (f (LoserID r, overall))\<rparr>"

abbreviation week_on :: "result \<Rightarrow> instant" where
  "week_on r \<equiv> week_of (PlayedOn r)"

text \<open>Reading the snapshots as of an instant: the last row of the series at or before it.\<close>

definition as_of :: "snapshot list \<Rightarrow> key \<Rightarrow> instant \<Rightarrow> rstate option" where
  "as_of S k d =
     map_option (\<lambda>x. \<lparr>Elo = SnapElo x, Matches = SnapMatches x\<rparr>)
       (find (\<lambda>x. (PlayerID x, Series x) = k \<and> AsOf x \<le> d) (rev S))"

definition snap_less :: "snapshot \<Rightarrow> snapshot \<Rightarrow> bool" where
  "snap_less x y \<longleftrightarrow> AsOf x < AsOf y
     \<or> AsOf x = AsOf y \<and> key_less (PlayerID x, Series x) (PlayerID y, Series y)"

definition rating_at :: "weights \<Rightarrow> result list \<Rightarrow> key \<Rightarrow> instant \<Rightarrow> rstate option" where
  "rating_at w rs k d =
     (if list_ex (\<lambda>r. feeds r k \<and> week_on r \<le> d) rs
      then Some (standing w (filter (\<lambda>r. week_on r \<le> d) rs) k) else None)"

section \<open>The operations refine the specification\<close>

named_theorems engine_simps

lemma held_state_of [engine_simps]: "held (snd (state_of k e)) = held e" "fst (state_of k e) = held e k"
  by (auto simp: state_of_def held_def fun_eq_iff split: option.splits)

lemma held_store [engine_simps]: "held (store k f e) = (held e)(k := f (held e k))"
  by (auto simp: store_def held_def fun_eq_iff)

lemma held_touch [engine_simps]: "held (touch k e) = held e"
  by (simp add: touch_def held_def fun_eq_iff)

lemma frame_state_of [engine_simps]:
  "EWeights (snd (state_of k e)) = EWeights e" "Observed (snd (state_of k e)) = Observed e"
  "Predicted (snd (state_of k e)) = Predicted e" "Touched (snd (state_of k e)) = Touched e"
  "Week (snd (state_of k e)) = Week e" "Snapshots (snd (state_of k e)) = Snapshots e"
  by (auto simp: state_of_def split: option.splits)

lemma frame_store [engine_simps]:
  "EWeights (store k f e) = EWeights e" "Observed (store k f e) = Observed e"
  "Predicted (store k f e) = Predicted e" "Touched (store k f e) = Touched e"
  "Week (store k f e) = Week e" "Snapshots (store k f e) = Snapshots e"
  by (auto simp: store_def)

lemma frame_touch [engine_simps]:
  "EWeights (touch k e) = EWeights e" "Observed (touch k e) = Observed e"
  "Predicted (touch k e) = Predicted e" "Week (touch k e) = Week e" "Snapshots (touch k e) = Snapshots e"
  "SeriesMap (touch k e) = SeriesMap e"
  by (auto simp: touch_def)

lemma touched_touch [engine_simps]:
  "set (Touched (touch k e)) = insert k (set (Touched e))"
  "distinct (Touched (touch k e)) = distinct (Touched e)"
  by (auto simp: touch_def)

lemma keys_state_of [engine_simps]:
  "fst ` set (SeriesMap (snd (state_of k e))) = insert k (fst ` set (SeriesMap e))"
  "distinct (map fst (SeriesMap (snd (state_of k e)))) = distinct (map fst (SeriesMap e))"
  by (auto simp: state_of_def map_of_eq_None_iff split: option.splits)
    (metis fst_conv image_eqI map_of_SomeD)+

lemma keys_store [engine_simps]:
  "fst ` set (SeriesMap (store k f e)) = insert k (fst ` set (SeriesMap e))"
  "distinct (map fst (SeriesMap (store k f e))) = distinct (map fst (SeriesMap e))"
  by (simp_all add: store_def)

lemma rate_unfold:
  "rate winner loser s weight e =
     (let kw = (winner, s); kl = (loser, s);
          e2 = snd (state_of kl (snd (state_of kw e)));
          (we, le) = update (Elo (held e kw)) (Elo (held e kl)) (k_factor (Matches (held e kw)) * weight)
                       (k_factor (Matches (held e kl)) * weight)
      in touch kl (touch kw
           (store kl (\<lambda>st. st\<lparr>Matches := Matches st + 1\<rparr>) (store kw (\<lambda>st. st\<lparr>Matches := Matches st + 1\<rparr>)
             (store kl (\<lambda>st. st\<lparr>Elo := le\<rparr>) (store kw (\<lambda>st. st\<lparr>Elo := we\<rparr>) e2))))))"
  using held_state_of [of "(winner, s)" e] held_state_of(2) [of "(loser, s)" "snd (state_of (winner, s) e)"]
  by (simp add: rate_def Let_def split_beta)

lemma held_rate [engine_simps]: "held (rate winner loser s weight e) = duel winner loser s weight (held e)"
  by (simp add: rate_unfold duel_def Let_def split_beta engine_simps)

lemma frame_rate [engine_simps]:
  "EWeights (rate winner loser s weight e) = EWeights e" "Observed (rate winner loser s weight e) = Observed e"
  "Predicted (rate winner loser s weight e) = Predicted e" "Week (rate winner loser s weight e) = Week e"
  "Snapshots (rate winner loser s weight e) = Snapshots e"
  "set (Touched (rate winner loser s weight e)) = {(winner, s), (loser, s)} \<union> set (Touched e)"
  "distinct (Touched (rate winner loser s weight e)) = distinct (Touched e)"
  "fst ` set (SeriesMap (rate winner loser s weight e)) = {(winner, s), (loser, s)} \<union> fst ` set (SeriesMap e)"
  "distinct (map fst (SeriesMap (rate winner loser s weight e))) = distinct (map fst (SeriesMap e))"
  by (auto simp: rate_unfold Let_def split_beta engine_simps)

lemma observe_unfold:
  "observe r e =
     (if Observed e
      then (let e2 = snd (state_of (LoserID r, overall) (snd (state_of (WinnerID r, overall) e)))
            in e2\<lparr>Predicted := Predicted e2 @ [prior (held e) r]\<rparr>)
      else e)"
  by (simp add: observe_def predict_def prior_def Let_def split_beta engine_simps)

lemma held_update [engine_simps]:
  "held (e\<lparr>Predicted := p\<rparr>) = held e" "held (e\<lparr>Touched := t\<rparr>) = held e"
  "held (e\<lparr>Week := d\<rparr>) = held e" "held (e\<lparr>Snapshots := n\<rparr>) = held e"
  by (simp_all add: held_def fun_eq_iff)

lemma frame_observe [engine_simps]:
  "held (observe r e) = held e" "EWeights (observe r e) = EWeights e" "Observed (observe r e) = Observed e"
  "Touched (observe r e) = Touched e" "Week (observe r e) = Week e" "Snapshots (observe r e) = Snapshots e"
  "Predicted (observe r e) = Predicted e @ (if Observed e then [prior (held e) r] else [])"
  "distinct (map fst (SeriesMap (observe r e))) = distinct (map fst (SeriesMap e))"
  by (simp_all add: observe_unfold Let_def engine_simps)

lemma keys_observe:
  "fst ` set (SeriesMap (observe r e)) \<union> {(WinnerID r, overall), (LoserID r, overall)} =
   fst ` set (SeriesMap e) \<union> {(WinnerID r, overall), (LoserID r, overall)}"
  by (auto simp: observe_unfold Let_def engine_simps)

text \<open>The step of \<open>Add\<close> once the week is open.\<close>

definition rate_result :: "result \<Rightarrow> engine \<Rightarrow> engine" where
  "rate_result r e =
     (let e1 = observe r e; weight = weight_for (EWeights e1) (Context r);
          e2 = rate (WinnerID r) (LoserID r) overall weight e1
      in if Surface r \<noteq> [] then rate (WinnerID r) (LoserID r) (Surface r) weight e2 else e2)"

lemma rate_result_frame [engine_simps]:
  "held (rate_result r e) = standing_step (EWeights e) r (held e)"
  "EWeights (rate_result r e) = EWeights e" "Observed (rate_result r e) = Observed e"
  "Week (rate_result r e) = Week e" "Snapshots (rate_result r e) = Snapshots e"
  "Predicted (rate_result r e) = Predicted e @ (if Observed e then [prior (held e) r] else [])"
  "distinct (Touched (rate_result r e)) = distinct (Touched e)"
  "distinct (map fst (SeriesMap (rate_result r e))) = distinct (map fst (SeriesMap e))"
  by (simp_all add: rate_result_def standing_step_def Let_def engine_simps)

lemma fed_keys:
  "{k. feeds r k} = {(WinnerID r, overall), (LoserID r, overall)}
     \<union> (if Surface r \<noteq> [] then {(WinnerID r, Surface r), (LoserID r, Surface r)} else {})"
  by (auto simp: feeds_def prod_eq_iff)

lemma rate_result_keys [engine_simps]:
  "set (Touched (rate_result r e)) = {k. feeds r k} \<union> set (Touched e)"
  "fst ` set (SeriesMap (rate_result r e)) = {k. feeds r k} \<union> fst ` set (SeriesMap e)"
proof -
  show "set (Touched (rate_result r e)) = {k. feeds r k} \<union> set (Touched e)"
    unfolding fed_keys by (simp add: rate_result_def Let_def engine_simps Un_ac insert_commute)
  show "fst ` set (SeriesMap (rate_result r e)) = {k. feeds r k} \<union> fst ` set (SeriesMap e)"
    unfolding fed_keys using keys_observe [of r e]
    by (simp add: rate_result_def Let_def engine_simps Un_ac insert_commute)
qed

section \<open>Flushing a week\<close>

text \<open>Handing rows to a sink one by one, and the sink that keeps them.\<close>

fun emits :: "('s \<Rightarrow> snapshot \<Rightarrow> 'e + 's) \<Rightarrow> 's \<Rightarrow> snapshot list \<Rightarrow> 'e + 's" where
  "emits emit s [] = Inr s"
| "emits emit s (x # xs) = (case emit s x of Inl err \<Rightarrow> Inl err | Inr s' \<Rightarrow> emits emit s' xs)"

definition collect :: "snapshot list \<Rightarrow> snapshot \<Rightarrow> unit + snapshot list" where
  "collect S x = Inr (S @ [x])"

lemma emits_collect [simp]: "emits collect S xs = Inr (S @ xs)"
  by (induction xs arbitrary: S) (simp_all add: collect_def)

lemma emits_append:
  "emits emit s (xs @ ys) = (case emits emit s xs of Inl err \<Rightarrow> Inl err | Inr s' \<Rightarrow> emits emit s' ys)"
  by (induction xs arbitrary: s) (auto split: sum.splits)

lemma snapshot_of_count: "snapshot_of (e\<lparr>Snapshots := n\<rparr>) = snapshot_of e"
  by (simp add: snapshot_of_def fun_eq_iff engine_simps)

lemma emit_loop_emits:
  "emit_loop emit ks (e, s) =
     (case emits emit s (map (snapshot_of e) ks) of
        Inl err \<Rightarrow> Inl (EmitFailed err)
      | Inr s' \<Rightarrow> Inr (e\<lparr>Snapshots := Snapshots e + int (length ks)\<rparr>, s'))"
  by (induction ks arbitrary: e s) (auto simp: snapshot_of_count split: sum.splits)

lemma length_week_rows: "length (week_rows e) = length (Touched e)"
  by (simp add: week_rows_def)

lemma flush_emits:
  "flush emit (e, s) =
     (case emits emit s (week_rows e) of
        Inl err \<Rightarrow> Inl (EmitFailed err)
      | Inr s' \<Rightarrow> Inr (e\<lparr>Touched := [], Snapshots := Snapshots e + int (length (week_rows e))\<rparr>, s'))"
  by (auto simp: flush_def emit_loop_emits length_week_rows split: sum.splits)
    (simp_all add: week_rows_def)

definition flushed :: "engine \<Rightarrow> engine" where
  "flushed e = e\<lparr>Touched := [], Snapshots := Snapshots e + int (length (week_rows e))\<rparr>"

definition opened :: "instant \<Rightarrow> engine \<Rightarrow> engine" where
  "opened d e = (flushed e)\<lparr>Week := d\<rparr>"

lemma flushed_facts [engine_simps]:
  "held (flushed e) = held e" "EWeights (flushed e) = EWeights e" "Observed (flushed e) = Observed e"
  "Predicted (flushed e) = Predicted e" "Touched (flushed e) = []" "Week (flushed e) = Week e"
  "SeriesMap (flushed e) = SeriesMap e"
  "Snapshots (flushed e) = Snapshots e + int (length (week_rows e))"
  by (simp_all add: flushed_def engine_simps)

lemma opened_facts [engine_simps]:
  "held (opened d e) = held e" "EWeights (opened d e) = EWeights e" "Observed (opened d e) = Observed e"
  "Predicted (opened d e) = Predicted e" "Touched (opened d e) = []" "Week (opened d e) = d"
  "SeriesMap (opened d e) = SeriesMap e"
  "Snapshots (opened d e) = Snapshots e + int (length (week_rows e))"
  by (simp_all add: opened_def engine_simps)

lemma add_result_cases:
  "add_result emit r (e, s) =
     (if week_on r < Week e then Inl (OutOfOrder (PlayedOn r) (Week e))
      else if Week e < week_on r
      then (case emits emit s (week_rows e) of
              Inl err \<Rightarrow> Inl (EmitFailed err)
            | Inr s' \<Rightarrow> Inr (rate_result r (opened (week_on r) e), s'))
      else Inr (rate_result r e, s))"
  by (auto simp: add_result_def Let_def flush_emits rate_result_def opened_def flushed_def split: sum.splits)

text \<open>Any sink is handed the rows the collecting sink keeps, in the same order.\<close>

lemma replay_loop_emits:
  "replay_loop collect rs (e, S) = Inr (e', S') \<Longrightarrow>
   \<exists>T. S' = S @ T \<and> replay_loop emit rs (e, s) =
     (case emits emit s T of Inl err \<Rightarrow> Inl (EmitFailed err) | Inr s' \<Rightarrow> Inr (e', s'))"
proof (induction rs arbitrary: e S s)
  case Nil
  then show ?case by auto
next
  case (Cons r rs)
  from Cons.prems obtain e1 S1 where add: "add_result collect r (e, S) = Inr (e1, S1)"
    and loop: "replay_loop collect rs (e1, S1) = Inr (e', S')"
    by (auto split: sum.splits)
  from add have order: "\<not> week_on r < Week e"
    by (auto simp: add_result_cases split: if_splits)
  show ?case
  proof (cases "Week e < week_on r")
    case True
    have e1: "e1 = rate_result r (opened (week_on r) e)" and S1: "S1 = S @ week_rows e"
      using add True by (auto simp: add_result_cases)
    show ?thesis
    proof (cases "emits emit s (week_rows e)")
      case (Inl err)
      obtain T where "S' = S1 @ T" using Cons.IH [OF loop, of undefined] by blast
      then show ?thesis using Inl True order S1 by (auto simp: add_result_cases emits_append)
    next
      case (Inr s1)
      obtain T where "S' = S1 @ T" "replay_loop emit rs (e1, s1) =
          (case emits emit s1 T of Inl err \<Rightarrow> Inl (EmitFailed err) | Inr s' \<Rightarrow> Inr (e', s'))"
        using Cons.IH [OF loop, of s1] by blast
      then show ?thesis
        using Inr True order S1 e1 by (intro exI [of _ "week_rows e @ T"]) (simp add: add_result_cases emits_append)
    qed
  next
    case False
    then have "e1 = rate_result r e" "S1 = S" using add order by (auto simp: add_result_cases)
    then show ?thesis using Cons.IH [OF loop, of s] False order by (auto simp: add_result_cases)
  qed
qed

lemma replay_emits:
  assumes "replay collect rs (e, []) = Inr (e', S)"
  shows "replay emit rs (e, s) =
     (case emits emit s S of Inl err \<Rightarrow> Inl (EmitFailed err) | Inr s' \<Rightarrow> Inr (e', s'))"
proof -
  obtain e1 S1 where loop: "replay_loop collect rs (e, []) = Inr (e1, S1)"
    and e': "e' = flushed e1" and S: "S = S1 @ week_rows e1"
    using assms by (auto simp: replay_def flush_emits flushed_def split: sum.splits)
  from replay_loop_emits [OF loop, of emit s]
  have "replay_loop emit rs (e, s) =
      (case emits emit s S1 of Inl err \<Rightarrow> Inl (EmitFailed err) | Inr s' \<Rightarrow> Inr (e1, s'))" by auto
  then show ?thesis
    by (auto simp: replay_def flush_emits S e' flushed_def emits_append split: sum.splits)
qed

section \<open>The fold over the results\<close>

lemma duel_other: "k \<noteq> (winner, s) \<Longrightarrow> k \<noteq> (loser, s) \<Longrightarrow> duel winner loser s weight f k = f k"
  by (simp add: duel_def Let_def split_beta)

lemma step_unfed: "\<not> feeds r k \<Longrightarrow> standing_step w r f k = f k"
  by (cases k) (auto simp: standing_step_def feeds_def Let_def duel_other)

lemma fold_unfed: "list_all (\<lambda>r. \<not> feeds r k) rs \<Longrightarrow> fold (standing_step w) rs f k = f k"
  by (induction rs arbitrary: f) (auto simp: step_unfed)

lemma standing_append: "standing w (rs @ [r]) = standing_step w r (standing w rs)"
  by (simp add: standing_def)

lemma sorted_filter_split:
  fixes f :: "'a \<Rightarrow> int"
  assumes "sorted (map f xs)"
  shows "xs = filter (\<lambda>x. f x \<le> d) xs @ filter (\<lambda>x. d < f x) xs"
  using assms
proof (induction xs)
  case (Cons x xs)
  show ?case
  proof (cases "f x \<le> d")
    case False
    then have "\<forall>y \<in> set xs. d < f y" using Cons.prems by auto
    then have "filter (\<lambda>x. f x \<le> d) xs = []" "filter (\<lambda>x. d < f x) xs = xs"
      by (auto simp: filter_empty_conv filter_id_conv)
    then show ?thesis using False by simp
  qed (use Cons in simp)
qed simp

text \<open>The rating at a week changes only with the weeks the series is fed in.\<close>

lemma rating_at_later:
  assumes sorted: "sorted (map week_on rs)" and "d \<le> d'"
    and quiet: "\<And>r. r \<in> set rs \<Longrightarrow> feeds r k \<Longrightarrow> d < week_on r \<Longrightarrow> week_on r \<le> d' \<Longrightarrow> False"
  shows "rating_at w rs k d' = rating_at w rs k d"
proof -
  let ?ys = "filter (\<lambda>r. week_on r \<le> d') rs"
  have sorted': "sorted (map week_on ?ys)"
    using sorted by (rule sorted_filter)
  have split: "?ys = filter (\<lambda>r. week_on r \<le> d) ?ys @ filter (\<lambda>r. d < week_on r) ?ys"
    by (rule sorted_filter_split [OF sorted'])
  have inner: "filter (\<lambda>r. week_on r \<le> d) ?ys = filter (\<lambda>r. week_on r \<le> d) rs"
    using assms(2) by (auto simp: intro!: filter_cong)
  have "standing w ?ys k = fold (standing_step w) (filter (\<lambda>r. d < week_on r) ?ys)
      (standing w (filter (\<lambda>r. week_on r \<le> d) rs)) k"
    unfolding standing_def by (subst split) (simp add: inner del: filter_filter)
  also have "\<dots> = standing w (filter (\<lambda>r. week_on r \<le> d) rs) k"
    using quiet by (intro fold_unfed) (auto simp: list_all_iff)
  finally have "standing w ?ys k = standing w (filter (\<lambda>r. week_on r \<le> d) rs) k" .
  moreover have "list_ex (\<lambda>r. feeds r k \<and> week_on r \<le> d') rs \<longleftrightarrow> list_ex (\<lambda>r. feeds r k \<and> week_on r \<le> d) rs"
    using assms(2) quiet by (fastforce simp: list_ex_iff)
  ultimately show ?thesis by (simp add: rating_at_def)
qed

lemma rating_at_now:
  assumes "\<And>r. r \<in> set rs \<Longrightarrow> week_on r \<le> d"
  shows "rating_at w rs k d = (if list_ex (\<lambda>r. feeds r k) rs then Some (standing w rs k) else None)"
proof -
  have "filter (\<lambda>r. week_on r \<le> d) rs = rs" using assms by (simp add: filter_id_conv)
  moreover have "list_ex (\<lambda>r. feeds r k \<and> week_on r \<le> d) rs = list_ex (\<lambda>r. feeds r k) rs"
    using assms by (auto simp: list_ex_iff)
  ultimately show ?thesis by (simp add: rating_at_def)
qed

lemma rating_at_append_later:
  "d < week_on r \<Longrightarrow> rating_at w (rs @ [r]) k d = rating_at w rs k d"
  by (simp add: rating_at_def)

section \<open>Reading the snapshots\<close>

lemma find_append: "find P (xs @ ys) = (case find P xs of None \<Rightarrow> find P ys | Some x \<Rightarrow> Some x)"
  by (induction xs) auto

lemma as_of_append:
  "as_of (S @ T) k d = (case as_of T k d of None \<Rightarrow> as_of S k d | Some x \<Rightarrow> Some x)"
  by (auto simp: as_of_def find_append split: option.splits)

lemma as_of_none: "(\<And>x. x \<in> set S \<Longrightarrow> (PlayerID x, Series x) \<noteq> k \<or> d < AsOf x) \<Longrightarrow> as_of S k d = None"
  by (fastforce simp: as_of_def find_None_iff)

lemma as_of_bound: "(\<And>x. x \<in> set S \<Longrightarrow> AsOf x \<le> d) \<Longrightarrow> d \<le> d' \<Longrightarrow> as_of S k d' = as_of S k d"
proof -
  assume le: "\<And>x. x \<in> set S \<Longrightarrow> AsOf x \<le> d" and "d \<le> d'"
  have "find (\<lambda>x. (PlayerID x, Series x) = k \<and> AsOf x \<le> d') (rev S) =
        find (\<lambda>x. (PlayerID x, Series x) = k \<and> AsOf x \<le> d) (rev S)"
    by (rule find_cong) (use le \<open>d \<le> d'\<close> in \<open>auto intro: order_trans\<close>)
  then show ?thesis by (simp add: as_of_def)
qed

lemma week_rows_set: "set (week_rows e) = snapshot_of e ` set (Touched e)"
  by (simp add: week_rows_def)

lemma week_rows_facts:
  "x \<in> set (week_rows e) \<Longrightarrow> AsOf x = Week e \<and> (PlayerID x, Series x) \<in> set (Touched e)"
  by (auto simp: week_rows_set snapshot_of_def)

lemma week_rows_sorted: "distinct (Touched e) \<Longrightarrow> sorted_wrt snap_less (week_rows e)"
proof -
  assume "distinct (Touched e)"
  then have "sorted_wrt key_less (sort_slice key_less (Touched e))"
    by (rule engine_keys.sort_slice_strict) (rule key_less_linear)
  then show ?thesis
    unfolding week_rows_def sorted_wrt_map
    by (rule sorted_wrt_mono_rel [rotated]) (simp add: snap_less_def snapshot_of_def)
qed

lemma as_of_week_rows:
  assumes "Week e \<le> d"
  shows "as_of (week_rows e) k d = (if k \<in> set (Touched e) then Some (held e k) else None)"
proof (cases "k \<in> set (Touched e)")
  case False
  then show ?thesis using week_rows_facts [of _ e] by (auto intro!: as_of_none)
next
  case True
  let ?P = "\<lambda>x. (PlayerID x, Series x) = k \<and> AsOf x \<le> d"
  have "snapshot_of e k \<in> set (rev (week_rows e))" "?P (snapshot_of e k)"
    using True assms by (auto simp: week_rows_set snapshot_of_def)
  then obtain x where x: "find ?P (rev (week_rows e)) = Some x"
    by (metis (mono_tags, lifting) find_None_iff not_Some_eq)
  then have "x \<in> set (week_rows e)" "?P x"
    by (auto simp: find_Some_iff) (metis nth_mem length_rev set_rev)
  then have "x = snapshot_of e k"
    by (auto simp: week_rows_set snapshot_of_def)
  then show ?thesis using x True by (simp add: as_of_def snapshot_of_def)
qed

section \<open>The invariant\<close>

definition priors :: "weights \<Rightarrow> result list \<Rightarrow> prediction list" where
  "priors w rs = map (\<lambda>i. prior (standing w (take i rs)) (rs ! i)) [0..<length rs]"

lemma priors_append: "priors w (rs @ [r]) = priors w rs @ [prior (standing w rs) r]"
  by (simp add: priors_def nth_append)

definition tracks :: "weights \<Rightarrow> bool \<Rightarrow> result list \<Rightarrow> engine \<Rightarrow> snapshot list \<Rightarrow> bool" where
  "tracks w obs hs e S \<longleftrightarrow>
     EWeights e = w \<and> Observed e = obs \<and> held e = standing w hs
     \<and> sorted (map week_on hs) \<and> list_all (\<lambda>r. week_on r \<le> Week e) hs
     \<and> distinct (Touched e) \<and> set (Touched e) = {k. list_ex (\<lambda>r. feeds r k \<and> week_on r = Week e) hs}
     \<and> sorted_wrt snap_less S \<and> list_all (\<lambda>x. AsOf x < Week e) S
     \<and> (\<forall>k d. d < Week e \<longrightarrow> as_of S k d = rating_at w hs k d)
     \<and> Snapshots e = int (length S) \<and> Predicted e = (if obs then priors w hs else [])
     \<and> distinct (map fst (SeriesMap e)) \<and> fst ` set (SeriesMap e) = {k. list_ex (\<lambda>r. feeds r k) hs}"

lemma tracks_reads: "tracks w obs hs e S \<Longrightarrow> d < Week e \<Longrightarrow> as_of S k d = rating_at w hs k d"
  unfolding tracks_def by blast

lemma tracks_new: "tracks w obs [] (new_engine w obs) []"
  by (simp add: tracks_def new_engine_def held_def standing_def fun_eq_iff as_of_def rating_at_def priors_def)

lemma tracks_rate:
  assumes t: "tracks w obs hs e S" and r: "week_on r = Week e"
  shows "tracks w obs (hs @ [r]) (rate_result r e) S"
proof -
  have later: "d < Week e \<Longrightarrow> rating_at w (hs @ [r]) k d = rating_at w hs k d" for k d
    using r by (intro rating_at_append_later) simp
  have sorted: "sorted (map week_on (hs @ [r]))"
    using t r by (auto simp: tracks_def sorted_append list_all_iff)
  have touched: "set (Touched (rate_result r e)) = {k. list_ex (\<lambda>q. feeds q k \<and> week_on q = Week e) (hs @ [r])}"
    using t r by (auto simp: tracks_def engine_simps)
  have keys: "fst ` set (SeriesMap (rate_result r e)) = {k. list_ex (\<lambda>q. feeds q k) (hs @ [r])}"
    using t by (auto simp: tracks_def engine_simps)
  show ?thesis
    using t r later sorted touched keys
    by (simp add: tracks_def engine_simps standing_append priors_append)
qed

lemma flush_reads:
  assumes t: "tracks w obs hs e S"
    and d: "Week e \<le> d"
  shows "as_of (S @ week_rows e) k d = rating_at w hs k d"
proof -
  have sorted: "sorted (map week_on hs)" and le: "\<And>r. r \<in> set hs \<Longrightarrow> week_on r \<le> Week e"
    and before: "\<And>x. x \<in> set S \<Longrightarrow> AsOf x \<le> Week e - 1"
    and touched: "set (Touched e) = {k. list_ex (\<lambda>r. feeds r k \<and> week_on r = Week e) hs}"
    and held: "held e = standing w hs"
    using t by (auto simp: tracks_def list_all_iff)
  show ?thesis
  proof (cases "k \<in> set (Touched e)")
    case True
    then have "list_ex (\<lambda>r. feeds r k) hs" by (auto simp: touched list_ex_iff)
    then have "rating_at w hs k d = Some (standing w hs k)"
      using le d by (subst rating_at_now) (auto intro: order_trans)
    then show ?thesis using True d by (simp add: as_of_append as_of_week_rows held)
  next
    case False
    have "as_of (S @ week_rows e) k d = as_of S k d"
      using False d by (simp add: as_of_append as_of_week_rows)
    also have "\<dots> = as_of S k (Week e - 1)"
      by (rule as_of_bound) (use before d in auto)
    also have "\<dots> = rating_at w hs k (Week e - 1)"
      by (rule tracks_reads [OF t]) simp
    also have "\<dots> = rating_at w hs k d"
    proof (rule rating_at_later [OF sorted, symmetric])
      show "Week e - 1 \<le> d" using d by simp
      fix r
      assume "r \<in> set hs" "feeds r k" "Week e - 1 < week_on r" "week_on r \<le> d"
      moreover then have "week_on r = Week e" using le by fastforce
      ultimately show False using False by (auto simp: touched list_ex_iff)
    qed
    finally show ?thesis .
  qed
qed

lemma flush_sorted:
  assumes t: "tracks w obs hs e S"
  shows "sorted_wrt snap_less (S @ week_rows e)"
  using t week_rows_sorted [of e] week_rows_facts [of _ e]
  by (fastforce simp: tracks_def sorted_wrt_append list_all_iff snap_less_def)

lemma tracks_open:
  assumes t: "tracks w obs hs e S" and d: "Week e < d"
  shows "tracks w obs hs (opened d e) (S @ week_rows e)"
proof -
  have touched: "{k. list_ex (\<lambda>r. feeds r k \<and> week_on r = d) hs} = {}"
    using t d by (auto simp: tracks_def list_ex_iff list_all_iff)
  have reads: "as_of (S @ week_rows e) k d' = rating_at w hs k d'" for k d'
  proof (cases "Week e \<le> d'")
    case True
    then show ?thesis by (rule flush_reads [OF t])
  next
    case False
    then have "as_of (week_rows e) k d' = None"
      using week_rows_facts [of _ e] by (auto intro!: as_of_none)
    then show ?thesis using False tracks_reads [OF t] by (simp add: as_of_append)
  qed
  have weeks: "list_all (\<lambda>x. AsOf x < d) (S @ week_rows e)" "list_all (\<lambda>r. week_on r \<le> d) hs"
    using t d week_rows_facts [of _ e] by (fastforce simp: tracks_def list_all_iff)+
  show ?thesis
    using t reads weeks touched flush_sorted [OF t] by (simp add: tracks_def engine_simps)
qed

lemma tracks_add:
  assumes "tracks w obs hs e S" and "Week e \<le> week_on r"
  shows "\<exists>e' S'. add_result collect r (e, S) = Inr (e', S') \<and> tracks w obs (hs @ [r]) e' S' \<and> Week e' = week_on r"
proof (cases "Week e < week_on r")
  case True
  have "tracks w obs (hs @ [r]) (rate_result r (opened (week_on r) e)) (S @ week_rows e)"
    by (rule tracks_rate [OF tracks_open [OF assms(1) True]]) (simp add: engine_simps)
  then show ?thesis using True by (auto simp: add_result_cases engine_simps)
next
  case False
  then have "week_on r = Week e" using assms(2) by simp
  then show ?thesis using tracks_rate [OF assms(1)] by (auto simp: add_result_cases engine_simps)
qed

lemma tracks_loop:
  assumes "tracks w obs hs e S" and "sorted (Week e # map week_on rs)"
  shows "\<exists>e' S'. replay_loop collect rs (e, S) = Inr (e', S') \<and> tracks w obs (hs @ rs) e' S'"
  using assms
proof (induction rs arbitrary: hs e S)
  case (Cons r rs)
  obtain e1 S1 where add: "add_result collect r (e, S) = Inr (e1, S1)"
    and t: "tracks w obs (hs @ [r]) e1 S1" "Week e1 = week_on r"
    using tracks_add [OF Cons.prems(1), of r] Cons.prems(2) by auto
  then show ?case using Cons.IH [OF t(1)] Cons.prems(2) by auto
qed auto

definition in_order :: "result list \<Rightarrow> bool" where
  "in_order rs \<longleftrightarrow> sorted (0 # map week_on rs)"

lemma replay_ok:
  assumes "in_order rs"
  obtains e S where "replay collect rs (new_engine w obs, []) = Inr (e, S)"
    and "sorted_wrt snap_less S" and "\<And>k d. as_of S k d = rating_at w rs k d"
    and "held e = standing w rs" and "Snapshots e = int (length S)"
    and "Predicted e = (if obs then priors w rs else [])"
    and "distinct (map fst (SeriesMap e))" and "fst ` set (SeriesMap e) = {k. list_ex (\<lambda>r. feeds r k) rs}"
proof -
  obtain e S where loop: "replay_loop collect rs (new_engine w obs, []) = Inr (e, S)"
    and t: "tracks w obs rs e S"
    using tracks_loop [OF tracks_new, of w obs rs] assms by (auto simp: in_order_def new_engine_def)
  have opened: "tracks w obs rs (opened (Week e + 1) e) (S @ week_rows e)"
    by (rule tracks_open [OF t]) simp
  have reads: "as_of (S @ week_rows e) k d = rating_at w rs k d" for k d
    using flush_reads [OF t] tracks_reads [OF opened, of d k]
    by (cases "Week e \<le> d") (simp_all add: engine_simps)
  show ?thesis
  proof (rule that [of "flushed e" "S @ week_rows e"])
    show "replay collect rs (new_engine w obs, []) = Inr (flushed e, S @ week_rows e)"
      using loop by (simp add: replay_def flush_emits flushed_def)
  qed (use t reads flush_sorted [OF t] in \<open>simp_all add: tracks_def engine_simps\<close>)
qed

section \<open>What the replay promises\<close>

lemma snap_less_keys: "sorted_wrt snap_less S \<Longrightarrow> distinct (map (\<lambda>x. (PlayerID x, AsOf x, Series x)) S)"
proof (induction S)
  case (Cons x S)
  have "\<not> snap_less x y" if "(PlayerID x, AsOf x, Series x) = (PlayerID y, AsOf y, Series y)" for y
    using that by (simp add: snap_less_def engine_keys.less_irrefl)
  then show ?case using Cons by (force simp del: prod.inject)
qed simp

lemma players_card:
  assumes "distinct (map fst (SeriesMap e))"
  shows "players e = int (card {p. (p, overall) \<in> fst ` set (SeriesMap e)})"
proof -
  let ?P = "\<lambda>((p :: int, s), st :: rstate). s = overall"
  have "distinct (map fst (filter ?P (SeriesMap e)))" using assms by (rule distinct_map_filter)
  then have "length (filter ?P (SeriesMap e)) = card (fst ` set (filter ?P (SeriesMap e)))"
    using distinct_card [of "map fst (filter ?P (SeriesMap e))"] by (simp only: length_map set_map)
  also have "fst ` set (filter ?P (SeriesMap e)) = (\<lambda>p. (p, overall)) ` {p. (p, overall) \<in> fst ` set (SeriesMap e)}"
  proof (intro equalityI subsetI)
    fix k
    assume "k \<in> fst ` set (filter ?P (SeriesMap e))"
    then obtain p st where k: "k = (p, overall)" and mem: "((p, overall), st) \<in> set (SeriesMap e)"
      by (auto split: prod.splits)
    show "k \<in> (\<lambda>p. (p, overall)) ` {p. (p, overall) \<in> fst ` set (SeriesMap e)}"
      unfolding k using image_eqI [OF _ mem, of "(p, overall)" fst] by simp
  next
    fix k
    assume "k \<in> (\<lambda>p. (p, overall)) ` {p. (p, overall) \<in> fst ` set (SeriesMap e)}"
    then obtain p st where "k = (p, overall)" "((p, overall), st) \<in> set (SeriesMap e)" by auto
    then show "k \<in> fst ` set (filter ?P (SeriesMap e))"
      by (intro image_eqI [of _ _ "((p, overall), st)"]) auto
  qed
  also have "card \<dots> = card {p. (p, overall) \<in> fst ` set (SeriesMap e)}"
    by (rule card_image) (simp add: inj_on_def)
  finally show ?thesis by (simp add: players_def)
qed

text \<open>
  C2: the sparse snapshots answer every "as of" question. For results whose weeks are in order the
  replay succeeds and its rows come out strictly sorted by week, player and series, so the key of
  the ratings table is unique; the last row of a series at or before any instant is what rating the
  matches of all weeks up to it by hand gives, and there is none exactly when the player had not
  played; the ratings and the number of players at the end are those of all the results.
\<close>

theorem snapshots_answer_as_of:
  assumes "in_order rs"
  shows "\<exists>e S. replay collect rs (new_engine w obs, []) = Inr (e, S)
     \<and> sorted_wrt snap_less S \<and> distinct (map (\<lambda>x. (PlayerID x, AsOf x, Series x)) S)
     \<and> Snapshots e = int (length S) \<and> (\<forall>k d. as_of S k d = rating_at w rs k d)
     \<and> (\<forall>p s. rating e p s = (Elo (standing w rs (p, s)), Matches (standing w rs (p, s))))
     \<and> players e = int (card (WinnerID ` set rs \<union> LoserID ` set rs))"
proof -
  obtain e S where facts: "replay collect rs (new_engine w obs, []) = Inr (e, S)" "sorted_wrt snap_less S"
    "\<And>k d. as_of S k d = rating_at w rs k d" "held e = standing w rs" "Snapshots e = int (length S)"
    and keys: "distinct (map fst (SeriesMap e))" "fst ` set (SeriesMap e) = {k. list_ex (\<lambda>r. feeds r k) rs}"
    using replay_ok [OF assms] by metis
  have "{p. (p, overall) \<in> fst ` set (SeriesMap e)} = WinnerID ` set rs \<union> LoserID ` set rs"
    unfolding keys(2) by (auto simp: list_ex_iff feeds_def)
  then have "players e = int (card (WinnerID ` set rs \<union> LoserID ` set rs))"
    using players_card [OF keys(1)] by simp
  then show ?thesis
    using facts snap_less_keys [OF facts(2)] by (auto simp: rating_def)
qed

lemma snapshots_answer_as_of_witness:
  "\<exists>e S. replay collect
     [\<lparr>WinnerID = 1, LoserID = 2, PlayedOn = 0, Surface = ''clay'',
        Context = \<lparr>Tier = ''tour'', Level = ''A'', IsFinal = False, IsQualifying = False\<rparr>\<rparr>,
      \<lparr>WinnerID = 2, LoserID = 1, PlayedOn = 8 * day, Surface = [],
        Context = \<lparr>Tier = ''tour'', Level = ''A'', IsFinal = False, IsQualifying = False\<rparr>\<rparr>]
     (new_engine default_weights False, []) = Inr (e, S) \<and> sorted_wrt snap_less S"
  using snapshots_answer_as_of
    [of "[\<lparr>WinnerID = 1, LoserID = 2, PlayedOn = 0, Surface = ''clay'',
        Context = \<lparr>Tier = ''tour'', Level = ''A'', IsFinal = False, IsQualifying = False\<rparr>\<rparr>,
      \<lparr>WinnerID = 2, LoserID = 1, PlayedOn = 8 * day, Surface = [],
        Context = \<lparr>Tier = ''tour'', Level = ''A'', IsFinal = False, IsQualifying = False\<rparr>\<rparr>]"
      default_weights False]
  by (fastforce simp: in_order_def week_of_def day_def Let_def)

definition mirror :: "prediction \<Rightarrow> prediction" where
  "mirror p = p\<lparr>PWinnerID := PLoserID p, PLoserID := PWinnerID p, WinnerExpected := 1 - WinnerExpected p,
     WinnerPlayed := LoserPlayed p, LoserPlayed := WinnerPlayed p\<rparr>"

text \<open>
  A prediction is made before the match is rated. The predictions of a replay are, one per
  result and in order, the expected scores of the ratings and match counts that the results before
  it give. Reading the favourite off a prediction does not peek at the result: the probability is
  at least a half, and with the result turned around the favourite keeps it and wins exactly when
  it lost before.
\<close>

theorem predictions_see_the_past:
  assumes "in_order rs"
  shows "\<exists>e S. replay collect rs (new_engine w True, []) = Inr (e, S)
     \<and> length (Predicted e) = length rs
     \<and> (\<forall>i < length rs. Predicted e ! i = prior (standing w (take i rs)) (rs ! i)
          \<and> 1 / 2 \<le> fst (favourite (Predicted e ! i)) \<and> fst (favourite (Predicted e ! i)) < 1)
     \<and> (\<forall>p. PWinnerID p \<noteq> PLoserID p \<longrightarrow>
          favourite (mirror p) = (fst (favourite p), \<not> snd (favourite p)))"
proof -
  obtain e S where facts: "replay collect rs (new_engine w True, []) = Inr (e, S)"
    "Predicted e = priors w rs"
    using replay_ok [OF assms, of w True] by metis
  have fav: "1 / 2 \<le> fst (favourite (prior f r)) \<and> fst (favourite (prior f r)) < 1" for f r
    using expected_bounds [of "Elo (f (WinnerID r, overall))" "Elo (f (LoserID r, overall))"]
    by (auto simp: favourite_def prior_def)
  have mirrored: "PWinnerID p \<noteq> PLoserID p \<longrightarrow> favourite (mirror p) = (fst (favourite p), \<not> snd (favourite p))" for p
    by (auto simp: favourite_def mirror_def)
  show ?thesis using facts fav mirrored by (intro exI conjI) (auto simp: priors_def)
qed

lemma predictions_see_the_past_witness:
  "\<exists>e S. replay collect
     [\<lparr>WinnerID = 1, LoserID = 2, PlayedOn = 3 * day, Surface = ''clay'',
        Context = \<lparr>Tier = ''tour'', Level = ''A'', IsFinal = False, IsQualifying = False\<rparr>\<rparr>]
     (new_engine default_weights True, []) = Inr (e, S) \<and> length (Predicted e) = 1"
  using predictions_see_the_past
    [of "[\<lparr>WinnerID = 1, LoserID = 2, PlayedOn = 3 * day, Surface = ''clay'',
        Context = \<lparr>Tier = ''tour'', Level = ''A'', IsFinal = False, IsQualifying = False\<rparr>\<rparr>]" default_weights]
  by (fastforce simp: in_order_def week_of_def day_def Let_def)

lemma loop_disorder:
  assumes "tracks w obs hs e S" and "\<not> sorted (Week e # map week_on rs)"
  shows "\<exists>t d. replay_loop collect rs (e, S) = Inl (OutOfOrder t d)"
  using assms
proof (induction rs arbitrary: hs e S)
  case (Cons r rs)
  show ?case
  proof (cases "Week e \<le> week_on r")
    case False
    then show ?thesis by (simp add: add_result_cases)
  next
    case True
    obtain e1 S1 where add: "add_result collect r (e, S) = Inr (e1, S1)"
      and t: "tracks w obs (hs @ [r]) e1 S1" "Week e1 = week_on r"
      using tracks_add [OF Cons.prems(1) True] by blast
    have "\<not> sorted (Week e1 # map week_on rs)" using Cons.prems(2) True t(2) by (auto intro: order_trans)
    then show ?thesis using add Cons.IH [OF t(1)] by simp
  qed
qed simp

text \<open>
  Results out of order are refused, and nothing else stops a replay. The replay into a sink that
  never fails returns an error exactly when the weeks of the results go back at some point, and the
  error names the late match and the open week; the days within a week may come in any order.
\<close>

theorem replay_refuses_disorder:
  "(\<exists>err. replay collect rs (new_engine w obs, []) = Inl err) = (\<not> in_order rs)
   \<and> (\<forall>err. replay collect rs (new_engine w obs, []) = Inl err \<longrightarrow> (\<exists>t d. err = OutOfOrder t d))"
proof (cases "in_order rs")
  case True
  then show ?thesis using replay_ok [OF True, of w obs] by (metis sum.distinct(1))
next
  case False
  then obtain t d where "replay_loop collect rs (new_engine w obs, []) = Inl (OutOfOrder t d)"
    using loop_disorder [OF tracks_new, of w obs rs] by (auto simp: in_order_def new_engine_def)
  then show ?thesis using False by (auto simp: replay_def)
qed

lemma replay_refuses_disorder_witness:
  "\<exists>err. replay collect
     [\<lparr>WinnerID = 1, LoserID = 2, PlayedOn = 9 * day, Surface = [],
        Context = \<lparr>Tier = ''tour'', Level = ''A'', IsFinal = False, IsQualifying = False\<rparr>\<rparr>,
      \<lparr>WinnerID = 2, LoserID = 1, PlayedOn = 3 * day, Surface = [],
        Context = \<lparr>Tier = ''tour'', Level = ''A'', IsFinal = False, IsQualifying = False\<rparr>\<rparr>]
     (new_engine default_weights False, []) = Inl err"
  using replay_refuses_disorder
    [of "[\<lparr>WinnerID = 1, LoserID = 2, PlayedOn = 9 * day, Surface = [],
        Context = \<lparr>Tier = ''tour'', Level = ''A'', IsFinal = False, IsQualifying = False\<rparr>\<rparr>,
      \<lparr>WinnerID = 2, LoserID = 1, PlayedOn = 3 * day, Surface = [],
        Context = \<lparr>Tier = ''tour'', Level = ''A'', IsFinal = False, IsQualifying = False\<rparr>\<rparr>]"
      default_weights False]
  by (simp add: in_order_def week_of_def day_def Let_def)

end
