(* ===== verification/RatingStore.thy ===== *)
theory RatingStore
  imports RatingReplay ScoreParse
begin

text \<open>
  The database side of the ratings, internal/rating/store.go, and the recompute of run.go. A row of
  the \<open>matches\<close> query is a record; the query's \<open>ORDER BY\<close> is a sort by the same columns. The
  transaction is the table it would commit. The database driver is the parameter \<open>link\<close>: whether the transaction
  begins, is emptied and commits, what \<open>Query\<close> delivers of the rows asked for (\<open>reads_faithfully\<close>: rows in order,
  one of which may fail to scan, and a stream that ends early only with an error) and what \<open>CopyFrom\<close> does
  (\<open>copies\<close>: it fails, or appends the rows and counts them).
\<close>

record match_row =
  RowWinner :: int
  RowLoser :: int
  RowPlayedOn :: instant
  RowTournament :: int
  RowRound :: string
  RowMatchNum :: int
  RowId :: int
  RowSurface :: "string option"
  RowScore :: "string option"
  RowTier :: string
  RowLevel :: string
  RowQualifying :: bool
  RowTeamEvent :: bool

record excluded =
  TeamEvents :: int
  Walkovers :: int

datatype 'e store_error = QueryFailed | ScanFailed | StreamFailed | UnknownTier string | Callback 'e
  | BeginFailed | TruncateFailed | CopyFailed | CommitFailed

text \<open>\<open>ORDER BY m.played_on, m.tournament_id, RoundRank(m.round), m.match_num, m.id\<close>.\<close>

definition row_key :: "match_row \<Rightarrow> int list" where
  "row_key r = [RowPlayedOn r, RowTournament r, int (round_rank (RowRound r)), RowMatchNum r, RowId r]"

definition row_less :: "match_row \<Rightarrow> match_row \<Rightarrow> bool" where
  "row_less a b \<longleftrightarrow> row_key a < row_key b"

definition query_matches :: "match_row list \<Rightarrow> match_row list" where
  "query_matches table = sort_slice row_less table"

definition is_walkover :: "match_row \<Rightarrow> bool" where
  "is_walkover r =
     (case RowScore r of
        None \<Rightarrow> False
      | Some line \<Rightarrow> (case parse_score line of Inl _ \<Rightarrow> False | Inr parsed \<Rightarrow> outcome parsed = Walkover))"

definition row_result :: "match_row \<Rightarrow> string \<Rightarrow> result" where
  "row_result r tier =
     \<lparr>WinnerID = RowWinner r, LoserID = RowLoser r, PlayedOn = RowPlayedOn r,
      Surface = (case parse_surface (case RowSurface r of None \<Rightarrow> [] | Some s \<Rightarrow> s) of
                   None \<Rightarrow> [] | Some s \<Rightarrow> s),
      Context = \<lparr>Tier = tier, Level = RowLevel r, IsFinal = (RowRound r = ''F''),
                 IsQualifying = RowQualifying r\<rparr>\<rparr>"

text \<open>A call of \<open>rows.Next\<close> that returned true, with what \<open>Scan\<close> made of the row.\<close>

datatype row_read = Scanned match_row | BadScan

text \<open>\<open>broken\<close> is whether \<open>rows.Err()\<close> is set once \<open>rows.Next\<close> has returned false.\<close>

fun matches_loop :: "bool \<Rightarrow> (result \<Rightarrow> 's \<Rightarrow> 'e + 's) \<Rightarrow> bool \<Rightarrow> row_read list \<Rightarrow> int \<Rightarrow> excluded \<Rightarrow> 's
    \<Rightarrow> 'e store_error + (int \<times> excluded \<times> 's)" where
  "matches_loop teamEvents fn broken [] n ex s = (if broken then Inl StreamFailed else Inr (n, ex, s))"
| "matches_loop teamEvents fn broken (BadScan # rs) n ex s = Inl ScanFailed"
| "matches_loop teamEvents fn broken (Scanned r # rs) n ex s =
     (if RowTeamEvent r \<and> \<not> teamEvents
      then matches_loop teamEvents fn broken rs n (ex\<lparr>TeamEvents := TeamEvents ex + 1\<rparr>) s
      else if is_walkover r
      then matches_loop teamEvents fn broken rs n (ex\<lparr>Walkovers := Walkovers ex + 1\<rparr>) s
      else case parse_tier (RowTier r) of
             None \<Rightarrow> Inl (UnknownTier (RowTier r))
           | Some tier \<Rightarrow>
               (case fn (row_result r tier) s of
                  Inl err \<Rightarrow> Inl (Callback err)
                | Inr s' \<Rightarrow> matches_loop teamEvents fn broken rs (n + 1) ex s'))"

text \<open>\<open>None\<close> is an error of \<open>Query\<close> itself.\<close>

type_synonym query_fn = "match_row list \<Rightarrow> (row_read list \<times> bool) option"

definition matches_stream :: "query_fn \<Rightarrow> bool \<Rightarrow> (result \<Rightarrow> 's \<Rightarrow> 'e + 's) \<Rightarrow> match_row list \<Rightarrow> 's
    \<Rightarrow> 'e store_error + (int \<times> excluded \<times> 's)" where
  "matches_stream query teamEvents fn table s =
     (case query (query_matches table) of
        None \<Rightarrow> Inl QueryFailed
      | Some (reads, broken) \<Rightarrow> matches_loop teamEvents fn broken reads 0 \<lparr>TeamEvents = 0, Walkovers = 0\<rparr> s)"

section \<open>The writer\<close>

record writer =
  Tx :: "snapshot list"
  Batch :: int
  Buf :: "snapshot list"
  WRows :: int

type_synonym copy_from = "snapshot list \<Rightarrow> snapshot list \<Rightarrow> (int \<times> snapshot list) option"

definition writer_flush :: "copy_from \<Rightarrow> writer \<Rightarrow> unit + writer" where
  "writer_flush copy w =
     (if Buf w = [] then Inr w
      else case copy (Tx w) (Buf w) of
             None \<Rightarrow> Inl ()
           | Some (n, t) \<Rightarrow> Inr (w\<lparr>Tx := t, WRows := WRows w + n, Buf := []\<rparr>))"

definition writer_add :: "copy_from \<Rightarrow> writer \<Rightarrow> snapshot \<Rightarrow> unit + writer" where
  "writer_add copy w x =
     (let w' = w\<lparr>Buf := Buf w @ [x]\<rparr> in
      if int (length (Buf w')) < Batch w' then Inr w' else writer_flush copy w')"

text \<open>What the database does with the statements of one run.\<close>

record db_link =
  LQuery :: query_fn
  LBegin :: bool
  LTruncate :: bool
  LCopy :: copy_from
  LCommit :: bool

text \<open>\<open>Replace\<close>: the callback fills the writer; the second component is the committed table.\<close>

definition replace_ratings :: "db_link \<Rightarrow> int
    \<Rightarrow> (writer \<Rightarrow> 'e store_error + (writer \<times> 'r)) \<Rightarrow> snapshot list
    \<Rightarrow> ('e store_error + (int \<times> 'r)) \<times> snapshot list" where
  "replace_ratings link batch fn db =
     (if \<not> LBegin link then (Inl BeginFailed, db)
      else if \<not> LTruncate link then (Inl TruncateFailed, db)
      else case fn \<lparr>Tx = [], Batch = batch, Buf = [], WRows = 0\<rparr> of
        Inl err \<Rightarrow> (Inl err, db)
      | Inr (w, r) \<Rightarrow>
          (case writer_flush (LCopy link) w of
             Inl _ \<Rightarrow> (Inl CopyFailed, db)
           | Inr w' \<Rightarrow> if LCommit link then (Inr (WRows w', r), Tx w') else (Inl CommitFailed, db)))"

section \<open>run.go\<close>

record config =
  CWeights :: weights
  IncludeTeamEvents :: bool
  CBatch :: int

record report =
  RMatches :: int
  RExcluded :: excluded
  RPlayers :: int
  RSnapshots :: int

definition defaultBatch :: int where "defaultBatch = 50000"

definition no_weights :: weights where
  "no_weights = \<lparr>GrandSlamFinal = 0, GrandSlam = 0, TourFinals = 0, Masters = 0, Tour = 0,
     TeamEvent = 0, Challenger = 0, Futures = 0, Qualifying = 0\<rparr>"

definition run_ratings :: "db_link \<Rightarrow> config \<Rightarrow> match_row list \<Rightarrow> snapshot list
    \<Rightarrow> (unit engine_error store_error + report) \<times> snapshot list" where
  "run_ratings link cfg table db =
     (let batch = (if CBatch cfg \<le> 0 then defaultBatch else CBatch cfg);
          weights = (if CWeights cfg = no_weights then default_weights else CWeights cfg);
          emit = writer_add (LCopy link);
          replay_into = (\<lambda>w.
            case matches_stream (LQuery link) (IncludeTeamEvents cfg) (add_result emit) table (new_engine weights False, w) of
              Inl err \<Rightarrow> Inl err
            | Inr (n, ex, es) \<Rightarrow>
                (case flush emit es of
                   Inl err \<Rightarrow> Inl (Callback err)
                 | Inr (e, w') \<Rightarrow> Inr (w', (n, ex, players e))))
      in case replace_ratings link batch replay_into db of
           (Inl err, db') \<Rightarrow> (Inl err, db')
         | (Inr (rows, (n, ex, ps)), db') \<Rightarrow>
             (Inr \<lparr>RMatches = n, RExcluded = ex, RPlayers = ps, RSnapshots = rows\<rparr>, db'))"

section \<open>The order of the query\<close>

interpretation match_order: slice_order row_less
  by unfold_locales (auto simp: row_less_def)

lemma row_less_total:
  assumes "distinct (map RowId table)" and "a \<in> set table" "b \<in> set table" and "a \<noteq> b"
  shows "row_less a b \<or> row_less b a"
proof -
  have "RowId a \<noteq> RowId b" using assms by (auto simp: distinct_map inj_on_def)
  then have "row_key a \<noteq> row_key b" by (simp add: row_key_def)
  then show ?thesis by (auto simp: row_less_def)
qed

lemma query_deterministic:
  assumes "mset table = mset table'" and "distinct (map RowId table)"
  shows "query_matches table = query_matches table'"
  unfolding query_matches_def
  by (rule match_order.sort_slice_deterministic [OF assms(1)]) (use row_less_total [OF assms(2)] in blast)

lemma query_sorted: "sorted (map RowPlayedOn (query_matches table))"
proof -
  have "sorted_wrt (\<lambda>a b. \<not> row_less b a) (query_matches table)"
    using match_order.arranged_sort_slice [of table]
    by (simp add: match_order.arranged_def query_matches_def)
  then have "sorted_wrt (\<lambda>a b. RowPlayedOn a \<le> RowPlayedOn b) (query_matches table)"
    by (rule sorted_wrt_mono_rel [rotated]) (auto simp: row_less_def row_key_def)
  then show ?thesis by (simp add: sorted_map)
qed

section \<open>The stream as a filter\<close>

definition is_rated :: "bool \<Rightarrow> match_row \<Rightarrow> bool" where
  "is_rated teamEvents r \<longleftrightarrow> \<not> (RowTeamEvent r \<and> \<not> teamEvents) \<and> \<not> is_walkover r"

definition rated_results :: "bool \<Rightarrow> match_row list \<Rightarrow> result list" where
  "rated_results teamEvents table =
     map (\<lambda>r. row_result r (RowTier r)) (filter (is_rated teamEvents) (query_matches table))"

abbreviation known_tiers :: "bool \<Rightarrow> match_row list \<Rightarrow> bool" where
  "known_tiers teamEvents table \<equiv> list_all (\<lambda>r. is_rated teamEvents r \<longrightarrow> RowTier r \<in> set tiers) table"

lemma matches_loop_replay:
  assumes "known_tiers te rows"
  shows "matches_loop te (add_result emit) False (map Scanned rows) n ex es =
     (case replay_loop emit (map (\<lambda>r. row_result r (RowTier r)) (filter (is_rated te) rows)) es of
        Inl err \<Rightarrow> Inl (Callback err)
      | Inr es' \<Rightarrow> Inr (n + int (length (filter (is_rated te) rows)),
          \<lparr>TeamEvents = TeamEvents ex + int (length (filter (\<lambda>r. RowTeamEvent r \<and> \<not> te) rows)),
           Walkovers = Walkovers ex + int (length (filter (\<lambda>r. \<not> (RowTeamEvent r \<and> \<not> te) \<and> is_walkover r) rows))\<rparr>,
          es'))"
  using assms
proof (induction rows arbitrary: n ex es)
  case (Cons r rows)
  then have IH: "\<And>n ex es. matches_loop te (add_result emit) False (map Scanned rows) n ex es =
     (case replay_loop emit (map (\<lambda>r. row_result r (RowTier r)) (filter (is_rated te) rows)) es of
        Inl err \<Rightarrow> Inl (Callback err)
      | Inr es' \<Rightarrow> Inr (n + int (length (filter (is_rated te) rows)),
          \<lparr>TeamEvents = TeamEvents ex + int (length (filter (\<lambda>r. RowTeamEvent r \<and> \<not> te) rows)),
           Walkovers = Walkovers ex + int (length (filter (\<lambda>r. \<not> (RowTeamEvent r \<and> \<not> te) \<and> is_walkover r) rows))\<rparr>,
          es'))" by simp
  consider "RowTeamEvent r \<and> \<not> te" | "\<not> (RowTeamEvent r \<and> \<not> te)" "is_walkover r" | "is_rated te r"
    by (auto simp: is_rated_def)
  then show ?case
  proof cases
    case 1
    then have "matches_loop te (add_result emit) False (map Scanned (r # rows)) n ex es =
        matches_loop te (add_result emit) False (map Scanned rows) n (ex\<lparr>TeamEvents := TeamEvents ex + 1\<rparr>) es"
      and "\<not> is_rated te r" by (simp_all add: is_rated_def)
    then show ?thesis unfolding IH using 1 by (simp add: algebra_simps split: sum.splits)
  next
    case 2
    then have "matches_loop te (add_result emit) False (map Scanned (r # rows)) n ex es =
        matches_loop te (add_result emit) False (map Scanned rows) n (ex\<lparr>Walkovers := Walkovers ex + 1\<rparr>) es"
      and "\<not> is_rated te r" by (auto simp: is_rated_def)
    then show ?thesis unfolding IH using 2 by (simp add: algebra_simps split: sum.splits) auto
  next
    case 3
    then have "parse_tier (RowTier r) = Some (RowTier r)"
      using Cons.prems by (simp add: parse_tier_def)
    moreover have no: "(RowTeamEvent r \<and> \<not> te) = False" "is_walkover r = False"
      using 3 by (auto simp: is_rated_def)
    ultimately have "matches_loop te (add_result emit) False (map Scanned (r # rows)) n ex es =
        (case add_result emit (row_result r (RowTier r)) es of
           Inl err \<Rightarrow> Inl (Callback err)
         | Inr es' \<Rightarrow> matches_loop te (add_result emit) False (map Scanned rows) (n + 1) ex es')"
      by (simp only: list.map(2) matches_loop.simps if_False option.case)
    then show ?thesis
      using 3 unfolding IH filter.simps no by (simp add: algebra_simps split: sum.splits)
  qed
qed simp

text \<open>A stream that is read to its end without an error has rated rows of known tiers only.\<close>

lemma matches_loop_ok:
  "matches_loop te fn broken reads n ex s = Inr res \<Longrightarrow>
     \<not> broken \<and> BadScan \<notin> set reads \<and> (\<forall>r. Scanned r \<in> set reads \<longrightarrow> is_rated te r \<longrightarrow> RowTier r \<in> set tiers)"
proof (induction reads arbitrary: n ex s)
  case Nil
  then show ?case by (simp split: if_splits)
next
  case (Cons rd reads)
  obtain r where rd: "rd = Scanned r" using Cons.prems by (cases rd) simp_all
  have rest: "\<exists>n ex s. matches_loop te fn broken reads n ex s = Inr res"
  proof (cases "RowTeamEvent r \<and> \<not> te \<or> is_walkover r")
    case True
    then show ?thesis using Cons.prems rd by (auto split: if_splits)
  next
    case False
    then show ?thesis using Cons.prems rd by (auto split: option.splits sum.splits) blast+
  qed
  have "RowTier r \<in> set tiers" if "is_rated te r"
  proof -
    have "\<not> (RowTeamEvent r \<and> \<not> te)" "\<not> is_walkover r" using that by (auto simp: is_rated_def)
    then show ?thesis using Cons.prems rd by (simp add: parse_tier_def split: if_splits)
  qed
  then show ?case using rest Cons.IH rd by auto
qed

lemma rated_in_order:
  assumes "list_all (\<lambda>r. 0 \<le> RowPlayedOn r) table"
  shows "in_order (rated_results te table)"
proof -
  let ?rows = "filter (is_rated te) (query_matches table)"
  have "sorted (map RowPlayedOn ?rows)" using query_sorted by (rule sorted_filter)
  then have "sorted (map (\<lambda>r. week_of (RowPlayedOn r)) ?rows)"
    by (simp add: sorted_map sorted_wrt_mono_rel [OF _ \<open>sorted (map RowPlayedOn ?rows)\<close> [unfolded sorted_map]]
        week_of_mono)
  moreover have "0 \<le> week_of (RowPlayedOn r)" if "r \<in> set ?rows" for r
    using that assms week_of_mono [of 0 "RowPlayedOn r"]
    by (auto simp: query_matches_def list_all_iff week_of_def day_def)
  ultimately show ?thesis
    by (auto simp: in_order_def rated_results_def row_result_def o_def)
qed

lemma rated_counts:
  "length (filter (is_rated te) rows) + length (filter (\<lambda>r. RowTeamEvent r \<and> \<not> te) rows)
   + length (filter (\<lambda>r. \<not> (RowTeamEvent r \<and> \<not> te) \<and> is_walkover r) rows) = length rows"
  by (induction rows) (auto simp: is_rated_def)

section \<open>Batches\<close>

definition copies :: "copy_from \<Rightarrow> bool" where
  "copies copy \<longleftrightarrow> (\<forall>t rows. copy t rows = None \<or> copy t rows = Some (int (length rows), t @ rows))"

lemma writer_flush_copies:
  assumes "copies copy" and "writer_flush copy w = Inr w'"
  shows "Tx w' = Tx w @ Buf w \<and> Buf w' = [] \<and> WRows w' = WRows w + int (length (Buf w)) \<and> Batch w' = Batch w"
proof (cases "copy (Tx w) (Buf w)")
  case None
  then show ?thesis using assms(2) by (auto simp: writer_flush_def split: if_splits)
next
  case (Some p)
  then have "copy (Tx w) (Buf w) = Some (int (length (Buf w)), Tx w @ Buf w)"
    using assms(1) by (metis copies_def option.distinct(1))
  then show ?thesis using assms(2) by (auto simp: writer_flush_def split: if_splits)
qed

lemma writer_add_copies:
  assumes "copies copy" and "writer_add copy w x = Inr w'"
  shows "Tx w' @ Buf w' = Tx w @ Buf w @ [x] \<and> WRows w' + int (length (Buf w')) = WRows w + int (length (Buf w)) + 1"
  using assms(2) writer_flush_copies [OF assms(1), of "w\<lparr>Buf := Buf w @ [x]\<rparr>" w']
  by (auto simp: writer_add_def Let_def split: if_splits)

lemma writer_emits:
  assumes "copies copy" and "emits (writer_add copy) w xs = Inr w'"
  shows "Tx w' @ Buf w' = Tx w @ Buf w @ xs
    \<and> WRows w' + int (length (Buf w')) = WRows w + int (length (Buf w)) + int (length xs)"
  using assms(2)
proof (induction xs arbitrary: w)
  case (Cons x xs)
  then obtain w1 where add: "writer_add copy w x = Inr w1" and rest: "emits (writer_add copy) w1 xs = Inr w'"
    by (auto split: sum.splits)
  show ?case using writer_add_copies [OF assms(1) add] Cons.IH [OF rest] by auto
qed auto

lemma writer_never_fails:
  assumes "\<And>t rows. copy t rows \<noteq> None"
  shows "\<exists>w'. writer_flush copy w = Inr w'" and "\<exists>w'. emits (writer_add copy) w xs = Inr w'"
proof -
  show flush: "\<exists>w'. writer_flush copy w = Inr w'" for w
    using assms [of "Tx w" "Buf w"] by (auto simp: writer_flush_def)
  show "\<exists>w'. emits (writer_add copy) w xs = Inr w'"
  proof (induction xs arbitrary: w)
    case (Cons x xs)
    have "\<exists>w1. writer_add copy w x = Inr w1"
      using flush [of "w\<lparr>Buf := Buf w @ [x]\<rparr>"] by (auto simp: writer_add_def Let_def)
    then show ?case using Cons by auto
  qed simp
qed

section \<open>A recompute\<close>

definition run_weights :: "config \<Rightarrow> weights" where
  "run_weights cfg = (if CWeights cfg = no_weights then default_weights else CWeights cfg)"

definition run_batch :: "config \<Rightarrow> int" where
  "run_batch cfg = (if CBatch cfg \<le> 0 then defaultBatch else CBatch cfg)"

text \<open>Rows arrive in order; each may fail to scan; the stream ends early only with an error.\<close>

definition reads_faithfully :: "query_fn \<Rightarrow> bool" where
  "reads_faithfully query \<longleftrightarrow> (\<forall>rows reads broken. query rows = Some (reads, broken) \<longrightarrow>
     length reads \<le> length rows \<and> (\<forall>i < length reads. reads ! i = Scanned (rows ! i) \<or> reads ! i = BadScan)
     \<and> (broken \<or> length reads = length rows))"

text \<open>A run in which the database does all it is asked to.\<close>

definition all_well :: "db_link \<Rightarrow> match_row list \<Rightarrow> bool" where
  "all_well link rows \<longleftrightarrow> LBegin link \<and> LTruncate link \<and> LCommit link \<and> (\<forall>t xs. LCopy link t xs \<noteq> None)
     \<and> LQuery link rows = Some (map Scanned rows, False)"

lemma reads_all:
  assumes "reads_faithfully query" and "query rows = Some (reads, False)" and "BadScan \<notin> set reads"
  shows "reads = map Scanned rows"
proof (rule nth_equalityI)
  show len: "length reads = length (map Scanned rows)" using assms(1,2) unfolding reads_faithfully_def by auto
  fix i assume i: "i < length reads"
  then have "reads ! i \<noteq> BadScan" using assms(3) nth_mem by metis
  moreover have "reads ! i = Scanned (rows ! i) \<or> reads ! i = BadScan"
    using assms(1,2) i unfolding reads_faithfully_def by blast
  ultimately show "reads ! i = map Scanned rows ! i" using i len by simp
qed

text \<open>Whatever fails, the table is left as it was.\<close>

lemma run_error_keeps: "run_ratings link cfg table db = (Inl err, db') \<Longrightarrow> db' = db"
  by (auto simp: run_ratings_def replace_ratings_def Let_def split: if_splits sum.splits prod.splits)

lemma run_ok_stream:
  assumes "run_ratings link cfg table db = (Inr rep, db')" and "reads_faithfully (LQuery link)"
  shows "LBegin link \<and> LTruncate link \<and> LCommit link
    \<and> LQuery link (query_matches table) = Some (map Scanned (query_matches table), False)
    \<and> known_tiers (IncludeTeamEvents cfg) table"
proof -
  let ?start = "(new_engine (run_weights cfg) False, \<lparr>Tx = [], Batch = run_batch cfg, Buf = [], WRows = 0\<rparr>)"
  have flags: "LBegin link" "LTruncate link" "LCommit link"
    using assms(1) by (auto simp: run_ratings_def replace_ratings_def Let_def split: if_splits sum.splits prod.splits)
  obtain res where m: "matches_stream (LQuery link) (IncludeTeamEvents cfg) (add_result (writer_add (LCopy link))) table ?start = Inr res"
    using assms(1) flags
    by (cases "matches_stream (LQuery link) (IncludeTeamEvents cfg) (add_result (writer_add (LCopy link))) table ?start")
      (auto simp: run_ratings_def replace_ratings_def Let_def run_weights_def run_batch_def)
  then obtain reads broken where q: "LQuery link (query_matches table) = Some (reads, broken)"
    and loop: "matches_loop (IncludeTeamEvents cfg) (add_result (writer_add (LCopy link))) broken reads 0
      \<lparr>TeamEvents = 0, Walkovers = 0\<rparr> ?start = Inr res"
    by (auto simp: matches_stream_def split: option.splits)
  note ok = matches_loop_ok [OF loop]
  then have all: "reads = map Scanned (query_matches table)" using reads_all [OF assms(2)] q by auto
  then have "known_tiers (IncludeTeamEvents cfg) (query_matches table)" using ok by (auto simp: list_all_iff)
  then have "known_tiers (IncludeTeamEvents cfg) table" by (simp add: list_all_iff query_matches_def)
  then show ?thesis using flags q ok all by simp
qed

lemma run_ratings_emits:
  fixes table :: "match_row list"
  assumes tiers: "known_tiers (IncludeTeamEvents cfg) table"
    and query: "LQuery link (query_matches table) = Some (map Scanned (query_matches table), False)"
    and begun: "LBegin link" "LTruncate link" "LCommit link"
    and replay: "replay collect (rated_results (IncludeTeamEvents cfg) table) (new_engine (run_weights cfg) False, []) = Inr (e, S)"
  defines "start \<equiv> \<lparr>Tx = [], Batch = run_batch cfg, Buf = [], WRows = 0\<rparr>"
  shows "run_ratings link cfg table db =
     (case emits (writer_add (LCopy link)) start S of
        Inl u \<Rightarrow> (Inl (Callback (EmitFailed u)), db)
      | Inr w \<Rightarrow>
          (case writer_flush (LCopy link) w of
             Inl _ \<Rightarrow> (Inl CopyFailed, db)
           | Inr w' \<Rightarrow>
               (Inr \<lparr>RMatches = int (length (rated_results (IncludeTeamEvents cfg) table)),
                  RExcluded =
                    \<lparr>TeamEvents = int (length (filter (\<lambda>r. RowTeamEvent r \<and> \<not> IncludeTeamEvents cfg) (query_matches table))),
                     Walkovers = int (length (filter (\<lambda>r. \<not> (RowTeamEvent r \<and> \<not> IncludeTeamEvents cfg) \<and> is_walkover r) (query_matches table)))\<rparr>,
                  RPlayers = players e, RSnapshots = WRows w'\<rparr>, Tx w')))"
proof -
  let ?te = "IncludeTeamEvents cfg" and ?w = "run_weights cfg" and ?add = "writer_add (LCopy link)"
  let ?rs = "rated_results ?te table"
  have known: "known_tiers ?te (query_matches table)"
    using tiers by (simp add: list_all_iff query_matches_def)
  note loop = matches_loop_replay [OF known, of ?add 0 "\<lparr>TeamEvents = 0, Walkovers = 0\<rparr>"
      "(new_engine ?w False, start)", folded rated_results_def]
  note sink = replay_emits [OF replay, of ?add start]
  have len: "length ?rs = length (filter (is_rated ?te) (query_matches table))"
    by (simp add: rated_results_def)
  show ?thesis
  proof (cases "replay_loop ?add ?rs (new_engine ?w False, start)")
    case (Inl err)
    then show ?thesis
      using sink begun by (auto simp: run_ratings_def replace_ratings_def matches_stream_def query Let_def loop replay_def
          simp flip: run_weights_def run_batch_def start_def split: sum.splits)
  next
    case (Inr es)
    then have flush: "flush ?add es = (case emits ?add start S of
        Inl err \<Rightarrow> Inl (EmitFailed err) | Inr s' \<Rightarrow> Inr (e, s'))"
      using sink by (simp add: replay_def)
    show ?thesis
      using Inr begun by (simp add: run_ratings_def replace_ratings_def matches_stream_def query Let_def loop flush len
          flip: run_weights_def run_batch_def start_def split: sum.splits)
  qed
qed

text \<open>
  C6: A recompute is all or nothing, over a driver that delivers the rows of a query in order and appends what it is
  given to copy. Whatever fails, be it the transaction, the emptying of the table, the query, one row of it, the
  stream before its end, a copy or the commit, or a rated row whose tier is unknown, the old table stays. A run
  without an error has read every row, and the new table is the replay of the rated matches in the order of the
  query, whatever the batch; its report counts every row of the table once, as rated, a team event or a walkover.
  When the database does all it is asked and the tiers of the rated rows are known, there is no error. (Dates are not
  before Go's zero time.)
\<close>

theorem recompute_replaces:
  assumes "copies (LCopy link)" and "reads_faithfully (LQuery link)" and "list_all (\<lambda>r. 0 \<le> RowPlayedOn r) table"
  shows "\<exists>e S. replay collect (rated_results (IncludeTeamEvents cfg) table) (new_engine (run_weights cfg) False, []) = Inr (e, S)
     \<and> (case run_ratings link cfg table db of
          (Inl err, db') \<Rightarrow> db' = db \<and> \<not> (all_well link (query_matches table) \<and> known_tiers (IncludeTeamEvents cfg) table)
        | (Inr rep, db') \<Rightarrow> db' = S \<and> RSnapshots rep = int (length S) \<and> RPlayers rep = players e
            \<and> LQuery link (query_matches table) = Some (map Scanned (query_matches table), False)
            \<and> known_tiers (IncludeTeamEvents cfg) table
            \<and> RMatches rep = int (length (rated_results (IncludeTeamEvents cfg) table))
            \<and> RMatches rep + TeamEvents (RExcluded rep) + Walkovers (RExcluded rep) = int (length table))"
proof -
  let ?te = "IncludeTeamEvents cfg" and ?copy = "LCopy link"
  obtain e S where replay: "replay collect (rated_results ?te table) (new_engine (run_weights cfg) False, []) = Inr (e, S)"
    by (rule replay_ok [OF rated_in_order [OF assms(3), of ?te], of "run_weights cfg" False]) blast
  let ?start = "\<lparr>Tx = [], Batch = run_batch cfg, Buf = [], WRows = 0\<rparr>"
  have total: "int (length (rated_results ?te table)) +
      int (length (filter (\<lambda>r. RowTeamEvent r \<and> \<not> ?te) (query_matches table))) +
      int (length (filter (\<lambda>r. \<not> (RowTeamEvent r \<and> \<not> ?te) \<and> is_walkover r) (query_matches table))) = int (length table)"
    using rated_counts [of ?te "query_matches table"]
    by (simp add: rated_results_def query_matches_def flip: of_nat_add del: of_nat_add)
  obtain r db' where run: "run_ratings link cfg table db = (r, db')" by fastforce
  show ?thesis
  proof (cases r)
    case (Inl err)
    have "\<not> (all_well link (query_matches table) \<and> known_tiers ?te table)"
    proof
      assume well: "all_well link (query_matches table) \<and> known_tiers ?te table"
      obtain w where w: "emits (writer_add ?copy) ?start S = Inr w"
        using well writer_never_fails(2) [of ?copy ?start S] by (auto simp: all_well_def)
      obtain w' where "writer_flush ?copy w = Inr w'"
        using well writer_never_fails(1) [of ?copy w] by (auto simp: all_well_def)
      then show False using run_ratings_emits [OF _ _ _ _ _ replay, of link db] well w run Inl by (simp add: all_well_def)
    qed
    then show ?thesis using replay run Inl run_error_keeps [of link cfg table db err db'] by simp
  next
    case (Inr rep)
    note ok = run_ok_stream [OF run [unfolded Inr] assms(2)]
    then have eq: "run_ratings link cfg table db =
        (case emits (writer_add ?copy) ?start S of
           Inl u \<Rightarrow> (Inl (Callback (EmitFailed u)), db)
         | Inr w \<Rightarrow>
             (case writer_flush ?copy w of
                Inl _ \<Rightarrow> (Inl CopyFailed, db)
              | Inr w' \<Rightarrow>
                  (Inr \<lparr>RMatches = int (length (rated_results ?te table)),
                     RExcluded =
                       \<lparr>TeamEvents = int (length (filter (\<lambda>r. RowTeamEvent r \<and> \<not> ?te) (query_matches table))),
                        Walkovers = int (length (filter (\<lambda>r. \<not> (RowTeamEvent r \<and> \<not> ?te) \<and> is_walkover r) (query_matches table)))\<rparr>,
                     RPlayers = players e, RSnapshots = WRows w'\<rparr>, Tx w')))"
      using run_ratings_emits [OF _ _ _ _ _ replay, of link db] by blast
    obtain w where w: "emits (writer_add ?copy) ?start S = Inr w" using eq run Inr by (auto split: sum.splits)
    obtain w' where w': "writer_flush ?copy w = Inr w'" using eq run Inr w by (auto split: sum.splits)
    have "Tx w' = S" "WRows w' = int (length S)"
      using writer_emits [OF assms(1) w] writer_flush_copies [OF assms(1) w'] by auto
    then show ?thesis using replay total ok run Inr eq w w' by auto
  qed
qed

lemma recompute_replaces_witness:
  "\<exists>rep S. run_ratings \<lparr>LQuery = (\<lambda>rows. Some (map Scanned rows, False)), LBegin = True, LTruncate = True,
       LCopy = (\<lambda>t rows. Some (int (length rows), t @ rows)), LCommit = True\<rparr>
     \<lparr>CWeights = no_weights, IncludeTeamEvents = False, CBatch = 0\<rparr>
     [\<lparr>RowWinner = 1, RowLoser = 2, RowPlayedOn = 9 * day, RowTournament = 4, RowRound = ''F'', RowMatchNum = 1,
       RowId = 7, RowSurface = Some ''clay'', RowScore = None, RowTier = ''tour'', RowLevel = ''A'',
       RowQualifying = False, RowTeamEvent = False\<rparr>] [] = (Inr rep, S) \<and> RSnapshots rep = int (length S)"
proof -
  let ?link = "\<lparr>LQuery = (\<lambda>rows. Some (map Scanned rows, False)), LBegin = True, LTruncate = True,
       LCopy = (\<lambda>t rows. Some (int (length rows), t @ rows)), LCommit = True\<rparr>"
  let ?cfg = "\<lparr>CWeights = no_weights, IncludeTeamEvents = False, CBatch = 0\<rparr>"
  let ?table = "[\<lparr>RowWinner = 1, RowLoser = 2, RowPlayedOn = 9 * day, RowTournament = 4, RowRound = ''F'', RowMatchNum = 1,
       RowId = 7, RowSurface = Some ''clay'', RowScore = None, RowTier = ''tour'', RowLevel = ''A'',
       RowQualifying = False, RowTeamEvent = False\<rparr>]"
  have "copies (LCopy ?link)" by (simp add: copies_def)
  moreover have "reads_faithfully (LQuery ?link)" by (auto simp: reads_faithfully_def)
  moreover have "list_all (\<lambda>r. 0 \<le> RowPlayedOn r) ?table" by (simp add: day_def)
  moreover have "known_tiers (IncludeTeamEvents ?cfg) ?table" by (simp add: tiers_def tierTour_def)
  moreover have "all_well ?link (query_matches ?table)" by (simp add: all_well_def)
  moreover obtain r db' where run: "run_ratings ?link ?cfg ?table [] = (r, db')" by force
  ultimately show ?thesis
    using recompute_replaces [of ?link ?table ?cfg "[]"] unfolding run by (cases r) auto
qed

end
