(* ===== verification/Identity.thy ===== *)
theory Identity
  imports Name Prelude Complex_Main "HOL-Library.Char_ord" "HOL-Library.List_Lexorder"
begin

text \<open>
  Identity reconciliation, internal/identity/identity.go: rows of one tour that may be the same
  person are grouped by a folded name, scored, and proposed as links. Confidence is a real number. A
  date of birth is its year, month and day, which is all \<open>sameDay\<close> and the \<open>2006-01-02\<close> key look at.
  Go leaves the order of a range over a map open; the model goes through the groups and the days in
  the order they are first seen, and the results are stated for any order of the links.
\<close>

definition autoLink :: real where "autoLink = 90 / 100"
definition reviewFloor :: real where "reviewFloor = 50 / 100"

type_synonym date = "int \<times> int \<times> int"

record player =
  PId :: int
  SourceID :: string
  PSlug :: string
  FullName :: gotext
  Country :: string
  BirthDate :: "date option"
  BirthYear :: "int option"
  PMatches :: int
  MatchOnly :: bool

definition numeric :: "player \<Rightarrow> bool" where
  "numeric p = (if SourceID p = [] then False else list_all is_digit (SourceID p))"

definition stub :: "player \<Rightarrow> bool" where
  "stub p \<longleftrightarrow> \<not> numeric p \<or> MatchOnly p"

record link =
  Canonical :: player
  Duplicate :: player
  Confidence :: real
  Reason :: string

definition auto_link :: "link \<Rightarrow> bool" where
  "auto_link m \<longleftrightarrow> autoLink \<le> Confidence m"

section \<open>The name key\<close>

text \<open>The inner loop of the insertion sort: the element at \<open>j\<close> sinks while it is smaller.\<close>

fun sink :: "string list \<Rightarrow> nat \<Rightarrow> string list" where
  "sink parts 0 = parts"
| "sink parts (Suc j) =
     (if parts ! Suc j < parts ! j then sink (parts[Suc j := parts ! j, j := parts ! Suc j]) j else parts)"

definition insertion_sort :: "string list \<Rightarrow> string list" where
  "insertion_sort parts = fold (\<lambda>i ps. sink ps i) [1..<length parts] parts"

definition name_key :: "(rune \<Rightarrow> bool) \<Rightarrow> gotext \<Rightarrow> string" where
  "name_key ul full_name =
     (let normalised = normalise ul (map (\<lambda>r. if r = 44 then 32 else r) full_name);
          parts = str_fields normalised
      in if parts = [] then [] else join (insertion_sort parts) '' '')"

section \<open>Scoring a pair\<close>

definition birth_year :: "player \<Rightarrow> int" where
  "birth_year p =
     (case BirthDate p of
        Some (y, m, d) \<Rightarrow> y
      | None \<Rightarrow> (case BirthYear p of Some y \<Rightarrow> y | None \<Rightarrow> 0))"

definition same_country :: "player \<Rightarrow> player \<Rightarrow> bool" where
  "same_country a b \<longleftrightarrow> Country a \<noteq> [] \<and> Country b \<noteq> [] \<and> Country a = Country b"

definition both_years_known :: "player \<Rightarrow> player \<Rightarrow> bool" where
  "both_years_known a b \<longleftrightarrow> birth_year a \<noteq> 0 \<and> birth_year b \<noteq> 0"

definition score_by_year :: "player \<Rightarrow> player \<Rightarrow> real \<times> string" where
  "score_by_year a b =
     (if BirthYear a \<noteq> None \<and> BirthYear b \<noteq> None \<and> the (BirthYear a) = the (BirthYear b)
      then (90 / 100, ''name, country and birth year match, birth year derived from age'')
      else if BirthDate a = None \<and> BirthDate b = None
      then (0, ''same name and country, different birth year'')
      else
        let gap = \<bar>birth_year a - birth_year b\<bar> in
        if gap = 0 then (90 / 100, ''name, country and birth year match, birth year derived from age'')
        else if gap = 1
        then (70 / 100, ''name and country match, birth years differ by one and one of them is derived'')
        else (0, ''same name and country, different birth year''))"

definition pair_score :: "player \<Rightarrow> player \<Rightarrow> real \<times> string" where
  "pair_score a b =
     (if BirthDate a \<noteq> None \<and> BirthDate b \<noteq> None
      then (if BirthDate a \<noteq> BirthDate b then (0, ''same name, different date of birth'')
            else if Country a \<noteq> [] \<and> Country b \<noteq> [] \<and> Country a \<noteq> Country b
            then (70 / 100, ''name and date of birth match, country does not'')
            else (1, ''name and date of birth match''))
      else if same_country a b \<and> both_years_known a b then score_by_year a b
      else if Country a \<noteq> [] \<and> Country b \<noteq> [] \<and> Country a = Country b
      then (60 / 100, ''name and country match, no date of birth to confirm it'')
      else (40 / 100, ''name matches, nothing else to confirm it''))"

section \<open>Two ids of one source\<close>

definition keep_less :: "player list \<Rightarrow> nat \<Rightarrow> nat \<Rightarrow> bool" where
  "keep_less anchored a b =
     (let pa = anchored ! a; pb = anchored ! b in
      if PMatches pa \<noteq> PMatches pb then PMatches pa > PMatches pb else PId pa < PId pb)"

definition by_day :: "player list \<Rightarrow> (date \<times> nat list) list" where
  "by_day anchored =
     group_by (\<lambda>i. the (BirthDate (anchored ! i)))
       (filter (\<lambda>i. BirthDate (anchored ! i) \<noteq> None) [0..<length anchored])"

definition fold_link :: "player \<Rightarrow> player \<Rightarrow> link" where
  "fold_link keep p =
     \<lparr>Canonical = keep, Duplicate = p, Confidence = fst (pair_score keep p),
      Reason = snd (pair_score keep p) @ '', under two ids of one source''\<rparr>"

definition fold_day :: "player list \<Rightarrow> nat list \<Rightarrow> (nat \<times> link) list" where
  "fold_day anchored idx0 =
     (if length idx0 < 2 then []
      else
        let idx = sort_slice (keep_less anchored) idx0; keep = anchored ! hd idx in
        map (\<lambda>i. (i, fold_link keep (anchored ! i)))
          (filter (\<lambda>i. \<not> fst (pair_score keep (anchored ! i)) < reviewFloor) (tl idx)))"

definition fold_same_source :: "player list \<Rightarrow> link list \<times> player list" where
  "fold_same_source anchored =
     (let folded = concat (map (\<lambda>(day, idx). fold_day anchored idx) (by_day anchored))
      in (map snd folded,
          map (\<lambda>i. anchored ! i) (filter (\<lambda>i. i \<notin> fst ` set folded) [0..<length anchored])))"

section \<open>Reconciliation\<close>

text \<open>The state of the loop: the best and second best candidate and their scores.\<close>

definition two_step :: "player \<Rightarrow> player \<Rightarrow> (player option \<times> real) \<times> (player option \<times> real)
    \<Rightarrow> (player option \<times> real) \<times> (player option \<times> real)" where
  "two_step dup c = (\<lambda>((best, bestScore), (second, secondScore)).
     let s = fst (pair_score c dup) in
     if s > bestScore then ((Some c, s), (best, bestScore))
     else if s > secondScore then ((best, bestScore), (Some c, s))
     else ((best, bestScore), (second, secondScore)))"

definition best_two :: "player list \<Rightarrow> player \<Rightarrow> player option \<times> player option" where
  "best_two candidates dup =
     (let ((best, bs), (second, ss)) = fold (two_step dup) candidates ((None, -1), (None, -1))
      in (best, second))"

definition stub_link :: "player list \<Rightarrow> player \<Rightarrow> link option" where
  "stub_link anchored dup =
     (case best_two anchored dup of
        (None, second) \<Rightarrow> None
      | (Some best, second) \<Rightarrow>
          let (confidence, reason) = pair_score best dup in
          if confidence < reviewFloor then None
          else
            let (confidence, reason) =
              (case second of
                 None \<Rightarrow> (confidence, reason)
               | Some s \<Rightarrow>
                   if fst (pair_score s dup) \<ge> confidence
                   then (reviewFloor, ''more than one candidate matches equally well'')
                   else (confidence, reason))
            in Some \<lparr>Canonical = best, Duplicate = dup, Confidence = confidence, Reason = reason\<rparr>)"

definition reconcile_group :: "player list \<Rightarrow> link list" where
  "reconcile_group grp =
     (let stubs = filter stub grp; anchored0 = filter (\<lambda>p. \<not> stub p) grp;
          (folded, anchored) = fold_same_source anchored0
      in if anchored = [] then folded
         else List.map_filter (stub_link anchored) stubs @ folded)"

definition reconcile :: "(rune \<Rightarrow> bool) \<Rightarrow> player list \<Rightarrow> link list" where
  "reconcile ul players =
     concat (map (\<lambda>(k, grp). if length grp < 2 then [] else reconcile_group grp)
       (group_by (\<lambda>p. name_key ul (FullName p))
          (filter (\<lambda>p. name_key ul (FullName p) \<noteq> []) players)))"

section \<open>The insertion sort sorts\<close>

lemma length_sink [simp]: "length (sink ps j) = length ps"
  by (induction ps j rule: sink.induct) auto

lemma mset_sink: "j < length ps \<Longrightarrow> mset (sink ps j) = mset ps"
proof (induction ps j rule: sink.induct)
  case (2 ps j)
  then show ?case using mset_swap [of j ps "Suc j"] by (simp add: list_update_swap)
qed simp

text \<open>Sinking the element after a sorted prefix sorts the prefix with it.\<close>

lemma sink_sorted:
  assumes "j < length ps" and "sorted (take j ps)"
    and "\<And>a b. a < j \<Longrightarrow> j < b \<Longrightarrow> b \<le> k \<Longrightarrow> ps ! a \<le> ps ! b"
    and "\<And>a b. j < a \<Longrightarrow> a < b \<Longrightarrow> b \<le> k \<Longrightarrow> ps ! a \<le> ps ! b"
    and "\<And>b. j < b \<Longrightarrow> b \<le> k \<Longrightarrow> ps ! j \<le> ps ! b" and "k < length ps" and "j \<le> k"
  shows "sorted (take (Suc k) (sink ps j))"
  using assms
proof (induction ps j rule: sink.induct)
  case (1 ps)
  have "ps ! a \<le> ps ! b" if "a < b" "b \<le> k" for a b
    using that 1 by (cases "a = 0") auto
  then show ?case
    using 1 by (auto simp: sorted_iff_nth_mono_less nth_take)
next
  case (2 ps j)
  have prefix: "a < b \<Longrightarrow> b < Suc j \<Longrightarrow> ps ! a \<le> ps ! b" for a b
    using 2(3,2) by (auto simp: sorted_iff_nth_mono_less)
  show ?case
  proof (cases "ps ! Suc j < ps ! j")
    case False
    have "ps ! a \<le> ps ! b" if ab: "a < b" "b \<le> k" for a b
    proof -
      have last: "a < Suc j \<Longrightarrow> ps ! a \<le> ps ! Suc j"
        using False prefix [of a j] by (cases "a = j") (auto intro: order_trans)
      consider "b < Suc j" | "b = Suc j" | "a < Suc j" "Suc j < b" | "a = Suc j" | "Suc j < a"
        using ab by linarith
      then show ?thesis
        using ab prefix last 2(4-6) by cases auto
    qed
    then show ?thesis
      using False 2 by (auto simp: sorted_iff_nth_mono_less nth_take)
  next
    case True
    let ?qs = "ps[Suc j := ps ! j, j := ps ! Suc j]"
    have len: "Suc j < length ps" using 2(2) .
    have at: "?qs ! a = (if a = j then ps ! Suc j else if a = Suc j then ps ! j else ps ! a)"
      if "a < length ps" for a
      using that len by (simp add: nth_list_update)
    have "sorted (take (Suc k) (sink ?qs j))"
    proof (rule 2(1) [OF True])
      show "j < length ?qs" "k < length ?qs" "j \<le> k" using 2 by auto
      show "sorted (take j ?qs)"
        using 2(3) by (auto simp: sorted_iff_nth_mono_less prefix)
      fix a b
      show "?qs ! a \<le> ?qs ! b" if "a < j" "j < b" "b \<le> k"
        using that at 2(4) [of a b] prefix [of a j] 2(7) by (cases "b = Suc j") auto
      show "?qs ! a \<le> ?qs ! b" if "j < a" "a < b" "b \<le> k"
        using that at 2(4) [of j b] 2(5) [of a b] 2(7) by (cases "a = Suc j") auto
      show "?qs ! j \<le> ?qs ! b" if "j < b" "b \<le> k"
        using that at True 2(6) [of b] 2(7) len by (cases "b = Suc j") auto
    qed
    then show ?thesis using True by simp
  qed
qed

lemma insertion_sort_prefix:
  "k \<le> length ps \<Longrightarrow> let qs = fold (\<lambda>i ps. sink ps i) [1..<k] ps in
     mset qs = mset ps \<and> length qs = length ps \<and> sorted (take k qs)"
proof (induction k)
  case (Suc k)
  show ?case
  proof (cases "k = 0")
    case True
    then show ?thesis by (cases ps) (auto simp: Let_def)
  next
    case False
    let ?qs = "fold (\<lambda>i ps. sink ps i) [1..<k] ps"
    have IH: "mset ?qs = mset ps" "length ?qs = length ps" "sorted (take k ?qs)"
      using Suc by (simp_all add: Let_def)
    have "sorted (take (Suc k) (sink ?qs k))"
      by (rule sink_sorted) (use IH Suc.prems in auto)
    moreover have "mset (sink ?qs k) = mset ps" using mset_sink [of k ?qs] IH Suc.prems by simp
    moreover have "fold (\<lambda>i ps. sink ps i) [1..<Suc k] ps = sink ?qs k" using False by simp
    ultimately show ?thesis using IH(2) by (simp add: Let_def)
  qed
qed simp

lemma insertion_sort: "insertion_sort ps = sort ps"
proof -
  have "mset (insertion_sort ps) = mset ps" "length (insertion_sort ps) = length ps"
    "sorted (take (length ps) (insertion_sort ps))"
    using insertion_sort_prefix [of "length ps" ps] unfolding Let_def insertion_sort_def by blast+
  then show ?thesis by (intro properties_for_sort [symmetric]) simp_all
qed

section \<open>Scores\<close>

text \<open>The evidence that links two rows without review.\<close>

definition confirmed :: "player \<Rightarrow> player \<Rightarrow> bool" where
  "confirmed a b \<longleftrightarrow>
     BirthDate a \<noteq> None \<and> BirthDate a = BirthDate b \<and> (Country a = [] \<or> Country b = [] \<or> Country a = Country b)
     \<or> Country a \<noteq> [] \<and> Country a = Country b \<and> \<not> (BirthDate a \<noteq> None \<and> BirthDate b \<noteq> None)
       \<and> birth_year a \<noteq> 0 \<and> birth_year b \<noteq> 0
       \<and> (BirthYear a \<noteq> None \<and> BirthYear a = BirthYear b \<or> birth_year a = birth_year b)"

lemma pair_score_nonneg: "0 \<le> fst (pair_score a b)"
  by (simp add: pair_score_def score_by_year_def Let_def)

lemma pair_score_auto: "autoLink \<le> fst (pair_score a b) \<longleftrightarrow> confirmed a b"
proof -
  have derived: "birth_year a = birth_year b \<Longrightarrow> BirthDate a = None \<Longrightarrow> BirthDate b = None \<Longrightarrow> birth_year a \<noteq> 0 \<Longrightarrow>
      BirthYear a \<noteq> None \<and> BirthYear a = BirthYear b"
    by (auto simp: birth_year_def split: option.splits)
  have by_year: "autoLink \<le> fst (score_by_year a b) \<longleftrightarrow>
      BirthYear a \<noteq> None \<and> BirthYear a = BirthYear b \<or> \<not> (BirthDate a = None \<and> BirthDate b = None) \<and> birth_year a = birth_year b"
    unfolding score_by_year_def
    by (cases "BirthYear a"; cases "BirthYear b") (auto simp: autoLink_def Let_def)
  show ?thesis
    using by_year derived
    by (cases "BirthDate a"; cases "BirthDate b")
      (auto simp: pair_score_def confirmed_def autoLink_def same_country_def both_years_known_def)
qed

section \<open>The two best candidates\<close>

definition best_inv :: "player \<Rightarrow> player list \<Rightarrow> player option \<Rightarrow> real \<Rightarrow> player option \<Rightarrow> real \<Rightarrow> bool" where
  "best_inv dup cs best bs second ss \<longleftrightarrow>
     (best = None \<longleftrightarrow> cs = []) \<and> -1 \<le> ss \<and> ss \<le> bs
     \<and> (case best of None \<Rightarrow> bs = -1 | Some b \<Rightarrow> b \<in> set cs \<and> bs = fst (pair_score b dup))
     \<and> (case second of None \<Rightarrow> ss = -1 | Some c \<Rightarrow> c \<in> set cs \<and> ss = fst (pair_score c dup))
     \<and> list_all (\<lambda>c. fst (pair_score c dup) \<le> bs) cs
     \<and> list_all (\<lambda>c. Some c \<noteq> best \<longrightarrow> fst (pair_score c dup) \<le> ss) cs"

lemma best_inv_step:
  assumes inv: "best_inv dup cs b1 s1 b2 s2"
    and step: "two_step dup c ((b1, s1), (b2, s2)) = ((best, bs), (second, ss))"
  shows "best_inv dup (cs @ [c]) best bs second ss"
proof -
  have pos: "-1 < fst (pair_score c dup)" using pair_score_nonneg [of c dup] by simp
  have some: "\<not> s1 < fst (pair_score c dup) \<Longrightarrow> b1 \<noteq> None"
    using inv pos by (cases b1) (auto simp: best_inv_def)
  have low: "list_all (\<lambda>x. fst (pair_score x dup) \<le> s) cs" if "s1 \<le> s" for s
    using inv that by (auto simp: best_inv_def list_all_iff intro: order_trans)
  have low2: "list_all (\<lambda>x. Some x \<noteq> b1 \<longrightarrow> fst (pair_score x dup) \<le> s) cs" if "s2 \<le> s" for s
    using inv that by (auto simp: best_inv_def list_all_iff intro: order_trans)
  have order: "-1 \<le> s2" "s2 \<le> s1" using inv by (simp_all add: best_inv_def)
  consider "s1 < fst (pair_score c dup)" | "\<not> s1 < fst (pair_score c dup)" "s2 < fst (pair_score c dup)"
    | "\<not> s1 < fst (pair_score c dup)" "\<not> s2 < fst (pair_score c dup)" by blast
  then show ?thesis
  proof cases
    case 1
    then have eq: "best = Some c" "bs = fst (pair_score c dup)" "second = b1" "ss = s1"
      using step by (simp_all add: two_step_def Let_def)
    have "list_all (\<lambda>x. Some x \<noteq> Some c \<longrightarrow> fst (pair_score x dup) \<le> s1) cs"
      using low [OF order_refl] by (auto simp: list_all_iff)
    then show ?thesis
      using inv 1 order low [of "fst (pair_score c dup)"] unfolding eq best_inv_def
      by (cases b1) simp_all
  next
    case 2
    then have eq: "best = b1" "bs = s1" "second = Some c" "ss = fst (pair_score c dup)"
      using step by (simp_all add: two_step_def Let_def)
    show ?thesis
      using inv 2 order some low [OF order_refl] low2 [of "fst (pair_score c dup)"] unfolding eq best_inv_def
      by (cases b1) simp_all
  next
    case 3
    then have eq: "best = b1" "bs = s1" "second = b2" "ss = s2"
      using step by (simp_all add: two_step_def Let_def)
    show ?thesis
      using inv 3 some unfolding eq best_inv_def
      by (cases b1; cases b2) simp_all
  qed
qed

lemma best_two_fold:
  "fold (two_step dup) cs ((None, -1), (None, -1)) = ((best, bs), (second, ss)) \<Longrightarrow> best_inv dup cs best bs second ss"
proof (induction cs arbitrary: best bs second ss rule: rev_induct)
  case Nil
  then show ?case by (auto simp: best_inv_def)
next
  case (snoc c cs)
  obtain b1 s1 b2 s2 where f: "fold (two_step dup) cs ((None, -1), (None, -1)) = ((b1, s1), (b2, s2))"
    by (metis surj_pair)
  show ?case using best_inv_step [OF snoc.IH [OF f]] snoc.prems by (simp add: f)
qed

lemma stub_link_Some:
  assumes "stub_link anchored dup = Some m"
  shows "Duplicate m = dup" and "Canonical m \<in> set anchored"
    and "Confidence m \<le> fst (pair_score (Canonical m) dup)" and "reviewFloor \<le> Confidence m"
    and "\<And>c. autoLink \<le> Confidence m \<Longrightarrow> c \<in> set anchored \<Longrightarrow> c \<noteq> Canonical m \<Longrightarrow>
      fst (pair_score c dup) < fst (pair_score (Canonical m) dup)"
proof -
  obtain best bs second ss where f: "fold (two_step dup) anchored ((None, -1), (None, -1)) = ((best, bs), (second, ss))"
    by (metis surj_pair)
  have bt: "best_two anchored dup = (best, second)" by (simp add: best_two_def f)
  obtain b where b: "best = Some b"
    using assms by (cases best) (auto simp: stub_link_def bt)
  note facts = best_two_fold [OF f, unfolded b best_inv_def, simplified]
  obtain conf reason where sc: "pair_score b dup = (conf, reason)" by force
  show "Duplicate m = dup" "Canonical m \<in> set anchored"
    "Confidence m \<le> fst (pair_score (Canonical m) dup)" "reviewFloor \<le> Confidence m"
    using assms facts by (auto simp: stub_link_def bt b sc Let_def split: if_splits option.splits)
  fix c
  assume auto: "autoLink \<le> Confidence m" and c: "c \<in> set anchored" "c \<noteq> Canonical m"
  have m: "Canonical m = b" and low: "second = None \<or> ss < conf"
    using assms auto facts
    by (auto simp: stub_link_def bt b sc Let_def autoLink_def reviewFloor_def split: if_splits option.splits)
  have "fst (pair_score c dup) \<le> ss" using facts c m by (auto simp: list_all_iff)
  moreover have "second = None \<Longrightarrow> ss = -1" using facts by simp
  ultimately show "fst (pair_score c dup) < fst (pair_score (Canonical m) dup)"
    using low pair_score_nonneg [of c dup] by (auto simp: m sc)
qed

section \<open>Folding the duplicates of one source\<close>

lemma by_day_facts:
  assumes "(d, idx) \<in> set (by_day anchored)"
  shows "distinct idx" and "set idx = {i. i < length anchored \<and> BirthDate (anchored ! i) = Some d}" and "idx \<noteq> []"
proof -
  let ?is = "filter (\<lambda>i. BirthDate (anchored ! i) \<noteq> None) [0..<length anchored]"
  have eq: "idx = filter (\<lambda>i. the (BirthDate (anchored ! i)) = d) ?is" and ne: "idx \<noteq> []"
    using assms unfolding by_day_def group_by_iff by blast+
  show "distinct idx" unfolding eq by simp
  show "set idx = {i. i < length anchored \<and> BirthDate (anchored ! i) = Some d}"
  proof (rule set_eqI)
    fix i
    show "i \<in> set idx \<longleftrightarrow> i \<in> {i. i < length anchored \<and> BirthDate (anchored ! i) = Some d}"
      unfolding eq by (cases "BirthDate (anchored ! i)") auto
  qed
  show "idx \<noteq> []" by (rule ne)
qed

lemma fold_day_facts:
  assumes "distinct idx" and "(i, m) \<in> set (fold_day anchored idx)"
  obtains k where "k \<in> set idx" "k \<noteq> i" "i \<in> set idx" "m = fold_link (anchored ! k) (anchored ! i)"
    and "reviewFloor \<le> Confidence m" and "k \<notin> fst ` set (fold_day anchored idx)"
proof -
  let ?s = "sort_slice (keep_less anchored) idx"
  have len: "\<not> length idx < 2" using assms(2) by (auto simp: fold_day_def split: if_splits)
  then obtain k rest where s: "?s = k # rest"
    by (metis length_sort_slice list.exhaust list.size(3) zero_less_numeral)
  have dist: "distinct (k # rest)" and set: "set (k # rest) = set idx"
    using assms(1) s by (metis distinct_sort_slice, metis set_sort_slice)
  have fd: "fold_day anchored idx = map (\<lambda>i. (i, fold_link (anchored ! k) (anchored ! i)))
      (filter (\<lambda>i. \<not> fst (pair_score (anchored ! k) (anchored ! i)) < reviewFloor) rest)"
    using len by (simp add: fold_day_def s Let_def)
  show ?thesis
  proof (rule that [of k])
    show "k \<in> set idx" using set by auto
    show "i \<in> set idx" "k \<noteq> i" using assms(2) set dist unfolding fd by auto
    show "m = fold_link (anchored ! k) (anchored ! i)" using assms(2) unfolding fd by auto
    show "reviewFloor \<le> Confidence m" using assms(2) unfolding fd by (auto simp: fold_link_def)
    show "k \<notin> fst ` set (fold_day anchored idx)" using dist unfolding fd by auto
  qed
qed

lemma fold_day_index: "distinct idx \<Longrightarrow> (i, m) \<in> set (fold_day anchored idx) \<Longrightarrow> i \<in> set idx"
  by (rule fold_day_facts)

lemma fold_day_subset: "distinct idx \<Longrightarrow> set (map fst (fold_day anchored idx)) \<subseteq> set idx"
proof
  fix i
  assume d: "distinct idx" and "i \<in> set (map fst (fold_day anchored idx))"
  then obtain m where "(i, m) \<in> set (fold_day anchored idx)" by auto
  then show "i \<in> set idx" by (rule fold_day_index [OF d])
qed

lemma fold_day_distinct: "distinct idx \<Longrightarrow> distinct (map fst (fold_day anchored idx))"
proof -
  assume "distinct idx"
  then have "distinct (tl (sort_slice (keep_less anchored) idx))"
    by (simp add: distinct_tl)
  then show ?thesis by (simp add: fold_day_def Let_def o_def)
qed

definition folded_pairs :: "player list \<Rightarrow> (nat \<times> link) list" where
  "folded_pairs anchored = concat (map (\<lambda>(day, idx). fold_day anchored idx) (by_day anchored))"

lemma folded_pair:
  assumes "(i, m) \<in> set (folded_pairs anchored)"
  obtains k d where "i < length anchored" "k < length anchored" "k \<noteq> i" "BirthDate (anchored ! i) = Some d"
    and "BirthDate (anchored ! k) = Some d" and "m = fold_link (anchored ! k) (anchored ! i)"
    and "reviewFloor \<le> Confidence m" and "k \<notin> fst ` set (folded_pairs anchored)"
proof -
  obtain d idx where day: "(d, idx) \<in> set (by_day anchored)" and mem: "(i, m) \<in> set (fold_day anchored idx)"
    using assms by (auto simp: folded_pairs_def)
  note idx = by_day_facts [OF day]
  obtain k where k: "k \<in> set idx" "k \<noteq> i" "i \<in> set idx" "m = fold_link (anchored ! k) (anchored ! i)"
    "reviewFloor \<le> Confidence m" and kept: "k \<notin> fst ` set (fold_day anchored idx)"
    using fold_day_facts [OF idx(1) mem] by metis
  have "k \<notin> fst ` set (folded_pairs anchored)"
  proof
    assume "k \<in> fst ` set (folded_pairs anchored)"
    then obtain d' idx' m' where day': "(d', idx') \<in> set (by_day anchored)" and mem': "(k, m') \<in> set (fold_day anchored idx')"
      by (auto simp: folded_pairs_def)
    have "k \<in> set idx'" using fold_day_facts [OF by_day_facts(1) [OF day'] mem'] by metis
    then have "d' = d" using k(1) idx(2) by_day_facts(2) [OF day'] by auto
    then have "idx' = idx"
      using day day' distinct_group_by unfolding by_day_def by (metis eq_key_imp_eq_value)
    then show False using kept mem' by (metis fst_conv image_eqI)
  qed
  then show ?thesis using that [of k d] k idx(2) by auto
qed

lemma folded_indices: "distinct (map fst (folded_pairs anchored))"
proof -
  let ?f = "\<lambda>q. map fst (fold_day anchored (snd q))"
  have "distinct (concat (map ?f (by_day anchored)))"
  proof (rule distinct_concat_map)
    show "distinct (by_day anchored)"
      using distinct_group_by unfolding by_day_def by (metis distinct_map)
    fix q
    assume q: "q \<in> set (by_day anchored)"
    then have day: "(fst q, snd q) \<in> set (by_day anchored)" by simp
    show "distinct (?f q)" by (rule fold_day_distinct [OF by_day_facts(1) [OF day]])
    fix q'
    assume q': "q' \<in> set (by_day anchored)" and ne: "q \<noteq> q'"
    then have day': "(fst q', snd q') \<in> set (by_day anchored)" by simp
    have "fst q \<noteq> fst q'"
    proof
      assume same: "fst q = fst q'"
      have "snd q = snd q'"
        using day day' unfolding same by_day_def by (rule group_by_key_eq)
      then show False using same ne by (simp add: prod_eq_iff)
    qed
    then have "set (snd q) \<inter> set (snd q') = {}"
      unfolding by_day_facts(2) [OF day] by_day_facts(2) [OF day'] by auto
    then show "set (?f q) \<inter> set (?f q') = {}"
      using fold_day_subset [OF by_day_facts(1) [OF day], of anchored]
        fold_day_subset [OF by_day_facts(1) [OF day'], of anchored] by blast
  qed
  then show ?thesis by (simp add: folded_pairs_def map_concat o_def split_def)
qed

lemma fold_same_source_facts:
  assumes "distinct anchored" and "fold_same_source anchored = (fl, remaining)"
  shows "distinct (map Duplicate fl)" and "set remaining = set anchored - Duplicate ` set fl"
    and "Duplicate ` set fl \<subseteq> set anchored" and "Canonical ` set fl \<subseteq> set remaining"
    and "\<And>m. m \<in> set fl \<Longrightarrow> BirthDate (Canonical m) \<noteq> None \<and> BirthDate (Canonical m) = BirthDate (Duplicate m)
      \<and> Confidence m = fst (pair_score (Canonical m) (Duplicate m)) \<and> reviewFloor \<le> Confidence m"
proof -
  let ?P = "folded_pairs anchored"
  have fl: "fl = map snd ?P"
    and remaining: "remaining = map (\<lambda>i. anchored ! i) (filter (\<lambda>i. i \<notin> fst ` set ?P) [0..<length anchored])"
    using assms(2) by (simp_all add: fold_same_source_def folded_pairs_def Let_def)
  have dup: "Duplicate m = anchored ! i" "i < length anchored" if "(i, m) \<in> set ?P" for i m
    using folded_pair [OF that] by (metis fold_link_def link.select_convs(2))+
  have dups: "map Duplicate fl = map (\<lambda>i. anchored ! i) (map fst ?P)"
    unfolding fl using dup(1) by auto
  have inj: "inj_on (\<lambda>i. anchored ! i) {i. i < length anchored}"
    using assms(1) by (simp add: inj_on_def nth_eq_iff_index_eq)
  have sub: "set (map fst ?P) \<subseteq> {i. i < length anchored}" using dup(2) by auto
  show "distinct (map Duplicate fl)"
    unfolding dups using folded_indices [of anchored] inj_on_subset [OF inj sub]
    by (simp add: distinct_map del: map_map)
  have dset: "Duplicate ` set fl = (\<lambda>i. anchored ! i) ` (fst ` set ?P)"
    using arg_cong [OF dups, of set] by (simp add: image_image)
  have sub': "fst ` set ?P \<subseteq> {i. i < length anchored}" using sub by simp
  have all: "set anchored = (\<lambda>i. anchored ! i) ` {i. i < length anchored}"
    by (auto simp: set_conv_nth)
  have "set remaining = (\<lambda>i. anchored ! i) ` ({i. i < length anchored} - fst ` set ?P)"
    unfolding remaining by auto
  also have "\<dots> = set anchored - Duplicate ` set fl"
    unfolding dset all using inj_on_image_set_diff [OF inj, of "{i. i < length anchored}" "fst ` set ?P"] sub' by auto
  finally show rem: "set remaining = set anchored - Duplicate ` set fl" .
  show "Duplicate ` set fl \<subseteq> set anchored" unfolding dset all using sub' by auto
  have keep: "Canonical m \<in> set remaining \<and> BirthDate (Canonical m) \<noteq> None \<and> BirthDate (Canonical m) = BirthDate (Duplicate m)
      \<and> Confidence m = fst (pair_score (Canonical m) (Duplicate m)) \<and> reviewFloor \<le> Confidence m"
    if m: "m \<in> set fl" for m
  proof -
    obtain i where "(i, m) \<in> set ?P" using m fl by auto
    from folded_pair [OF this] obtain k d where k: "k < length anchored" "k \<notin> fst ` set ?P"
      "BirthDate (anchored ! i) = Some d" "BirthDate (anchored ! k) = Some d"
      "m = fold_link (anchored ! k) (anchored ! i)" "reviewFloor \<le> Confidence m" by metis
    then show ?thesis unfolding remaining by (auto simp: fold_link_def)
  qed
  then show "Canonical ` set fl \<subseteq> set remaining" by auto
  show "\<And>m. m \<in> set fl \<Longrightarrow> BirthDate (Canonical m) \<noteq> None \<and> BirthDate (Canonical m) = BirthDate (Duplicate m)
      \<and> Confidence m = fst (pair_score (Canonical m) (Duplicate m)) \<and> reviewFloor \<le> Confidence m"
    using keep by blast
qed

end
