(* ===== verification/IdentityLinks.thy ===== *)
theory IdentityLinks
  imports Identity
begin

text \<open>
  What the links of internal/identity/identity.go promise: the name key does not depend on the order
  of the names, no row is folded away twice or into a row that is itself folded away, and a link that
  merges without review is backed by a date or year of birth.
\<close>

section \<open>The name key ignores the order of the names\<close>

lemma words_acc_space: "is_space c \<Longrightarrow> words_acc w (x @ c # y) = words_acc w x @ words_acc [] y"
  by (induction w x rule: words_acc.induct) auto

lemma str_fields_space: "is_space c \<Longrightarrow> str_fields (x @ c # y) = str_fields x @ str_fields y"
  by (simp add: str_fields_def words_acc_space)

lemma str_fields_Nil [simp]: "str_fields [] = []"
  by (simp add: str_fields_def)

lemma str_fields_lead: "list_all is_space s \<Longrightarrow> str_fields (s @ y) = str_fields y"
  by (induction s) (use str_fields_space [of _ "[]"] in auto)

lemma str_fields_trail: "list_all is_space s \<Longrightarrow> str_fields (x @ s) = str_fields x"
proof (induction s arbitrary: x)
  case (Cons c s)
  then show ?case using str_fields_space [of c x s] str_fields_lead [of s "[]"] by simp
qed simp

lemma dropWhile_prefix: obtains u where "list_all p u" "s = u @ dropWhile p s"
proof (rule that [of "takeWhile p s"])
  show "list_all p (takeWhile p s)" by (auto simp: list_all_iff dest: set_takeWhileD)
qed simp

lemma trim_by_split: obtains u v where "list_all p u" "list_all p v" "s = u @ trim_by p s @ v"
proof -
  obtain u where u: "list_all p u" "s = u @ dropWhile p s" by (rule dropWhile_prefix)
  obtain v where v: "list_all p v" "rev (dropWhile p s) = v @ dropWhile p (rev (dropWhile p s))"
    by (rule dropWhile_prefix)
  have "dropWhile p s = trim_by p s @ rev v"
    using arg_cong [OF v(2), of rev] by (simp add: trim_by_def)
  then show ?thesis using that [of u "rev v"] u v(1) by simp
qed

lemma str_fields_trim: "str_fields (trim_set s '' '') = str_fields s"
proof -
  obtain u v where uv: "list_all (\<lambda>c. c \<in> set '' '') u" "list_all (\<lambda>c. c \<in> set '' '') v"
    "s = u @ trim_set s '' '' @ v"
    unfolding trim_set_def by (rule trim_by_split)
  then have "list_all is_space u" "list_all is_space v"
    by (auto simp: list_all_iff is_space_def)
  then show ?thesis using uv(3) str_fields_lead [of u] str_fields_trail [of v] by metis
qed

text \<open>What one rune adds when separators are never suppressed.\<close>

definition piece :: "(rune \<Rightarrow> bool) \<Rightarrow> rune \<Rightarrow> string" where
  "piece ul r =
     (if r < 127 \<and> ascii_alnum r then [char_of r]
      else if fold_rune r \<noteq> [] then fold_rune r
      else if ascii_alnum r \<or> (127 < r \<and> ul r) then []
      else '' '')"

abbreviation pieces :: "(rune \<Rightarrow> bool) \<Rightarrow> gotext \<Rightarrow> string" where
  "pieces ul rs \<equiv> concat (map (piece ul) rs)"

lemma space_char: "is_space CHR '' ''"
  by (simp add: is_space_def)

lemma convert_loop_fields:
  "(ls \<Longrightarrow> b = [] \<or> is_space (last b)) \<Longrightarrow>
   str_fields (convert_loop ul CHR '' '' rs b ls) = str_fields (b @ pieces ul rs)"
proof (induction ul "CHR '' ''" rs b ls rule: convert_loop.induct)
  case (2 ul r rs b ls)
  consider (ascii) "r < 127 \<and> ascii_alnum r" | (fold) "\<not> (r < 127 \<and> ascii_alnum r)" "fold_rune r \<noteq> []"
    | (drop) "\<not> (r < 127 \<and> ascii_alnum r)" "fold_rune r = []" "ascii_alnum r \<or> (127 < r \<and> ul r)"
    | (sep) "\<not> (r < 127 \<and> ascii_alnum r)" "fold_rune r = []" "\<not> (ascii_alnum r \<or> (127 < r \<and> ul r))"
    by blast
  then show ?case
  proof cases
    case ascii
    then show ?thesis using 2 by (simp add: piece_def)
  next
    case fold
    then show ?thesis using 2 by (auto simp: piece_def)
  next
    case drop
    then show ?thesis using 2 by (auto simp: piece_def)
  next
    case sep
    then have p: "piece ul r = '' ''" by (auto simp: piece_def)
    show ?thesis
    proof (cases ls)
      case False
      then show ?thesis using 2 sep p by (auto simp: space_char)
    next
      case True
      have "str_fields (b @ '' '' @ pieces ul rs) = str_fields (b @ pieces ul rs)"
      proof (cases "b = []")
        case False
        then obtain b' c where b: "b = b' @ [c]" "is_space c" using 2(6) True by (cases b rule: rev_cases) auto
        then show ?thesis
          using str_fields_space [OF space_char, of b] str_fields_space [of c b'] str_fields_trail [of "[c]" b']
          by simp
      qed (use str_fields_space [OF space_char, of "[]"] in simp)
      then show ?thesis using 2 sep p True by auto
    qed
  qed
qed simp

lemma piece_space_rune: "space_rune r \<Longrightarrow> list_all is_space (piece ul (lower_rune r))"
proof -
  assume r: "space_rune r"
  have range: "r < 65 \<or> 128 \<le> r \<and> r < 192 \<or> 5000 \<le> r \<and> r < 7000 \<or> 8000 \<le> r \<and> r < 8400 \<or> 9000 \<le> r"
    using r unfolding space_rune_def by auto
  then have low: "lower_rune r = r" unfolding lower_rune_def by (elim disjE) simp_all
  have table: "list_all (\<lambda>e. list_all (\<lambda>x. 192 \<le> x \<and> x < 540) (fst e)) fold_table"
    by (simp add: fold_table_def)
  have "\<not> (192 \<le> r \<and> r < 540)" using range by linarith
  then have "\<not> (\<exists>e \<in> set fold_table. r \<in> set (fst e))"
    using table unfolding list_all_iff by blast
  then have "find (\<lambda>(runes, _). r \<in> set runes) fold_table = None"
    unfolding find_None_iff by fastforce
  then have "fold_rune r = []" by (simp add: fold_rune_def)
  moreover have "\<not> ascii_alnum r"
    using r unfolding space_rune_def ascii_alnum_def by auto
  ultimately show ?thesis unfolding low piece_def by (simp add: space_char)
qed

lemma pieces_space: "list_all space_rune u \<Longrightarrow> list_all is_space (pieces ul (map lower_rune u))"
  by (induction u) (simp_all add: piece_space_rune)

lemma str_fields_normalise: "str_fields (normalise ul t) = str_fields (pieces ul (map lower_rune t))"
proof -
  obtain u where u: "list_all space_rune u" "t = u @ dropWhile space_rune t" by (rule dropWhile_prefix)
  obtain v where v: "list_all space_rune v"
    "rev (dropWhile space_rune t) = v @ dropWhile space_rune (rev (dropWhile space_rune t))"
    by (rule dropWhile_prefix)
  have "dropWhile space_rune t = trim_text t @ rev v"
    using arg_cong [OF v(2), of rev] by (simp add: trim_text_def)
  then have t: "t = u @ trim_text t @ rev v" using u(2) by simp
  have "str_fields (normalise ul t) = str_fields (pieces ul (map lower_rune (trim_text t)))"
    unfolding normalise_def convert_def str_fields_trim using convert_loop_fields [of True "[]" ul] by simp
  also have "\<dots> = str_fields (pieces ul (map lower_rune u) @ pieces ul (map lower_rune (trim_text t))
      @ pieces ul (map lower_rune (rev v)))"
    using str_fields_lead [OF pieces_space [OF u(1)]] str_fields_trail [OF pieces_space] v(1)
    by (metis list_all_rev)
  also have "\<dots> = str_fields (pieces ul (map lower_rune t))"
    by (subst (2) t) simp
  finally show ?thesis .
qed

text \<open>
  The key of a name does not depend on the order its parts are written in: Last, First and
  First Last, with any comma or space between any two parts, are grouped together, and so is the same
  name written with a space for a comma.
\<close>
theorem key_ignores_order:
  "name_key ul (x @ [44, 32] @ y) = name_key ul (y @ [32] @ x)
   \<and> name_key ul (x @ [32] @ y) = name_key ul (y @ [32] @ x)
   \<and> name_key ul (x @ [44] @ y) = name_key ul (x @ [32] @ y)"
proof -
  define words where "words t = str_fields (pieces ul (map lower_rune (map (\<lambda>r. if r = 44 then 32 else r) t)))" for t
  have key: "name_key ul t = (if words t = [] then [] else join (sort (words t)) '' '')" for t
    unfolding name_key_def Let_def str_fields_normalise insertion_sort words_def ..
  have sp: "piece ul 32 = '' ''" by (simp add: piece_def ascii_alnum_def fold_rune_ascii)
  have low: "lower_rune 32 = 32" by (simp add: lower_rune_def)
  have one: "words (x @ [32] @ y) = words x @ words y" for x y
    using str_fields_space [OF space_char] by (simp add: words_def sp low)
  have sep: "words (x @ [44] @ y) = words (x @ [32] @ y)" for x y by (simp add: words_def)
  have nil: "words [] = []" by (simp add: words_def)
  have two: "words (x @ [44, 32] @ y) = words x @ words y"
    using sep [of x "[32] @ y"] one [of x "[32] @ y"] one [of "[]" y] by (simp add: nil)
  have comm: "sort (words x @ words y) = sort (words y @ words x)"
    by (rule properties_for_sort) simp_all
  show ?thesis unfolding key two one sep using comm by auto
qed

section \<open>The links of a group\<close>

text \<open>The longer career, the smaller id where two are equally long.\<close>

definition career_first :: "player \<Rightarrow> player \<Rightarrow> bool" where
  "career_first a b \<longleftrightarrow> PMatches b < PMatches a \<or> PMatches b = PMatches a \<and> PId a \<le> PId b"

interpretation keep_order: slice_order "keep_less anchored" for anchored
  by unfold_locales (auto simp: keep_less_def Let_def split: if_splits)

lemma fold_day_longest:
  assumes "distinct idx" and "(i, m) \<in> set (fold_day anchored idx)" and "j \<in> set idx"
  shows "career_first (Canonical m) (anchored ! j)"
proof -
  let ?s = "sort_slice (keep_less anchored) idx"
  have len: "\<not> length idx < 2" using assms(2) by (auto simp: fold_day_def split: if_splits)
  then obtain k rest where s: "?s = k # rest"
    by (metis length_sort_slice list.exhaust list.size(3) zero_less_numeral)
  have "Canonical m = anchored ! k" using assms(2) len by (auto simp: fold_day_def s fold_link_def Let_def)
  moreover have "\<not> keep_less anchored j k"
  proof (cases "j = k")
    case True
    then show ?thesis by (simp add: keep_less_def)
  next
    case False
    then have "j \<in> set rest" using assms(3) s by (metis set_ConsD set_sort_slice)
    then show ?thesis using keep_order.arranged_sort_slice [of anchored idx] unfolding keep_order.arranged_def s by simp
  qed
  ultimately show ?thesis by (auto simp: career_first_def keep_less_def Let_def split: if_splits)
qed

lemma fold_same_source_longest:
  assumes "fold_same_source anchored = (fl, remaining)" and "m \<in> set fl"
    and "c \<in> set anchored" and "BirthDate c = BirthDate (Duplicate m)"
  shows "career_first (Canonical m) c"
proof -
  have "fl = map snd (folded_pairs anchored)"
    using assms(1) by (simp add: fold_same_source_def folded_pairs_def Let_def)
  then obtain i where "(i, m) \<in> set (folded_pairs anchored)" using assms(2) by auto
  then obtain d idx where day: "(d, idx) \<in> set (by_day anchored)" and mem: "(i, m) \<in> set (fold_day anchored idx)"
    by (auto simp: folded_pairs_def)
  note idx = by_day_facts [OF day]
  obtain k where "i \<in> set idx" "m = fold_link (anchored ! k) (anchored ! i)" by (rule fold_day_facts [OF idx(1) mem])
  then have "BirthDate (Duplicate m) = Some d" using idx(2) by (simp add: fold_link_def)
  then obtain j where "j \<in> set idx" "c = anchored ! j" using assms(3,4) idx(2) by (auto simp: in_set_conv_nth)
  then show ?thesis using fold_day_longest [OF idx(1) mem] by simp
qed

abbreviation backed :: "player list \<Rightarrow> player list" where
  "backed grp \<equiv> filter (\<lambda>p. \<not> stub p) grp"

lemma reconcile_group_split:
  assumes "distinct grp" and f: "fold_same_source (backed grp) = (fl, remaining)"
  shows "reconcile_group grp = List.map_filter (stub_link remaining) (filter stub grp) @ fl"
proof (cases "remaining = []")
  case True
  have "Canonical ` set fl \<subseteq> set remaining"
    by (rule fold_same_source_facts [OF _ f]) (simp add: assms(1))
  then have "fl = []" using True by simp
  moreover have "stub_link [] p = None" for p by (simp add: stub_link_def best_two_def)
  then have "List.map_filter (stub_link []) ps = []" for ps
    by (induction ps) (simp_all add: List.map_filter_def)
  ultimately show ?thesis using True f by (simp add: reconcile_group_def)
qed (use f in \<open>simp add: reconcile_group_def\<close>)

lemma map_filter_set: "m \<in> set (List.map_filter f xs) \<longleftrightarrow> (\<exists>x \<in> set xs. f x = Some m)"
  by (force simp: List.map_filter_def)

lemma stub_links_duplicates:
  "map Duplicate (List.map_filter (stub_link remaining) ps) = filter (\<lambda>p. stub_link remaining p \<noteq> None) ps"
  by (induction ps) (auto simp: List.map_filter_def stub_link_Some(1))

lemma reconcile_group_facts:
  assumes "distinct grp"
  shows "distinct (map Duplicate (reconcile_group grp))"
    and "m \<in> set (reconcile_group grp) \<Longrightarrow> Canonical m \<in> set grp \<and> Duplicate m \<in> set grp \<and> \<not> stub (Canonical m)"
    and "m \<in> set (reconcile_group grp) \<Longrightarrow> m' \<in> set (reconcile_group grp) \<Longrightarrow> Canonical m \<noteq> Duplicate m'"
    and "m \<in> set (reconcile_group grp) \<Longrightarrow> auto_link m \<Longrightarrow>
      confirmed (Canonical m) (Duplicate m)
      \<and> (if stub (Duplicate m)
         then \<forall>c \<in> set grp. \<not> stub c \<longrightarrow> c \<notin> Duplicate ` set (reconcile_group grp) \<longrightarrow> c \<noteq> Canonical m \<longrightarrow>
           fst (pair_score c (Duplicate m)) < fst (pair_score (Canonical m) (Duplicate m))
         else BirthDate (Duplicate m) \<noteq> None \<and> BirthDate (Canonical m) = BirthDate (Duplicate m))"
    and "m \<in> set (reconcile_group grp) \<Longrightarrow> reviewFloor \<le> Confidence m"
proof -
  obtain fl remaining where f: "fold_same_source (backed grp) = (fl, remaining)" by force
  have dist: "distinct (backed grp)" using assms by simp
  note fs = fold_same_source_facts [OF dist f]
  let ?st = "List.map_filter (stub_link remaining) (filter stub grp)"
  have all: "reconcile_group grp = ?st @ fl" by (rule reconcile_group_split [OF assms f])
  have st: "Canonical m \<in> set remaining" "Duplicate m \<in> set grp" "stub (Duplicate m)"
      "stub_link remaining (Duplicate m) = Some m" if "m \<in> set ?st" for m
    using that stub_link_Some(1,2) by (fastforce simp: map_filter_set)+
  have fl: "Canonical m \<in> set remaining" "Duplicate m \<in> set (backed grp)" if "m \<in> set fl" for m
    using that fs(3,4) by auto
  have rem: "set remaining \<subseteq> set (backed grp)" using fs(2) by auto
  have dups: "Duplicate ` set ?st \<inter> Duplicate ` set fl = {}" using st(3) fl(2) by fastforce
  have "map Duplicate ?st = filter (\<lambda>p. stub_link remaining p \<noteq> None) (filter stub grp)"
    by (rule stub_links_duplicates)
  then have "distinct (map Duplicate ?st)" using assms by simp
  then show "distinct (map Duplicate (reconcile_group grp))"
    unfolding all using fs(1) dups by (simp del: map_map)
  show "m \<in> set (reconcile_group grp) \<Longrightarrow> Canonical m \<in> set grp \<and> Duplicate m \<in> set grp \<and> \<not> stub (Canonical m)"
    unfolding all using st(1,2) fl rem by fastforce
  have canon: "Canonical m \<in> set remaining" if "m \<in> set (reconcile_group grp)" for m
    using that st(1) fl(1) unfolding all by auto
  have "Duplicate m' \<notin> set remaining" if "m' \<in> set (reconcile_group grp)" for m'
    using that st(3) fs(2) rem unfolding all by fastforce
  then show "m \<in> set (reconcile_group grp) \<Longrightarrow> m' \<in> set (reconcile_group grp) \<Longrightarrow> Canonical m \<noteq> Duplicate m'"
    using canon by metis
  show "m \<in> set (reconcile_group grp) \<Longrightarrow> reviewFloor \<le> Confidence m"
    using st(4) stub_link_Some(4) fs(5) unfolding all by fastforce
  assume m: "m \<in> set (reconcile_group grp)" and auto: "auto_link m"
  show "confirmed (Canonical m) (Duplicate m)
      \<and> (if stub (Duplicate m)
         then \<forall>c \<in> set grp. \<not> stub c \<longrightarrow> c \<notin> Duplicate ` set (reconcile_group grp) \<longrightarrow> c \<noteq> Canonical m \<longrightarrow>
           fst (pair_score c (Duplicate m)) < fst (pair_score (Canonical m) (Duplicate m))
         else BirthDate (Duplicate m) \<noteq> None \<and> BirthDate (Canonical m) = BirthDate (Duplicate m))"
  proof (cases "m \<in> set ?st")
    case True
    note sl = stub_link_Some [OF st(4) [OF True]]
    have "autoLink \<le> fst (pair_score (Canonical m) (Duplicate m))"
      using auto sl(3) by (simp add: auto_link_def)
    moreover have "fst (pair_score c (Duplicate m)) < fst (pair_score (Canonical m) (Duplicate m))"
      if "c \<in> set grp" "\<not> stub c" "c \<notin> Duplicate ` set (reconcile_group grp)" "c \<noteq> Canonical m" for c
      by (rule sl(5)) (use auto that fs(2) in \<open>auto simp: auto_link_def all\<close>)
    ultimately show ?thesis using st(3) [OF True] unfolding pair_score_auto by simp
  next
    case False
    then have mf: "m \<in> set fl" using m all by simp
    have "\<not> stub (Duplicate m)" using fl(2) [OF mf] by simp
    moreover have "confirmed (Canonical m) (Duplicate m)"
      using auto fs(5) [OF mf] pair_score_auto by (simp add: auto_link_def)
    moreover have "BirthDate (Duplicate m) \<noteq> None \<and> BirthDate (Canonical m) = BirthDate (Duplicate m)"
      using fs(5) [OF mf] by metis
    ultimately show ?thesis by (simp only: if_False simp_thms)
  qed
qed

text \<open>The backed rows of a group that are folded, and the row each is folded into.\<close>

lemma reconcile_group_backed:
  assumes "distinct grp" and "m \<in> set (reconcile_group grp)" and "\<not> stub (Duplicate m)"
  shows "BirthDate (Duplicate m) \<noteq> None \<and> BirthDate (Canonical m) = BirthDate (Duplicate m)
    \<and> (\<forall>c \<in> set grp. \<not> stub c \<and> BirthDate c = BirthDate (Duplicate m) \<longrightarrow> career_first (Canonical m) c)"
proof -
  obtain fl remaining where f: "fold_same_source (backed grp) = (fl, remaining)" by force
  have dist: "distinct (backed grp)" using assms(1) by simp
  have "m \<in> set fl"
  proof (rule ccontr)
    assume "m \<notin> set fl"
    then have "m \<in> set (List.map_filter (stub_link remaining) (filter stub grp))"
      using assms(2) unfolding reconcile_group_split [OF assms(1) f] by simp
    then obtain x where "stub x" "stub_link remaining x = Some m" unfolding map_filter_set by auto
    then show False using assms(3) stub_link_Some(1) by blast
  qed
  then have same: "BirthDate (Canonical m) \<noteq> None" "BirthDate (Canonical m) = BirthDate (Duplicate m)"
    and "\<forall>c \<in> set (backed grp). BirthDate c = BirthDate (Duplicate m) \<longrightarrow> career_first (Canonical m) c"
    using fold_same_source_facts(5) [OF dist f] fold_same_source_longest [OF f] by blast+
  then have "\<forall>c \<in> set grp. \<not> stub c \<and> BirthDate c = BirthDate (Duplicate m) \<longrightarrow> career_first (Canonical m) c" by simp
  moreover have "BirthDate (Duplicate m) \<noteq> None" using same by metis
  ultimately show ?thesis using same(2) by blast
qed

lemma reconcile_groups:
  assumes "distinct players" and "m \<in> set (reconcile ul players)"
  obtains k grp where "grp = filter (\<lambda>p. name_key ul (FullName p) = k) players" "k \<noteq> []"
    and "m \<in> set (reconcile_group grp)" "distinct grp"
    and "set (reconcile_group grp) \<subseteq> set (reconcile ul players)"
proof -
  let ?gs = "group_by (\<lambda>p. name_key ul (FullName p)) (filter (\<lambda>p. name_key ul (FullName p) \<noteq> []) players)"
  obtain k grp where g: "(k, grp) \<in> set ?gs" "m \<in> set (if length grp < 2 then [] else reconcile_group grp)"
    using assms(2) by (auto simp: reconcile_def)
  have len: "\<not> length grp < 2" "m \<in> set (reconcile_group grp)" using g(2) by (auto split: if_splits)
  have grp: "grp = filter (\<lambda>p. name_key ul (FullName p) = k) (filter (\<lambda>p. name_key ul (FullName p) \<noteq> []) players)"
    "grp \<noteq> []" using g(1) unfolding group_by_iff by blast+
  have k: "k \<noteq> []" using grp by (auto simp: filter_empty_conv)
  have sub: "set (reconcile_group grp) \<subseteq> set (reconcile ul players)"
    using g(1) len(1) unfolding reconcile_def by force
  have grp': "grp = filter (\<lambda>p. name_key ul (FullName p) = k) players"
    unfolding grp(1) filter_filter by (rule filter_cong) (use k in auto)
  show ?thesis using that [OF grp' k len(2) _ sub] assms(1) grp' by simp
qed

lemma reconcile_duplicates_distinct:
  assumes "distinct players"
  shows "distinct (map Duplicate (reconcile ul players))"
proof -
  let ?key = "\<lambda>p. name_key ul (FullName p)"
  let ?gs = "group_by ?key (filter (\<lambda>p. ?key p \<noteq> []) players)"
  let ?f = "\<lambda>q. map Duplicate (if length (snd q) < 2 then [] else reconcile_group (snd q))"
  have dist: "distinct (snd q)" "set (snd q) \<subseteq> {p. ?key p = fst q}" if "q \<in> set ?gs" for q
  proof -
    have "(fst q, snd q) \<in> set ?gs" using that by simp
    then have "snd q = filter (\<lambda>p. ?key p = fst q) (filter (\<lambda>p. ?key p \<noteq> []) players)"
      unfolding group_by_iff by blast
    then show "distinct (snd q)" "set (snd q) \<subseteq> {p. ?key p = fst q}" using assms by auto
  qed
  have sub: "set (?f q) \<subseteq> set (snd q)" if "q \<in> set ?gs" for q
    using reconcile_group_facts(2) [OF dist(1) [OF that]] by auto
  have "distinct (concat (map ?f ?gs))"
  proof (rule distinct_concat_map)
    show "distinct ?gs" using distinct_group_by by (metis distinct_map)
    show "distinct (?f q)" if "q \<in> set ?gs" for q
      using reconcile_group_facts(1) [OF dist(1) [OF that]] by simp
    fix q q'
    assume q: "q \<in> set ?gs" "q' \<in> set ?gs" "q \<noteq> q'"
    have "fst q \<noteq> fst q'"
    proof
      assume same: "fst q = fst q'"
      have "(fst q, snd q) \<in> set ?gs" using q(1) by simp
      moreover have "(fst q, snd q') \<in> set ?gs" using q(2) unfolding same by simp
      ultimately have "snd q = snd q'" by (rule group_by_key_eq)
      then show False using q(3) same by (simp add: prod_eq_iff)
    qed
    then have "set (snd q) \<inter> set (snd q') = {}"
      using dist(2) [OF q(1)] dist(2) [OF q(2)] by fastforce
    then show "set (?f q) \<inter> set (?f q') = {}" using sub [OF q(1)] sub [OF q(2)] by blast
  qed
  moreover have "map Duplicate (reconcile ul players) = concat (map ?f ?gs)"
    unfolding reconcile_def map_concat map_map by (rule arg_cong [where f = concat]) (auto simp: split_def)
  ultimately show ?thesis by simp
qed

lemma reconcile_ends:
  assumes "distinct players" and m: "m \<in> set (reconcile ul players)"
  shows "Canonical m \<in> set players \<and> Duplicate m \<in> set players \<and> \<not> stub (Canonical m)
      \<and> name_key ul (FullName (Canonical m)) = name_key ul (FullName (Duplicate m))
      \<and> name_key ul (FullName (Canonical m)) \<noteq> [] \<and> reviewFloor \<le> Confidence m"
proof -
  obtain k grp where g: "grp = filter (\<lambda>p. name_key ul (FullName p) = k) players" "k \<noteq> []"
    "m \<in> set (reconcile_group grp)" "distinct grp"
    using reconcile_groups [OF assms(1) m] by metis
  show ?thesis using reconcile_group_facts(2,5) [OF g(4,3)] g(1,2) by simp
qed

lemma reconcile_apart:
  assumes "distinct players" and m: "m \<in> set (reconcile ul players)" and m': "m' \<in> set (reconcile ul players)"
  shows "Canonical m \<noteq> Duplicate m'"
proof
  assume eq: "Canonical m = Duplicate m'"
  obtain k grp where g: "grp = filter (\<lambda>p. name_key ul (FullName p) = k) players" "k \<noteq> []"
    "m \<in> set (reconcile_group grp)" "distinct grp"
    using reconcile_groups [OF assms(1) m] by metis
  obtain k' grp' where g': "grp' = filter (\<lambda>p. name_key ul (FullName p) = k') players" "k' \<noteq> []"
    "m' \<in> set (reconcile_group grp')" "distinct grp'"
    using reconcile_groups [OF assms(1) m'] by metis
  have "k = k'" using reconcile_group_facts(2) [OF g(4,3)] reconcile_group_facts(2) [OF g'(4,3)] g(1) g'(1) eq
    by simp
  then show False using reconcile_group_facts(3) [OF g(4,3)] g'(3) g(1) g'(1) eq by metis
qed

text \<open>
  C13: the links proposed for a tour are stars. No row is folded away twice, no row that is kept is
  itself folded away by another link, both ends are rows of the tour with the same non-empty name key,
  and the row that is kept is one a player table backs; so the links of one pass can be applied in any
  order.
\<close>
theorem links_are_stars:
  assumes "distinct players" and "links = reconcile ul players"
  shows "distinct (map Duplicate links) \<and> Canonical ` set links \<inter> Duplicate ` set links = {}
    \<and> (\<forall>m \<in> set links. Canonical m \<in> set players \<and> Duplicate m \<in> set players \<and> \<not> stub (Canonical m)
        \<and> name_key ul (FullName (Canonical m)) = name_key ul (FullName (Duplicate m))
        \<and> name_key ul (FullName (Canonical m)) \<noteq> [] \<and> reviewFloor \<le> Confidence m)"
  using reconcile_duplicates_distinct [OF assms(1)] reconcile_ends [OF assms(1)] reconcile_apart [OF assms(1)]
  unfolding assms(2) by blast

text \<open>
  C8: No row is merged away without review unless the evidence names one person. A link at or above the threshold
  has matching dates of birth with no conflicting country, or one country and one known year of birth. For a row
  known from match rows alone, every other backed row of the name scores strictly less, with one exemption: a row that
  is itself proposed, if only for review, to fold into a row with its own date of birth and the longer career. For a
  backed row, the kept row has the same exact date of birth, and the longest career of all rows of that name and
  date; rows that would fit it equally well are not asked for there.
\<close>
theorem auto_links_confirmed:
  assumes "distinct players" and "links = reconcile ul players" and "m \<in> set links" and "auto_link m"
  shows "confirmed (Canonical m) (Duplicate m)
    \<and> (if stub (Duplicate m)
       then \<forall>c \<in> set players. \<not> stub c \<and> c \<noteq> Canonical m
           \<and> name_key ul (FullName c) = name_key ul (FullName (Duplicate m)) \<longrightarrow>
         fst (pair_score c (Duplicate m)) < fst (pair_score (Canonical m) (Duplicate m))
         \<or> (\<exists>m' \<in> set links. Duplicate m' = c \<and> BirthDate c \<noteq> None \<and> BirthDate (Canonical m') = BirthDate c
             \<and> career_first (Canonical m') c)
       else BirthDate (Duplicate m) \<noteq> None \<and> BirthDate (Canonical m) = BirthDate (Duplicate m)
         \<and> (\<forall>c \<in> set players. \<not> stub c \<and> BirthDate c = BirthDate (Duplicate m)
             \<and> name_key ul (FullName c) = name_key ul (FullName (Duplicate m)) \<longrightarrow> career_first (Canonical m) c))"
proof -
  obtain k grp where g: "grp = filter (\<lambda>p. name_key ul (FullName p) = k) players" "k \<noteq> []"
    "m \<in> set (reconcile_group grp)" "distinct grp" "set (reconcile_group grp) \<subseteq> set links"
    using reconcile_groups [OF assms(1)] assms(2,3) by metis
  note facts = reconcile_group_facts(4) [OF g(4,3) assms(4)]
  have key: "name_key ul (FullName (Duplicate m)) = k" using reconcile_group_facts(2) [OF g(4,3)] g(1) by simp
  have rival: "fst (pair_score c (Duplicate m)) < fst (pair_score (Canonical m) (Duplicate m))
      \<or> (\<exists>m' \<in> set links. Duplicate m' = c \<and> BirthDate c \<noteq> None \<and> BirthDate (Canonical m') = BirthDate c
          \<and> career_first (Canonical m') c)"
    if st: "stub (Duplicate m)" and c: "c \<in> set players" "\<not> stub c" "c \<noteq> Canonical m"
      "name_key ul (FullName c) = name_key ul (FullName (Duplicate m))" for c
  proof (cases "c \<in> Duplicate ` set (reconcile_group grp)")
    case True
    then obtain m' where m': "m' \<in> set (reconcile_group grp)" "c = Duplicate m'" by auto
    have "c \<in> set grp" using c g(1) key by simp
    then show ?thesis using reconcile_group_backed [OF g(4) m'(1)] m' c(2) g(5) by blast
  next
    case False
    then have "c \<in> set grp" using c g(1) key by simp
    then show ?thesis using facts st c(2,3) False by metis
  qed
  show ?thesis
  proof (cases "stub (Duplicate m)")
    case True
    then show ?thesis using facts rival by simp
  next
    case False
    have "c \<in> set grp" if "c \<in> set players" "name_key ul (FullName c) = name_key ul (FullName (Duplicate m))" for c
      using that g(1) key by simp
    then show ?thesis using facts False reconcile_group_backed [OF g(4,3) False] by simp
  qed
qed

definition sample_row :: player where
  "sample_row = \<lparr>PId = 1, SourceID = ''104925'', PSlug = ''a-b'', FullName = text_of ''a b'', Country = ''SRB'',
     BirthDate = Some (1987, 5, 22), BirthYear = Some 1987, PMatches = 1000, MatchOnly = False\<rparr>"

definition sample_stub :: player where
  "sample_stub = \<lparr>PId = 2, SourceID = ''D643'', PSlug = ''b-a'', FullName = text_of ''a b'', Country = ''SRB'',
     BirthDate = None, BirthYear = Some 1987, PMatches = 20, MatchOnly = False\<rparr>"

definition sample_link :: link where
  "sample_link = \<lparr>Canonical = sample_row, Duplicate = sample_stub, Confidence = 90 / 100,
     Reason = ''name, country and birth year match, birth year derived from age''\<rparr>"

lemma name_key_ab: "name_key ul (text_of ''a b'') = ''a b''" and name_key_c: "name_key ul (text_of ''c'') = ''c''"
proof -
  have comma: "map (\<lambda>r. if r = 44 then 32 else r) (text_of s) = text_of s" if "s \<in> {''a b'', ''c''}" for s
    using that by (auto simp: text_of_def)
  have norm: "normalise ul (text_of s) = s" if "s \<in> {''a b'', ''c''}" for s
    unfolding normalise_def
    by (rule convert_folded)
      (use that in \<open>auto simp: folded_def slug_char_def is_digit_def no_double_def Cons_eq_append_conv\<close>)
  have "insertion_sort (str_fields ''a b'') = [''a'', ''b'']" "insertion_sort (str_fields ''c'') = [''c'']"
    unfolding insertion_sort by (simp_all add: str_fields_def is_space_def)
  moreover have "str_fields ''a b'' \<noteq> []" "str_fields ''c'' \<noteq> []" by (simp_all add: str_fields_def is_space_def)
  ultimately show "name_key ul (text_of ''a b'') = ''a b''" "name_key ul (text_of ''c'') = ''c''"
    by (simp_all add: name_key_def comma norm)
qed

lemma sample_keys: "name_key ul (FullName sample_row) = ''a b''" "name_key ul (FullName sample_stub) = ''a b''"
  by (simp_all add: sample_row_def sample_stub_def name_key_ab)

lemma sample_reconcile: "reconcile ul [sample_stub, sample_row] = [sample_link]"
proof -
  have st: "stub sample_stub" "\<not> stub sample_row"
    by (simp_all add: stub_def numeric_def sample_stub_def sample_row_def is_digit_def)
  have ps: "pair_score sample_row sample_stub
      = (90 / 100, ''name, country and birth year match, birth year derived from age'')"
    by (simp add: pair_score_def same_country_def both_years_known_def birth_year_def score_by_year_def
        sample_row_def sample_stub_def)
  have "BirthDate sample_row \<noteq> None" by (simp add: sample_row_def)
  then have "fold_same_source [sample_row] = ([], [sample_row])"
    by (simp add: fold_same_source_def by_day_def fold_day_def group_by_def put_append_def)
  moreover have "stub_link [sample_row] sample_stub = Some sample_link"
    by (simp add: stub_link_def best_two_def two_step_def ps sample_link_def reviewFloor_def)
  ultimately have "reconcile_group [sample_stub, sample_row] = [sample_link]"
    by (simp add: reconcile_group_def st List.map_filter_def)
  then show ?thesis by (simp add: reconcile_def sample_keys group_by_def put_append_def)
qed

lemma sample_distinct: "distinct [sample_stub, sample_row]"
  by (simp add: sample_row_def sample_stub_def)

theorem links_are_stars_witness:
  "Canonical ` set (reconcile (\<lambda>r. True) [sample_stub, sample_row]) \<inter> Duplicate ` set (reconcile (\<lambda>r. True) [sample_stub, sample_row]) = {}
   \<and> sample_link \<in> set (reconcile (\<lambda>r. True) [sample_stub, sample_row])"
  using links_are_stars [OF sample_distinct refl, of "\<lambda>r. True"] by (simp add: sample_reconcile)

theorem auto_links_confirmed_witness:
  "sample_link \<in> set (reconcile (\<lambda>r. True) [sample_stub, sample_row]) \<and> auto_link sample_link
   \<and> confirmed sample_row sample_stub \<and> stub sample_stub"
proof -
  have l: "sample_link \<in> set (reconcile (\<lambda>r. True) [sample_stub, sample_row])" by (simp add: sample_reconcile)
  have a: "auto_link sample_link" by (simp add: auto_link_def autoLink_def sample_link_def)
  have "confirmed (Canonical sample_link) (Duplicate sample_link)"
    using auto_links_confirmed [OF sample_distinct refl l a] by blast
  then show ?thesis using l a by (simp add: sample_link_def stub_def numeric_def sample_stub_def is_digit_def)
qed

text \<open>
  A backed row that is only queued for review still leaves the candidates. With two backed rows of
  one date of birth in different countries, the shorter career is proposed for review at 0.70 and, with
  nothing decided, a stub of that date of birth is merged into the longer career at full confidence,
  although the other row fits it just as well and the rule is that an ambiguous pair goes to review.
\<close>
theorem queued_fold_hides_candidate:
  assumes "\<not> stub a" "\<not> stub b" "stub s" "PMatches a > PMatches b"
    and "BirthDate a = Some d" "BirthDate b = Some d" "BirthDate s = Some d"
    and "Country a \<noteq> []" "Country b \<noteq> []" "Country a \<noteq> Country b" "Country s = []"
  shows "\<exists>auto review. reconcile_group [a, b, s] = [auto, review]
     \<and> auto_link auto \<and> Duplicate auto = s \<and> Canonical auto = a
     \<and> \<not> auto_link review \<and> Duplicate review = b
     \<and> fst (pair_score b s) = fst (pair_score a s)
     \<and> (\<forall>m. stub_link [a, b] s = Some m \<longrightarrow> \<not> auto_link m)"
proof -
  have ps: "pair_score a s = (1, ''name and date of birth match'')" "pair_score b s = (1, ''name and date of birth match'')"
    "pair_score a b = (70 / 100, ''name and date of birth match, country does not'')"
    using assms(5-11) by (simp_all add: pair_score_def)
  have day: "by_day [a, b] = [(d, [0, 1])]"
    using assms(5,6) by (cases d) (simp add: by_day_def group_by_def put_append_def)
  have sl: "sort_slice (keep_less [a, b]) [0, 1] = [0, 1]"
    using assms(4) by (simp add: keep_less_def)
  have fd: "fold_day [a, b] [0, 1] = [(1, fold_link a b)]"
    unfolding fold_day_def sl by (simp add: ps reviewFloor_def)
  have fs: "fold_same_source [a, b] = ([fold_link a b], [a])"
    unfolding fold_same_source_def day using fd by (simp add: Let_def)
  let ?m = "\<lparr>Canonical = a, Duplicate = s, Confidence = 1, Reason = ''name and date of birth match''\<rparr>"
  have one: "stub_link [a] s = Some ?m"
    by (simp add: stub_link_def best_two_def two_step_def ps reviewFloor_def)
  have "reconcile_group [a, b, s] = [?m, fold_link a b]"
    using assms(1-3) by (simp add: reconcile_group_def fs one List.map_filter_def)
  moreover have "\<not> auto_link (fold_link a b)"
    by (simp add: auto_link_def fold_link_def ps autoLink_def)
  moreover have "\<forall>m. stub_link [a, b] s = Some m \<longrightarrow> \<not> auto_link m"
    by (auto simp: stub_link_def best_two_def two_step_def ps reviewFloor_def auto_link_def autoLink_def)
  ultimately show ?thesis
    by (intro exI [of _ ?m] exI [of _ "fold_link a b"]) (simp add: ps auto_link_def autoLink_def fold_link_def)
qed

theorem queued_fold_hides_candidate_witness:
  "\<exists>auto review. reconcile_group [sample_row, sample_row\<lparr>PId := 3, Country := ''MNE'', PMatches := 5\<rparr>,
      sample_stub\<lparr>Country := [], BirthDate := Some (1987, 5, 22)\<rparr>] = [auto, review] \<and> auto_link auto"
proof -
  have "\<not> stub sample_row" "\<not> stub (sample_row\<lparr>PId := 3, Country := ''MNE'', PMatches := 5\<rparr>)"
    "stub (sample_stub\<lparr>Country := [], BirthDate := Some (1987, 5, 22)\<rparr>)"
    by (simp_all add: stub_def numeric_def sample_stub_def sample_row_def is_digit_def)
  from queued_fold_hides_candidate [OF this, of "(1987, 5, 22)"]
  show ?thesis by (auto simp: sample_row_def sample_stub_def)
qed

text \<open>
  Nor are rivals of a backed row asked for: with three backed rows of one date of birth, the two longer careers from
  different countries and the third without one, the third is merged into the longest without review, although the
  other fits it just as well.
\<close>
lemma fold_ignores_rivals:
  assumes "PMatches a > PMatches b" "PMatches b > PMatches c"
    and "BirthDate a = Some d" "BirthDate b = Some d" "BirthDate c = Some d"
    and "Country a \<noteq> []" "Country b \<noteq> []" "Country a \<noteq> Country b" "Country c = []"
  shows "fst (fold_same_source [a, b, c]) = [fold_link a b, fold_link a c]
    \<and> auto_link (fold_link a c) \<and> \<not> auto_link (fold_link a b) \<and> fst (pair_score b c) = fst (pair_score a c)"
proof -
  have ps: "pair_score a c = (1, ''name and date of birth match'')" "pair_score b c = (1, ''name and date of birth match'')"
    "pair_score a b = (70 / 100, ''name and date of birth match, country does not'')"
    using assms(3-9) by (simp_all add: pair_score_def)
  have "[0..<length [a, b, c]] = [0, 1, 2]" by (simp add: upt_rec)
  then have day: "by_day [a, b, c] = [(d, [0, 1, 2])]"
    using assms(3-5) by (cases d) (simp add: by_day_def group_by_def put_append_def)
  have sl: "sort_slice (keep_less [a, b, c]) [0, 1, 2] = [0, 1, 2]"
    using assms(1,2) by (simp add: keep_less_def)
  have "fold_day [a, b, c] [0, 1, 2] = [(1, fold_link a b), (2, fold_link a c)]"
    unfolding fold_day_def sl by (simp add: ps reviewFloor_def)
  then have "fst (fold_same_source [a, b, c]) = [fold_link a b, fold_link a c]"
    unfolding fold_same_source_def day by (simp add: Let_def)
  then show ?thesis by (simp add: ps auto_link_def autoLink_def fold_link_def)
qed

end
