(* ===== verification/IdentityDecisions.thy ===== *)
theory IdentityDecisions
  imports IdentityLinks
begin

text \<open>
  The decisions file, internal/identity/overrides.go: what a human has settled about a pair, how the
  file is checked and indexed, and how the decisions change the links a pass proposes. Reading the file
  and decoding the JSON are the argument of \<open>load_overrides\<close>. The index of merges is an association
  list; results that range over it are stated for the set of links.
\<close>

record override =
  OTour :: string
  DuplicateSourceID :: string
  CanonicalSourceID :: string
  SamePerson :: "bool option"
  Note :: string

definition merges :: "override \<Rightarrow> bool" where
  "merges o' = (case SamePerson o' of None \<Rightarrow> True | Some b \<Rightarrow> b)"

section \<open>Loading\<close>

datatype overrides_file = FileMissing | FileUnreadable | FileNotJSON | FileHolds "override list"

datatype load_error = ReadError | ParseError | NoTour nat | NoDuplicate nat | NoCanonical nat

fun check_overrides :: "nat \<Rightarrow> override list \<Rightarrow> load_error option" where
  "check_overrides i [] = None"
| "check_overrides i (ov # ovs) =
     (if OTour ov = [] then Some (NoTour i)
      else if DuplicateSourceID ov = [] then Some (NoDuplicate i)
      else if CanonicalSourceID ov = [] \<and> merges ov then Some (NoCanonical i)
      else check_overrides (Suc i) ovs)"

definition load_overrides :: "overrides_file \<Rightarrow> load_error + override list" where
  "load_overrides f =
     (case f of
        FileMissing \<Rightarrow> Inr []
      | FileUnreadable \<Rightarrow> Inl ReadError
      | FileNotJSON \<Rightarrow> Inl ParseError
      | FileHolds ovs \<Rightarrow> (case check_overrides 0 ovs of Some e \<Rightarrow> Inl e | None \<Rightarrow> Inr ovs))"

section \<open>The index\<close>

definition nul :: char where "nul = CHR 0x00"

definition pair_key :: "string \<Rightarrow> string \<Rightarrow> string \<Rightarrow> string" where
  "pair_key tour a b =
     (let (a, b) = (if a > b then (b, a) else (a, b))
      in to_lower tour @ [nul] @ a @ [nul] @ b)"

record decisions =
  merge_map :: "(string \<times> override) list"
  separate_set :: "string list"

definition index_step :: "override \<Rightarrow> decisions \<Rightarrow> decisions" where
  "index_step ov d =
     (let k = pair_key (OTour ov) (DuplicateSourceID ov) (CanonicalSourceID ov)
      in if merges ov then d\<lparr>merge_map := put k ov (merge_map d)\<rparr>
         else d\<lparr>separate_set := k # separate_set d\<rparr>)"

definition index_overrides :: "override list \<Rightarrow> decisions" where
  "index_overrides ovs = fold index_step ovs \<lparr>merge_map = [], separate_set = []\<rparr>"

definition separated :: "decisions \<Rightarrow> string \<Rightarrow> string \<Rightarrow> string \<Rightarrow> bool" where
  "separated d tour a b \<longleftrightarrow> pair_key tour a b \<in> set (separate_set d)"

definition merged :: "decisions \<Rightarrow> string \<Rightarrow> string \<Rightarrow> string \<Rightarrow> bool" where
  "merged d tour a b \<longleftrightarrow> map_of (merge_map d) (pair_key tour a b) \<noteq> None"

section \<open>Applying decisions\<close>

definition by_hand :: string where
  "by_hand = ''resolved by hand in the overrides file''"

definition by_source_id :: "player list \<Rightarrow> string \<Rightarrow> player option" where
  "by_source_id players = fold (\<lambda>p m. m(SourceID p \<mapsto> p)) players (\<lambda>_. None)"

definition link_key :: "string \<Rightarrow> link \<Rightarrow> string" where
  "link_key tour m = pair_key tour (SourceID (Duplicate m)) (SourceID (Canonical m))"

definition decide_link :: "decisions \<Rightarrow> string \<Rightarrow> link \<Rightarrow> link" where
  "decide_link d tour m =
     (if map_of (merge_map d) (link_key tour m) \<noteq> None then m\<lparr>Confidence := 1, Reason := by_hand\<rparr> else m)"

definition decided_links :: "decisions \<Rightarrow> string \<Rightarrow> link list \<Rightarrow> link list" where
  "decided_links d tour matches =
     map (decide_link d tour)
       (filter (\<lambda>m. \<not> separated d tour (SourceID (Duplicate m)) (SourceID (Canonical m))) matches)"

definition added_link :: "string \<Rightarrow> player list \<Rightarrow> string set \<Rightarrow> string \<times> override \<Rightarrow> link option" where
  "added_link tour players seen = (\<lambda>(k, ov).
     if k \<in> seen \<or> \<not> has_prefix k (to_lower tour @ [nul]) then None
     else
       (case (by_source_id players (DuplicateSourceID ov), by_source_id players (CanonicalSourceID ov)) of
          (Some dup, Some canonical) \<Rightarrow>
            Some \<lparr>Canonical = canonical, Duplicate = dup, Confidence = 1, Reason = by_hand\<rparr>
        | _ \<Rightarrow> None))"

definition apply_decisions :: "decisions \<Rightarrow> string \<Rightarrow> player list \<Rightarrow> link list \<Rightarrow> link list" where
  "apply_decisions d tour players matches =
     (let out = decided_links d tour matches; seen = link_key tour ` set out
      in out @ List.map_filter (added_link tour players seen) (merge_map d))"

section \<open>Facts of the index\<close>

lemma pair_key_sym: "pair_key tour a b = pair_key tour b a"
  by (auto simp: pair_key_def)

lemma to_lower_nul: "nul \<notin> set s \<Longrightarrow> nul \<notin> set (to_lower s)"
proof -
  have "lower_char c \<noteq> nul" if "c \<noteq> nul" for c
  proof
    assume eq: "lower_char c = nul"
    have "(of_char nul :: nat) = 0" by (simp add: nul_def)
    then have "(of_char (lower_char c) :: nat) = 0" using eq by simp
    then have "(of_char c :: nat) = 0"
      by (auto simp: lower_char_def of_char_of split: if_splits)
    then have "c = nul" using char_of_char [of c, where 'a = nat] by (simp add: nul_def char_of_def)
    then show False using that by simp
  qed
  then show "nul \<notin> set s \<Longrightarrow> nul \<notin> set (to_lower s)"
    unfolding to_lower_def set_map by (metis imageE)
qed

text \<open>Keys tell pairs apart: postgres text and sane JSON hold no NUL.\<close>

lemma pair_key_eq:
  assumes "nul \<notin> set t \<union> set a \<union> set b" "nul \<notin> set t' \<union> set a' \<union> set b'"
  shows "pair_key t a b = pair_key t' a' b' \<longleftrightarrow> to_lower t = to_lower t' \<and> {a, b} = {a', b'}"
  using assms to_lower_nul [of t] to_lower_nul [of t']
  by (auto simp: pair_key_def append_sep_eq doubleton_eq_iff)

lemma index_separate:
  "set (separate_set (fold index_step ovs d)) = set (separate_set d) \<union>
     {pair_key (OTour ov) (DuplicateSourceID ov) (CanonicalSourceID ov) | ov. ov \<in> set ovs \<and> \<not> merges ov}"
  by (induction ovs arbitrary: d) (auto simp: index_step_def Let_def)

lemma index_merge_keys:
  "fst ` set (merge_map (fold index_step ovs d)) = fst ` set (merge_map d) \<union>
     {pair_key (OTour ov) (DuplicateSourceID ov) (CanonicalSourceID ov) | ov. ov \<in> set ovs \<and> merges ov}"
  by (induction ovs arbitrary: d) (auto simp: index_step_def Let_def)

lemma index_merge_entry:
  assumes "distinct (map fst (merge_map d))"
    and "\<And>k ov. (k, ov) \<in> set (merge_map d) \<Longrightarrow> P k ov"
    and "\<And>ov. ov \<in> set ovs \<Longrightarrow> merges ov \<Longrightarrow> P (pair_key (OTour ov) (DuplicateSourceID ov) (CanonicalSourceID ov)) ov"
  shows "distinct (map fst (merge_map (fold index_step ovs d)))
    \<and> (\<forall>(k, ov) \<in> set (merge_map (fold index_step ovs d)). P k ov)"
  using assms
proof (induction ovs arbitrary: d)
  case (Cons ov ovs)
  have "distinct (map fst (merge_map (fold index_step ovs (index_step ov d))))
    \<and> (\<forall>(k, ov) \<in> set (merge_map (fold index_step ovs (index_step ov d))). P k ov)"
    by (rule Cons.IH) (use Cons.prems in \<open>auto simp: index_step_def Let_def set_put split: if_splits\<close>)
  then show ?case by simp
qed auto

lemma by_source_id_Some: "by_source_id players i = Some p \<Longrightarrow> p \<in> set players \<and> SourceID p = i"
proof -
  have "fold (\<lambda>p m. m(SourceID p \<mapsto> p)) ps m i = Some p \<Longrightarrow> m i = Some p \<or> (p \<in> set ps \<and> SourceID p = i)" for m ps
    by (induction ps arbitrary: m) (fastforce split: if_splits)+
  then show "by_source_id players i = Some p \<Longrightarrow> p \<in> set players \<and> SourceID p = i"
    unfolding by_source_id_def by fastforce
qed

lemma by_source_id_None: "i \<in> SourceID ` set players \<Longrightarrow> by_source_id players i \<noteq> None"
proof -
  have keep: "m i \<noteq> None \<Longrightarrow> fold (\<lambda>p m. m(SourceID p \<mapsto> p)) ps m i \<noteq> None" for m ps
    by (induction ps arbitrary: m) auto
  have "i \<in> SourceID ` set ps \<Longrightarrow> fold (\<lambda>p m. m(SourceID p \<mapsto> p)) ps m i \<noteq> None" for m ps
  proof (induction ps arbitrary: m)
    case (Cons p ps)
    show ?case
    proof (cases "i = SourceID p")
      case True
      then show ?thesis using keep [of "m(SourceID p \<mapsto> p)" ps] by (simp del: fun_upd_apply add: fun_upd_same)
    next
      case False
      then show ?thesis using Cons.IH [of "m(SourceID p \<mapsto> p)"] Cons.prems by simp
    qed
  qed simp
  then show "i \<in> SourceID ` set players \<Longrightarrow> by_source_id players i \<noteq> None"
    unfolding by_source_id_def by blast
qed

section \<open>Properties\<close>

text \<open>An override names a pair of source ids of a tour, in either direction.\<close>

definition names_pair :: "override \<Rightarrow> string \<Rightarrow> string \<Rightarrow> string \<Rightarrow> bool" where
  "names_pair ov tour a b \<longleftrightarrow>
     to_lower (OTour ov) = to_lower tour \<and> {DuplicateSourceID ov, CanonicalSourceID ov} = {a, b}"

definition clean :: "string \<Rightarrow> bool" where
  "clean s \<longleftrightarrow> nul \<notin> set s"

definition clean_override :: "override \<Rightarrow> bool" where
  "clean_override ov \<longleftrightarrow> clean (OTour ov) \<and> clean (DuplicateSourceID ov) \<and> clean (CanonicalSourceID ov)"

lemma override_key:
  assumes "clean_override ov" "clean tour" "clean a" "clean b"
  shows "pair_key (OTour ov) (DuplicateSourceID ov) (CanonicalSourceID ov) = pair_key tour a b \<longleftrightarrow> names_pair ov tour a b"
  using assms by (subst pair_key_eq) (auto simp: clean_def clean_override_def names_pair_def)

lemma separated_index:
  assumes "\<forall>ov \<in> set ovs. clean_override ov" "clean tour" "clean a" "clean b"
  shows "separated (index_overrides ovs) tour a b \<longleftrightarrow> (\<exists>ov \<in> set ovs. \<not> merges ov \<and> names_pair ov tour a b)"
proof -
  have "separated (index_overrides ovs) tour a b \<longleftrightarrow>
      (\<exists>ov \<in> set ovs. \<not> merges ov \<and> pair_key tour a b = pair_key (OTour ov) (DuplicateSourceID ov) (CanonicalSourceID ov))"
    unfolding separated_def index_overrides_def index_separate by auto
  then show ?thesis using override_key assms by metis
qed

lemma merged_index:
  assumes "\<forall>ov \<in> set ovs. clean_override ov" "clean tour" "clean a" "clean b"
  shows "map_of (merge_map (index_overrides ovs)) (pair_key tour a b) \<noteq> None
    \<longleftrightarrow> (\<exists>ov \<in> set ovs. merges ov \<and> names_pair ov tour a b)"
proof -
  have "map_of (merge_map (index_overrides ovs)) k \<noteq> None \<longleftrightarrow> k \<in> fst ` set (merge_map (index_overrides ovs))" for k
    by (simp add: map_of_eq_None_iff)
  then have "map_of (merge_map (index_overrides ovs)) (pair_key tour a b) \<noteq> None \<longleftrightarrow>
      (\<exists>ov \<in> set ovs. merges ov \<and> pair_key tour a b = pair_key (OTour ov) (DuplicateSourceID ov) (CanonicalSourceID ov))"
    unfolding index_overrides_def index_merge_keys by auto
  then show ?thesis using override_key assms by metis
qed

definition clean_link :: "link \<Rightarrow> bool" where
  "clean_link m \<longleftrightarrow> clean (SourceID (Duplicate m)) \<and> clean (SourceID (Canonical m))"

abbreviation link_named :: "override \<Rightarrow> string \<Rightarrow> link \<Rightarrow> bool" where
  "link_named ov tour m \<equiv> names_pair ov tour (SourceID (Duplicate m)) (SourceID (Canonical m))"

lemma decide_link_ends [simp]:
  "SourceID (Duplicate (decide_link d tour m)) = SourceID (Duplicate m)"
  "SourceID (Canonical (decide_link d tour m)) = SourceID (Canonical m)"
  "link_key tour (decide_link d tour m) = link_key tour m"
  by (simp_all add: decide_link_def link_key_def)

lemma decide_link_confidence:
  assumes "\<forall>ov \<in> set ovs. clean_override ov" "clean tour" "clean_link m"
  shows "decide_link (index_overrides ovs) tour m =
     (if \<exists>ov \<in> set ovs. merges ov \<and> link_named ov tour m then m\<lparr>Confidence := 1, Reason := by_hand\<rparr> else m)"
  using merged_index [OF assms(1,2)] assms(3) by (simp add: decide_link_def link_key_def clean_link_def)

lemma added_link_Some:
  assumes "added_link tour players seen (k, ov) = Some m"
  shows "k \<notin> seen" and "Confidence m = 1" and "SourceID (Duplicate m) = DuplicateSourceID ov"
    and "SourceID (Canonical m) = CanonicalSourceID ov" and "Duplicate m \<in> set players" "Canonical m \<in> set players"
    and "has_prefix k (to_lower tour @ [nul])"
  using assms by (auto simp: added_link_def dest!: by_source_id_Some split: if_splits option.splits)

lemma merge_map_entry:
  "(k, ov) \<in> set (merge_map (index_overrides ovs)) \<Longrightarrow>
   ov \<in> set ovs \<and> merges ov \<and> k = pair_key (OTour ov) (DuplicateSourceID ov) (CanonicalSourceID ov)"
  using index_merge_entry [of "\<lparr>merge_map = [], separate_set = []\<rparr>"
    "\<lambda>k ov. ov \<in> set ovs \<and> merges ov \<and> k = pair_key (OTour ov) (DuplicateSourceID ov) (CanonicalSourceID ov)" ovs]
  by (auto simp: index_overrides_def)

lemma pair_key_tour:
  assumes "clean tour" "clean t" "has_prefix (pair_key t a b) (to_lower tour @ [nul])"
  shows "to_lower t = to_lower tour"
proof -
  obtain r where "pair_key t a b = to_lower tour @ nul # r" using assms(3) by (auto simp: has_prefix_iff)
  moreover obtain r' where "pair_key t a b = to_lower t @ nul # r'" by (cases "b < a") (auto simp: pair_key_def)
  ultimately show ?thesis
    using to_lower_nul assms(1,2) by (metis clean_def append_sep_eq)
qed

lemma added_link_named:
  assumes "\<forall>ov \<in> set ovs. clean_override ov" "clean tour"
    and "added_link tour players seen (k, ov) = Some m" and "(k, ov) \<in> set (merge_map (index_overrides ovs))"
  shows "link_named ov tour m \<and> merges ov \<and> ov \<in> set ovs"
  using added_link_Some [OF assms(3)] merge_map_entry [OF assms(4)] assms(1,2)
    pair_key_tour [of tour "OTour ov"]
  by (auto simp: names_pair_def clean_override_def)

text \<open>
  C12: How the decisions file changes the links of a pass, exactly. A pair the file merges is linked at full
  confidence, whenever both its rows are in the database; a pair it separates is not linked, except where the file
  also merges it, which then wins; and every other link is the scorer's, unchanged. The file decides whether a pair
  is linked and not which row is kept: a link the scorer proposed keeps its direction even when the file names the two
  ids the other way round, and only a pair the scorer's links leave out is added in the direction of the file.
\<close>
theorem decisions_govern:
  assumes "\<forall>ov \<in> set ovs. clean_override ov" and "clean tour" and "\<forall>p \<in> set players. clean (SourceID p)"
    and "\<forall>m \<in> set matches. Duplicate m \<in> set players \<and> Canonical m \<in> set players"
    and "out = apply_decisions (index_overrides ovs) tour players matches"
  shows "(\<forall>m \<in> set out. (\<exists>ov \<in> set ovs. merges ov \<and> link_named ov tour m) \<longrightarrow> Confidence m = 1)
    \<and> (\<forall>m \<in> set out. (\<exists>ov \<in> set ovs. \<not> merges ov \<and> link_named ov tour m) \<longrightarrow>
        (\<exists>ov \<in> set ovs. merges ov \<and> link_named ov tour m))
    \<and> (\<forall>m \<in> set out. (\<exists>ov \<in> set ovs. merges ov \<and> link_named ov tour m) \<or> m \<in> set matches)
    \<and> (\<forall>m \<in> set matches. (\<forall>ov \<in> set ovs. \<not> link_named ov tour m) \<longrightarrow> m \<in> set out)
    \<and> (\<forall>ov \<in> set ovs. merges ov \<and> to_lower (OTour ov) = to_lower tour
        \<and> DuplicateSourceID ov \<in> SourceID ` set players \<and> CanonicalSourceID ov \<in> SourceID ` set players \<longrightarrow>
        (\<exists>m \<in> set out. link_named ov tour m \<and> Confidence m = 1))
    \<and> (\<forall>m \<in> set matches. (\<exists>ov \<in> set ovs. \<not> merges ov \<and> link_named ov tour m)
        \<or> (\<exists>m' \<in> set out. Duplicate m' = Duplicate m \<and> Canonical m' = Canonical m))
    \<and> (\<forall>m \<in> set out. (\<exists>m0 \<in> set matches. Duplicate m = Duplicate m0 \<and> Canonical m = Canonical m0)
        \<or> (\<exists>ov \<in> set ovs. merges ov \<and> SourceID (Duplicate m) = DuplicateSourceID ov \<and> SourceID (Canonical m) = CanonicalSourceID ov))"
proof -
  let ?d = "index_overrides ovs"
  let ?out = "decided_links ?d tour matches"
  let ?add = "added_link tour players (link_key tour ` set ?out)"
  have out: "set out = set ?out \<union> {m. \<exists>e \<in> set (merge_map ?d). ?add e = Some m}"
    unfolding assms(5) apply_decisions_def Let_def by (auto simp: map_filter_set)
  have cl: "clean_link m" if "m \<in> set matches" for m
    using that assms(3,4) by (auto simp: clean_link_def)
  have kept: "\<exists>m0. m0 \<in> set matches \<and> m = decide_link ?d tour m0 \<and> clean_link m0
      \<and> \<not> (\<exists>ov \<in> set ovs. \<not> merges ov \<and> link_named ov tour m0)" if m: "m \<in> set ?out" for m
  proof -
    obtain m0 where m0: "m = decide_link ?d tour m0" "m0 \<in> set matches"
      "\<not> separated ?d tour (SourceID (Duplicate m0)) (SourceID (Canonical m0))"
      using m by (auto simp: decided_links_def)
    then show ?thesis
      using separated_index [OF assms(1,2)] cl [OF m0(2)] unfolding clean_link_def by blast
  qed
  have added: "\<exists>ov \<in> set ovs. merges ov \<and> link_named ov tour m" "Confidence m = 1"
    if e: "e \<in> set (merge_map ?d)" "?add e = Some m" for e m
  proof -
    obtain k ov where kv: "e = (k, ov)" by force
    show "\<exists>ov \<in> set ovs. merges ov \<and> link_named ov tour m" "Confidence m = 1"
      using added_link_named [OF assms(1,2) e(2) [unfolded kv]] added_link_Some(2) e unfolding kv by blast+
  qed
  note dec = decide_link_confidence [OF assms(1,2)]
  have a: "Confidence m = 1" if "m \<in> set out" "\<exists>ov \<in> set ovs. merges ov \<and> link_named ov tour m" for m
  proof (cases "m \<in> set ?out")
    case True
    then obtain m0 where m0: "m = decide_link ?d tour m0" "clean_link m0" using kept by blast
    then have "\<exists>ov \<in> set ovs. merges ov \<and> link_named ov tour m0" using that(2) by simp
    then show ?thesis using m0 by (simp add: dec)
  qed (use that(1) added(2) out in blast)
  have b: "\<exists>ov \<in> set ovs. merges ov \<and> link_named ov tour m"
    if "m \<in> set out" "\<exists>ov \<in> set ovs. \<not> merges ov \<and> link_named ov tour m" for m
    using that kept added(1) unfolding out by fastforce
  have c: "(\<exists>ov \<in> set ovs. merges ov \<and> link_named ov tour m) \<or> m \<in> set matches" if "m \<in> set out" for m
  proof (cases "m \<in> set ?out")
    case True
    then obtain m0 where "m0 \<in> set matches" "m = decide_link ?d tour m0" "clean_link m0" using kept by blast
    then show ?thesis using dec [of m0] by (cases "\<exists>ov \<in> set ovs. merges ov \<and> link_named ov tour m0") auto
  next
    case False
    then show ?thesis using that added(1) unfolding out by blast
  qed
  have through: "decide_link ?d tour m \<in> set ?out"
    if "m \<in> set matches" "\<not> (\<exists>ov \<in> set ovs. \<not> merges ov \<and> link_named ov tour m)" for m
    using that separated_index [OF assms(1,2)] cl [OF that(1)] by (auto simp: decided_links_def clean_link_def)
  have d: "m \<in> set out" if "m \<in> set matches" "\<forall>ov \<in> set ovs. \<not> link_named ov tour m" for m
    using through [OF that(1)] that cl [OF that(1)] unfolding out by (auto simp: dec)
  have e: "\<exists>m \<in> set out. link_named ov tour m \<and> Confidence m = 1"
    if ov: "ov \<in> set ovs" "merges ov" "to_lower (OTour ov) = to_lower tour"
      "DuplicateSourceID ov \<in> SourceID ` set players" "CanonicalSourceID ov \<in> SourceID ` set players" for ov
  proof -
    let ?k = "pair_key (OTour ov) (DuplicateSourceID ov) (CanonicalSourceID ov)"
    have "?k \<in> fst ` set (merge_map ?d)"
      unfolding index_overrides_def index_merge_keys using ov(1,2) by auto
    then obtain ov' where ov': "(?k, ov') \<in> set (merge_map ?d)" by auto
    have c1: "clean_override ov" "clean (DuplicateSourceID ov)" "clean (CanonicalSourceID ov)"
      using assms(1) ov(1) by (auto simp: clean_override_def)
    have same: "?k = pair_key tour (DuplicateSourceID ov) (CanonicalSourceID ov)"
      using override_key [OF c1(1) assms(2) c1(2,3)] ov(3) by (simp add: names_pair_def)
    have k': "pair_key (OTour ov') (DuplicateSourceID ov') (CanonicalSourceID ov')
        = pair_key tour (DuplicateSourceID ov) (CanonicalSourceID ov)"
      using merge_map_entry [OF ov'] same by simp
    have named': "names_pair ov' tour (DuplicateSourceID ov) (CanonicalSourceID ov)"
      using override_key [OF _ assms(2) c1(2,3), of ov'] merge_map_entry [OF ov'] assms(1) k' by simp
    show ?thesis
    proof (cases "?k \<in> link_key tour ` set ?out")
      case True
      then obtain m where m: "m \<in> set ?out" "link_key tour m = ?k" by auto
      then have "clean_link m" using kept by (metis decide_link_ends(1,2) clean_link_def)
      then have "link_named ov tour m"
        using override_key [OF c1(1) assms(2)] m(2) unfolding link_key_def clean_link_def by metis
      then show ?thesis using a m(1) ov(1,2) unfolding out by blast
    next
      case False
      have "DuplicateSourceID ov' \<in> SourceID ` set players" "CanonicalSourceID ov' \<in> SourceID ` set players"
        using named' ov(4,5) by (auto simp: names_pair_def doubleton_eq_iff)
      then obtain p q where pq: "by_source_id players (DuplicateSourceID ov') = Some p"
        "by_source_id players (CanonicalSourceID ov') = Some q"
        using by_source_id_None by blast
      have pre: "has_prefix ?k (to_lower tour @ [nul])"
        unfolding same by (auto simp: has_prefix_iff pair_key_def Let_def)
      obtain m where m: "?add (?k, ov') = Some m"
        using False pre by (simp add: added_link_def pq)
      have "link_named ov tour m"
        using added_link_Some(3,4) [OF m] named' ov(3) by (auto simp: names_pair_def)
      then show ?thesis using m ov' added_link_Some(2) [OF m] unfolding out by blast
    qed
  qed
  have same: "Duplicate (decide_link ?d tour m) = Duplicate m" "Canonical (decide_link ?d tour m) = Canonical m" for m
    by (simp_all add: decide_link_def)
  have f: "(\<exists>ov \<in> set ovs. \<not> merges ov \<and> link_named ov tour m)
      \<or> (\<exists>m' \<in> set out. Duplicate m' = Duplicate m \<and> Canonical m' = Canonical m)" if "m \<in> set matches" for m
    using through [OF that] same [of m] unfolding out by blast
  have g: "(\<exists>m0 \<in> set matches. Duplicate m = Duplicate m0 \<and> Canonical m = Canonical m0)
      \<or> (\<exists>ov \<in> set ovs. merges ov \<and> SourceID (Duplicate m) = DuplicateSourceID ov \<and> SourceID (Canonical m) = CanonicalSourceID ov)"
    if m: "m \<in> set out" for m
  proof (cases "m \<in> set ?out")
    case True
    then show ?thesis using kept same by metis
  next
    case False
    then obtain k ov where kv: "(k, ov) \<in> set (merge_map ?d)" "?add (k, ov) = Some m" using m unfolding out by auto
    then show ?thesis using added_link_Some(3,4) [OF kv(2)] added_link_named [OF assms(1,2) kv(2,1)] by blast
  qed
  show ?thesis by (intro conjI ballI impI) (use a b c d e f g in blast)+
qed

definition sample_override :: override where
  "sample_override = \<lparr>OTour = ''ATP'', DuplicateSourceID = ''D643'', CanonicalSourceID = ''104925'',
     SamePerson = None, Note = []\<rparr>"

theorem decisions_govern_witness:
  "\<exists>m \<in> set (apply_decisions (index_overrides [sample_override]) ''atp'' [sample_stub, sample_row] []).
     link_named sample_override ''atp'' m \<and> Confidence m = 1"
proof -
  have lower: "to_lower (OTour sample_override) = to_lower ''atp''"
    unfolding sample_override_def by code_simp
  have clean: "\<forall>ov \<in> set [sample_override]. clean_override ov" "clean ''atp''"
    "\<forall>p \<in> set [sample_stub, sample_row]. clean (SourceID p)"
    by (simp_all add: clean_override_def clean_def nul_def sample_override_def sample_stub_def sample_row_def)
  have ends: "\<forall>m \<in> set []. Duplicate m \<in> set [sample_stub, sample_row] \<and> Canonical m \<in> set [sample_stub, sample_row]"
    by simp
  have "merges sample_override" "DuplicateSourceID sample_override \<in> SourceID ` set [sample_stub, sample_row]"
    "CanonicalSourceID sample_override \<in> SourceID ` set [sample_stub, sample_row]"
    by (simp_all add: merges_def sample_override_def sample_stub_def sample_row_def)
  then show ?thesis using decisions_govern [OF clean ends refl] lower by auto
qed

text \<open>
  A decision does not choose the direction of a merge. When the scorer proposes the pair the other
  way round, the override only raises the confidence: the row the file names as the one to keep is the
  one folded away.
\<close>
theorem decision_keeps_direction:
  assumes "merges ov" and "SourceID (Duplicate m) = CanonicalSourceID ov" "SourceID (Canonical m) = DuplicateSourceID ov"
  shows "apply_decisions (index_overrides [ov]) (OTour ov) players [m] = [m\<lparr>Confidence := 1, Reason := by_hand\<rparr>]"
proof -
  have "link_key (OTour ov) m = pair_key (OTour ov) (DuplicateSourceID ov) (CanonicalSourceID ov)"
    using assms(2,3) pair_key_sym by (simp add: link_key_def)
  then show ?thesis
    using assms(1)
    by (simp add: apply_decisions_def decided_links_def separated_def index_overrides_def index_step_def Let_def
        decide_link_def added_link_def List.map_filter_def link_key_def)
qed

theorem decision_keeps_direction_witness:
  "map Canonical (apply_decisions (index_overrides [sample_override]) ''ATP'' []
     [sample_link\<lparr>Canonical := sample_stub, Duplicate := sample_row\<rparr>]) = [sample_stub]"
proof -
  have "merges sample_override" "OTour sample_override = ''ATP''" by (simp_all add: merges_def sample_override_def)
  moreover have "SourceID (Duplicate (sample_link\<lparr>Canonical := sample_stub, Duplicate := sample_row\<rparr>)) = CanonicalSourceID sample_override"
    "SourceID (Canonical (sample_link\<lparr>Canonical := sample_stub, Duplicate := sample_row\<rparr>)) = DuplicateSourceID sample_override"
    by (simp_all add: sample_override_def sample_stub_def sample_row_def)
  ultimately show ?thesis
    using decision_keeps_direction [of sample_override "sample_link\<lparr>Canonical := sample_stub, Duplicate := sample_row\<rparr>" "[]"]
    by simp
qed

end
