(* ===== verification/Sql.thy ===== *)
theory Sql
  imports Prelude
begin

text \<open>
  What the store code relies on of the database: a table with a primary key is an association list,
  \<open>ON CONFLICT DO NOTHING\<close> and \<open>ON CONFLICT DO UPDATE\<close> insert into it, a statement fails when it
  leaves an immediate constraint broken, and a transaction is a sequence of statements that stops at the
  first failure and leaves nothing behind.
\<close>

datatype sql_error = Violates string | MissingRow string | Driver string

section \<open>Sequencing\<close>

definition and_then :: "'e + 'a \<Rightarrow> ('a \<Rightarrow> 'e + 'b) \<Rightarrow> 'e + 'b" where
  "and_then r f = (case r of Inl e \<Rightarrow> Inl e | Inr a \<Rightarrow> f a)"

lemma and_then_simps [simp]: "and_then (Inl e) f = Inl e" "and_then (Inr a) f = f a"
  by (simp_all add: and_then_def)

lemma and_then_Inr: "and_then r f = Inr b \<longleftrightarrow> (\<exists>a. r = Inr a \<and> f a = Inr b)"
  by (cases r) auto

section \<open>Constraints\<close>

text \<open>The first of the named constraints a state breaks.\<close>

fun first_broken :: "(string \<times> ('db \<Rightarrow> bool)) list \<Rightarrow> 'db \<Rightarrow> sql_error option" where
  "first_broken [] db = None"
| "first_broken ((name, holds) # cs) db = (if holds db then first_broken cs db else Some (Violates name))"

lemma first_broken_None: "first_broken cs db = None \<longleftrightarrow> list_all (\<lambda>c. snd c db) cs"
  by (induction cs db rule: first_broken.induct) auto

definition exec :: "(string \<times> ('db \<Rightarrow> bool)) list \<Rightarrow> ('db \<Rightarrow> 'db) \<Rightarrow> 'db \<Rightarrow> sql_error + 'db" where
  "exec cs f db = (case first_broken cs (f db) of Some e \<Rightarrow> Inl e | None \<Rightarrow> Inr (f db))"

lemma exec_Inr: "exec cs f db = Inr db' \<longleftrightarrow> db' = f db \<and> list_all (\<lambda>c. snd c (f db)) cs"
  using first_broken_None [of cs "f db"] by (cases "first_broken cs (f db)") (auto simp: exec_def)

lemma exec_ok: "list_all (\<lambda>c. snd c (f db)) cs \<Longrightarrow> exec cs f db = Inr (f db)"
  by (simp add: exec_Inr)

section \<open>Tables\<close>

abbreviation keys :: "('k \<times> 'v) list \<Rightarrow> 'k set" where
  "keys t \<equiv> fst ` set t"

definition insert_new :: "'k \<times> 'v \<Rightarrow> ('k \<times> 'v) list \<Rightarrow> ('k \<times> 'v) list" where
  "insert_new r t = (if fst r \<in> keys t then t else t @ [r])"

definition insert_ignore :: "('k \<times> 'v) list \<Rightarrow> ('k \<times> 'v) list \<Rightarrow> ('k \<times> 'v) list" where
  "insert_ignore rows t = fold insert_new rows t"

lemma keys_insert_ignore: "keys (insert_ignore rows t) = keys t \<union> keys rows"
  unfolding insert_ignore_def by (induction rows arbitrary: t) (auto simp: insert_new_def)

lemma distinct_insert_ignore: "distinct (map fst t) \<Longrightarrow> distinct (map fst (insert_ignore rows t))"
  unfolding insert_ignore_def by (induction rows arbitrary: t) (auto simp: insert_new_def)

lemma map_of_insert_ignore:
  "map_of (insert_ignore rows t) k = (case map_of t k of Some v \<Rightarrow> Some v | None \<Rightarrow> map_of rows k)"
proof -
  have one: "map_of (insert_new r t) k = (case map_of t k of Some v \<Rightarrow> Some v | None \<Rightarrow> if fst r = k then Some (snd r) else None)" for r t
  proof (cases "fst r \<in> keys t")
    case True
    then have "map_of t (fst r) \<noteq> None" by (simp add: map_of_eq_None_iff)
    then show ?thesis using True by (auto simp: insert_new_def split: option.splits)
  next
    case False
    then have "map_of t (fst r) = None" by (simp add: map_of_eq_None_iff)
    then show ?thesis using False
      by (cases r) (auto simp: insert_new_def map_add_def split: option.splits)
  qed
  show ?thesis
    unfolding insert_ignore_def by (induction rows arbitrary: t) (auto simp: one split: option.splits)
qed

definition upsert :: "'k \<times> 'v \<Rightarrow> ('k \<times> 'v) list \<Rightarrow> ('k \<times> 'v) list" where
  "upsert r t = put (fst r) (snd r) t"

lemma map_of_filter_keys: "map_of (filter (\<lambda>r. P (fst r)) t) k = (if P k then map_of t k else None)"
  by (induction t) auto

lemma distinct_filter_keys: "distinct (map fst t) \<Longrightarrow> distinct (map fst (filter P t))"
  by (induction t) auto

lemma distinct_map_factor: "distinct (map (\<lambda>x. g (f x)) xs) \<Longrightarrow> distinct (map f xs)"
  by (induction xs) auto

end
