(* ===== verification/IdentityStore.thy ===== *)
theory IdentityStore
  imports IdentityDecisions Sql
begin

text \<open>
  The database side of reconciliation, internal/identity/store.go, and the pass over the tours,
  internal/identity/runner.go. The tables are those of the migrations a merge touches: players, matches,
  match_players, rankings, charted_stats, player_aliases and identity_reviews; ratings and player_totals
  are rebuilt from these and only lose the duplicate's rows. A column the code neither reads nor writes
  is left out, and the figures of a participation are carried as they are. \<open>PlayedOn\<close> is the year and
  the day of the year, ages are real numbers.
\<close>

type_synonym figures = "(string \<times> int) list"

record prow =
  RId :: int
  RSourceId :: string
  RTour :: string
  RSlug :: string
  RFullName :: gotext
  RCountry :: "string option"
  RBirth :: "date option"

record mrow =
  MId :: int
  Draw :: "int \<times> int \<times> bool"
  Winner :: int
  Loser :: int
  MSource :: string
  PlayedOn :: "int \<times> int"

record part =
  Won :: bool
  Age :: "real option"
  Line :: figures

record db =
  t_players :: "prow list"
  t_matches :: "mrow list"
  t_parts :: "((int \<times> int) \<times> part) list"
  t_rankings :: "((int \<times> date) \<times> (int \<times> int option)) list"
  t_charted :: "((int \<times> int \<times> int) \<times> figures) list"
  t_aliases :: "((string \<times> string) \<times> (int \<times> real)) list"
  t_reviews :: "((string \<times> string \<times> int) \<times> (string \<times> real \<times> string)) list"

section \<open>Constraints\<close>

definition draw_key :: "mrow \<Rightarrow> (int \<times> int \<times> bool) \<times> int \<times> int" where
  "draw_key r = (Draw r, min (Winner r) (Loser r), max (Winner r) (Loser r))"

definition ids :: "db \<Rightarrow> int set" where
  "ids db = RId ` set (t_players db)"

definition immediate :: "(string \<times> (db \<Rightarrow> bool)) list" where
  "immediate =
    [(''players_pkey'', \<lambda>db. distinct (map RId (t_players db))),
     (''players_slug_key'', \<lambda>db. distinct (map RSlug (t_players db))),
     (''players_source_id_tour_key'', \<lambda>db. distinct (map (\<lambda>p. (RSourceId p, RTour p)) (t_players db))),
     (''matches_pkey'', \<lambda>db. distinct (map MId (t_matches db))),
     (''matches_draw_key'', \<lambda>db. distinct (map draw_key (t_matches db))),
     (''matches_winner_id_fkey'', \<lambda>db. list_all (\<lambda>r. Winner r \<in> ids db) (t_matches db)),
     (''matches_loser_id_fkey'', \<lambda>db. list_all (\<lambda>r. Loser r \<in> ids db) (t_matches db)),
     (''match_players_pkey'', \<lambda>db. distinct (map fst (t_parts db))),
     (''match_players_fkey'', \<lambda>db. list_all (\<lambda>r. fst (fst r) \<in> MId ` set (t_matches db) \<and> snd (fst r) \<in> ids db) (t_parts db)),
     (''rankings_pkey'', \<lambda>db. distinct (map fst (t_rankings db))),
     (''rankings_player_id_fkey'', \<lambda>db. list_all (\<lambda>r. fst (fst r) \<in> ids db) (t_rankings db)),
     (''charted_stats_pkey'', \<lambda>db. distinct (map fst (t_charted db))),
     (''charted_stats_player_id_fkey'', \<lambda>db. list_all (\<lambda>r. fst (snd (fst r)) \<in> ids db) (t_charted db)),
     (''player_aliases_pkey'', \<lambda>db. distinct (map fst (t_aliases db))),
     (''player_aliases_player_id_fkey'', \<lambda>db. list_all (\<lambda>r. fst (snd r) \<in> ids db) (t_aliases db)),
     (''identity_reviews_pkey'', \<lambda>db. distinct (map fst (t_reviews db))),
     (''identity_reviews_candidate_fkey'', \<lambda>db. list_all (\<lambda>r. snd (snd (fst r)) \<in> ids db) (t_reviews db))]"

definition deferred :: "(string \<times> (db \<Rightarrow> bool)) list" where
  "deferred =
    [(''matches_winner_played'', \<lambda>db. list_all (\<lambda>r. (MId r, Winner r) \<in> keys (t_parts db)) (t_matches db)),
     (''matches_loser_played'', \<lambda>db. list_all (\<lambda>r. (MId r, Loser r) \<in> keys (t_parts db)) (t_matches db))]"

definition db_ok :: "db \<Rightarrow> bool" where
  "db_ok db \<longleftrightarrow> list_all (\<lambda>c. snd c db) (immediate @ deferred)"

section \<open>Loading the players of a tour\<close>

text \<open>\<open>mode() WITHIN GROUP\<close>: the smallest of the most frequent values.\<close>

definition mode_of :: "int list \<Rightarrow> int option" where
  "mode_of xs = find (\<lambda>v. list_all (\<lambda>w. count_list xs w \<le> count_list xs v) xs) (sort xs)"

definition year_fraction :: "int \<times> int \<Rightarrow> real" where
  "year_fraction d = of_int (fst d) + (of_int (snd d) - 1) / (36525 / 100)"

definition parts_of :: "db \<Rightarrow> int \<Rightarrow> (mrow \<times> part) list" where
  "parts_of db pid =
     concat (map (\<lambda>((m, p), v). if p = pid then map (\<lambda>r. (r, v)) (filter (\<lambda>r. MId r = m) (t_matches db)) else [])
       (t_parts db))"

definition derived_year :: "db \<Rightarrow> int \<Rightarrow> int option" where
  "derived_year db pid =
     mode_of (List.map_filter (\<lambda>(r, v). map_option (\<lambda>a. \<lfloor>year_fraction (PlayedOn r) - a\<rfloor>) (Age v)) (parts_of db pid))"

definition load_player :: "db \<Rightarrow> prow \<Rightarrow> player" where
  "load_player db p =
     \<lparr>PId = RId p, SourceID = RSourceId p, PSlug = RSlug p, FullName = RFullName p,
      Country = (case RCountry p of None \<Rightarrow> [] | Some c \<Rightarrow> c), BirthDate = RBirth p,
      BirthYear = derived_year db (RId p),
      PMatches = int (length (filter (\<lambda>k. snd k = RId p) (map fst (t_parts db)))),
      MatchOnly = RBirth p = None \<and> list_ex (\<lambda>k. snd k = RId p) (map fst (t_parts db))
        \<and> \<not> list_ex (\<lambda>(r, v). \<not> has_prefix (MSource r) ''tml-'') (parts_of db (RId p))\<rparr>"

definition load_players :: "db \<Rightarrow> string \<Rightarrow> player list" where
  "load_players db tour = map (load_player db) (filter (\<lambda>p. RTour p = tour) (t_players db))"

section \<open>The source of a player\<close>

datatype scan_error = ErrNoRows | QueryFailed string

text \<open>What scanning one row gives: the variable, set or still nil, and the error.\<close>

type_synonym 'a scan = "'a option \<times> scan_error option"

definition most_sources :: "db \<Rightarrow> int \<Rightarrow> (string \<times> mrow list) list" where
  "most_sources db pid =
     sort_slice (\<lambda>a b. length (snd a) > length (snd b)) (group_by MSource (map fst (parts_of db pid)))"

definition source_query :: "db \<Rightarrow> int \<Rightarrow> string scan" where
  "source_query db pid =
     (case most_sources db pid of [] \<Rightarrow> (None, Some ErrNoRows) | (s, _) # _ \<Rightarrow> (Some s, None))"

definition source_of :: "string scan \<Rightarrow> sql_error + string" where
  "source_of q =
     (case q of (source, err) \<Rightarrow>
       if err = Some ErrNoRows \<or> source = None then Inr ''unknown''
       else if err \<noteq> None then Inl (Driver ''find the source'')
       else Inr (the source))"

section \<open>Merging\<close>

abbreviation run_sql :: "(db \<Rightarrow> db) \<Rightarrow> db \<Rightarrow> sql_error + db" where
  "run_sql \<equiv> exec immediate"

definition becomes :: "int \<Rightarrow> int \<Rightarrow> int \<Rightarrow> int" where
  "becomes c d p = (if p = d then c else p)"

definition move_winners :: "int \<Rightarrow> int \<Rightarrow> db \<Rightarrow> db" where
  "move_winners c d db = db\<lparr>t_matches := map (\<lambda>r. r\<lparr>Winner := becomes c d (Winner r)\<rparr>) (t_matches db)\<rparr>"

definition move_losers :: "int \<Rightarrow> int \<Rightarrow> db \<Rightarrow> db" where
  "move_losers c d db = db\<lparr>t_matches := map (\<lambda>r. r\<lparr>Loser := becomes c d (Loser r)\<rparr>) (t_matches db)\<rparr>"

definition copy_parts :: "int \<Rightarrow> int \<Rightarrow> db \<Rightarrow> db" where
  "copy_parts c d db =
     db\<lparr>t_parts := insert_ignore (map (\<lambda>((m, p), v). ((m, c), v)) (filter (\<lambda>((m, p), v). p = d) (t_parts db))) (t_parts db)\<rparr>"

definition drop_parts :: "int \<Rightarrow> db \<Rightarrow> db" where
  "drop_parts d db = db\<lparr>t_parts := filter (\<lambda>r. snd (fst r) \<noteq> d) (t_parts db)\<rparr>"

definition copy_rankings :: "int \<Rightarrow> int \<Rightarrow> db \<Rightarrow> db" where
  "copy_rankings c d db =
     db\<lparr>t_rankings := insert_ignore (map (\<lambda>((p, day), v). ((c, day), v)) (filter (\<lambda>((p, day), v). p = d) (t_rankings db))) (t_rankings db)\<rparr>"

definition drop_rankings :: "int \<Rightarrow> db \<Rightarrow> db" where
  "drop_rankings d db = db\<lparr>t_rankings := filter (\<lambda>r. fst (fst r) \<noteq> d) (t_rankings db)\<rparr>"

definition move_charted :: "int \<Rightarrow> int \<Rightarrow> db \<Rightarrow> db" where
  "move_charted c d db = db\<lparr>t_charted := map (\<lambda>((m, p, n), v). ((m, becomes c d p, n), v)) (t_charted db)\<rparr>"

definition move_aliases :: "int \<Rightarrow> int \<Rightarrow> db \<Rightarrow> db" where
  "move_aliases c d db = db\<lparr>t_aliases := map (\<lambda>(k, p, x). (k, becomes c d p, x)) (t_aliases db)\<rparr>"

definition record_alias :: "string \<Rightarrow> string \<Rightarrow> int \<Rightarrow> real \<Rightarrow> db \<Rightarrow> db" where
  "record_alias source source_id c confidence db =
     db\<lparr>t_aliases := upsert ((source, source_id), (c, confidence)) (t_aliases db)\<rparr>"

definition clear_reviews :: "string \<Rightarrow> db \<Rightarrow> db" where
  "clear_reviews source_id db = db\<lparr>t_reviews := filter (\<lambda>r. fst (snd (fst r)) \<noteq> source_id) (t_reviews db)\<rparr>"

text \<open>Deleting a player cascades to rankings, aliases and reviews of that player.\<close>

definition delete_player :: "int \<Rightarrow> db \<Rightarrow> db" where
  "delete_player d db =
     db\<lparr>t_players := filter (\<lambda>p. RId p \<noteq> d) (t_players db),
        t_rankings := filter (\<lambda>r. fst (fst r) \<noteq> d) (t_rankings db),
        t_aliases := filter (\<lambda>r. fst (snd r) \<noteq> d) (t_aliases db),
        t_reviews := filter (\<lambda>r. snd (snd (fst r)) \<noteq> d) (t_reviews db)\<rparr>"

definition reclaim_slug :: "(rune \<Rightarrow> bool) \<Rightarrow> int \<Rightarrow> db \<Rightarrow> sql_error + (bool \<times> db)" where
  "reclaim_slug ul pid db =
     (case find (\<lambda>p. RId p = pid) (t_players db) of
        None \<Rightarrow> Inl (MissingRow ''players'')
      | Some row \<Rightarrow>
          let base = slug ul (RFullName row) in
          if base = [] \<or> base = RSlug row then Inr (False, db)
          else if list_ex (\<lambda>p. RSlug p = base) (t_players db) then Inr (False, db)
          else and_then
            (run_sql (\<lambda>db. db\<lparr>t_players := map (\<lambda>p. if RId p = pid then p\<lparr>RSlug := base\<rparr> else p) (t_players db)\<rparr>) db)
            (\<lambda>db. Inr (True, db)))"

definition commit :: "db \<Rightarrow> sql_error + db" where
  "commit db = (case first_broken deferred db of Some e \<Rightarrow> Inl e | None \<Rightarrow> Inr db)"

fun run_all :: "(db \<Rightarrow> db) list \<Rightarrow> db \<Rightarrow> sql_error + db" where
  "run_all [] db = Inr db"
| "run_all (f # fs) db = and_then (run_sql f db) (run_all fs)"

definition merge_steps :: "string \<Rightarrow> link \<Rightarrow> (db \<Rightarrow> db) list" where
  "merge_steps source m =
     (let d = PId (Duplicate m); c = PId (Canonical m)
      in [move_winners c d, move_losers c d, copy_parts c d, drop_parts d, copy_rankings c d, drop_rankings d,
          move_charted c d, move_aliases c d, record_alias source (SourceID (Duplicate m)) c (Confidence m),
          clear_reviews (SourceID (Duplicate m)), delete_player d])"

definition merge_link :: "(rune \<Rightarrow> bool) \<Rightarrow> link \<Rightarrow> db \<Rightarrow> sql_error + db" where
  "merge_link ul m db =
     and_then (source_of (source_query db (PId (Duplicate m)))) (\<lambda>source.
     and_then (run_all (merge_steps source m) db) (\<lambda>db1.
     and_then (reclaim_slug ul (PId (Canonical m)) db1) (\<lambda>(moved, db2). commit db2)))"

section \<open>Freed slugs, reviews, aliases\<close>

fun reclaim_all :: "(rune \<Rightarrow> bool) \<Rightarrow> int list \<Rightarrow> int \<times> db \<Rightarrow> sql_error + (int \<times> db)" where
  "reclaim_all ul [] s = Inr s"
| "reclaim_all ul (pid # pids) (n, db) =
     and_then (reclaim_slug ul pid db) (\<lambda>(moved, db'). reclaim_all ul pids (if moved then n + 1 else n, db'))"

definition merged_ids :: "db \<Rightarrow> string \<Rightarrow> int list" where
  "merged_ids db tour =
     sort (map RId (filter (\<lambda>p. RTour p = tour \<and> list_ex (\<lambda>r. fst (snd r) = RId p) (t_aliases db)) (t_players db)))"

definition reclaim_freed_slugs :: "(rune \<Rightarrow> bool) \<Rightarrow> string \<Rightarrow> bool \<Rightarrow> db \<Rightarrow> sql_error + (int \<times> db)" where
  "reclaim_freed_slugs ul tour dry_run db =
     (if merged_ids db tour = [] then Inr (0, db)
      else and_then (reclaim_all ul (merged_ids db tour) (0, db)) (\<lambda>(n, db').
        if dry_run then Inr (n, db) else and_then (commit db') (\<lambda>db'. Inr (n, db'))))"

definition queue_link :: "string \<Rightarrow> link \<Rightarrow> db \<Rightarrow> sql_error + db" where
  "queue_link tour m db =
     and_then (source_of (source_query db (PId (Duplicate m)))) (\<lambda>source.
       run_sql (\<lambda>db. db\<lparr>t_reviews := upsert ((source, SourceID (Duplicate m), PId (Canonical m)),
         (tour, Confidence m, Reason m)) (t_reviews db)\<rparr>) db)"

definition aliased_player :: "db \<Rightarrow> string \<Rightarrow> string \<Rightarrow> int option" where
  "aliased_player db source source_id = map_option fst (map_of (t_aliases db) (source, source_id))"

section \<open>The pass over the tours\<close>

record stats =
  NPlayers :: int
  Proposed :: int
  Merged :: int
  Queued :: int
  Rejected :: int
  Reclaimed :: int

fun run_links :: "(rune \<Rightarrow> bool) \<Rightarrow> bool \<Rightarrow> string \<Rightarrow> link list \<Rightarrow> stats \<Rightarrow> db \<Rightarrow> stats \<times> db \<times> sql_error option" where
  "run_links ul dry tour [] st db = (st, db, None)"
| "run_links ul dry tour (m # ms) st db =
     (if \<not> auto_link m then
        let st = st\<lparr>Queued := Queued st + 1\<rparr> in
        if dry then run_links ul dry tour ms st db
        else (case queue_link tour m db of
            Inl e \<Rightarrow> (st, db, Some e)
          | Inr db' \<Rightarrow> run_links ul dry tour ms st db')
      else
        let st = st\<lparr>Merged := Merged st + 1\<rparr> in
        if dry then run_links ul dry tour ms st db
        else (case merge_link ul m db of
            Inl e \<Rightarrow> (st, db, Some e)
          | Inr db' \<Rightarrow> run_links ul dry tour ms st db'))"

definition tour_links :: "(rune \<Rightarrow> bool) \<Rightarrow> decisions option \<Rightarrow> string \<Rightarrow> player list \<Rightarrow> link list" where
  "tour_links ul ds tour players =
     (case ds of None \<Rightarrow> reconcile ul players | Some d \<Rightarrow> apply_decisions d tour players (reconcile ul players))"

definition tour_rejected :: "(rune \<Rightarrow> bool) \<Rightarrow> decisions option \<Rightarrow> string \<Rightarrow> player list \<Rightarrow> int" where
  "tour_rejected ul ds tour players =
     (case ds of None \<Rightarrow> 0
      | Some d \<Rightarrow> int (length (filter (\<lambda>m. separated d tour (SourceID (Duplicate m)) (SourceID (Canonical m)))
          (reconcile ul players))))"

text \<open>\<open>loads tour\<close>: the query of \<open>LoadPlayers\<close> for a tour does not fail.\<close>

fun run_tours :: "(rune \<Rightarrow> bool) \<Rightarrow> (string \<Rightarrow> bool) \<Rightarrow> decisions option \<Rightarrow> bool \<Rightarrow> string list \<Rightarrow> stats \<Rightarrow> db \<Rightarrow> stats \<times> db \<times> sql_error option" where
  "run_tours ul loads ds dry [] st db = (st, db, None)"
| "run_tours ul loads ds dry (tour # tours) st db =
     (if \<not> loads tour then (st, db, Some (Driver ''players'')) else
      let players = load_players db tour;
          ms = tour_links ul ds tour players;
          st = st\<lparr>NPlayers := NPlayers st + int (length players),
                  Rejected := Rejected st + tour_rejected ul ds tour players,
                  Proposed := Proposed st + int (length ms)\<rparr>
      in case run_links ul dry tour ms st db of
           (st, db, Some e) \<Rightarrow> (st, db, Some e)
         | (st, db, None) \<Rightarrow>
             (case reclaim_freed_slugs ul tour dry db of
                Inl e \<Rightarrow> (st, db, Some e)
              | Inr (n, db') \<Rightarrow> run_tours ul loads ds dry tours (st\<lparr>Reclaimed := Reclaimed st + n\<rparr>) db'))"

definition run_identity :: "(rune \<Rightarrow> bool) \<Rightarrow> (string \<Rightarrow> bool) \<Rightarrow> decisions option \<Rightarrow> bool \<Rightarrow> string list \<Rightarrow> db \<Rightarrow> stats \<times> db \<times> sql_error option" where
  "run_identity ul loads ds dry tours db =
     run_tours ul loads ds dry tours \<lparr>NPlayers = 0, Proposed = 0, Merged = 0, Queued = 0, Rejected = 0, Reclaimed = 0\<rparr> db"

section \<open>The statements keep the immediate constraints\<close>

definition players_imm :: "prow list \<Rightarrow> bool" where
  "players_imm ps \<longleftrightarrow> distinct (map RId ps) \<and> distinct (map RSlug ps) \<and> distinct (map (\<lambda>p. (RSourceId p, RTour p)) ps)"

definition matches_imm :: "int set \<Rightarrow> mrow list \<Rightarrow> bool" where
  "matches_imm I ms \<longleftrightarrow> distinct (map MId ms) \<and> distinct (map draw_key ms) \<and> (\<forall>r \<in> set ms. Winner r \<in> I \<and> Loser r \<in> I)"

definition table_imm :: "('k \<times> 'v \<Rightarrow> bool) \<Rightarrow> ('k \<times> 'v) list \<Rightarrow> bool" where
  "table_imm ok t \<longleftrightarrow> distinct (map fst t) \<and> (\<forall>r \<in> set t. ok r)"

definition imm :: "db \<Rightarrow> bool" where
  "imm db \<longleftrightarrow> list_all (\<lambda>c. snd c db) immediate"

lemma imm_iff:
  "imm db \<longleftrightarrow> players_imm (t_players db) \<and> matches_imm (ids db) (t_matches db)
     \<and> table_imm (\<lambda>r. fst (fst r) \<in> MId ` set (t_matches db) \<and> snd (fst r) \<in> ids db) (t_parts db)
     \<and> table_imm (\<lambda>r. fst (fst r) \<in> ids db) (t_rankings db)
     \<and> table_imm (\<lambda>r. fst (snd (fst r)) \<in> ids db) (t_charted db)
     \<and> table_imm (\<lambda>r. fst (snd r) \<in> ids db) (t_aliases db)
     \<and> table_imm (\<lambda>r. snd (snd (fst r)) \<in> ids db) (t_reviews db)"
  unfolding imm_def immediate_def players_imm_def matches_imm_def table_imm_def list_all_iff by fastforce

lemma table_imm_filter: "table_imm ok t \<Longrightarrow> (\<And>r. r \<in> set t \<Longrightarrow> ok r \<Longrightarrow> P r \<Longrightarrow> ok' r) \<Longrightarrow> table_imm ok' (filter P t)"
  by (auto simp: table_imm_def distinct_filter_keys)

lemma table_imm_shrink: "table_imm ok t \<Longrightarrow> table_imm ok (filter P t)"
  by (rule table_imm_filter)

lemma set_insert_ignore: "set (insert_ignore rows t) \<subseteq> set rows \<union> set t"
  unfolding insert_ignore_def by (induction rows arbitrary: t) (fastforce simp: insert_new_def split: if_splits)+

lemma table_imm_insert_ignore:
  "table_imm ok t \<Longrightarrow> (\<And>r. r \<in> set rows \<Longrightarrow> ok r) \<Longrightarrow> table_imm ok (insert_ignore rows t)"
  unfolding table_imm_def using set_insert_ignore [of rows t] by (auto simp: distinct_insert_ignore)

lemma set_put_subset: "set (put k v t) \<subseteq> insert (k, v) (set t)"
  by (induction k v t rule: put.induct) auto

lemma table_imm_upsert: "table_imm ok t \<Longrightarrow> ok r \<Longrightarrow> table_imm ok (upsert r t)"
  unfolding table_imm_def upsert_def using set_put_subset [of "fst r" "snd r" t] by auto

lemma ids_update [simp]:
  "ids (db\<lparr>t_matches := a\<rparr>) = ids db" "ids (db\<lparr>t_parts := b\<rparr>) = ids db" "ids (db\<lparr>t_rankings := e\<rparr>) = ids db"
  "ids (db\<lparr>t_charted := f\<rparr>) = ids db" "ids (db\<lparr>t_aliases := g\<rparr>) = ids db" "ids (db\<lparr>t_reviews := h\<rparr>) = ids db"
  by (simp_all add: ids_def)

lemma imm_move_winners:
  "imm db \<Longrightarrow> c \<in> ids db \<Longrightarrow> distinct (map draw_key (t_matches (move_winners c d db))) \<Longrightarrow> imm (move_winners c d db)"
  unfolding imm_iff by (simp add: move_winners_def o_def becomes_def image_image matches_imm_def)

lemma imm_move_losers:
  "imm db \<Longrightarrow> c \<in> ids db \<Longrightarrow> distinct (map draw_key (t_matches (move_losers c d db))) \<Longrightarrow> imm (move_losers c d db)"
  unfolding imm_iff by (simp add: move_losers_def o_def becomes_def image_image matches_imm_def)

lemma imm_copy_parts: "imm db \<Longrightarrow> c \<in> ids db \<Longrightarrow> imm (copy_parts c d db)"
proof -
  assume a: "imm db" "c \<in> ids db"
  then have "table_imm (\<lambda>r. fst (fst r) \<in> MId ` set (t_matches db) \<and> snd (fst r) \<in> ids db) (t_parts (copy_parts c d db))"
    unfolding copy_parts_def by (force simp: imm_iff table_imm_def intro!: table_imm_insert_ignore [unfolded table_imm_def])
  then show ?thesis using a by (simp add: imm_iff copy_parts_def)
qed

lemma imm_drop_parts: "imm db \<Longrightarrow> imm (drop_parts d db)"
  unfolding imm_iff drop_parts_def by (simp add: table_imm_shrink)

lemma imm_copy_rankings: "imm db \<Longrightarrow> c \<in> ids db \<Longrightarrow> imm (copy_rankings c d db)"
proof -
  assume a: "imm db" "c \<in> ids db"
  have "table_imm (\<lambda>r. fst (fst r) \<in> ids db) (t_rankings (copy_rankings c d db))"
    unfolding copy_rankings_def using a by (auto simp: imm_iff intro!: table_imm_insert_ignore)
  then show ?thesis using a by (simp add: imm_iff copy_rankings_def)
qed

lemma imm_drop_rankings: "imm db \<Longrightarrow> imm (drop_rankings d db)"
  unfolding imm_iff drop_rankings_def by (simp add: table_imm_shrink)

lemma imm_move_charted:
  "imm db \<Longrightarrow> c \<in> ids db \<Longrightarrow> distinct (map fst (t_charted (move_charted c d db))) \<Longrightarrow> imm (move_charted c d db)"
  unfolding imm_iff by (auto simp: move_charted_def table_imm_def becomes_def)

lemma fst_move_aliases: "map fst (map (\<lambda>(k, p, x). (k, becomes c d p, x)) t) = map fst t"
  by (induction t) auto

lemma imm_move_aliases: "imm db \<Longrightarrow> c \<in> ids db \<Longrightarrow> imm (move_aliases c d db)"
proof -
  assume a: "imm db" "c \<in> ids db"
  have "table_imm (\<lambda>r. fst (snd r) \<in> ids db) (t_aliases (move_aliases c d db))"
    unfolding table_imm_def move_aliases_def using a
    by (simp add: fst_move_aliases imm_iff table_imm_def del: map_map) (auto simp: becomes_def)
  then show ?thesis using a by (simp add: imm_iff move_aliases_def)
qed

lemma imm_record_alias: "imm db \<Longrightarrow> c \<in> ids db \<Longrightarrow> imm (record_alias source sid c x db)"
  unfolding imm_iff record_alias_def by (simp add: table_imm_upsert)

lemma imm_clear_reviews: "imm db \<Longrightarrow> imm (clear_reviews sid db)"
  unfolding imm_iff clear_reviews_def by (simp add: table_imm_shrink)

lemma distinct_map_filter_of: "distinct (map f xs) \<Longrightarrow> distinct (map f (filter P xs))"
  by (induction xs) auto

lemma ids_delete_player: "ids (delete_player d db) = ids db - {d}"
  by (auto simp: ids_def delete_player_def)

lemma imm_delete_player:
  assumes "imm db" "\<forall>r \<in> set (t_matches db). Winner r \<noteq> d \<and> Loser r \<noteq> d"
    and "\<forall>r \<in> set (t_parts db). snd (fst r) \<noteq> d" "\<forall>r \<in> set (t_charted db). fst (snd (fst r)) \<noteq> d"
  shows "imm (delete_player d db)"
proof -
  have "players_imm (t_players (delete_player d db))"
    using assms(1) by (simp add: imm_iff players_imm_def delete_player_def distinct_map_filter_of)
  moreover have "table_imm (\<lambda>r. fst (fst r) \<in> ids db - {d}) (t_rankings (delete_player d db))"
    "table_imm (\<lambda>r. fst (snd r) \<in> ids db - {d}) (t_aliases (delete_player d db))"
    "table_imm (\<lambda>r. snd (snd (fst r)) \<in> ids db - {d}) (t_reviews (delete_player d db))"
    using assms(1) unfolding delete_player_def by (auto simp: imm_iff intro: table_imm_filter)
  moreover have "table_imm (\<lambda>r. fst (fst r) \<in> MId ` set (t_matches db) \<and> snd (fst r) \<in> ids db - {d}) (t_parts db)"
    "table_imm (\<lambda>r. fst (snd (fst r)) \<in> ids db - {d}) (t_charted db)" "matches_imm (ids db - {d}) (t_matches db)"
    using assms by (auto simp: imm_iff table_imm_def matches_imm_def)
  ultimately show ?thesis unfolding imm_iff ids_delete_player by (simp add: delete_player_def)
qed

section \<open>What the statements of a merge do together\<close>

lemma run_sql_Inr: "run_sql f db = Inr db' \<longleftrightarrow> db' = f db \<and> imm (f db)"
  by (simp add: exec_Inr imm_def)

fun keeps :: "(db \<Rightarrow> db) list \<Rightarrow> db \<Rightarrow> bool" where
  "keeps [] db \<longleftrightarrow> True"
| "keeps (f # fs) db \<longleftrightarrow> imm (f db) \<and> keeps fs (f db)"

lemma run_all_Inr: "run_all fs db = Inr db' \<longleftrightarrow> db' = fold (\<lambda>f. f) fs db \<and> keeps fs db"
proof (induction fs arbitrary: db)
  case (Cons f fs)
  show ?case
  proof (cases "imm (f db)")
    case True
    then show ?thesis using Cons by (simp add: run_sql_Inr [THEN iffD2])
  next
    case False
    then have "\<And>x. run_sql f db \<noteq> Inr x" by (simp add: run_sql_Inr)
    then show ?thesis using False by (cases "run_sql f db") auto
  qed
qed auto

definition moved_match :: "int \<Rightarrow> int \<Rightarrow> mrow \<Rightarrow> mrow" where
  "moved_match c d r = r\<lparr>Winner := becomes c d (Winner r), Loser := becomes c d (Loser r)\<rparr>"

definition moved_charted :: "int \<Rightarrow> int \<Rightarrow> (int \<times> int \<times> int) \<times> figures \<Rightarrow> (int \<times> int \<times> int) \<times> figures" where
  "moved_charted c d = (\<lambda>((m, p, n), v). ((m, becomes c d p, n), v))"

definition moved_parts :: "int \<Rightarrow> int \<Rightarrow> ((int \<times> int) \<times> part) list \<Rightarrow> ((int \<times> int) \<times> part) list" where
  "moved_parts c d t = filter (\<lambda>r. snd (fst r) \<noteq> d)
     (insert_ignore (map (\<lambda>((m, p), v). ((m, c), v)) (filter (\<lambda>((m, p), v). p = d) t)) t)"

definition moved_aliases :: "string \<Rightarrow> link \<Rightarrow> ((string \<times> string) \<times> (int \<times> real)) list \<Rightarrow> ((string \<times> string) \<times> (int \<times> real)) list" where
  "moved_aliases source m t =
     filter (\<lambda>r. fst (snd r) \<noteq> PId (Duplicate m))
       (upsert ((source, SourceID (Duplicate m)), (PId (Canonical m), Confidence m))
         (map (\<lambda>(k, p, x). (k, becomes (PId (Canonical m)) (PId (Duplicate m)) p, x)) t))"

definition after_steps :: "string \<Rightarrow> link \<Rightarrow> db \<Rightarrow> db" where
  "after_steps source m db = fold (\<lambda>f. f) (merge_steps source m) db"

lemma after_steps:
  "t_players (after_steps source m db) = filter (\<lambda>p. RId p \<noteq> PId (Duplicate m)) (t_players db)"
  "t_matches (after_steps source m db) = map (moved_match (PId (Canonical m)) (PId (Duplicate m))) (t_matches db)"
  "t_parts (after_steps source m db) = moved_parts (PId (Canonical m)) (PId (Duplicate m)) (t_parts db)"
  "t_charted (after_steps source m db) = map (moved_charted (PId (Canonical m)) (PId (Duplicate m))) (t_charted db)"
  "t_aliases (after_steps source m db) = moved_aliases source m (t_aliases db)"
  "t_reviews (after_steps source m db)
     = filter (\<lambda>r. snd (snd (fst r)) \<noteq> PId (Duplicate m)) (filter (\<lambda>r. fst (snd (fst r)) \<noteq> SourceID (Duplicate m)) (t_reviews db))"
  unfolding after_steps_def merge_steps_def moved_match_def moved_charted_def moved_parts_def moved_aliases_def
  by (simp_all add: Let_def move_winners_def move_losers_def copy_parts_def drop_parts_def copy_rankings_def
      drop_rankings_def move_charted_def move_aliases_def record_alias_def clear_reviews_def delete_player_def)

lemma keys_moved_parts:
  assumes "c \<noteq> d"
  shows "(mid, p) \<in> keys (moved_parts c d t) \<longleftrightarrow> p \<noteq> d \<and> ((mid, p) \<in> keys t \<or> p = c \<and> (mid, d) \<in> keys t)"
proof -
  have k: "keys (filter (\<lambda>r. snd (fst r) \<noteq> d) t') = {k \<in> keys t'. snd k \<noteq> d}" for t' :: "((int \<times> int) \<times> part) list"
    by auto
  have c: "(mid, p) \<in> keys (map (\<lambda>((m, p), v). ((m, c), v)) (filter (\<lambda>((m, p), v). p = d) t)) \<longleftrightarrow> p = c \<and> (mid, d) \<in> keys t"
    by force
  show ?thesis unfolding moved_parts_def k keys_insert_ignore using assms c by auto
qed

text \<open>The only obstacles: two rows of one draw, or two charted rows of one set, would become the same.\<close>

definition collides :: "int \<Rightarrow> int \<Rightarrow> db \<Rightarrow> bool" where
  "collides c d db \<longleftrightarrow> \<not> distinct (map draw_key (map (moved_match c d) (t_matches db)))
     \<or> \<not> distinct (map fst (map (moved_charted c d) (t_charted db)))"

lemma draw_key_winner_first:
  "distinct (map draw_key (map (moved_match c d) ms)) \<Longrightarrow>
   distinct (map draw_key (map (\<lambda>r. r\<lparr>Winner := becomes c d (Winner r)\<rparr>) ms))"
proof -
  let ?g = "\<lambda>(x :: int \<times> int \<times> bool, a, b). (x, min (becomes c d a) (becomes c d b), max (becomes c d a) (becomes c d b))"
  assume "distinct (map draw_key (map (moved_match c d) ms))"
  moreover have "draw_key (moved_match c d r) = ?g (draw_key (r\<lparr>Winner := becomes c d (Winner r)\<rparr>))" for r
    by (auto simp: draw_key_def moved_match_def becomes_def min_def max_def)
  ultimately have "distinct (map (\<lambda>r. ?g (draw_key (r\<lparr>Winner := becomes c d (Winner r)\<rparr>))) ms)"
    by (simp only: map_map o_def)
  then have "distinct (map (\<lambda>r. draw_key (r\<lparr>Winner := becomes c d (Winner r)\<rparr>)) ms)"
    by (rule distinct_map_factor)
  then show ?thesis by (simp add: o_def)
qed

lemma keeps_merge_steps:
  assumes "imm db" "c \<in> ids db" "c \<noteq> d" "c = PId (Canonical m)" "d = PId (Duplicate m)"
  shows "keeps (merge_steps source m) db \<longleftrightarrow> \<not> collides c d db"
proof -
  let ?s1 = "move_winners c d db"
  let ?s2 = "move_losers c d ?s1"
  let ?s3 = "copy_parts c d ?s2"
  let ?s4 = "drop_parts d ?s3"
  let ?s5 = "copy_rankings c d ?s4"
  let ?s6 = "drop_rankings d ?s5"
  let ?s7 = "move_charted c d ?s6"
  let ?s8 = "move_aliases c d ?s7"
  let ?s9 = "record_alias source (SourceID (Duplicate m)) c (Confidence m) ?s8"
  let ?s10 = "clear_reviews (SourceID (Duplicate m)) ?s9"
  have m2: "t_matches ?s2 = map (moved_match c d) (t_matches db)"
    by (simp add: move_losers_def move_winners_def moved_match_def)
  have c7: "t_charted ?s7 = map (moved_charted c d) (t_charted db)"
    by (simp add: move_charted_def drop_rankings_def copy_rankings_def drop_parts_def copy_parts_def move_losers_def
        move_winners_def moved_charted_def)
  have ids: "ids ?s1 = ids db" "ids ?s2 = ids db" "ids ?s3 = ids db" "ids ?s4 = ids db" "ids ?s5 = ids db" "ids ?s6 = ids db"
    "ids ?s7 = ids db" "ids ?s8 = ids db"
    by (simp_all add: move_winners_def move_losers_def copy_parts_def drop_parts_def copy_rankings_def drop_rankings_def
        move_charted_def move_aliases_def)
  have steps: "merge_steps source m = [move_winners c d, move_losers c d, copy_parts c d, drop_parts d, copy_rankings c d,
      drop_rankings d, move_charted c d, move_aliases c d, record_alias source (SourceID (Duplicate m)) c (Confidence m),
      clear_reviews (SourceID (Duplicate m)), delete_player d]"
    by (simp add: merge_steps_def assms(4,5) Let_def)
  have tables: "t_matches ?s10 = t_matches ?s2" "t_charted ?s10 = t_charted ?s7" "t_parts ?s10 = t_parts ?s4"
    by (simp_all add: copy_parts_def drop_parts_def copy_rankings_def drop_rankings_def move_charted_def move_aliases_def
        record_alias_def clear_reviews_def)
  show ?thesis
  proof
    assume k: "keeps (merge_steps source m) db"
    then have "imm ?s2" "imm ?s7" unfolding steps keeps.simps by blast+
    then show "\<not> collides c d db"
      unfolding collides_def using m2 c7 by (simp only: imm_iff matches_imm_def table_imm_def) simp
  next
    assume free: "\<not> collides c d db"
    then have d2: "distinct (map draw_key (t_matches ?s2))" and d7: "distinct (map fst (t_charted ?s7))"
      unfolding collides_def m2 c7 by blast+
    have "distinct (map draw_key (t_matches ?s1))"
      using draw_key_winner_first [of c d "t_matches db"] free by (simp add: collides_def move_winners_def)
    then have i1: "imm ?s1" by (rule imm_move_winners [OF assms(1,2)])
    have i2: "imm ?s2" by (rule imm_move_losers [OF i1 _ d2]) (simp add: ids assms(2))
    have i3: "imm ?s3" by (rule imm_copy_parts [OF i2]) (simp add: ids assms(2))
    have i4: "imm ?s4" by (rule imm_drop_parts [OF i3])
    have i5: "imm ?s5" by (rule imm_copy_rankings [OF i4]) (simp add: ids assms(2))
    have i6: "imm ?s6" by (rule imm_drop_rankings [OF i5])
    have i7: "imm ?s7" by (rule imm_move_charted [OF i6 _ d7]) (simp add: ids assms(2))
    have i8: "imm ?s8" by (rule imm_move_aliases [OF i7]) (simp add: ids assms(2))
    have i9: "imm ?s9" by (rule imm_record_alias [OF i8]) (simp add: ids assms(2))
    have i10: "imm ?s10" by (rule imm_clear_reviews [OF i9])
    have "imm (delete_player d ?s10)"
    proof (rule imm_delete_player [OF i10])
      show "\<forall>r \<in> set (t_matches ?s10). Winner r \<noteq> d \<and> Loser r \<noteq> d"
        unfolding tables m2 using assms(3) by (auto simp: moved_match_def becomes_def)
      show "\<forall>r \<in> set (t_parts ?s10). snd (fst r) \<noteq> d"
        unfolding tables by (simp add: drop_parts_def)
      show "\<forall>r \<in> set (t_charted ?s10). fst (snd (fst r)) \<noteq> d"
        unfolding tables c7 using assms(3) by (auto simp: moved_charted_def becomes_def split: if_splits)
    qed
    then show "keeps (merge_steps source m) db"
      unfolding steps keeps.simps using i1 i2 i3 i4 i5 i6 i7 i8 i9 i10 by blast
  qed
qed

section \<open>Slugs\<close>

text \<open>What a slug repair leaves: the rows, with at most one of them on another slug.\<close>

definition same_but_slugs :: "prow list \<Rightarrow> prow list \<Rightarrow> bool" where
  "same_but_slugs ps ps' \<longleftrightarrow> map (\<lambda>p. p\<lparr>RSlug := []\<rparr>) ps = map (\<lambda>p. p\<lparr>RSlug := []\<rparr>) ps'"

lemma same_but_slugs_refl [simp]: "same_but_slugs ps ps"
  by (simp add: same_but_slugs_def)

lemma same_but_slugs_trans: "same_but_slugs ps qs \<Longrightarrow> same_but_slugs qs rs \<Longrightarrow> same_but_slugs ps rs"
  by (simp add: same_but_slugs_def)

lemma same_but_slugs_map:
  assumes "same_but_slugs ps qs" and "\<And>p. f (p\<lparr>RSlug := []\<rparr>) = f p"
  shows "map f ps = map f qs"
proof -
  have "map f ps = map f (map (\<lambda>p. p\<lparr>RSlug := []\<rparr>) ps)" for ps by (simp add: assms(2))
  then show ?thesis using assms(1) by (metis same_but_slugs_def)
qed

definition with_slug :: "int \<Rightarrow> string \<Rightarrow> prow list \<Rightarrow> prow list" where
  "with_slug pid base ps = map (\<lambda>p. if RId p = pid then p\<lparr>RSlug := base\<rparr> else p) ps"

lemma with_slug_same: "same_but_slugs ps (with_slug pid base ps)"
  by (induction ps) (auto simp: same_but_slugs_def with_slug_def)

lemma same_rows:
  assumes "same_but_slugs (t_players db) (t_players db')"
  shows "ids db = ids db'"
proof -
  have "map RId (t_players db) = map RId (t_players db')"
    by (rule same_but_slugs_map [OF assms]) simp
  then have "set (map RId (t_players db)) = set (map RId (t_players db'))" by (rule arg_cong)
  then show ?thesis by (simp add: ids_def)
qed

lemma with_slug_slugs:
  "distinct (map RId ps) \<Longrightarrow> distinct (map RSlug ps) \<Longrightarrow> base \<notin> RSlug ` set ps \<Longrightarrow> distinct (map RSlug (with_slug pid base ps))"
proof (induction ps)
  case (Cons p ps)
  show ?case
  proof (cases "RId p = pid")
    case True
    have "RId q \<noteq> pid" if "q \<in> set ps" for q
      using Cons.prems(1) True that by (metis distinct.simps(2) image_eqI list.simps(9) list.set_map)
    then have "with_slug pid base ps = ps"
      unfolding with_slug_def by (intro map_idI) simp
    then show ?thesis using Cons.prems True by (auto simp: with_slug_def)
  next
    case False
    have "RSlug p \<notin> RSlug ` set (with_slug pid base ps)"
      using Cons.prems by (auto simp: with_slug_def)
    moreover have "with_slug pid base (p # ps) = p # with_slug pid base ps" using False by (simp add: with_slug_def)
    moreover have "distinct (map RSlug (with_slug pid base ps))" using Cons by simp
    ultimately show ?thesis by simp
  qed
qed (simp add: with_slug_def)

text \<open>The tables other than players.\<close>

definition rest :: "db \<Rightarrow> db" where
  "rest db = db\<lparr>t_players := []\<rparr>"

lemma rest_tables:
  "rest db = rest db' \<Longrightarrow> t_matches db = t_matches db' \<and> t_parts db = t_parts db' \<and> t_rankings db = t_rankings db'
     \<and> t_charted db = t_charted db' \<and> t_aliases db = t_aliases db' \<and> t_reviews db = t_reviews db'"
  unfolding rest_def by (cases db; cases db') simp

lemma reclaim_slug_facts:
  assumes "imm db" "pid \<in> ids db"
  obtains moved db' where "reclaim_slug ul pid db = Inr (moved, db')" "imm db'" "rest db' = rest db"
    "same_but_slugs (t_players db) (t_players db')"
    "\<not> moved \<Longrightarrow> db' = db"
    "moved \<Longrightarrow> \<exists>row base. row \<in> set (t_players db) \<and> RId row = pid \<and> base = slug ul (RFullName row) \<and> base \<noteq> []
       \<and> base \<notin> RSlug ` set (t_players db) \<and> t_players db' = with_slug pid base (t_players db)"
proof -
  obtain row where row: "find (\<lambda>p. RId p = pid) (t_players db) = Some row"
    using assms(2) by (cases "find (\<lambda>p. RId p = pid) (t_players db)") (auto simp: ids_def find_None_iff)
  then have mem: "row \<in> set (t_players db)" "RId row = pid" by (auto simp: find_Some_iff)
  let ?base = "slug ul (RFullName row)"
  let ?stay = "?base = [] \<or> ?base = RSlug row \<or> list_ex (\<lambda>p. RSlug p = ?base) (t_players db)"
  let ?db = "db\<lparr>t_players := with_slug pid ?base (t_players db)\<rparr>"
  show ?thesis
  proof (cases ?stay)
    case True
    then have "reclaim_slug ul pid db = Inr (False, db)" by (auto simp: reclaim_slug_def row Let_def)
    then show ?thesis using that [of False db] assms(1) by simp
  next
    case False
    then have free: "?base \<notin> RSlug ` set (t_players db)" by (auto simp: list_ex_iff)
    have same: "same_but_slugs (t_players db) (t_players ?db)" by (simp add: with_slug_same)
    have ids: "ids ?db = ids db" using same_rows [OF same] by simp
    have "map RId (t_players ?db) = map RId (t_players db)"
      "map (\<lambda>p. (RSourceId p, RTour p)) (t_players ?db) = map (\<lambda>p. (RSourceId p, RTour p)) (t_players db)"
      by (rule same_but_slugs_map [OF same, symmetric], simp)+
    then have "players_imm (t_players ?db)"
      using assms(1) with_slug_slugs [OF _ _ free, of pid] unfolding imm_iff players_imm_def by simp
    then have i: "imm ?db" using assms(1) ids by (simp add: imm_iff)
    then have "run_sql (\<lambda>db. db\<lparr>t_players := with_slug pid ?base (t_players db)\<rparr>) db = Inr ?db"
      by (simp add: run_sql_Inr)
    then have "reclaim_slug ul pid db = Inr (True, ?db)"
      using False by (simp add: reclaim_slug_def row Let_def with_slug_def)
    then show ?thesis
      using that [of True ?db] i same mem free False by (simp add: rest_def) blast
  qed
qed

section \<open>Properties of a merge\<close>

lemma commit_Inr: "commit db = Inr db' \<longleftrightarrow> db' = db \<and> list_all (\<lambda>c. snd c db) deferred"
  using first_broken_None [of deferred db] by (cases "first_broken deferred db") (auto simp: commit_def)

lemma deferred_iff:
  "list_all (\<lambda>c. snd c db) deferred \<longleftrightarrow>
     (\<forall>r \<in> set (t_matches db). (MId r, Winner r) \<in> keys (t_parts db) \<and> (MId r, Loser r) \<in> keys (t_parts db))"
  unfolding deferred_def by (simp add: list_all_iff) blast

lemma db_ok_iff: "db_ok db \<longleftrightarrow> imm db \<and> list_all (\<lambda>c. snd c db) deferred"
  by (simp add: db_ok_def imm_def)

lemma deferred_moved:
  assumes "list_all (\<lambda>c. snd c db) deferred" "c \<noteq> d" "t_matches db' = map (moved_match c d) (t_matches db)"
    and "t_parts db' = moved_parts c d (t_parts db)"
  shows "list_all (\<lambda>c. snd c db') deferred"
  using assms(1) unfolding deferred_iff assms(3,4)
  by (auto simp: moved_match_def becomes_def keys_moved_parts [OF assms(2)] assms(2))

lemma source_of_query: "\<exists>s. source_of (source_query db pid) = Inr s"
  by (auto simp: source_of_def source_query_def split: list.splits)

lemma merge_link_cases:
  assumes "db_ok db" "PId (Canonical m) \<in> ids db" "PId (Canonical m) \<noteq> PId (Duplicate m)"
    and source: "source_of (source_query db (PId (Duplicate m))) = Inr source"
  shows "if collides (PId (Canonical m)) (PId (Duplicate m)) db then \<exists>e. merge_link ul m db = Inl e
    else \<exists>moved db'. reclaim_slug ul (PId (Canonical m)) (after_steps source m db) = Inr (moved, db')
      \<and> imm (after_steps source m db) \<and> merge_link ul m db = Inr db' \<and> db_ok db'"
proof -
  let ?c = "PId (Canonical m)" and ?d = "PId (Duplicate m)"
  have imm: "imm db" "list_all (\<lambda>c. snd c db) deferred" using assms(1) by (simp_all add: db_ok_iff)
  note keeps = keeps_merge_steps [OF imm(1) assms(2,3) refl refl, of source]
  show ?thesis
  proof (cases "collides ?c ?d db")
    case True
    then have "\<And>x. run_all (merge_steps source m) db \<noteq> Inr x" using keeps by (simp add: run_all_Inr)
    then obtain e where "run_all (merge_steps source m) db = Inl e" by (cases "run_all (merge_steps source m) db") auto
    then show ?thesis using True by (simp add: merge_link_def source)
  next
    case False
    then have ra: "run_all (merge_steps source m) db = Inr (after_steps source m db)" "keeps (merge_steps source m) db"
      using keeps by (simp_all add: run_all_Inr after_steps_def)
    have last: "keeps (fs @ [f]) x \<Longrightarrow> imm (fold (\<lambda>f. f) (fs @ [f]) x)" for fs :: "(db \<Rightarrow> db) list" and f x
      by (induction fs arbitrary: x) auto
    have "merge_steps source m = butlast (merge_steps source m) @ [delete_player ?d]"
      by (simp add: merge_steps_def Let_def)
    then have i: "imm (after_steps source m db)" using ra(2) last unfolding after_steps_def by metis
    have "?c \<in> ids (after_steps source m db)"
      using assms(2,3) by (auto simp: ids_def after_steps)
    from reclaim_slug_facts [OF i this, of ul] obtain moved db'
      where r: "reclaim_slug ul ?c (after_steps source m db) = Inr (moved, db')" "imm db'" "rest db' = rest (after_steps source m db)"
      by metis
    have d: "list_all (\<lambda>c. snd c db') deferred"
      by (rule deferred_moved [OF imm(2) assms(3)]) (use rest_tables [OF r(3)] in \<open>simp_all add: after_steps\<close>)
    then have "merge_link ul m db = Inr db'"
      by (simp add: merge_link_def source ra(1) r(1) commit_Inr)
    then show ?thesis using False r(1,2) d i by (simp add: db_ok_iff)
  qed
qed

text \<open>
  C10: a merge of two rows of a consistent database goes through exactly when it makes no two matches of a
  draw and no two charted sets of a match coincide; every constraint of the schema, deferred ones
  included, then holds again. Otherwise it fails, and the transaction leaves the database as it was.
\<close>
theorem merge_goes_through:
  assumes "db_ok db" "PId (Canonical m) \<in> ids db" "PId (Canonical m) \<noteq> PId (Duplicate m)"
  shows "(case merge_link ul m db of
     Inl e \<Rightarrow> collides (PId (Canonical m)) (PId (Duplicate m)) db
   | Inr db' \<Rightarrow> \<not> collides (PId (Canonical m)) (PId (Duplicate m)) db \<and> db_ok db')"
proof -
  obtain source where "source_of (source_query db (PId (Duplicate m))) = Inr source" using source_of_query by metis
  from merge_link_cases [OF assms this, of ul] show ?thesis by (auto split: if_splits)
qed

lemma map_of_moved_aliases:
  assumes "distinct (map fst t)" "PId (Canonical m) \<noteq> PId (Duplicate m)"
  shows "map_option fst (map_of (moved_aliases source m t) k) =
    (if k = (source, SourceID (Duplicate m)) then Some (PId (Canonical m))
     else map_option (becomes (PId (Canonical m)) (PId (Duplicate m)) \<circ> fst) (map_of t k))"
proof -
  let ?c = "PId (Canonical m)" and ?d = "PId (Duplicate m)"
  let ?t = "map (\<lambda>(k, p, x). (k, becomes ?c ?d p, x)) t"
  let ?u = "upsert ((source, SourceID (Duplicate m)), (?c, Confidence m)) ?t"
  have gone: "\<forall>r \<in> set ?t. fst (snd r) \<noteq> ?d" using assms(2) by (auto simp: becomes_def split: if_splits)
  have "\<forall>r \<in> set ?u. fst (snd r) \<noteq> ?d"
    unfolding upsert_def using set_put_subset [of "(source, SourceID (Duplicate m))" "(?c, Confidence m)" ?t] gone assms(2)
    by auto
  then have "filter (\<lambda>r. fst (snd r) \<noteq> ?d) ?u = ?u" by (rule filter_True)
  then have all: "moved_aliases source m t = ?u" by (simp add: moved_aliases_def)
  have one: "map_of (map (\<lambda>(k, p, x). (k, becomes ?c ?d p, x)) u) k = map_option (\<lambda>(p, x). (becomes ?c ?d p, x)) (map_of u k)" for u
    by (induction u) auto
  show ?thesis unfolding all upsert_def
    by (cases "map_of t k") (auto simp: one)
qed

text \<open>
  C9: after a merge only the canonical row is left, and it has everything. The other players keep their
  rows, ids and names, and at most the canonical row moves to a slug nobody holds; every match keeps its
  id and draw with the canonical player in the duplicate's place; a match has the canonical player as a
  participant exactly when it had either, with his own figures first; every alias of the duplicate and
  the duplicate's source id lead to the canonical row; and nothing waits for review under that id.
\<close>
theorem merge_leaves_one_player:
  assumes "db_ok db" "PId (Canonical m) \<in> ids db" "PId (Canonical m) \<noteq> PId (Duplicate m)"
    and "merge_link ul m db = Inr db'" "c = PId (Canonical m)" "d = PId (Duplicate m)"
    and "source_of (source_query db d) = Inr source"
  shows "ids db' = ids db - {d}
    \<and> same_but_slugs (filter (\<lambda>p. RId p \<noteq> d) (t_players db)) (t_players db')
    \<and> (\<forall>p \<in> set (t_players db'). p \<in> set (t_players db) \<or> RId p = c \<and> RSlug p = slug ul (RFullName p))
    \<and> t_matches db' = map (moved_match c d) (t_matches db)
    \<and> (\<forall>mid p. (mid, p) \<in> keys (t_parts db') \<longleftrightarrow> p \<noteq> d \<and> ((mid, p) \<in> keys (t_parts db) \<or> p = c \<and> (mid, d) \<in> keys (t_parts db)))
    \<and> (\<forall>mid v. map_of (t_parts db) (mid, c) = Some v \<longrightarrow> map_of (t_parts db') (mid, c) = Some v)
    \<and> aliased_player db' source (SourceID (Duplicate m)) = Some c
    \<and> (\<forall>s i p. aliased_player db s i = Some p \<and> (s, i) \<noteq> (source, SourceID (Duplicate m)) \<longrightarrow>
        aliased_player db' s i = Some (becomes c d p))
    \<and> (\<forall>s cand. (s, SourceID (Duplicate m), cand) \<notin> keys (t_reviews db'))"
proof -
  have src: "source_of (source_query db (PId (Duplicate m))) = Inr source" using assms(6,7) by simp
  note cases = merge_link_cases [OF assms(1-3) src, of ul]
  have free: "\<not> collides (PId (Canonical m)) (PId (Duplicate m)) db"
    using cases assms(4) by (auto split: if_splits)
  let ?a = "after_steps source m db"
  obtain moved where r: "reclaim_slug ul c ?a = Inr (moved, db')" and i: "imm ?a"
    using cases free assms(4,5) by auto
  have ida: "ids ?a = ids db - {d}" by (auto simp: ids_def after_steps assms(6))
  then have ca: "c \<in> ids ?a" using assms(2,3,5,6) by simp
  from reclaim_slug_facts [OF i ca, of ul] obtain moved0 db0 where f0: "reclaim_slug ul c ?a = Inr (moved0, db0)" "rest db0 = rest ?a"
    "same_but_slugs (t_players ?a) (t_players db0)" "\<not> moved0 \<Longrightarrow> db0 = ?a"
    "moved0 \<Longrightarrow> \<exists>row base. row \<in> set (t_players ?a) \<and> RId row = c \<and> base = slug ul (RFullName row) \<and> base \<noteq> []
       \<and> base \<notin> RSlug ` set (t_players ?a) \<and> t_players db0 = with_slug c base (t_players ?a)" by metis
  have f: "rest db' = rest ?a" "same_but_slugs (t_players ?a) (t_players db')" "\<not> moved \<Longrightarrow> db' = ?a"
    "moved \<Longrightarrow> \<exists>row base. row \<in> set (t_players ?a) \<and> RId row = c \<and> base = slug ul (RFullName row) \<and> base \<noteq> []
       \<and> base \<notin> RSlug ` set (t_players ?a) \<and> t_players db' = with_slug c base (t_players ?a)"
    using f0 r by auto
  note tables = rest_tables [OF f(1)]
  have 1: "ids db' = ids db - {d}" using same_rows [OF f(2)] ida by simp
  have 2: "same_but_slugs (filter (\<lambda>p. RId p \<noteq> d) (t_players db)) (t_players db')"
    using f(2) by (simp add: after_steps assms(6))
  have 3: "p \<in> set (t_players db) \<or> RId p = c \<and> RSlug p = slug ul (RFullName p)" if p: "p \<in> set (t_players db')" for p
  proof (cases moved)
    case True
    from f(4) [OF True] obtain row where row: "row \<in> set (t_players ?a)" "RId row = c"
      "t_players db' = with_slug c (slug ul (RFullName row)) (t_players ?a)" by metis
    have dist: "distinct (map RId (t_players ?a))" using i by (simp add: imm_iff players_imm_def)
    obtain p0 where p0: "p0 \<in> set (t_players ?a)" "p = (if RId p0 = c then p0\<lparr>RSlug := slug ul (RFullName row)\<rparr> else p0)"
      using p unfolding row(3) with_slug_def by auto
    have "RId p0 = c \<Longrightarrow> p0 = row"
      using dist row(1,2) p0(1) by (metis distinct_map inj_onD)
    then show ?thesis using p0 row(2) by (auto simp: after_steps)
  next
    case False
    then show ?thesis using p f(3) by (auto simp: after_steps)
  qed
  have 4: "t_matches db' = map (moved_match c d) (t_matches db)"
    using tables by (simp add: after_steps assms(5,6))
  have parts: "t_parts db' = moved_parts c d (t_parts db)" using tables by (simp add: after_steps assms(5,6))
  have ne: "c \<noteq> d" using assms(3,5,6) by simp
  have 6: "map_of (t_parts db') (mid, c) = Some v" if "map_of (t_parts db) (mid, c) = Some v" for mid v
    unfolding parts moved_parts_def map_of_filter_keys [where P = "\<lambda>k. snd k \<noteq> d"]
    using that ne by (simp add: map_of_insert_ignore)
  have al: "t_aliases db' = moved_aliases source m (t_aliases db)" using tables by (simp add: after_steps)
  have da: "distinct (map fst (t_aliases db))" using assms(1) by (simp add: db_ok_iff imm_iff table_imm_def)
  note am = map_of_moved_aliases [OF da assms(3), of source, folded al assms(5,6)]
  have 7: "aliased_player db' source (SourceID (Duplicate m)) = Some c"
    using am [of "(source, SourceID (Duplicate m))"] by (simp add: aliased_player_def)
  have 8: "aliased_player db' s i = Some (becomes c d p)"
    if "aliased_player db s i = Some p" "(s, i) \<noteq> (source, SourceID (Duplicate m))" for s i p
    using am [of "(s, i)"] that by (auto simp: aliased_player_def)
  have 9: "(s, SourceID (Duplicate m), cand) \<notin> keys (t_reviews db')" for s cand
    using tables by (auto simp: after_steps)
  have 5: "(mid, p) \<in> keys (t_parts db') \<longleftrightarrow> p \<noteq> d \<and> ((mid, p) \<in> keys (t_parts db) \<or> p = c \<and> (mid, d) \<in> keys (t_parts db))"
    for mid p
    unfolding parts by (rule keys_moved_parts [OF ne])
  show ?thesis
    by (intro conjI ballI allI impI 1 2 4 5 7) (erule 3, erule 6, erule conjE, erule 8, assumption, rule 9)
qed

section \<open>Properties of a pass\<close>

lemma reclaim_slug_Inr:
  assumes "reclaim_slug ul pid db = Inr (moved, db')" "imm db"
  shows "imm db' \<and> rest db' = rest db \<and> ids db' = ids db"
proof -
  have "pid \<in> ids db"
    using assms(1) by (cases "find (\<lambda>p. RId p = pid) (t_players db)") (auto simp: reclaim_slug_def ids_def find_Some_iff)
  from reclaim_slug_facts [OF assms(2) this, of ul] show ?thesis
    using assms(1) same_rows by (metis Inr_inject Pair_inject)
qed

lemma fold_imm: "keeps fs db \<Longrightarrow> fs \<noteq> [] \<or> imm db \<Longrightarrow> imm (fold (\<lambda>f. f) fs db)"
  by (induction fs arbitrary: db) auto

lemma merge_link_Inr:
  assumes "merge_link ul m db = Inr db'"
  shows "db_ok db' \<and> ids db' = ids db - {PId (Duplicate m)} \<and> PId (Canonical m) \<in> ids db'"
proof -
  obtain source db1 moved db2 where m: "run_all (merge_steps source m) db = Inr db1"
    "reclaim_slug ul (PId (Canonical m)) db1 = Inr (moved, db2)" "commit db2 = Inr db'"
    using assms by (auto simp: merge_link_def and_then_Inr)
  have db1: "db1 = after_steps source m db" "keeps (merge_steps source m) db"
    using m(1) by (simp_all add: run_all_Inr after_steps_def)
  have "imm db1" unfolding db1(1) after_steps_def
    by (rule fold_imm [OF db1(2)]) (simp add: merge_steps_def Let_def)
  note r = reclaim_slug_Inr [OF m(2) this]
  have "ids db1 = ids db - {PId (Duplicate m)}" unfolding db1(1) by (auto simp: ids_def after_steps)
  moreover have "PId (Canonical m) \<in> ids db1"
  proof -
    obtain row where "find (\<lambda>p. RId p = PId (Canonical m)) (t_players db1) = Some row"
      using m(2) by (cases "find (\<lambda>p. RId p = PId (Canonical m)) (t_players db1)") (auto simp: reclaim_slug_def)
    then show ?thesis unfolding find_Some_iff ids_def by (metis image_eqI nth_mem)
  qed
  ultimately show ?thesis using r m(3) by (simp add: commit_Inr db_ok_iff)
qed

lemma queue_link_Inr:
  assumes "queue_link tour m db = Inr db'" "db_ok db"
  shows "db_ok db' \<and> ids db' = ids db"
proof -
  obtain source where "run_sql (\<lambda>db. db\<lparr>t_reviews := upsert ((source, SourceID (Duplicate m), PId (Canonical m)),
         (tour, Confidence m, Reason m)) (t_reviews db)\<rparr>) db = Inr db'"
    using assms(1) by (auto simp: queue_link_def and_then_Inr)
  then show ?thesis
    using assms(2) unfolding run_sql_Inr db_ok_iff deferred_iff by (auto simp: ids_def)
qed

lemma run_links_facts:
  assumes "run_links ul dry tour ms st db = (st', db', err)" "db_ok db"
  shows "db_ok db' \<and> (dry \<longrightarrow> db' = db) \<and> Proposed st' = Proposed st
    \<and> (err = None \<longrightarrow> Merged st' + Queued st' = Merged st + Queued st + int (length ms))
    \<and> (err = None \<and> \<not> dry \<longrightarrow> ids db' = ids db - (\<lambda>m. PId (Duplicate m)) ` {m \<in> set ms. auto_link m})"
  using assms
proof (induction ul dry tour ms st db rule: run_links.induct)
  case (1 ul dry tour st db)
  then show ?case by auto
next
  case (2 ul dry tour m ms st db)
  show ?case
  proof (cases "auto_link m")
    case False
    show ?thesis
    proof (cases dry)
      case True
      then show ?thesis using "2.prems" "2.IH"(1) [OF False refl True] False by simp
    next
      case nd: False
      show ?thesis
      proof (cases "queue_link tour m db")
        case (Inl e)
        then show ?thesis using "2.prems" False nd by auto
      next
        case (Inr db1)
        note q = queue_link_Inr [OF Inr "2.prems"(2)]
        have "{m' \<in> set (m # ms). auto_link m'} = {m' \<in> set ms. auto_link m'}" using False by auto
        then show ?thesis using "2.prems" "2.IH"(2) [OF False refl nd Inr] False nd Inr q by simp
      qed
    qed
  next
    case True
    have nn: "\<not> \<not> auto_link m" using True by simp
    show ?thesis
    proof (cases dry)
      case d: True
      then show ?thesis using "2.prems" "2.IH"(3) [OF nn refl d] True by simp
    next
      case nd: False
      show ?thesis
      proof (cases "merge_link ul m db")
        case (Inl e)
        then show ?thesis using "2.prems" True nd by auto
      next
        case (Inr db1)
        note q = merge_link_Inr [OF Inr]
        have "{m' \<in> set (m # ms). auto_link m'} = insert m {m' \<in> set ms. auto_link m'}" using True by auto
        then show ?thesis using "2.prems" "2.IH"(4) [OF nn refl nd Inr] True nd Inr q by auto
      qed
    qed
  qed
qed

text \<open>The row a player's matches end with when the links that merge are applied in their order.\<close>

definition land_step :: "link \<Rightarrow> int \<Rightarrow> int" where
  "land_step m p = (if auto_link m \<and> p = PId (Duplicate m) then PId (Canonical m) else p)"

definition lands :: "link list \<Rightarrow> int \<Rightarrow> int" where
  "lands ms p = fold land_step ms p"

lemma lands_Cons: "lands (m # ms) p = lands ms (land_step m p)"
  by (simp add: lands_def)

lemma run_links_lands:
  "run_links ul False tour ms st db = (st', db', None) \<Longrightarrow> db_ok db \<Longrightarrow> p \<in> ids db \<Longrightarrow> lands ms p \<in> ids db'"
proof (induction ms arbitrary: st db p)
  case Nil
  then show ?case by (simp add: lands_def)
next
  case (Cons m ms)
  show ?case
  proof (cases "auto_link m")
    case False
    then obtain db1 where q: "queue_link tour m db = Inr db1"
      and rest: "run_links ul False tour ms (st\<lparr>Queued := Queued st + 1\<rparr>) db1 = (st', db', None)"
      using Cons.prems(1) by (cases "queue_link tour m db") (simp_all add: Let_def)
    note f = queue_link_Inr [OF q Cons.prems(2)]
    have "lands ms p \<in> ids db'" by (rule Cons.IH [OF rest]) (use f Cons.prems(3) in simp_all)
    then show ?thesis using False by (simp add: lands_Cons land_step_def)
  next
    case True
    then obtain db1 where q: "merge_link ul m db = Inr db1"
      and rest: "run_links ul False tour ms (st\<lparr>Merged := Merged st + 1\<rparr>) db1 = (st', db', None)"
      using Cons.prems(1) by (cases "merge_link ul m db") (simp_all add: Let_def)
    note f = merge_link_Inr [OF q]
    have "land_step m p \<in> ids db1"
    proof (cases "p = PId (Duplicate m)")
      case same: True
      then have "land_step m p = PId (Canonical m)" using True by (simp add: land_step_def)
      then show ?thesis using f by metis
    next
      case False
      then show ?thesis using f Cons.prems(3) by (simp add: land_step_def)
    qed
    then have "lands ms (land_step m p) \<in> ids db'" by (rule Cons.IH [OF rest f [THEN conjunct1]])
    then show ?thesis by (simp only: lands_Cons)
  qed
qed

text \<open>Links that are stars: no row folded twice, no kept row folded.\<close>

definition stars :: "link list \<Rightarrow> bool" where
  "stars ms \<longleftrightarrow> distinct (map (\<lambda>m. PId (Duplicate m)) ms)
     \<and> (\<forall>m \<in> set ms. \<forall>m' \<in> set ms. PId (Canonical m) \<noteq> PId (Duplicate m'))"

lemma lands_other: "p \<notin> (\<lambda>m. PId (Duplicate m)) ` set ms \<Longrightarrow> lands ms p = p"
  by (induction ms) (auto simp: lands_Cons land_step_def lands_def)

lemma lands_star: "stars ms \<Longrightarrow> m \<in> set ms \<Longrightarrow> auto_link m \<Longrightarrow> lands ms (PId (Duplicate m)) = PId (Canonical m)"
proof (induction ms)
  case (Cons x ms)
  show ?case
  proof (cases "m = x")
    case True
    have "PId (Canonical m) \<notin> (\<lambda>m. PId (Duplicate m)) ` set ms" using Cons.prems(1,2) by (auto simp: stars_def)
    then show ?thesis using lands_other Cons.prems(3) True by (simp add: lands_Cons land_step_def)
  next
    case False
    then have m: "m \<in> set ms" using Cons.prems(2) by simp
    then have "PId (Duplicate m) \<in> (\<lambda>m. PId (Duplicate m)) ` set ms" by simp
    then have "PId (Duplicate m) \<noteq> PId (Duplicate x)" using Cons.prems(1) by (auto simp: stars_def)
    moreover have "stars ms" using Cons.prems(1) by (simp add: stars_def)
    ultimately show ?thesis using Cons.IH m Cons.prems(3) by (simp add: lands_Cons land_step_def)
  qed
qed simp

lemma reclaim_all_Inr:
  "reclaim_all ul pids (n, db) = Inr (n', db') \<Longrightarrow> imm db \<Longrightarrow> imm db' \<and> rest db' = rest db \<and> ids db' = ids db"
proof (induction pids arbitrary: n db)
  case (Cons pid pids)
  obtain moved db1 where r: "reclaim_slug ul pid db = Inr (moved, db1)"
    "reclaim_all ul pids (if moved then n + 1 else n, db1) = Inr (n', db')"
    using Cons.prems(1) by (auto simp: and_then_Inr)
  show ?case using Cons.IH [OF r(2)] reclaim_slug_Inr [OF r(1) Cons.prems(2)] by simp
qed simp

lemma reclaim_freed_Inr:
  assumes "reclaim_freed_slugs ul tour dry db = Inr (n, db')" "db_ok db"
  shows "db_ok db' \<and> (dry \<longrightarrow> db' = db) \<and> ids db' = ids db"
proof (cases "merged_ids db tour = [] \<or> dry")
  case True
  then show ?thesis
    using assms unfolding reclaim_freed_slugs_def
    by (cases "merged_ids db tour = []") (auto simp: and_then_Inr)
next
  case False
  then obtain n0 db0 where "reclaim_all ul (merged_ids db tour) (0, db) = Inr (n0, db0)" "commit db0 = Inr db'"
    using assms(1) by (auto simp: reclaim_freed_slugs_def and_then_Inr)
  then show ?thesis using reclaim_all_Inr [of ul _ 0 db n0 db0] assms(2) False by (auto simp: db_ok_iff commit_Inr)
qed



lemma load_players_distinct: "db_ok db \<Longrightarrow> distinct (map PId (load_players db tour))"
proof -
  assume "db_ok db"
  then have "distinct (map RId (t_players db))" by (simp add: db_ok_iff imm_iff players_imm_def)
  then have "distinct (map RId (filter (\<lambda>p. RTour p = tour) (t_players db)))" by (rule distinct_map_filter_of)
  moreover have "map PId (load_players db tour) = map RId (filter (\<lambda>p. RTour p = tour) (t_players db))"
    by (simp add: load_players_def load_player_def o_def)
  ultimately show ?thesis by simp
qed

lemma reconcile_stars:
  assumes "db_ok db"
  shows "stars (reconcile ul (load_players db tour))"
proof -
  let ?ps = "load_players db tour"
  have dist: "distinct (map PId ?ps)" by (rule load_players_distinct [OF assms])
  then have dps: "distinct ?ps" by (simp add: distinct_map)
  have inj: "inj_on PId (set ?ps)" using dist by (simp add: distinct_map)
  have ends: "Canonical m \<in> set ?ps" "Duplicate m \<in> set ?ps" if "m \<in> set (reconcile ul ?ps)" for m
    using reconcile_ends [OF dps that] by simp_all
  have "distinct (map Duplicate (reconcile ul ?ps))" by (rule reconcile_duplicates_distinct [OF dps])
  moreover have "inj_on PId (set (map Duplicate (reconcile ul ?ps)))"
    by (rule inj_on_subset [OF inj]) (use ends in auto)
  ultimately have "distinct (map PId (map Duplicate (reconcile ul ?ps)))" by (simp only: distinct_map simp_thms)
  then have "distinct (map (\<lambda>m. PId (Duplicate m)) (reconcile ul ?ps))" by (simp add: o_def)
  moreover have "PId (Canonical m) \<noteq> PId (Duplicate m')"
    if m: "m \<in> set (reconcile ul ?ps)" "m' \<in> set (reconcile ul ?ps)" for m m'
    using reconcile_apart [OF dps m] ends [OF m(1)] ends [OF m(2)] inj by (metis inj_onD)
  ultimately show ?thesis by (simp add: stars_def)
qed

text \<open>
  C11: A pass over one tour that finishes, with or without decisions, folds away exactly the duplicates of the links
  that merge, and nobody is lost: every player there was ends at a row that is still there, the one the merges lead to
  in the order they were made, through a chain of them where a decision adds a link to a row that is folded in turn.
  Where no row is folded twice and no kept row is folded, as among the links proposed without decisions, that row is
  the one the player's own link keeps.
\<close>
theorem pass_folds_auto_links:
  assumes "db_ok db" "run_identity ul loads ds False [tour] db = (st, db', None)"
    and "links = tour_links ul ds tour (load_players db tour)"
  shows "ids db' = ids db - (\<lambda>m. PId (Duplicate m)) ` {m \<in> set links. auto_link m}
    \<and> (\<forall>p \<in> ids db. lands links p \<in> ids db')
    \<and> (ds = None \<or> stars links \<longrightarrow> (\<forall>m \<in> set links. auto_link m \<longrightarrow> lands links (PId (Duplicate m)) = PId (Canonical m)))"
proof -
  let ?ps = "load_players db tour"
  let ?st = "\<lparr>NPlayers = int (length ?ps), Proposed = int (length links), Merged = 0, Queued = 0,
    Rejected = tour_rejected ul ds tour ?ps, Reclaimed = 0\<rparr>"
  obtain st1 db1 e1 where l: "run_links ul False tour links ?st db = (st1, db1, e1)" by (metis prod_cases3)
  have ok: "loads tour" using assms(2) by (cases "loads tour") (simp_all add: run_identity_def)
  have run: "run_identity ul loads ds False [tour] db =
      (case e1 of Some e \<Rightarrow> (st1, db1, Some e)
       | None \<Rightarrow> (case reclaim_freed_slugs ul tour False db1 of
            Inl e \<Rightarrow> (st1, db1, Some e)
          | Inr (n, db') \<Rightarrow> (st1\<lparr>Reclaimed := Reclaimed st1 + n\<rparr>, db', None)))"
    unfolding run_identity_def run_tours.simps Let_def assms(3) [symmetric]
    using l ok by (simp split: option.split sum.split)
  then have e1: "e1 = None" using assms(2) by (cases e1) simp_all
  then obtain n where n: "reclaim_freed_slugs ul tour False db1 = Inr (n, db')"
    using assms(2) unfolding run
    by (cases "reclaim_freed_slugs ul tour False db1") (simp_all split: prod.splits)
  have lf: "db_ok db1" "ids db1 = ids db - (\<lambda>m. PId (Duplicate m)) ` {m \<in> set links. auto_link m}"
    using run_links_facts [OF l assms(1)] e1 by blast+
  have same: "ids db' = ids db1" using reclaim_freed_Inr [OF n lf(1)] by blast
  have there: "lands links p \<in> ids db'" if "p \<in> ids db" for p
    using run_links_lands [OF l [unfolded e1] assms(1) that] same by simp
  have "stars links" if "ds = None" using reconcile_stars [OF assms(1)] that assms(3) by (simp add: tour_links_def)
  then have "lands links (PId (Duplicate m)) = PId (Canonical m)"
    if "ds = None \<or> stars links" "m \<in> set links" "auto_link m" for m using lands_star that by blast
  then show ?thesis using lf(2) same there by simp
qed

section \<open>A sample database\<close>

definition sample_db :: db where
  "sample_db =
     \<lparr>t_players =
        [\<lparr>RId = 1, RSourceId = ''104925'', RTour = ''atp'', RSlug = ''ab'', RFullName = text_of ''a b'', RCountry = Some ''SRB'', RBirth = Some (1987, 5, 22)\<rparr>,
         \<lparr>RId = 2, RSourceId = ''D643'', RTour = ''atp'', RSlug = ''ba'', RFullName = text_of ''a b'', RCountry = Some ''SRB'', RBirth = None\<rparr>,
         \<lparr>RId = 3, RSourceId = ''7'', RTour = ''atp'', RSlug = ''c'', RFullName = text_of ''c'', RCountry = None, RBirth = None\<rparr>],
      t_matches = [\<lparr>MId = 7, Draw = (1, 1, False), Winner = 2, Loser = 3, MSource = ''tml-atp'', PlayedOn = (2025, 1)\<rparr>],
      t_parts = [((7, 2), \<lparr>Won = True, Age = Some 38, Line = []\<rparr>), ((7, 3), \<lparr>Won = False, Age = None, Line = []\<rparr>)],
      t_rankings = [], t_charted = [], t_aliases = [], t_reviews = []\<rparr>"

lemma sample_db_ok: "db_ok sample_db"
  by (simp add: db_ok_def immediate_def deferred_def sample_db_def ids_def draw_key_def)

lemma sample_link_ids: "PId (Canonical sample_link) = 1" "PId (Duplicate sample_link) = 2"
  by (simp_all add: sample_link_def sample_row_def sample_stub_def)

lemma sample_free: "\<not> collides 1 2 sample_db"
  by (simp add: collides_def sample_db_def moved_match_def)

lemma sample_source: "source_of (source_query sample_db 2) = Inr ''tml-atp''"
  by (simp add: source_of_def source_query_def most_sources_def parts_of_def sample_db_def group_by_def put_append_def)

lemma sample_ids: "ids sample_db = {1, 2, 3}"
  by (simp add: ids_def sample_db_def)

theorem merge_goes_through_witness: "\<exists>db'. merge_link (\<lambda>r. True) sample_link sample_db = Inr db' \<and> db_ok db'"
proof -
  have "PId (Canonical sample_link) \<in> ids sample_db" "PId (Canonical sample_link) \<noteq> PId (Duplicate sample_link)"
    by (simp_all add: sample_link_ids sample_ids)
  from merge_goes_through [OF sample_db_ok this, of "\<lambda>r. True"] show ?thesis
    using sample_free by (cases "merge_link (\<lambda>r. True) sample_link sample_db") (simp_all add: sample_link_ids)
qed

theorem merge_leaves_one_player_witness:
  "\<exists>db'. merge_link (\<lambda>r. True) sample_link sample_db = Inr db' \<and> ids db' = {1, 3}
     \<and> aliased_player db' ''tml-atp'' ''D643'' = Some 1"
proof -
  have c: "PId (Canonical sample_link) \<in> ids sample_db" "PId (Canonical sample_link) \<noteq> PId (Duplicate sample_link)"
    by (simp_all add: sample_link_ids sample_ids)
  have src: "source_of (source_query sample_db (PId (Duplicate sample_link))) = Inr ''tml-atp''"
    by (simp add: sample_link_ids sample_source)
  obtain db' where m: "merge_link (\<lambda>r. True) sample_link sample_db = Inr db'"
    using merge_link_cases [OF sample_db_ok c src, of "\<lambda>r. True"] sample_free by (auto simp: sample_link_ids)
  have "SourceID (Duplicate sample_link) = ''D643''" by (simp add: sample_link_def sample_stub_def)
  then have "ids db' = {1, 2, 3} - {2} \<and> aliased_player db' ''tml-atp'' ''D643'' = Some 1"
    using merge_leaves_one_player [OF sample_db_ok c m refl refl src] by (simp only: sample_link_ids sample_ids)
  moreover have "{1, 2, 3} - {2} = {1, 3 :: int}" by auto
  ultimately show ?thesis using m by simp
qed

lemma reclaim_all_ok: "imm db \<Longrightarrow> set pids \<subseteq> ids db \<Longrightarrow> \<exists>r. reclaim_all ul pids (n, db) = Inr r"
proof (induction pids arbitrary: n db)
  case (Cons pid pids)
  have "pid \<in> ids db" using Cons.prems(2) by simp
  from reclaim_slug_facts [OF Cons.prems(1) this, of ul] obtain moved db1
    where r: "reclaim_slug ul pid db = Inr (moved, db1)" by metis
  note f = reclaim_slug_Inr [OF r Cons.prems(1)]
  show ?case using Cons.IH [of db1] f Cons.prems(2) by (simp add: r)
qed simp

text \<open>Repairing the slugs of a consistent database never fails.\<close>

lemma reclaim_freed_ok: "db_ok db \<Longrightarrow> \<exists>n db'. reclaim_freed_slugs ul tour dry db = Inr (n, db')"
proof -
  assume ok: "db_ok db"
  have "set (merged_ids db tour) \<subseteq> ids db" by (auto simp: merged_ids_def ids_def)
  then obtain n db1 where r: "reclaim_all ul (merged_ids db tour) (0, db) = Inr (n, db1)"
    using reclaim_all_ok ok by (metis db_ok_iff surj_pair)
  have "rest db1 = rest db" using reclaim_all_Inr [OF r] ok by (simp add: db_ok_iff)
  then have "commit db1 = Inr db1" using rest_tables [of db1 db] ok by (simp add: commit_Inr db_ok_iff deferred_iff)
  then show ?thesis using r by (simp add: reclaim_freed_slugs_def)
qed

definition sample_loaded :: "player list" where
  "sample_loaded =
    [\<lparr>PId = 1, SourceID = ''104925'', PSlug = ''ab'', FullName = text_of ''a b'', Country = ''SRB'', BirthDate = Some (1987, 5, 22), BirthYear = None, PMatches = 0, MatchOnly = False\<rparr>,
     \<lparr>PId = 2, SourceID = ''D643'', PSlug = ''ba'', FullName = text_of ''a b'', Country = ''SRB'', BirthDate = None, BirthYear = Some 1987, PMatches = 1, MatchOnly = True\<rparr>,
     \<lparr>PId = 3, SourceID = ''7'', PSlug = ''c'', FullName = text_of ''c'', Country = [], BirthDate = None, BirthYear = None, PMatches = 1, MatchOnly = True\<rparr>]"

lemma sample_load: "load_players sample_db ''atp'' = sample_loaded"
  by (simp add: load_players_def load_player_def sample_db_def sample_loaded_def derived_year_def mode_of_def
      parts_of_def year_fraction_def List.map_filter_def)



definition sample_auto :: link where
  "sample_auto = \<lparr>Canonical = sample_loaded ! 0, Duplicate = sample_loaded ! 1, Confidence = 90 / 100,
     Reason = ''name, country and birth year match, birth year derived from age''\<rparr>"

lemma sample_auto_found: "reconcile ul sample_loaded = [sample_auto]"
proof -
  define a b c where abc: "a = sample_loaded ! 0" "b = sample_loaded ! 1" "c = sample_loaded ! 2"
  have all: "sample_loaded = [a, b, c]" by (simp add: abc sample_loaded_def)
  have sa: "sample_auto = \<lparr>Canonical = a, Duplicate = b, Confidence = 90 / 100,
     Reason = ''name, country and birth year match, birth year derived from age''\<rparr>" by (simp add: sample_auto_def abc)
  have keys: "name_key ul (FullName a) = ''a b''" "name_key ul (FullName b) = ''a b''" "name_key ul (FullName c) = ''c''"
    by (simp_all add: abc sample_loaded_def name_key_ab name_key_c)
  have st: "stub b" "\<not> stub a" by (simp_all add: stub_def numeric_def sample_loaded_def is_digit_def abc)
  have ps: "pair_score a b = (90 / 100, ''name, country and birth year match, birth year derived from age'')"
    by (simp add: pair_score_def same_country_def both_years_known_def birth_year_def score_by_year_def sample_loaded_def abc)
  have "BirthDate a \<noteq> None" by (simp add: sample_loaded_def abc)
  then have "fold_same_source [a] = ([], [a])"
    by (simp add: fold_same_source_def by_day_def fold_day_def group_by_def put_append_def)
  moreover have "stub_link [a] b = Some sample_auto"
    by (simp add: stub_link_def best_two_def two_step_def ps sa reviewFloor_def)
  ultimately have "reconcile_group [a, b] = [sample_auto]"
    using st by (simp add: reconcile_group_def List.map_filter_def)
  then show ?thesis by (subst all) (simp add: reconcile_def keys group_by_def put_append_def)
qed

theorem pass_folds_auto_links_witness:
  "\<exists>st db'. run_identity (\<lambda>r. True) (\<lambda>t. True) None False [''atp''] sample_db = (st, db', None) \<and> ids db' = {1, 3}"
proof -
  have auto: "auto_link sample_auto" by (simp add: auto_link_def autoLink_def sample_auto_def)
  have ends: "PId (Canonical sample_auto) = 1" "PId (Duplicate sample_auto) = 2"
    by (simp_all add: sample_auto_def sample_loaded_def)
  obtain db1 where m: "merge_link (\<lambda>r. True) sample_auto sample_db = Inr db1"
    using merge_link_cases [OF sample_db_ok, of sample_auto "''tml-atp''" "\<lambda>r. True"] sample_free sample_source
    by (auto simp: ends sample_ids)
  obtain n db' where "reclaim_freed_slugs (\<lambda>r. True) ''atp'' False db1 = Inr (n, db')"
    using reclaim_freed_ok merge_link_Inr [OF m] by metis
  then obtain st where r: "run_identity (\<lambda>r. True) (\<lambda>t. True) None False [''atp''] sample_db = (st, db', None)"
    by (simp add: run_identity_def sample_load tour_links_def tour_rejected_def sample_auto_found auto m)
  have "{m \<in> set (tour_links (\<lambda>r. True) None ''atp'' (load_players sample_db ''atp'')). auto_link m} = {sample_auto}"
    using auto by (auto simp: sample_load sample_auto_found tour_links_def)
  then have "ids db' = {1, 2, 3} - {2}"
    using pass_folds_auto_links [OF sample_db_ok r refl, THEN conjunct1] by (simp add: ends sample_ids)
  also have "\<dots> = {1, 3}" by auto
  finally show ?thesis using r by blast
qed

text \<open>
  A failing query is reported as the source \<open>unknown\<close>: when scanning fails nothing is stored, and the
  test for a nil source comes before the test for another error, so the error branch is dead.
\<close>
lemma source_of_swallows_errors: "source_of (None, Some (QueryFailed e)) = Inr ''unknown''"
  by (simp add: source_of_def)

end
