(* ===== verification/Events.thy ===== *)
theory Events
  imports Name Prelude
begin

text \<open>
  internal/events/events.go and overrides.go: what an event is across seasons. A tournaments row goes
  to an event by an override, by the tour's number in its id, by its name within tour and tier, or by its
  team competition. Names are runes, ids and keys ASCII strings, a date is its day number. The regular
  expressions of the source are written out as the functions they compute. A Go map keyed by two strings
  joined with a NUL is a map of pairs, the columns being NUL-free; a range over a map is a list in the
  order of insertion, and \<open>resolve\<close> is shown not to depend on any such order.
\<close>

datatype elink = LinkOverride | LinkNumber | LinkBridged | LinkName | LinkTeam

record trow =
  TId :: int
  TTour :: string
  TSourceID :: string
  TName :: gotext
  TLevel :: string
  TTier :: string
  TSeason :: int
  TStart :: int

record edition =
  Row :: trow
  Link :: elink

record event =
  ETour :: string
  EKey :: string
  EName :: gotext
  EOrdinal :: int
  ESlug :: string
  FirstSeason :: int
  LastSeason :: int
  Editions :: "edition list"

definition wtaNumbersFrom :: int where "wtaNumbersFrom = 2016"

section \<open>The regular expressions\<close>

definition re_space :: "rune \<Rightarrow> bool" where
  "re_space r \<longleftrightarrow> r \<in> {9, 10, 12, 13, 32}"

definition re_digit :: "rune \<Rightarrow> bool" where
  "re_digit r \<longleftrightarrow> 48 \<le> r \<and> r \<le> 57"

definition re_word :: "rune \<Rightarrow> bool" where
  "re_word r \<longleftrightarrow> ascii_alnum r \<or> r = 95"

definition fold_case :: "rune \<Rightarrow> rune" where
  "fold_case r = (if 65 \<le> r \<and> r \<le> 90 then r + 32 else r)"

text \<open>A match of \<open>\s+(...)$\<close> at the start of the text: spaces, then a suffix \<open>w\<close> accepts.\<close>

definition spaces_then :: "(gotext \<Rightarrow> bool) \<Rightarrow> gotext \<Rightarrow> bool" where
  "spaces_then w t \<longleftrightarrow> (case t of [] \<Rightarrow> False | r # rs \<Rightarrow> re_space r) \<and> w (dropWhile re_space t)"

text \<open>\<open>ReplaceAllString\<close> with an empty text: everything from the leftmost match on goes.\<close>

fun strip_match :: "(gotext \<Rightarrow> bool) \<Rightarrow> gotext \<Rightarrow> gotext" where
  "strip_match m [] = []"
| "strip_match m (r # rs) = (if m (r # rs) then [] else r # strip_match m rs)"

definition is_ch :: "gotext \<Rightarrow> bool" where
  "is_ch t \<longleftrightarrow> map fold_case t = text_of ''ch''"

definition is_number :: "gotext \<Rightarrow> bool" where
  "is_number t \<longleftrightarrow> t \<noteq> [] \<and> list_all re_digit t"

definition name_suffix :: "gotext \<Rightarrow> bool" where
  "name_suffix = spaces_then (\<lambda>t. is_ch t \<or> map fold_case t = text_of ''challenger'' \<or> is_number t)"

definition ch_suffix :: "gotext \<Rightarrow> bool" where
  "ch_suffix = spaces_then is_ch"

definition edition_number :: "gotext \<Rightarrow> bool" where
  "edition_number = spaces_then is_number"

text \<open>\<open>^(.*?\bCup)\b\<close>: the words up to and including the first Cup standing alone.\<close>

fun cup_prefix :: "gotext \<Rightarrow> gotext \<Rightarrow> gotext option" where
  "cup_prefix pre [] = None"
| "cup_prefix pre (r # rs) =
     (if (pre = [] \<or> \<not> re_word (last pre)) \<and> map fold_case (take 3 (r # rs)) = text_of ''cup''
         \<and> (drop 3 (r # rs) = [] \<or> \<not> re_word (hd (drop 3 (r # rs))))
      then Some (pre @ take 3 (r # rs))
      else if r = 10 then None
      else cup_prefix (pre @ [r]) rs)"

text \<open>\<open>^\d{4}-(\d+)(?:-\d{4})?$\<close> and \<open>^\d{4}-(M\d{3})$\<close>.\<close>

definition year_dash :: "string \<Rightarrow> bool" where
  "year_dash s \<longleftrightarrow> 4 < length s \<and> list_all is_digit (take 4 s) \<and> s ! 4 = CHR ''-''"

definition number_id :: "string \<Rightarrow> string option" where
  "number_id s =
     (let n = takeWhile is_digit (drop 5 s); after = dropWhile is_digit (drop 5 s)
      in if year_dash s \<and> n \<noteq> []
           \<and> (after = [] \<or> length after = 5 \<and> hd after = CHR ''-'' \<and> list_all is_digit (tl after))
         then Some n else None)"

definition m_code_id :: "string \<Rightarrow> string option" where
  "m_code_id s =
     (if year_dash s \<and> length s = 9 \<and> s ! 5 = CHR ''M'' \<and> list_all is_digit (drop 6 s) then Some (drop 5 s) else None)"

section \<open>Names and keys\<close>

definition normalise_event :: "(rune \<Rightarrow> bool) \<Rightarrow> gotext \<Rightarrow> string" where
  "normalise_event ul s = slug ul (strip_match name_suffix (strip_match name_suffix (trim_text s)))"

definition before_colon :: "gotext \<Rightarrow> gotext" where
  "before_colon s = takeWhile (\<lambda>r. r \<noteq> 58) s"

definition competition_text :: "gotext \<Rightarrow> gotext" where
  "competition_text s = (case cup_prefix [] (before_colon s) of Some m \<Rightarrow> m | None \<Rightarrow> before_colon s)"

definition competition_aliases :: "string \<Rightarrow> string option" where
  "competition_aliases c = (if c = ''fed-cup'' \<or> c = ''bjk-cup'' then Some ''billie-jean-king-cup'' else None)"

definition competition_of :: "(rune \<Rightarrow> bool) \<Rightarrow> gotext \<Rightarrow> string" where
  "competition_of ul s =
     (let c = slug ul (competition_text s)
      in case competition_aliases c of Some a \<Rightarrow> a | None \<Rightarrow> c)"

fun trim_zeros :: "string \<Rightarrow> string" where
  "trim_zeros (c # d # n) = (if c = CHR ''0'' then trim_zeros (d # n) else c # d # n)"
| "trim_zeros n = n"

record rawkey =
  rkind :: string
  rvalue :: string

definition raw_key_of :: "trow \<Rightarrow> rawkey" where
  "raw_key_of r =
     (case number_id (TSourceID r) of
        Some n \<Rightarrow>
          if TTour r = ''atp'' \<or> TSeason r \<ge> wtaNumbersFrom then \<lparr>rkind = ''number'', rvalue = trim_zeros n\<rparr>
          else \<lparr>rkind = [], rvalue = []\<rparr>
      | None \<Rightarrow>
          (case m_code_id (TSourceID r) of
             Some m \<Rightarrow> \<lparr>rkind = ''code'', rvalue = m\<rparr>
           | None \<Rightarrow> \<lparr>rkind = [], rvalue = []\<rparr>))"

definition number_key :: "string \<Rightarrow> string" where
  "number_key n = ''number:'' @ n"

definition run_key :: "string \<Rightarrow> string \<Rightarrow> int \<Rightarrow> string" where
  "run_key tier nm ordinal =
     (let key = ''name:'' @ tier @ '':'' @ nm in if ordinal > 1 then key @ '':'' @ itoa ordinal else key)"

definition team_key :: "string \<Rightarrow> string" where
  "team_key cmp = ''team:'' @ cmp"

definition ordinal_of :: "string \<Rightarrow> int" where
  "ordinal_of key =
     (let parts = split_on key CHR '':''
      in if parts ! 0 \<noteq> ''name'' \<or> length parts < 4 then 0
         else (case atoi (parts ! 3) of Some n \<Rightarrow> n | None \<Rightarrow> 0))"

section \<open>Overrides\<close>

record event_override =
  OvTour :: string
  OvNumber :: string
  OvCode :: string
  OvSourceID :: string
  OvSourceIDs :: "string list"
  OvTo :: string
  OvName :: gotext
  OvNote :: gotext

datatype override_error = BadTour | OneSelector | IDsNeedTo | BadNumber | BadCode | NothingToDo | BadTo | NameNeedsNumber

definition all_digits :: "string \<Rightarrow> bool" where
  "all_digits s \<longleftrightarrow> s \<noteq> [] \<and> list_all is_digit s"

definition m_code :: "string \<Rightarrow> bool" where
  "m_code s \<longleftrightarrow> length s = 4 \<and> hd s = CHR ''M'' \<and> list_all is_digit (tl s)"

definition selectors :: "event_override \<Rightarrow> nat" where
  "selectors ov = length (filter (\<lambda>s. s \<noteq> []) [OvNumber ov, OvCode ov, OvSourceID ov]) + (if length (OvSourceIDs ov) > 0 then 1 else 0)"

definition validate_override :: "event_override \<Rightarrow> override_error option" where
  "validate_override ov =
     (if OvTour ov \<noteq> ''atp'' \<and> OvTour ov \<noteq> ''wta'' then Some BadTour
      else if selectors ov \<noteq> 1 then Some OneSelector
      else if length (OvSourceIDs ov) > 0 \<and> OvTo ov = [] then Some IDsNeedTo
      else if OvNumber ov \<noteq> [] \<and> \<not> all_digits (OvNumber ov) then Some BadNumber
      else if OvCode ov \<noteq> [] \<and> \<not> m_code (OvCode ov) then Some BadCode
      else if OvTo ov = [] \<and> OvName ov = [] then Some NothingToDo
      else if OvTo ov \<noteq> [] \<and> \<not> all_digits (OvTo ov) then Some BadTo
      else if OvName ov \<noteq> [] \<and> OvNumber ov = [] then Some NameNeedsNumber
      else None)"

record ov_index =
  bySourceID :: "string \<times> string \<Rightarrow> nat option"
  byNumber :: "string \<times> string \<Rightarrow> nat option"
  byCode :: "string \<times> string \<Rightarrow> nat option"
  pins :: "string \<times> string \<Rightarrow> gotext option"
  ovs :: "event_override list"

definition index_one :: "nat \<times> event_override \<Rightarrow> ov_index \<Rightarrow> ov_index" where
  "index_one = (\<lambda>(i, ov) ix.
     if length (OvSourceIDs ov) > 0
     then ix\<lparr>bySourceID := fold (\<lambda>s m. m((OvTour ov, s) \<mapsto> i)) (OvSourceIDs ov) (bySourceID ix)\<rparr>
     else if OvSourceID ov \<noteq> [] then ix\<lparr>bySourceID := (bySourceID ix)((OvTour ov, OvSourceID ov) \<mapsto> i)\<rparr>
     else if OvCode ov \<noteq> [] then ix\<lparr>byCode := (byCode ix)((OvTour ov, OvCode ov) \<mapsto> i)\<rparr>
     else if OvNumber ov \<noteq> [] then
       (let ix = (if OvTo ov \<noteq> [] then ix\<lparr>byNumber := (byNumber ix)((OvTour ov, trim_zeros (OvNumber ov)) \<mapsto> i)\<rparr> else ix)
        in if OvName ov \<noteq> [] then ix\<lparr>pins := (pins ix)((OvTour ov, number_key (trim_zeros (OvNumber ov))) \<mapsto> OvName ov)\<rparr> else ix)
     else ix)"

definition index_of :: "event_override list \<Rightarrow> ov_index" where
  "index_of os =
     fold index_one (enumerate 0 os)
       \<lparr>bySourceID = \<lambda>_. None, byNumber = \<lambda>_. None, byCode = \<lambda>_. None, pins = \<lambda>_. None, ovs = os\<rparr>"

definition lookup_override :: "ov_index \<Rightarrow> trow \<Rightarrow> rawkey \<Rightarrow> nat option" where
  "lookup_override ix r raw =
     (case bySourceID ix (TTour r, TSourceID r) of
        Some i \<Rightarrow> Some i
      | None \<Rightarrow>
          if rkind raw = ''number'' then byNumber ix (TTour r, rvalue raw)
          else if rkind raw = ''code'' then byCode ix (TTour r, rvalue raw)
          else None)"

definition hit :: "ov_index \<Rightarrow> nat \<Rightarrow> nat list \<Rightarrow> string option \<times> nat list" where
  "hit ix i hits =
     (if OvTo (ovs ix ! i) = [] then None else Some (trim_zeros (OvTo (ovs ix ! i))), hits[i := hits ! i + 1])"

definition target :: "ov_index \<Rightarrow> trow \<Rightarrow> rawkey \<Rightarrow> nat list \<Rightarrow> string option \<times> nat list" where
  "target ix r raw hits =
     (case lookup_override ix r raw of Some i \<Rightarrow> hit ix i hits | None \<Rightarrow> (None, hits))"

definition unmatched :: "ov_index \<Rightarrow> nat list \<Rightarrow> event_override list" where
  "unmatched ix hits = map snd (filter (\<lambda>(i, ov). OvTo ov \<noteq> [] \<and> hits ! i = 0) (enumerate 0 (ovs ix)))"

section \<open>Ordinals within a season\<close>

type_synonym pending = "trow \<times> string"

definition pending_group :: "pending \<Rightarrow> string \<times> string \<times> string \<times> int" where
  "pending_group p = (TTour (fst p), TTier (fst p), snd p, TSeason (fst p))"

definition played_before :: "trow \<Rightarrow> trow \<Rightarrow> bool" where
  "played_before x y \<longleftrightarrow>
     (if TStart x \<noteq> TStart y then TStart x < TStart y
      else if TSourceID x \<noteq> TSourceID y then TSourceID x < TSourceID y
      else TId x < TId y)"

definition number_group :: "pending list \<Rightarrow> nat list \<Rightarrow> int list \<Rightarrow> int list" where
  "number_group named idx ordinals =
     fold (\<lambda>(k, i) os. os[i := int k + 1])
       (enumerate 0 (sort_slice (\<lambda>a b. played_before (fst (named ! a)) (fst (named ! b))) idx)) ordinals"

definition ordinals_within_season :: "pending list \<Rightarrow> int list" where
  "ordinals_within_season named =
     fold (\<lambda>(g, idx) os. number_group named idx os)
       (group_by (\<lambda>i. pending_group (named ! i)) [0..<length named]) (replicate (length named) 0)"

section \<open>Resolve\<close>

record placing =
  key_of :: "int \<Rightarrow> string option"
  assigned :: "(int \<times> edition) list"
  names_under :: "string \<times> string \<times> string \<Rightarrow> string list"
  named_rows :: "pending list"
  hit_counts :: "nat list"

definition assign :: "trow \<Rightarrow> string \<Rightarrow> elink \<Rightarrow> placing \<Rightarrow> placing" where
  "assign r key lnk st =
     st\<lparr>key_of := (key_of st)(TId r \<mapsto> key), assigned := put (TId r) \<lparr>Row = r, Link = lnk\<rparr> (assigned st)\<rparr>"

definition note_name :: "(rune \<Rightarrow> bool) \<Rightarrow> trow \<Rightarrow> string \<Rightarrow> placing \<Rightarrow> placing" where
  "note_name ul r key st =
     (let k = (TTour r, TTier r, normalise_event ul (TName r))
      in st\<lparr>names_under := (names_under st)(k := List.insert key (names_under st k))\<rparr>)"

definition place_row :: "(rune \<Rightarrow> bool) \<Rightarrow> ov_index \<Rightarrow> trow \<Rightarrow> placing \<Rightarrow> placing" where
  "place_row ul ix r st =
     (if TLevel r = ''D'' then assign r (team_key (competition_of ul (TName r))) LinkTeam st
      else
        let raw = raw_key_of r in
        case target ix r raw (hit_counts st) of
          (Some to', hits) \<Rightarrow>
            note_name ul r (number_key to') (assign r (number_key to') LinkOverride (st\<lparr>hit_counts := hits\<rparr>))
        | (None, hits) \<Rightarrow>
            (let st = st\<lparr>hit_counts := hits\<rparr> in
             if rkind raw = ''number''
             then note_name ul r (number_key (rvalue raw)) (assign r (number_key (rvalue raw)) LinkNumber st)
             else st\<lparr>named_rows := named_rows st @ [(r, normalise_event ul (TName r))]\<rparr>))"

record naming =
  placed :: placing
  numbered :: int
  ambiguous :: "string list"

definition name_row :: "pending \<times> int \<Rightarrow> naming \<Rightarrow> naming" where
  "name_row = (\<lambda>((r, nm), ordinal) st.
     if ordinal > 1 then
       st\<lparr>numbered := numbered st + 1, placed := assign r (run_key (TTier r) nm ordinal) LinkName (placed st)\<rparr>
     else
       let candidates = names_under (placed st) (TTour r, TTier r, nm) in
       if length candidates = 1 then st\<lparr>placed := assign r (hd candidates) LinkBridged (placed st)\<rparr>
       else
         let st = (if length candidates > 1
                   then st\<lparr>ambiguous := List.insert (TTour r @ '' '' @ TTier r @ '' '' @ nm) (ambiguous st)\<rparr> else st)
         in st\<lparr>placed := assign r (run_key (TTier r) nm 1) LinkName (placed st)\<rparr>)"

definition edition_before :: "edition \<Rightarrow> edition \<Rightarrow> bool" where
  "edition_before a b \<longleftrightarrow>
     (if TSeason (Row a) \<noteq> TSeason (Row b) then TSeason (Row a) < TSeason (Row b)
      else if TStart (Row a) \<noteq> TStart (Row b) then TStart (Row a) < TStart (Row b)
      else TId (Row a) < TId (Row b))"

definition title_competition :: "(rune \<Rightarrow> bool) \<Rightarrow> gotext \<Rightarrow> gotext" where
  "title_competition ul tie =
     (let s = competition_text tie
      in if slug ul s = ''fed-cup'' \<or> slug ul s = ''bjk-cup'' then text_of ''Billie Jean King Cup'' else trim_text s)"

definition display_name :: "(rune \<Rightarrow> bool) \<Rightarrow> edition list \<Rightarrow> int \<Rightarrow> gotext" where
  "display_name ul editions ordinal =
     (let last' = last editions in
      if Link last' = LinkTeam then title_competition ul (TName (Row last'))
      else
        let n = trim_text (strip_match ch_suffix (trim_text (TName (Row last')))) in
        if Link last' \<noteq> LinkName then n
        else
          let n = trim_text (strip_match edition_number n)
          in if ordinal > 1 then n @ text_of ('' '' @ itoa ordinal) else n)"

definition make_event :: "(rune \<Rightarrow> bool) \<Rightarrow> ov_index \<Rightarrow> (string \<times> string) \<times> edition list \<Rightarrow> event" where
  "make_event ul ix = (\<lambda>((tour, key), eds0).
     let eds = sort_slice edition_before eds0; ordinal = ordinal_of key;
         pinned = (case pins ix (tour, key) of Some n \<Rightarrow> n | None \<Rightarrow> [])
     in \<lparr>ETour = tour, EKey = key, EName = (if pinned = [] then display_name ul eds ordinal else pinned),
         EOrdinal = ordinal, ESlug = [], FirstSeason = TSeason (Row (hd eds)), LastSeason = TSeason (Row (last eds)),
         Editions = eds\<rparr>)"

definition event_before :: "event \<Rightarrow> event \<Rightarrow> bool" where
  "event_before a b \<longleftrightarrow> (if ETour a \<noteq> ETour b then ETour a < ETour b else EKey a < EKey b)"

record resolved =
  Events :: "event list"
  ByLink :: "elink \<Rightarrow> nat"
  Ambiguous :: "string list"
  Numbered :: int
  Unmatched :: "event_override list"

definition place_all :: "(rune \<Rightarrow> bool) \<Rightarrow> ov_index \<Rightarrow> trow list \<Rightarrow> placing" where
  "place_all ul ix rows =
     fold (place_row ul ix) rows
       \<lparr>key_of = \<lambda>_. None, assigned = [], names_under = \<lambda>_. [], named_rows = [], hit_counts = replicate (length (ovs ix)) 0\<rparr>"

definition name_all :: "placing \<Rightarrow> naming" where
  "name_all st =
     fold name_row (zip (named_rows st) (ordinals_within_season (named_rows st)))
       \<lparr>placed = st, numbered = 0, ambiguous = []\<rparr>"

definition resolve :: "(rune \<Rightarrow> bool) \<Rightarrow> trow list \<Rightarrow> event_override list \<Rightarrow> resolved" where
  "resolve ul rows os =
     (let ix = index_of os; st1 = place_all ul ix rows; st2 = name_all st1; st = placed st2;
          by_event = group_by (\<lambda>(id, ed). (TTour (Row ed), the (key_of st id))) (assigned st)
      in \<lparr>Events = sort_slice event_before (map (\<lambda>(k, eds). make_event ul ix (k, map snd eds)) by_event),
          ByLink = fold (\<lambda>(id, ed) m. m(Link ed := m (Link ed) + 1)) (assigned st) (\<lambda>_. 0),
          Ambiguous = sort (ambiguous st2),
          Numbered = numbered st2,
          Unmatched = unmatched ix (hit_counts st)\<rparr>)"

end
