(* ===== verification/EventsFacts.thy ===== *)
theory EventsFacts
  imports Events
begin

text \<open>
  What \<open>Resolve\<close> derives. The two passes of the code are shown to compute, for every row, a key and a
  link that depend on the set of rows only: \<open>place_of\<close> for the rows an override, a number or a team tie
  places, and \<open>name_place\<close> with the rank of the row among its namesakes of a season for the others. The
  properties of the events follow from that.
\<close>

section \<open>Calendar order\<close>

interpretation played: slice_order "\<lambda>x y. played_before x y"
  by unfold_locales (auto simp: played_before_def split: if_splits)

interpretation edition_order: slice_order edition_before
  by unfold_locales (auto simp: edition_before_def split: if_splits)

interpretation event_order: slice_order event_before
  by unfold_locales (auto simp: event_before_def split: if_splits)

lemma played_before_total: "TId x \<noteq> TId y \<Longrightarrow> played_before x y \<or> played_before y x"
  by (auto simp: played_before_def)

lemma played_before_asym: "played_before x y \<Longrightarrow> \<not> played_before y x"
  by (auto simp: played_before_def split: if_splits)

lemma position_is_rank:
  assumes "sorted_wrt lt s" "k < length s" "\<And>x. \<not> lt x x" "\<And>x y. lt x y \<Longrightarrow> \<not> lt y x" "distinct s"
  shows "card {x \<in> set s. lt x (s ! k)} = k"
proof -
  have "{x \<in> set s. lt x (s ! k)} = (\<lambda>i. s ! i) ` {..<k}"
  proof (rule set_eqI)
    fix x
    have "x \<in> {x \<in> set s. lt x (s ! k)} \<longleftrightarrow> (\<exists>i < length s. x = s ! i \<and> lt (s ! i) (s ! k))"
      by (auto simp: in_set_conv_nth)
    also have "\<dots> \<longleftrightarrow> (\<exists>i < k. x = s ! i)"
    proof -
      have "lt (s ! i) (s ! k) \<longleftrightarrow> i < k" if "i < length s" for i
      proof -
        consider "i < k" | "i = k" | "k < i" by linarith
        then show ?thesis
          using assms(1-4) that sorted_wrt_nth_less [OF assms(1), of i k] sorted_wrt_nth_less [OF assms(1), of k i]
          by cases auto
      qed
      then show ?thesis using assms(2) by (metis order.strict_trans)
    qed
    finally show "x \<in> {x \<in> set s. lt x (s ! k)} \<longleftrightarrow> x \<in> (\<lambda>i. s ! i) ` {..<k}" by auto
  qed
  moreover have "inj_on (\<lambda>i. s ! i) {..<k}"
    using assms(2,5) by (auto simp: inj_on_def nth_eq_iff_index_eq)
  ultimately show ?thesis by (simp add: card_image)
qed

section \<open>Ordinals\<close>

abbreviation before_at :: "pending list \<Rightarrow> nat \<Rightarrow> nat \<Rightarrow> bool" where
  "before_at named a b \<equiv> played_before (fst (named ! a)) (fst (named ! b))"

lemma before_at_order: "slice_order (before_at named)"
  by unfold_locales (auto simp: played_before_def split: if_splits)

definition write_positions :: "nat \<Rightarrow> nat list \<Rightarrow> int list \<Rightarrow> int list" where
  "write_positions n s os = fold (\<lambda>(k, i) os. os[i := int k + 1]) (enumerate n s) os"

lemma write_positions_Nil [simp]: "write_positions n [] os = os"
  by (simp add: write_positions_def)

lemma write_positions_Cons [simp]: "write_positions n (i # s) os = write_positions (Suc n) s (os[i := int n + 1])"
  by (simp add: write_positions_def)

lemma length_write_positions [simp]: "length (write_positions n s os) = length os"
  by (induction s arbitrary: n os) simp_all

lemma write_positions_other: "i \<notin> set s \<Longrightarrow> write_positions n s os ! i = os ! i"
  by (induction s arbitrary: n os) simp_all

lemma write_positions_at:
  "distinct s \<Longrightarrow> set s \<subseteq> {..<length os} \<Longrightarrow> k < length s \<Longrightarrow> write_positions n s os ! (s ! k) = int (n + k) + 1"
proof (induction s arbitrary: n os k)
  case (Cons i s)
  show ?case
  proof (cases k)
    case 0
    then show ?thesis using Cons.prems by (simp add: write_positions_other)
  next
    case (Suc j)
    then show ?thesis using Cons.prems Cons.IH [of "os[i := int n + 1]" j "Suc n"] by simp
  qed
qed simp

definition rank_in :: "pending list \<Rightarrow> nat \<Rightarrow> int" where
  "rank_in named i = 1 + int (card {j. j < length named \<and> pending_group (named ! j) = pending_group (named ! i) \<and> before_at named j i})"

lemma number_group_value:
  assumes ids: "distinct (map (\<lambda>p. TId (fst p)) named)"
    and idx: "idx = filter (\<lambda>i. pending_group (named ! i) = g) [0..<length named]"
    and len: "length os = length named" and i: "i < length named"
  shows "number_group named idx os ! i = (if pending_group (named ! i) = g then rank_in named i else os ! i)"
    and "length (number_group named idx os) = length named"
proof -
  let ?s = "sort_slice (before_at named) idx"
  have ng: "number_group named idx os = write_positions 0 ?s os"
    by (simp add: number_group_def write_positions_def)
  show "length (number_group named idx os) = length named" by (simp add: ng len)
  have total: "before_at named a b \<or> before_at named b a" if "a \<in> set idx" "b \<in> set idx" "a \<noteq> b" for a b
  proof -
    have "TId (fst (named ! a)) \<noteq> TId (fst (named ! b))"
      using ids that by (auto simp: idx distinct_conv_nth)
    then show ?thesis by (rule played_before_total)
  qed
  have dist: "distinct ?s" "set ?s = set idx" by (simp_all add: idx)
  have strict: "sorted_wrt (before_at named) ?s"
    by (rule slice_order.sort_slice_strict [OF before_at_order]) (use total in \<open>simp_all add: idx\<close>)
  show "number_group named idx os ! i = (if pending_group (named ! i) = g then rank_in named i else os ! i)"
  proof (cases "pending_group (named ! i) = g")
    case False
    then have "i \<notin> set ?s" by (simp add: dist(2) idx)
    then show ?thesis using False by (simp add: ng write_positions_other)
  next
    case True
    then have "i \<in> set ?s" using i by (simp add: dist(2) idx)
    then obtain k where k: "k < length ?s" "?s ! k = i" unfolding in_set_conv_nth by blast
    have "card {x \<in> set ?s. before_at named x (?s ! k)} = k"
      by (rule position_is_rank [OF strict k(1) _ _ dist(1)]) (use played_before_asym in blast)+
    moreover have "{x \<in> set ?s. before_at named x (?s ! k)}
        = {j. j < length named \<and> pending_group (named ! j) = pending_group (named ! i) \<and> before_at named j i}"
      unfolding k(2) dist(2) using True by (auto simp: idx)
    ultimately have "rank_in named i = int k + 1" by (simp add: rank_in_def)
    moreover have "set ?s \<subseteq> {..<length os}" by (auto simp: dist(2) idx len)
    ultimately show ?thesis
      using True write_positions_at [OF dist(1) _ k(1), of os 0] by (simp add: ng k(2))
  qed
qed

lemma ordinals_are_ranks:
  assumes ids: "distinct (map (\<lambda>p. TId (fst p)) named)" and i: "i < length named"
  shows "ordinals_within_season named ! i = rank_in named i" and "length (ordinals_within_season named) = length named"
proof -
  let ?gs = "group_by (\<lambda>i. pending_group (named ! i)) [0..<length named]"
  have step: "\<forall>(g, idx) \<in> set gs. idx = filter (\<lambda>i. pending_group (named ! i) = g) [0..<length named] \<Longrightarrow>
      length os = length named \<Longrightarrow>
      length (fold (\<lambda>(g, idx) os. number_group named idx os) gs os) = length named
      \<and> fold (\<lambda>(g, idx) os. number_group named idx os) gs os ! i
        = (if pending_group (named ! i) \<in> fst ` set gs then rank_in named i else os ! i)" for gs os
  proof (induction gs arbitrary: os)
    case (Cons q gs)
    obtain g idx where q: "q = (g, idx)" by (cases q)
    have idx: "idx = filter (\<lambda>i. pending_group (named ! i) = g) [0..<length named]" using Cons.prems(1) q by simp
    note ng = number_group_value [OF ids idx Cons.prems(2) i]
    show ?case using Cons.IH [of "number_group named idx os"] Cons.prems(1) ng q by auto
  qed simp
  have groups: "\<forall>(g, idx) \<in> set ?gs. idx = filter (\<lambda>i. pending_group (named ! i) = g) [0..<length named]"
    by (auto simp: group_by_iff)
  have "pending_group (named ! i) \<in> fst ` set ?gs"
  proof -
    have "(pending_group (named ! i), filter (\<lambda>j. pending_group (named ! j) = pending_group (named ! i)) [0..<length named]) \<in> set ?gs"
      using i by (auto simp: group_by_iff filter_empty_conv)
    then show ?thesis by force
  qed
  then show "ordinals_within_season named ! i = rank_in named i"
    and "length (ordinals_within_season named) = length named"
    using step [OF groups, of "replicate (length named) 0"] by (simp_all add: ordinals_within_season_def)
qed

section \<open>Where a row goes\<close>

definition ov_to :: "ov_index \<Rightarrow> trow \<Rightarrow> string option" where
  "ov_to ix r =
     (case lookup_override ix r (raw_key_of r) of
        Some i \<Rightarrow> if OvTo (ovs ix ! i) = [] then None else Some (trim_zeros (OvTo (ovs ix ! i)))
      | None \<Rightarrow> None)"

definition place_of :: "(rune \<Rightarrow> bool) \<Rightarrow> ov_index \<Rightarrow> trow \<Rightarrow> (string \<times> elink) option" where
  "place_of ul ix r =
     (if TLevel r = ''D'' then Some (team_key (competition_of ul (TName r)), LinkTeam)
      else (case ov_to ix r of
          Some to' \<Rightarrow> Some (number_key to', LinkOverride)
        | None \<Rightarrow> if rkind (raw_key_of r) = ''number'' then Some (number_key (rvalue (raw_key_of r)), LinkNumber) else None))"

definition name_in :: "(rune \<Rightarrow> bool) \<Rightarrow> trow \<Rightarrow> string \<times> string \<times> string" where
  "name_in ul r = (TTour r, TTier r, normalise_event ul (TName r))"

text \<open>The number keys a name stands under: the keys of its numbered and overridden rows.\<close>

definition keys_of_name :: "(rune \<Rightarrow> bool) \<Rightarrow> ov_index \<Rightarrow> trow set \<Rightarrow> string \<times> string \<times> string \<Rightarrow> string set" where
  "keys_of_name ul ix rows k =
     {key. \<exists>r \<in> rows. \<exists>l. l \<noteq> LinkTeam \<and> place_of ul ix r = Some (key, l) \<and> name_in ul r = k}"

definition unplaced :: "(rune \<Rightarrow> bool) \<Rightarrow> ov_index \<Rightarrow> trow list \<Rightarrow> pending list" where
  "unplaced ul ix rows = map (\<lambda>r. (r, normalise_event ul (TName r))) (filter (\<lambda>r. place_of ul ix r = None) rows)"

lemma put_fresh: "k \<notin> fst ` set m \<Longrightarrow> put k v m = m @ [(k, v)]"
  by (induction k v m rule: put.induct) auto

definition placed_edition :: "(rune \<Rightarrow> bool) \<Rightarrow> ov_index \<Rightarrow> trow \<Rightarrow> int \<times> edition" where
  "placed_edition ul ix r = (TId r, \<lparr>Row = r, Link = snd (the (place_of ul ix r))\<rparr>)"

lemma target_to: "fst (target ix r (raw_key_of r) hits) = ov_to ix r"
  by (simp add: target_def ov_to_def hit_def split: option.splits)

lemma place_row_cases:
  "\<exists>hits. place_row ul ix r st =
     (let st = st\<lparr>hit_counts := hits\<rparr> in
      case place_of ul ix r of
        None \<Rightarrow> st\<lparr>named_rows := named_rows st @ [(r, normalise_event ul (TName r))]\<rparr>
      | Some (key, l) \<Rightarrow> if l = LinkTeam then assign r key l st else note_name ul r key (assign r key l st))"
proof (cases "TLevel r = ''D''")
  case True
  then show ?thesis by (intro exI [of _ "hit_counts st"]) (simp add: place_row_def place_of_def Let_def)
next
  case False
  obtain hits where t: "target ix r (raw_key_of r) (hit_counts st) = (ov_to ix r, hits)"
    using target_to by (metis prod.collapse)
  show ?thesis
    by (intro exI [of _ hits])
      (use False t in \<open>auto simp: place_row_def place_of_def Let_def split: option.splits\<close>)
qed

lemma place_all_facts:
  assumes "distinct (map TId rows)" and st_def: "st = place_all ul ix rows"
  shows "named_rows st = unplaced ul ix rows"
    and "assigned st = map (placed_edition ul ix) (filter (\<lambda>r. place_of ul ix r \<noteq> None) rows)"
    and "\<forall>r \<in> set rows. \<forall>key l. place_of ul ix r = Some (key, l) \<longrightarrow> key_of st (TId r) = Some key"
    and "\<forall>k. set (names_under st k) = keys_of_name ul ix (set rows) k \<and> distinct (names_under st k)"
proof -
  have "named_rows st = unplaced ul ix rows
    \<and> assigned st = map (placed_edition ul ix) (filter (\<lambda>r. place_of ul ix r \<noteq> None) rows)
    \<and> (\<forall>r \<in> set rows. \<forall>key l. place_of ul ix r = Some (key, l) \<longrightarrow> key_of st (TId r) = Some key)
    \<and> (\<forall>k. set (names_under st k) = keys_of_name ul ix (set rows) k \<and> distinct (names_under st k))"
    using assms(1) unfolding st_def
  proof (induction rows rule: rev_induct)
    case Nil
    then show ?case by (simp add: place_all_def unplaced_def keys_of_name_def)
  next
    case (snoc r rows)
    let ?st = "place_all ul ix rows"
    have dist: "distinct (map TId rows)" "TId r \<notin> TId ` set rows" using snoc.prems by auto
    note IH = snoc.IH [OF dist(1)]
    have IH1: "named_rows ?st = unplaced ul ix rows"
      and IH2: "assigned ?st = map (placed_edition ul ix) (filter (\<lambda>r. place_of ul ix r \<noteq> None) rows)"
      and IH3: "\<forall>r \<in> set rows. \<forall>key l. place_of ul ix r = Some (key, l) \<longrightarrow> key_of ?st (TId r) = Some key"
      and IH4: "set (names_under ?st k) = keys_of_name ul ix (set rows) k \<and> distinct (names_under ?st k)" for k
      by (rule IH [THEN conjunct1], rule IH [THEN conjunct2, THEN conjunct1],
          rule IH [THEN conjunct2, THEN conjunct2, THEN conjunct1],
          rule IH [THEN conjunct2, THEN conjunct2, THEN conjunct2, rule_format])
    have all: "place_all ul ix (rows @ [r]) = place_row ul ix r ?st" by (simp add: place_all_def)
    obtain hits where pr: "place_row ul ix r ?st = (let st = ?st\<lparr>hit_counts := hits\<rparr> in
      case place_of ul ix r of
        None \<Rightarrow> st\<lparr>named_rows := named_rows st @ [(r, normalise_event ul (TName r))]\<rparr>
      | Some (key, l) \<Rightarrow> if l = LinkTeam then assign r key l st else note_name ul r key (assign r key l st))"
      using place_row_cases [of ul ix r ?st] by (rule exE)
    have fresh: "TId r \<notin> fst ` set (assigned ?st)"
      unfolding IH2 using dist(2) by (auto simp: placed_edition_def)
    show ?case
    proof (cases "place_of ul ix r")
      case None
      let ?new = "place_all ul ix (rows @ [r])"
      have new: "?new = (?st\<lparr>hit_counts := hits\<rparr>)\<lparr>named_rows := named_rows ?st @ [(r, normalise_event ul (TName r))]\<rparr>"
        unfolding all pr by (simp add: None Let_def)
      have "keys_of_name ul ix (set (rows @ [r])) k = keys_of_name ul ix (set rows) k" for k
        unfolding keys_of_name_def using None by (intro Collect_cong) simp
      then have 4: "\<forall>k. set (names_under ?new k) = keys_of_name ul ix (set (rows @ [r])) k \<and> distinct (names_under ?new k)"
        using IH4 by (simp add: new)
      have 3: "\<forall>q \<in> set (rows @ [r]). \<forall>key l. place_of ul ix q = Some (key, l) \<longrightarrow> key_of ?new (TId q) = Some key"
        using IH3 None by (simp add: new)
      have 1: "named_rows ?new = unplaced ul ix (rows @ [r])" using None IH1 by (simp add: new unplaced_def)
      have 2: "assigned ?new = map (placed_edition ul ix) (filter (\<lambda>r. place_of ul ix r \<noteq> None) (rows @ [r]))"
        using None IH2 by (simp add: new)
      show ?thesis by (intro conjI 1 2 3 4)
    next
      case (Some p)
      obtain key l where p: "p = (key, l)" by (cases p)
      have un: "unplaced ul ix (rows @ [r]) = unplaced ul ix rows" using Some by (simp add: unplaced_def)
      have names: "keys_of_name ul ix (set (rows @ [r])) k = keys_of_name ul ix (set rows) k \<union> (if l \<noteq> LinkTeam \<and> name_in ul r = k then {key} else {})" for k
        using Some p by (auto simp: keys_of_name_def)
      let ?new = "place_all ul ix (rows @ [r])"
      let ?A = "assign r key l (?st\<lparr>hit_counts := hits\<rparr>)"
      have new: "?new = (if l = LinkTeam then ?A else note_name ul r key ?A)"
        unfolding all pr by (simp add: Some p Let_def)
      have nr: "named_rows ?new = named_rows ?st" by (simp add: new assign_def note_name_def Let_def)
      have as: "assigned ?new = assigned ?st @ [placed_edition ul ix r]"
        using put_fresh [OF fresh] by (simp add: new assign_def note_name_def Let_def placed_edition_def Some p)
      have ko: "key_of ?new = (key_of ?st)(TId r \<mapsto> key)" by (simp add: new assign_def note_name_def Let_def)
      have nu: "names_under ?new k =
          (if l \<noteq> LinkTeam \<and> name_in ul r = k then List.insert key (names_under ?st k) else names_under ?st k)" for k
        by (simp add: new assign_def note_name_def Let_def name_in_def)
      have 1: "named_rows ?new = unplaced ul ix (rows @ [r])" unfolding nr un by (rule IH1)
      have 2: "assigned ?new = map (placed_edition ul ix) (filter (\<lambda>r. place_of ul ix r \<noteq> None) (rows @ [r]))"
        by (simp add: as IH2 Some)
      have 3: "\<forall>q \<in> set (rows @ [r]). \<forall>key l. place_of ul ix q = Some (key, l) \<longrightarrow> key_of ?new (TId q) = Some key"
      proof (intro ballI allI impI)
        fix q key' l'
        assume q: "q \<in> set (rows @ [r])" "place_of ul ix q = Some (key', l')"
        show "key_of ?new (TId q) = Some key'"
        proof (cases "q = r")
          case True
          then show ?thesis using q(2) Some p by (simp add: ko)
        next
          case False
          then have "q \<in> set rows" using q(1) by simp
          then have "TId q \<noteq> TId r" using dist(2) by (metis imageI)
          moreover have "key_of ?st (TId q) = Some key'" using \<open>q \<in> set rows\<close> IH3 q(2) by blast
          ultimately show ?thesis by (simp add: ko)
        qed
      qed
      have 4: "\<forall>k. set (names_under ?new k) = keys_of_name ul ix (set (rows @ [r])) k \<and> distinct (names_under ?new k)"
      proof (rule allI)
        fix k
        show "set (names_under ?new k) = keys_of_name ul ix (set (rows @ [r])) k \<and> distinct (names_under ?new k)"
          unfolding nu names using IH4 [of k] by simp
      qed
      show ?thesis by (intro conjI 1 2 3 4)
    qed
  qed
  then show "named_rows st = unplaced ul ix rows"
    "assigned st = map (placed_edition ul ix) (filter (\<lambda>r. place_of ul ix r \<noteq> None) rows)"
    "\<forall>r \<in> set rows. \<forall>key l. place_of ul ix r = Some (key, l) \<longrightarrow> key_of st (TId r) = Some key"
    "\<forall>k. set (names_under st k) = keys_of_name ul ix (set rows) k \<and> distinct (names_under st k)"
    by simp_all
qed

text \<open>The name rule for a row of rank \<open>o'\<close> among its namesakes.\<close>

definition name_place :: "(string \<times> string \<times> string \<Rightarrow> string set) \<Rightarrow> pending \<Rightarrow> int \<Rightarrow> string \<times> elink" where
  "name_place keys p o' =
     (case p of (r, nm) \<Rightarrow>
       if o' > 1 then (run_key (TTier r) nm o', LinkName)
       else if card (keys (TTour r, TTier r, nm)) = 1 then (the_elem (keys (TTour r, TTier r, nm)), LinkBridged)
       else (run_key (TTier r) nm 1, LinkName))"

lemma name_row_placed:
  assumes "distinct (names_under (placed st) (TTour r, TTier r, nm))"
  shows "placed (name_row ((r, nm), o') st) =
     (let p = name_place (\<lambda>k. set (names_under (placed st) k)) (r, nm) o' in assign r (fst p) (snd p) (placed st))"
proof -
  let ?c = "names_under (placed st) (TTour r, TTier r, nm)"
  have one: "card (set ?c) = length ?c" using assms by (rule distinct_card)
  have single: "length ?c = 1 \<Longrightarrow> the_elem (set ?c) = hd ?c" by (cases ?c) auto
  show ?thesis using one single by (simp add: name_row_def name_place_def Let_def)
qed

definition named_edition :: "(string \<times> string \<times> string \<Rightarrow> string set) \<Rightarrow> pending \<times> int \<Rightarrow> int \<times> edition" where
  "named_edition keys q = (TId (fst (fst q)), \<lparr>Row = fst (fst q), Link = snd (name_place keys (fst q) (snd q))\<rparr>)"

definition named_key :: "(string \<times> string \<times> string \<Rightarrow> string set) \<Rightarrow> pending \<times> int \<Rightarrow> int \<times> string" where
  "named_key keys q = (TId (fst (fst q)), fst (name_place keys (fst q) (snd q)))"

lemma name_rows_facts:
  assumes "distinct (map (\<lambda>q. TId (fst (fst q))) zs)" "(\<lambda>q. TId (fst (fst q))) ` set zs \<inter> fst ` set (assigned (placed st)) = {}"
    and "\<And>k. distinct (names_under (placed st) k)" and keys: "keys = (\<lambda>k. set (names_under (placed st) k))"
  shows "assigned (placed (fold name_row zs st)) = assigned (placed st) @ map (named_edition keys) zs
    \<and> key_of (placed (fold name_row zs st)) = key_of (placed st) ++ map_of (map (named_key keys) zs)"
  using assms
proof (induction zs arbitrary: st)
  case (Cons z zs)
  obtain r nm o' where z: "z = ((r, nm), o')" by (cases z) auto
  let ?p = "name_place keys (r, nm) o'"
  have st: "placed (name_row z st) = assign r (fst ?p) (snd ?p) (placed st)"
    unfolding z name_row_placed [OF Cons.prems(3)] Cons.prems(4) by (simp add: Let_def)
  have fresh: "TId r \<notin> fst ` set (assigned (placed st))" using Cons.prems(2) by (auto simp: z)
  have as: "assigned (placed (name_row z st)) = assigned (placed st) @ [named_edition keys z]"
    unfolding st using put_fresh [OF fresh] by (simp add: assign_def named_edition_def z)
  have nu: "names_under (placed (name_row z st)) = names_under (placed st)" by (simp add: st assign_def)
  have ko: "key_of (placed (name_row z st)) = (key_of (placed st))(TId r \<mapsto> fst ?p)" by (simp add: st assign_def)
  have apart: "TId r \<notin> (\<lambda>q. TId (fst (fst q))) ` set zs" using Cons.prems(1) by (simp add: z)
  have IH: "assigned (placed (fold name_row zs (name_row z st))) = assigned (placed (name_row z st)) @ map (named_edition keys) zs
    \<and> key_of (placed (fold name_row zs (name_row z st))) = key_of (placed (name_row z st)) ++ map_of (map (named_key keys) zs)"
  proof (rule Cons.IH)
    show "distinct (map (\<lambda>q. TId (fst (fst q))) zs)" using Cons.prems(1) by simp
    have "fst ` set (assigned (placed (name_row z st))) = insert (TId r) (fst ` set (assigned (placed st)))"
      unfolding as by (simp add: named_edition_def z)
    then show "(\<lambda>q. TId (fst (fst q))) ` set zs \<inter> fst ` set (assigned (placed (name_row z st))) = {}"
      using Cons.prems(2) apart by auto
    show "distinct (names_under (placed (name_row z st)) k)" for k unfolding nu by (rule Cons.prems(3))
    show "keys = (\<lambda>k. set (names_under (placed (name_row z st)) k))" unfolding nu by (rule Cons.prems(4))
  qed
  have "map_of (map (named_key keys) zs) (TId r) = None"
    using apart unfolding map_of_eq_None_iff set_map image_image named_key_def fst_conv .
  then have H: "(key_of (placed st))(TId r \<mapsto> fst ?p) ++ map_of (map (named_key keys) zs)
      = key_of (placed st) ++ map_of (map (named_key keys) (z # zs))"
    by (auto simp: named_key_def z map_add_def fun_eq_iff split: option.splits)
  have F: "fold name_row (z # zs) st = fold name_row zs (name_row z st)" by simp
  show ?case
    unfolding F using IH [unfolded ko H] by (intro conjI) (simp add: as, blast)
qed simp

section \<open>The final place of every row\<close>

definition rank_among :: "pending set \<Rightarrow> pending \<Rightarrow> int" where
  "rank_among ps p = 1 + int (card {q \<in> ps. pending_group q = pending_group p \<and> played_before (fst q) (fst p)})"

definition final_place :: "(rune \<Rightarrow> bool) \<Rightarrow> ov_index \<Rightarrow> trow set \<Rightarrow> trow \<Rightarrow> string \<times> elink" where
  "final_place ul ix rows r =
     (case place_of ul ix r of
        Some p \<Rightarrow> p
      | None \<Rightarrow>
          name_place (keys_of_name ul ix rows) (r, normalise_event ul (TName r))
            (rank_among {(q, normalise_event ul (TName q)) | q. q \<in> rows \<and> place_of ul ix q = None} (r, normalise_event ul (TName r))))"

definition final_edition :: "(rune \<Rightarrow> bool) \<Rightarrow> ov_index \<Rightarrow> trow set \<Rightarrow> trow \<Rightarrow> edition" where
  "final_edition ul ix rows r = \<lparr>Row = r, Link = snd (final_place ul ix rows r)\<rparr>"

lemma rank_in_among:
  assumes "distinct named" "i < length named"
  shows "rank_in named i = rank_among (set named) (named ! i)"
proof -
  let ?J = "{j. j < length named \<and> pending_group (named ! j) = pending_group (named ! i) \<and> before_at named j i}"
  have "{q \<in> set named. pending_group q = pending_group (named ! i) \<and> played_before (fst q) (fst (named ! i))} = (!) named ` ?J"
    by (auto simp: in_set_conv_nth image_def)
  moreover have "inj_on ((!) named) ?J" using assms(1) by (auto simp: inj_on_def nth_eq_iff_index_eq)
  ultimately show ?thesis by (simp add: rank_in_def rank_among_def card_image)
qed

lemma ordinals_zip:
  assumes "distinct (map (\<lambda>p. TId (fst p)) named)"
  shows "zip named (ordinals_within_season named) = map (\<lambda>p. (p, rank_among (set named) p)) named"
proof (cases "named = []")
  case False
  then have len: "length (ordinals_within_season named) = length named"
    using ordinals_are_ranks(2) [OF assms, of 0] by simp
  have dist: "distinct named" using assms by (simp add: distinct_map)
  show ?thesis
    by (rule nth_equalityI) (simp_all add: len ordinals_are_ranks(1) [OF assms] rank_in_among [OF dist])
qed simp

definition placing_order :: "(rune \<Rightarrow> bool) \<Rightarrow> ov_index \<Rightarrow> trow list \<Rightarrow> trow list" where
  "placing_order ul ix rows = filter (\<lambda>r. place_of ul ix r \<noteq> None) rows @ filter (\<lambda>r. place_of ul ix r = None) rows"

lemma mset_placing_order: "mset (placing_order ul ix rows) = mset rows"
  using multiset_partition [of "mset rows" "\<lambda>r. place_of ul ix r \<noteq> None"]
  by (simp add: placing_order_def)

lemma set_placing_order [simp]: "set (placing_order ul ix rows) = set rows"
  using mset_placing_order by (metis set_mset_mset)

lemma resolve_places:
  assumes ids: "distinct (map TId rows)" and st: "st = placed (name_all (place_all ul ix rows))"
  shows "assigned st = map (\<lambda>r. (TId r, final_edition ul ix (set rows) r)) (placing_order ul ix rows)"
    and "\<And>r. r \<in> set rows \<Longrightarrow> key_of st (TId r) = Some (fst (final_place ul ix (set rows) r))"
proof -
  let ?st = "place_all ul ix rows"
  let ?named = "unplaced ul ix rows"
  let ?keys = "keys_of_name ul ix (set rows)"
  let ?rank = "rank_among (set ?named)"
  let ?zs = "map (\<lambda>p. (p, ?rank p)) ?named"
  note pa = place_all_facts [OF ids refl, of ul ix]
  have setn: "set ?named = {(q, normalise_event ul (TName q)) | q. q \<in> set rows \<and> place_of ul ix q = None}"
    by (auto simp: unplaced_def)
  have nid: "map (\<lambda>p. TId (fst p)) ?named = map TId (filter (\<lambda>r. place_of ul ix r = None) rows)"
    by (simp add: unplaced_def o_def)
  have dn: "distinct (map (\<lambda>p. TId (fst p)) ?named)"
    unfolding nid using ids by (rule distinct_map_filter)
  have na: "name_all ?st = fold name_row ?zs \<lparr>placed = ?st, numbered = 0, ambiguous = []\<rparr>"
    unfolding name_all_def pa(1) ordinals_zip [OF dn] ..
  have inj: "q = r" if "TId q = TId r" "q \<in> set rows" "r \<in> set rows" for q r
    using ids that by (metis distinct_map inj_onD)
  have zid: "(\<lambda>q. TId (fst (fst q))) ` set ?zs = {TId r | r. r \<in> set rows \<and> place_of ul ix r = None}"
    by (simp only: set_map image_image fst_conv setn) force
  have fold: "assigned st = assigned ?st @ map (named_edition ?keys) ?zs
      \<and> key_of st = key_of ?st ++ map_of (map (named_key ?keys) ?zs)"
    unfolding st na
  proof (rule name_rows_facts [where st = "\<lparr>placed = ?st, numbered = 0, ambiguous = []\<rparr>", simplified naming.select_convs])
    show "distinct (map (\<lambda>q. TId (fst (fst q))) ?zs)" using dn by (simp add: o_def)
    show "(\<lambda>q. TId (fst (fst q))) ` set ?zs \<inter> fst ` set (assigned ?st) = {}"
      unfolding zid pa(2) using inj by (fastforce simp: placed_edition_def)
    show "distinct (names_under ?st k)" for k by (rule pa(4) [rule_format, THEN conjunct2])
    show "?keys = (\<lambda>k. set (names_under ?st k))"
      by (rule ext) (rule pa(4) [rule_format, THEN conjunct1, symmetric])
  qed
  have fin: "named_edition ?keys (p, ?rank p) = (TId r, final_edition ul ix (set rows) r)"
      "named_key ?keys (p, ?rank p) = (TId r, fst (final_place ul ix (set rows) r))"
    if "p = (r, normalise_event ul (TName r))" "place_of ul ix r = None" for p r
    using that by (simp_all add: named_edition_def named_key_def final_edition_def final_place_def setn)
  have pl: "placed_edition ul ix r = (TId r, final_edition ul ix (set rows) r)" if "place_of ul ix r \<noteq> None" for r
    using that by (auto simp: placed_edition_def final_edition_def final_place_def)
  have "map (named_edition ?keys) ?zs = map (\<lambda>r. (TId r, final_edition ul ix (set rows) r)) (filter (\<lambda>r. place_of ul ix r = None) rows)"
    using fin(1) by (simp add: unplaced_def o_def)
  then show "assigned st = map (\<lambda>r. (TId r, final_edition ul ix (set rows) r)) (placing_order ul ix rows)"
    using fold pa(2) pl by (simp add: placing_order_def)
  fix r
  assume r: "r \<in> set rows"
  have keys: "map (named_key ?keys) ?zs = map (\<lambda>r. (TId r, fst (final_place ul ix (set rows) r))) (filter (\<lambda>r. place_of ul ix r = None) rows)"
    using fin(2) by (simp add: unplaced_def o_def)
  show "key_of st (TId r) = Some (fst (final_place ul ix (set rows) r))"
  proof (cases "place_of ul ix r")
    case None
    have "map_of (map (\<lambda>r. (TId r, fst (final_place ul ix (set rows) r))) (filter (\<lambda>r. place_of ul ix r = None) rows)) (TId r)
        = Some (fst (final_place ul ix (set rows) r))"
      by (rule map_of_is_SomeI) (use ids r None in \<open>auto simp: o_def distinct_map_filter\<close>)
    then show ?thesis using fold keys by simp
  next
    case (Some p)
    obtain key l where p: "p = (key, l)" by (cases p)
    have "map_of (map (\<lambda>r. (TId r, fst (final_place ul ix (set rows) r))) (filter (\<lambda>r. place_of ul ix r = None) rows)) (TId r) = None"
      unfolding map_of_eq_None_iff using inj r Some by fastforce
    then have "key_of st (TId r) = key_of ?st (TId r)" using fold keys by (simp add: map_add_def)
    then show ?thesis using pa(3) r Some p by (simp add: final_place_def)
  qed
qed

section \<open>The events\<close>

definition run_of :: "(rune \<Rightarrow> bool) \<Rightarrow> ov_index \<Rightarrow> trow set \<Rightarrow> trow \<Rightarrow> string \<times> string" where
  "run_of ul ix rows r = (TTour r, fst (final_place ul ix rows r))"

definition run_event :: "(rune \<Rightarrow> bool) \<Rightarrow> ov_index \<Rightarrow> trow list \<Rightarrow> string \<times> string \<Rightarrow> event" where
  "run_event ul ix rows k =
     make_event ul ix (k, map (final_edition ul ix (set rows)) (filter (\<lambda>r. run_of ul ix (set rows) r = k) (placing_order ul ix rows)))"

lemma make_event_key [simp]: "ETour (make_event ul ix (k, eds)) = fst k" "EKey (make_event ul ix (k, eds)) = snd k"
  by (simp_all add: make_event_def Let_def split_def)

lemma make_event_editions [simp]: "Editions (make_event ul ix (k, eds)) = sort_slice edition_before eds"
  by (simp add: make_event_def Let_def split_def)

lemma make_event_sorted:
  "sort_slice edition_before a = sort_slice edition_before b \<Longrightarrow> make_event ul ix (k, a) = make_event ul ix (k, b)"
  by (cases k) (simp add: make_event_def)

lemma edition_before_total: "TId (Row a) \<noteq> TId (Row b) \<Longrightarrow> edition_before a b \<or> edition_before b a"
  by (auto simp: edition_before_def)

lemma event_before_total: "(ETour a, EKey a) \<noteq> (ETour b, EKey b) \<Longrightarrow> event_before a b \<or> event_before b a"
  by (auto simp: event_before_def)

lemma resolve_events:
  assumes ids: "distinct (map TId rows)" and ix: "ix = index_of os"
  obtains ks where "distinct ks" "set ks = run_of ul ix (set rows) ` set rows"
    and "Events (resolve ul rows os) = sort_slice event_before (map (run_event ul ix rows) ks)"
proof -
  let ?st = "placed (name_all (place_all ul ix rows))"
  let ?fe = "final_edition ul ix (set rows)"
  let ?rows = "placing_order ul ix rows"
  let ?run = "run_of ul ix (set rows)"
  let ?by = "group_by (\<lambda>(id, ed). (TTour (Row ed), the (key_of ?st id))) (assigned ?st)"
  note rp = resolve_places [OF ids refl, where ul = ul and ix = ix]
  have f: "(\<lambda>(id, ed). (TTour (Row ed), the (key_of ?st id))) (TId r, ?fe r) = ?run r" if "r \<in> set rows" for r
    using rp(2) [OF that] by (simp add: final_edition_def run_of_def)
  have fil: "filter (\<lambda>q. (\<lambda>(id, ed). (TTour (Row ed), the (key_of ?st id))) q = k) (assigned ?st)
      = map (\<lambda>r. (TId r, ?fe r)) (filter (\<lambda>r. ?run r = k) ?rows)" for k
    unfolding rp(1) filter_map o_def
    by (rule arg_cong [where f = "map (\<lambda>r. (TId r, ?fe r))"], rule filter_cong) (use f in \<open>auto simp: f\<close>)
  have mem: "(k, g) \<in> set ?by \<longleftrightarrow> g = map (\<lambda>r. (TId r, ?fe r)) (filter (\<lambda>r. ?run r = k) ?rows) \<and> k \<in> ?run ` set rows" for k g
    unfolding group_by_iff fil by (auto simp: filter_empty_conv)
  have keys: "set (map fst ?by) = ?run ` set rows"
  proof (rule set_eqI)
    fix k
    have "k \<in> set (map fst ?by) \<longleftrightarrow> (\<exists>g. (k, g) \<in> set ?by)"
      unfolding set_map by (metis (no_types, lifting) fst_conv image_iff prod.collapse)
    then show "k \<in> set (map fst ?by) \<longleftrightarrow> k \<in> ?run ` set rows" unfolding mem by simp
  qed
  have one: "make_event ul ix (fst q, map snd (snd q)) = run_event ul ix rows (fst q)" if q: "q \<in> set ?by" for q
  proof -
    have "(fst q, snd q) \<in> set ?by" using q by simp
    then have g: "snd q = map (\<lambda>r. (TId r, ?fe r)) (filter (\<lambda>r. ?run r = fst q) ?rows)" unfolding mem by blast
    show ?thesis unfolding run_event_def g map_map by (simp add: o_def)
  qed
  have two: "(case q of (k, eds) \<Rightarrow> make_event ul ix (k, map snd eds)) = (run_event ul ix rows \<circ> fst) q" if "q \<in> set ?by" for q
    using one [OF that] by (cases q) simp
  have maps: "map (\<lambda>(k, eds). make_event ul ix (k, map snd eds)) ?by = map (run_event ul ix rows) (map fst ?by)"
    unfolding map_map by (rule map_cong [OF refl two])
  have "Events (resolve ul rows os) = sort_slice event_before (map (\<lambda>(k, eds). make_event ul ix (k, map snd eds)) ?by)"
    unfolding resolve_def Let_def ix by simp
  then have "Events (resolve ul rows os) = sort_slice event_before (map (run_event ul ix rows) (map fst ?by))"
    unfolding maps .
  then show ?thesis using that [of "map fst ?by"] keys distinct_group_by by blast
qed

lemma run_event_keys: "distinct ks \<Longrightarrow> distinct (map (run_event ul ix rows) ks)"
proof -
  have "inj (run_event ul ix rows)"
    by (rule injI) (metis run_event_def make_event_key prod.collapse)
  then show "distinct ks \<Longrightarrow> distinct (map (run_event ul ix rows) ks)"
    by (metis distinct_map inj_on_subset subset_UNIV)
qed

lemma resolve_keys: "distinct (map TId rows) \<Longrightarrow> distinct (map (\<lambda>e. (ETour e, EKey e)) (Events (resolve ul rows os)))"
proof -
  assume "distinct (map TId rows)"
  then obtain ks where ks: "distinct ks"
    "Events (resolve ul rows os) = sort_slice event_before (map (run_event ul (index_of os) rows) ks)"
    using resolve_events [OF _ refl] by metis
  have "mset (map (\<lambda>e. (ETour e, EKey e)) (Events (resolve ul rows os)))
      = mset (map (\<lambda>e. (ETour e, EKey e)) (map (run_event ul (index_of os) rows) ks))"
    unfolding ks(2) by (simp only: mset_map mset_sort_slice)
  also have "map (\<lambda>e. (ETour e, EKey e)) (map (run_event ul (index_of os) rows) ks) = ks"
    by (simp add: o_def run_event_def)
  finally show ?thesis using ks(1) by (metis mset_eq_imp_distinct_iff)
qed

lemma run_event_before: "k \<noteq> k' \<Longrightarrow> event_before (run_event ul ix rows k) (run_event ul ix rows k') \<or> event_before (run_event ul ix rows k') (run_event ul ix rows k)"
  by (rule event_before_total) (auto simp: run_event_def prod_eq_iff)

lemma run_event_pair:
  "x \<in> set (map (run_event ul ix rows) ks) \<Longrightarrow> y \<in> set (map (run_event ul ix rows) ks) \<Longrightarrow> x \<noteq> y \<Longrightarrow>
   event_before x y \<or> event_before y x"
proof -
  assume "x \<in> set (map (run_event ul ix rows) ks)" "y \<in> set (map (run_event ul ix rows) ks)" "x \<noteq> y"
  then obtain k k' where "x = run_event ul ix rows k" "y = run_event ul ix rows k'" "k \<noteq> k'" by auto
  then show ?thesis using run_event_before by metis
qed

lemma final_editions_distinct:
  assumes "distinct (map TId rows)"
  shows "distinct (map (final_edition ul ix R) (filter P (placing_order ul ix rows)))"
    and "a \<in> set (map (final_edition ul ix R) (filter P (placing_order ul ix rows))) \<Longrightarrow>
      b \<in> set (map (final_edition ul ix R) (filter P (placing_order ul ix rows))) \<Longrightarrow> a \<noteq> b \<Longrightarrow>
      edition_before a b \<or> edition_before b a"
proof -
  have d: "distinct (placing_order ul ix rows)"
    using assms mset_placing_order [of ul ix rows] by (metis distinct_map mset_eq_imp_distinct_iff)
  have "inj (final_edition ul ix R)" by (rule injI) (metis final_edition_def edition.select_convs(1))
  then show "distinct (map (final_edition ul ix R) (filter P (placing_order ul ix rows)))"
    using d by (metis distinct_map distinct_filter inj_on_subset subset_UNIV)
  assume ab: "a \<in> set (map (final_edition ul ix R) (filter P (placing_order ul ix rows)))"
    "b \<in> set (map (final_edition ul ix R) (filter P (placing_order ul ix rows)))" "a \<noteq> b"
  then obtain q r where "q \<in> set rows" "r \<in> set rows" "a = final_edition ul ix R q" "b = final_edition ul ix R r" "q \<noteq> r" by auto
  then have "TId (Row a) \<noteq> TId (Row b)" using assms by (auto simp: final_edition_def distinct_map dest: inj_onD)
  then show "edition_before a b \<or> edition_before b a" by (rule edition_before_total)
qed

section \<open>Properties of the derivation\<close>

lemma resolve_partition:
  assumes "distinct (map TId rows)" and "events = Events (resolve ul rows os)"
  shows "mset (map Row (concat (map Editions events))) = mset rows
    \<and> sorted_wrt event_before events
    \<and> (\<forall>e \<in> set events. Editions e \<noteq> [] \<and> sorted_wrt edition_before (Editions e)
        \<and> (\<forall>d \<in> set (Editions e). TTour (Row d) = ETour e \<and> FirstSeason e \<le> TSeason (Row d) \<and> TSeason (Row d) \<le> LastSeason e))"
proof -
  define ix where "ix = index_of os"
  let ?run = "run_of ul ix (set rows)"
  let ?fe = "final_edition ul ix (set rows)"
  let ?rows = "placing_order ul ix rows"
  let ?ev = "run_event ul ix rows"
  obtain ks where ks: "distinct ks" "set ks = ?run ` set rows" "events = sort_slice event_before (map ?ev ks)"
    using resolve_events [OF assms(1) ix_def] assms(2) by metis
  have eds: "Editions (?ev k) = sort_slice edition_before (map ?fe (filter (\<lambda>r. ?run r = k) ?rows))" for k
    by (simp add: run_event_def)
  have dist: "distinct (map ?ev ks)" by (rule run_event_keys [OF ks(1)])
  have sorted: "sorted_wrt event_before events"
    unfolding ks(3) by (rule event_order.sort_slice_strict [OF dist run_event_pair])
  have row_fe: "Row (?fe r) = r" for r by (simp add: final_edition_def)
  have "distinct (concat (map Editions events))"
  proof (rule distinct_concat_map)
    show "distinct events" using dist by (simp add: ks(3))
    fix e
    assume "e \<in> set events"
    then obtain k where k: "e = ?ev k" by (auto simp: ks(3))
    show "distinct (Editions e)"
      unfolding k eds distinct_sort_slice by (rule final_editions_distinct(1) [OF assms(1)])
    fix e'
    assume "e' \<in> set events" "e \<noteq> e'"
    then obtain k' where k': "e' = ?ev k'" "k \<noteq> k'" using k by (auto simp: ks(3))
    have "?run (Row d) = k" if "d \<in> set (Editions (?ev k))" for d k
      using that unfolding eds by (auto simp: row_fe)
    then show "set (Editions e) \<inter> set (Editions e') = {}" using k k' by blast
  qed
  moreover have all: "set (concat (map Editions events)) = ?fe ` set rows"
    by (auto simp: ks(2,3) eds)
  moreover have inj: "inj_on Row (?fe ` set rows)" by (auto simp: inj_on_def row_fe)
  ultimately have d1: "distinct (map Row (concat (map Editions events)))" by (simp only: distinct_map)
  have s1: "set (map Row (concat (map Editions events))) = set rows"
    unfolding set_map [where f = Row] all image_image row_fe by simp
  have d2: "distinct rows" using assms(1) by (simp add: distinct_map)
  have parts: "mset (map Row (concat (map Editions events))) = mset rows" by (rule sort_distinct_sets [OF d1 d2 s1])
  have each: "Editions e \<noteq> [] \<and> sorted_wrt edition_before (Editions e)
      \<and> (\<forall>d \<in> set (Editions e). TTour (Row d) = ETour e \<and> FirstSeason e \<le> TSeason (Row d) \<and> TSeason (Row d) \<le> LastSeason e)"
    if "e \<in> set events" for e
  proof -
    have "e \<in> ?ev ` (?run ` set rows)" using that by (simp only: ks(2,3) set_sort_slice set_map)
    then obtain k where k: "e = ?ev k" "k \<in> ?run ` set rows" by (rule imageE)
    let ?es = "Editions e"
    have set: "set ?es = ?fe ` {r \<in> set rows. ?run r = k}" unfolding k(1) eds by auto
    then have ne: "?es \<noteq> []" using k(2) by fastforce
    have so: "sorted_wrt edition_before ?es"
      unfolding k(1) eds
      by (rule edition_order.sort_slice_strict) (use final_editions_distinct [OF assms(1)] in blast)+
    have fl: "FirstSeason e = TSeason (Row (hd ?es))" "LastSeason e = TSeason (Row (last ?es))"
      by (simp_all add: k(1) run_event_def make_event_def Let_def split_def)
    have le: "edition_before a b \<Longrightarrow> TSeason (Row a) \<le> TSeason (Row b)" for a b
      by (auto simp: edition_before_def split: if_splits)
    have "FirstSeason e \<le> TSeason (Row d)" "TSeason (Row d) \<le> LastSeason e" if d: "d \<in> set ?es" for d
    proof -
      show "FirstSeason e \<le> TSeason (Row d)"
        using so d ne le unfolding fl by (cases ?es) auto
      show "TSeason (Row d) \<le> LastSeason e"
        using so d ne le unfolding fl by (cases ?es rule: rev_cases) (auto simp: sorted_wrt_append)
    qed
    moreover have "TTour (Row d) = ETour e" if "d \<in> set ?es" for d
      using that unfolding set by (auto simp: row_fe k(1) run_event_def run_of_def)
    ultimately show ?thesis using ne so by blast
  qed
  show ?thesis using parts sorted each by blast
qed

text \<open>
  C16: the events partition the tournaments. Every row is an edition of exactly one event, an event of its
  own tour; no event is empty; tour and key identify an event, the events are in that order, the editions
  in calendar order, and the first and last season are those of its editions.
\<close>
theorem every_row_one_event:
  assumes "distinct (map TId rows)" and "events = Events (resolve ul rows os)"
  shows "mset (map Row (concat (map Editions events))) = mset rows
    \<and> sorted_wrt event_before events
    \<and> (\<forall>e \<in> set events. Editions e \<noteq> [] \<and> sorted_wrt edition_before (Editions e)
        \<and> (\<forall>d \<in> set (Editions e). TTour (Row d) = ETour e \<and> FirstSeason e \<le> TSeason (Row d) \<and> TSeason (Row d) \<le> LastSeason e))"
  by (rule resolve_partition [OF assms])

lemma link_counts:
  "fold (\<lambda>(id, ed) m. m(Link ed := m (Link ed) + 1)) xs m l = m l + length (filter (\<lambda>q. Link (snd q) = l) xs)"
  by (induction xs arbitrary: m) (auto simp: split_def)

lemma resolve_by_link:
  assumes "distinct (map TId rows)"
  shows "ByLink (resolve ul rows os) l = size {#r \<in># mset rows. snd (final_place ul (index_of os) (set rows) r) = l#}"
proof -
  have "ByLink (resolve ul rows os) l
      = length (filter (\<lambda>r. snd (final_place ul (index_of os) (set rows) r) = l) (placing_order ul (index_of os) rows))"
    unfolding resolve_def Let_def resolved.simps link_counts
      resolve_places(1) [OF assms refl, where ul = ul and ix = "index_of os"]
    by (simp add: filter_map o_def final_edition_def)
  also have "\<dots> = size {#r \<in># mset (placing_order ul (index_of os) rows). snd (final_place ul (index_of os) (set rows) r) = l#}"
    by (metis mset_filter size_mset)
  finally show ?thesis unfolding mset_placing_order .
qed

text \<open>
  C18: the derivation is a function of the set of rows. Reading the tournaments in another order, or
  walking the maps of the code in another order, yields the same events in the same order, with the same
  editions, and the same count of rows under every link.
\<close>
theorem resolve_ignores_row_order:
  assumes "distinct (map TId rows)" and "mset rows' = mset rows"
  shows "Events (resolve ul rows' os) = Events (resolve ul rows os) \<and> ByLink (resolve ul rows' os) = ByLink (resolve ul rows os)"
proof -
  define ix where "ix = index_of os"
  have ids': "distinct (map TId rows')"
    using assms by (metis mset_eq_imp_distinct_iff mset_map)
  have sets: "set rows' = set rows" using assms(2) by (rule mset_eq_setD)
  obtain ks where ks: "distinct ks" "set ks = run_of ul ix (set rows) ` set rows"
    "Events (resolve ul rows os) = sort_slice event_before (map (run_event ul ix rows) ks)"
    using resolve_events [OF assms(1) ix_def] by metis
  obtain ks' where ks': "distinct ks'" "set ks' = run_of ul ix (set rows') ` set rows'"
    "Events (resolve ul rows' os) = sort_slice event_before (map (run_event ul ix rows') ks')"
    using resolve_events [OF ids' ix_def] by metis
  have one: "run_event ul ix rows' k = run_event ul ix rows k" for k
  proof -
    let ?l = "\<lambda>rows. map (final_edition ul ix (set rows)) (filter (\<lambda>r. run_of ul ix (set rows) r = k) (placing_order ul ix rows))"
    have "mset (placing_order ul ix rows') = mset (placing_order ul ix rows)"
      unfolding mset_placing_order by (rule assms(2))
    then have "mset (?l rows') = mset (?l rows)" unfolding sets mset_map mset_filter by simp
    then have "sort_slice edition_before (?l rows') = sort_slice edition_before (?l rows)"
      by (rule edition_order.sort_slice_deterministic) (use final_editions_distinct(2) [OF ids'] in blast)
    then show ?thesis unfolding run_event_def by (rule make_event_sorted)
  qed
  have same: "map (run_event ul ix rows') ks' = map (run_event ul ix rows) ks'" using one by simp
  have "mset ks' = mset ks" by (rule sort_distinct_sets) (simp_all add: ks ks' sets)
  then have "sort_slice event_before (map (run_event ul ix rows) ks') = sort_slice event_before (map (run_event ul ix rows) ks)"
    by (intro event_order.sort_slice_deterministic) (simp, rule run_event_pair)
  then have "Events (resolve ul rows' os) = Events (resolve ul rows os)" unfolding ks(3) ks'(3) same .
  moreover have "ByLink (resolve ul rows' os) = ByLink (resolve ul rows os)"
    by (rule ext) (simp add: resolve_by_link [OF assms(1)] resolve_by_link [OF ids'] sets assms(2))
  ultimately show ?thesis by blast
qed

section \<open>Runs joined by name\<close>

lemma slug_no_colon: "CHR '':'' \<notin> set (slug ul t)"
proof -
  have "folded CHR ''-'' (slug ul t)" using sep_rune by (simp add: slug_def folded_convert)
  then have "list_all (\<lambda>c. slug_char c \<or> c = CHR ''-'') (slug ul t)" by (simp add: folded_def)
  moreover have "\<not> slug_char CHR '':''" by (simp add: slug_char_def is_digit_def)
  ultimately show ?thesis by (auto simp: list_all_iff)
qed

lemma itoa_inj: "0 \<le> a \<Longrightarrow> 0 \<le> b \<Longrightarrow> itoa a = itoa b \<Longrightarrow> a = b"
  using digits_val_digits_of by (metis itoa_nonneg nat_0_le)

lemma run_key_eq:
  assumes "CHR '':'' \<notin> set tier" "CHR '':'' \<notin> set tier'" "CHR '':'' \<notin> set nm" "CHR '':'' \<notin> set nm'" "1 \<le> o1" "1 \<le> o2"
    and "run_key tier nm o1 = run_key tier' nm' o2"
  shows "tier = tier' \<and> nm = nm' \<and> o1 = o2"
proof -
  let ?t = "\<lambda>nm o'. nm @ (if o' > 1 then CHR '':'' # itoa o' else [])"
  have key: "run_key tier nm o' = ''name:'' @ tier @ CHR '':'' # ?t nm o'" for tier nm and o' :: int
    by (simp add: run_key_def Let_def)
  have "tier @ CHR '':'' # ?t nm o1 = tier' @ CHR '':'' # ?t nm' o2"
    using assms(7) unfolding key by simp
  then have t: "tier = tier'" "?t nm o1 = ?t nm' o2" using append_sep_eq [OF assms(1,2)] by blast+
  consider "o1 = 1" "o2 = 1" | "o1 = 1" "1 < o2" | "1 < o1" "o2 = 1" | "1 < o1" "1 < o2" using assms(5,6) by linarith
  then show ?thesis
  proof cases
    case 4
    then have "nm = nm' \<and> itoa o1 = itoa o2" using t(2) append_sep_eq [OF assms(3,4)] by simp
    then show ?thesis using t(1) itoa_inj 4 by simp
  qed (use t assms(3,4) in auto)
qed

lemma rank_positive: "1 \<le> rank_among ps p"
  by (simp add: rank_among_def)

lemma rank_among_inj:
  assumes "finite ps" "p \<in> ps" "q \<in> ps" "pending_group p = pending_group q" "rank_among ps p = rank_among ps q"
    and "TId (fst p) = TId (fst q) \<Longrightarrow> p = q"
  shows "p = q"
proof (rule ccontr)
  assume ne: "p \<noteq> q"
  have less: "rank_among ps a < rank_among ps b"
    if a: "a \<in> ps" "b \<in> ps" "pending_group a = pending_group b" "played_before (fst a) (fst b)" for a b
  proof -
    let ?S = "\<lambda>b. {q \<in> ps. pending_group q = pending_group b \<and> played_before (fst q) (fst b)}"
    have "?S a \<subseteq> ?S b" using a played.less_trans by auto
    moreover have "a \<in> ?S b" "a \<notin> ?S a" using a played.less_irrefl by auto
    ultimately have "?S a \<subset> ?S b" by blast
    then have "card (?S a) < card (?S b)" by (rule psubset_card_mono [rotated]) (simp add: assms(1))
    then show ?thesis by (simp add: rank_among_def)
  qed
  have "played_before (fst p) (fst q) \<or> played_before (fst q) (fst p)"
    using ne assms(6) played_before_total by metis
  then show False using less [OF assms(2,3,4)] less [OF assms(3,2) assms(4) [symmetric]] assms(5) by auto
qed

lemma place_of_not_name: "place_of ul ix r = Some (key, l) \<Longrightarrow> \<not> has_prefix key ''name:''"
  by (auto simp: place_of_def number_key_def team_key_def split: if_splits option.splits)

lemma name_place_run:
  assumes "has_prefix (fst (name_place (keys_of_name ul ix R) (r, nm) o')) ''name:''" "1 \<le> o'"
  shows "name_place (keys_of_name ul ix R) (r, nm) o' = (run_key (TTier r) nm o', LinkName)"
proof -
  let ?ks = "keys_of_name ul ix R (TTour r, TTier r, nm)"
  have "\<not> has_prefix (the_elem ?ks) ''name:''" if one: "card ?ks = 1"
  proof -
    obtain key where k: "?ks = {key}" using one by (rule card_1_singletonE)
    then have "key \<in> ?ks" by (simp only: singletonI)
    then obtain q l where "place_of ul ix q = Some (key, l)" unfolding keys_of_name_def mem_Collect_eq by (elim bexE exE conjE)
    then have "\<not> has_prefix key ''name:''" by (rule place_of_not_name)
    then show ?thesis unfolding k by (simp only: the_elem_eq not_False_eq_True)
  qed
  moreover have "o' = 1" if "\<not> o' > 1" using assms(2) that by simp
  ultimately show ?thesis using assms(1) unfolding name_place_def by (auto split: if_splits)
qed

lemma final_place_name:
  assumes "has_prefix (fst (final_place ul ix R r)) ''name:''"
  shows "place_of ul ix r = None \<and> final_place ul ix R r =
    (run_key (TTier r) (normalise_event ul (TName r))
      (rank_among {(q, normalise_event ul (TName q)) | q. q \<in> R \<and> place_of ul ix q = None} (r, normalise_event ul (TName r))), LinkName)"
proof (cases "place_of ul ix r")
  case None
  then show ?thesis
    using name_place_run [OF _ rank_positive] assms by (simp add: final_place_def)
next
  case (Some p)
  then show ?thesis using place_of_not_name assms by (cases p) (auto simp: final_place_def)
qed

text \<open>
  A run joined by name alone is at most once in a season. Rows of one name, tour and tier in a season
  are numbered in calendar order and every number is a run of its own, so two editions of such an event
  never share a season. Tiers are the values of an enumeration and hold no colon.
\<close>
theorem name_run_once_a_season:
  assumes "distinct (map TId rows)" and "\<forall>r \<in> set rows. CHR '':'' \<notin> set (TTier r)"
    and "e \<in> set (Events (resolve ul rows os))" and "has_prefix (EKey e) ''name:''"
    and "d \<in> set (Editions e)" "d' \<in> set (Editions e)" "TSeason (Row d) = TSeason (Row d')"
  shows "d = d' \<and> Link d = LinkName"
proof -
  define ix where "ix = index_of os"
  let ?F = "final_place ul ix (set rows)"
  let ?fe = "final_edition ul ix (set rows)"
  let ?P = "{(q, normalise_event ul (TName q)) | q. q \<in> set rows \<and> place_of ul ix q = None}"
  let ?p = "\<lambda>r. (r, normalise_event ul (TName r))"
  obtain ks where "Events (resolve ul rows os) = sort_slice event_before (map (run_event ul ix rows) ks)"
    using resolve_events [OF assms(1) ix_def] by metis
  then obtain k where k: "e = run_event ul ix rows k" using assms(3) by auto
  have ek: "EKey e = snd k" by (simp add: k run_event_def)
  have mem: "\<exists>r. x = ?fe r \<and> r \<in> set rows \<and> run_of ul ix (set rows) r = k" if "x \<in> set (Editions e)" for x
    using that unfolding k run_event_def make_event_editions set_sort_slice by auto
  obtain r where r: "d = ?fe r" "r \<in> set rows" "run_of ul ix (set rows) r = k" using mem [OF assms(5)] by blast
  obtain r' where r': "d' = ?fe r'" "r' \<in> set rows" "run_of ul ix (set rows) r' = k" using mem [OF assms(6)] by blast
  have pre: "has_prefix (fst (?F r)) ''name:''" "has_prefix (fst (?F r')) ''name:''"
    using assms(4) r(3) r'(3) unfolding ek run_of_def by (metis snd_conv)+
  have same: "fst (?F r) = fst (?F r')" using r(3) r'(3) by (simp add: run_of_def prod_eq_iff)
  note f = final_place_name [OF pre(1)] and f' = final_place_name [OF pre(2)]
  have "run_key (TTier r) (snd (?p r)) (rank_among ?P (?p r)) = run_key (TTier r') (snd (?p r')) (rank_among ?P (?p r'))"
    using same arg_cong [OF conjunct2 [OF f], of fst, unfolded fst_conv] arg_cong [OF conjunct2 [OF f'], of fst, unfolded fst_conv]
    unfolding snd_conv by (rule box_equals)
  then have eq: "TTier r = TTier r' \<and> snd (?p r) = snd (?p r') \<and> rank_among ?P (?p r) = rank_among ?P (?p r')"
    by (intro run_key_eq rank_positive) (use assms(2) r(2) r'(2) in \<open>simp_all add: normalise_event_def slug_no_colon\<close>)
  have tours: "TTour r = TTour r'" using r(3) r'(3) unfolding run_of_def by (metis fst_conv)
  have season: "TSeason r = TSeason r'" using assms(7) by (simp add: r(1) r'(1) final_edition_def)
  have "?p r = ?p r'"
  proof (rule rank_among_inj [of ?P])
    have "?P \<subseteq> ?p ` set rows" by auto
    then show "finite ?P" by (rule finite_subset) simp
    show "?p r \<in> ?P" "?p r' \<in> ?P" using f f' r(2) r'(2) by auto
    show "pending_group (?p r) = pending_group (?p r')" using eq tours season by (simp add: pending_group_def)
    show "rank_among ?P (?p r) = rank_among ?P (?p r')" using eq by blast
    show "TId (fst (?p r)) = TId (fst (?p r')) \<Longrightarrow> ?p r = ?p r'"
      using assms(1) r(2) r'(2) by (auto simp: distinct_map dest: inj_onD)
  qed
  then have "r = r'" by simp
  then show ?thesis using f by (simp add: r(1) r'(1) final_edition_def)
qed

section \<open>Witnesses\<close>

definition sample_week :: "int \<Rightarrow> trow" where
  "sample_week n = \<lparr>TId = n, TTour = ''wta'', TSourceID = ''2020-W-ITF'', TName = text_of ''W15 Antalya'', TLevel = ''15'',
     TTier = ''itf'', TSeason = 2020, TStart = n\<rparr>"

definition sample_weeks :: "trow list" where
  "sample_weeks = [sample_week 1, sample_week 2]"

lemma sample_weeks_distinct: "distinct (map TId sample_weeks)"
  by (simp add: sample_weeks_def sample_week_def)

theorem every_row_one_event_witness:
  "mset (map Row (concat (map Editions (Events (resolve (\<lambda>r. True) sample_weeks []))))) = mset sample_weeks"
  using every_row_one_event [OF sample_weeks_distinct refl, of "\<lambda>r. True" "[]"] by blast

theorem resolve_ignores_row_order_witness:
  "Events (resolve (\<lambda>r. True) (rev sample_weeks) []) = Events (resolve (\<lambda>r. True) sample_weeks [])"
  using resolve_ignores_row_order [OF sample_weeks_distinct, of "rev sample_weeks" "\<lambda>r. True" "[]"] by simp

lemma sample_week_unplaced: "place_of ul (index_of []) (sample_week n) = None"
proof -
  have "number_id (TSourceID (sample_week n)) = None" "m_code_id (TSourceID (sample_week n)) = None"
    by (simp_all add: sample_week_def number_id_def m_code_id_def year_dash_def is_digit_def)
  then have "raw_key_of (sample_week n) = \<lparr>rkind = [], rvalue = []\<rparr>" by (simp add: raw_key_of_def)
  then show ?thesis by (simp add: place_of_def ov_to_def lookup_override_def index_of_def sample_week_def)
qed

theorem name_run_once_a_season_witness:
  "\<exists>e d. e \<in> set (Events (resolve (\<lambda>r. True) sample_weeks [])) \<and> d \<in> set (Editions e) \<and> Link d = LinkName"
proof -
  let ?ix = "index_of []" and ?R = "set sample_weeks" and ?r = "sample_week 1"
  obtain ks where ks: "set ks = run_of (\<lambda>r. True) ?ix ?R ` ?R"
    "Events (resolve (\<lambda>r. True) sample_weeks []) = sort_slice event_before (map (run_event (\<lambda>r. True) ?ix sample_weeks) ks)"
    using resolve_events [OF sample_weeks_distinct refl] by metis
  let ?k = "run_of (\<lambda>r. True) ?ix ?R ?r"
  let ?e = "run_event (\<lambda>r. True) ?ix sample_weeks ?k"
  have r: "?r \<in> ?R" by (simp add: sample_weeks_def)
  then have e: "?e \<in> set (Events (resolve (\<lambda>r. True) sample_weeks []))" by (simp add: ks)
  have d: "final_edition (\<lambda>r. True) ?ix ?R ?r \<in> set (Editions ?e)" using r by (simp add: run_event_def)
  have "keys_of_name (\<lambda>r. True) ?ix ?R k = {}" for k
    by (auto simp: keys_of_name_def sample_weeks_def sample_week_unplaced)
  then have "has_prefix (fst (final_place (\<lambda>r. True) ?ix ?R ?r)) ''name:''"
    by (simp add: final_place_def sample_week_unplaced name_place_def run_key_def Let_def)
  then have pre: "has_prefix (EKey ?e) ''name:''" by (simp add: run_event_def run_of_def)
  have tiers: "\<forall>r \<in> set sample_weeks. CHR '':'' \<notin> set (TTier r)" by (simp add: sample_weeks_def sample_week_def)
  show ?thesis using name_run_once_a_season [OF sample_weeks_distinct tiers e pre d d refl] e d by blast
qed

end
