(* ===== verification/EventsStore.thy ===== *)
theory EventsStore
  imports EventsFacts Sql
begin

text \<open>
  internal/events/store.go and run.go: reading the tournaments, minting a slug for every new event and
  writing the events with the links of the rows, over the tables events and tournaments with the
  constraints of their migration. The loop of \<open>mint\<close> counts up until a slug is free; it is a partial
  function whose termination is a theorem. A sequence hands out ids.
\<close>

record event_row =
  VId :: int
  VTour :: string
  VKey :: string
  VSlug :: string
  VName :: gotext
  VFirst :: int
  VLast :: int

record edb =
  e_rows :: "event_row list"
  e_tours :: "(trow \<times> (int \<times> elink) option) list"
  next_id :: int

definition event_key :: "event \<Rightarrow> string \<times> string" where
  "event_key ev = (ETour ev, EKey ev)"

definition row_key :: "event_row \<Rightarrow> string \<times> string" where
  "row_key r = (VTour r, VKey r)"

definition event_constraints :: "(string \<times> (edb \<Rightarrow> bool)) list" where
  "event_constraints =
    [(''events_pkey'', \<lambda>db. distinct (map VId (e_rows db))),
     (''events_slug_key'', \<lambda>db. distinct (map VSlug (e_rows db))),
     (''events_tour_key_key'', \<lambda>db. distinct (map row_key (e_rows db))),
     (''tournaments_pkey'', \<lambda>db. distinct (map (TId \<circ> fst) (e_tours db))),
     (''tournaments_event_id_fkey'', \<lambda>db. list_all (\<lambda>t. case snd t of None \<Rightarrow> True | Some (i, l) \<Rightarrow> i \<in> VId ` set (e_rows db)) (e_tours db))]"

section \<open>Minting slugs\<close>

partial_function (option) mint_loop :: "string list \<Rightarrow> string \<Rightarrow> string \<Rightarrow> int \<Rightarrow> string option" where
  "mint_loop taken base slug' n =
     (if slug' \<notin> set taken then Some slug' else mint_loop taken base (base @ ''-'' @ itoa n) (n + 1))"

definition mint_base :: "(rune \<Rightarrow> bool) \<Rightarrow> event \<Rightarrow> string" where
  "mint_base ul ev =
     (let base = slug ul (EName ev); base = (if base = [] then slug ul (text_of (EKey ev)) else base)
      in if contains_sub (''-'' @ base @ ''-'') (''-'' @ ETour ev @ ''-'') then base else base @ ''-'' @ ETour ev)"

definition mint :: "(rune \<Rightarrow> bool) \<Rightarrow> event \<Rightarrow> string list \<Rightarrow> string option" where
  "mint ul ev taken = mint_loop taken (mint_base ul ev) (mint_base ul ev) 2"

definition minted_before :: "event list \<Rightarrow> nat \<Rightarrow> nat \<Rightarrow> bool" where
  "minted_before evs a b \<longleftrightarrow>
     (let x = evs ! a; y = evs ! b in
      if LastSeason x \<noteq> LastSeason y then LastSeason x > LastSeason y
      else if length (Editions x) \<noteq> length (Editions y) then length (Editions x) > length (Editions y)
      else EKey x < EKey y)"

fun mint_all :: "(rune \<Rightarrow> bool) \<Rightarrow> nat list \<Rightarrow> event list \<times> string list \<times> int \<Rightarrow> (event list \<times> string list \<times> int) option" where
  "mint_all ul [] s = Some s"
| "mint_all ul (i # is) (evs, taken, created) =
     (case mint ul (evs ! i) taken of
        None \<Rightarrow> None
      | Some s \<Rightarrow> mint_all ul is (evs[i := (evs ! i)\<lparr>ESlug := s\<rparr>], s # taken, created + 1))"

definition load_slugs :: "edb \<Rightarrow> ((string \<times> string) \<times> string) list" where
  "load_slugs db = map (\<lambda>r. (row_key r, VSlug r)) (e_rows db)"

definition keep_slug :: "((string \<times> string) \<times> string) list \<Rightarrow> event \<Rightarrow> event" where
  "keep_slug existing ev = (case map_of existing (event_key ev) of Some s \<Rightarrow> ev\<lparr>ESlug := s\<rparr> | None \<Rightarrow> ev)"

definition slug_events :: "(rune \<Rightarrow> bool) \<Rightarrow> event list \<Rightarrow> edb \<Rightarrow> (event list \<times> string list \<times> int) option" where
  "slug_events ul evs db =
     (let existing = load_slugs db;
          order = filter (\<lambda>i. map_of existing (event_key (evs ! i)) = None) [0..<length evs];
          kept = map (keep_slug existing) evs
      in mint_all ul (sort_slice (minted_before kept) order) (kept, map snd existing, 0))"

section \<open>Writing\<close>

definition update_row :: "event \<Rightarrow> event_row \<Rightarrow> event_row" where
  "update_row ev r = (if row_key r = event_key ev then r\<lparr>VName := EName ev, VFirst := FirstSeason ev, VLast := LastSeason ev\<rparr> else r)"

definition upsert_event :: "event \<Rightarrow> edb \<Rightarrow> edb" where
  "upsert_event ev db =
     (if event_key ev \<in> row_key ` set (e_rows db)
      then db\<lparr>e_rows := map (update_row ev) (e_rows db), next_id := next_id db + 1\<rparr>
      else db\<lparr>e_rows := e_rows db @ [\<lparr>VId = next_id db, VTour = ETour ev, VKey = EKey ev, VSlug = ESlug ev, VName = EName ev,
                VFirst = FirstSeason ev, VLast = LastSeason ev\<rparr>],
              next_id := next_id db + 1\<rparr>)"

definition returned_id :: "event \<Rightarrow> edb \<Rightarrow> int" where
  "returned_id ev db = (case find (\<lambda>r. row_key r = event_key ev) (e_rows db) of Some r \<Rightarrow> VId r | None \<Rightarrow> 0)"

fun insert_events :: "event list \<Rightarrow> (string \<times> string \<Rightarrow> int option) \<times> edb \<Rightarrow> sql_error + ((string \<times> string \<Rightarrow> int option) \<times> edb)" where
  "insert_events [] s = Inr s"
| "insert_events (ev # evs) (ids, db) =
     and_then (exec event_constraints (upsert_event ev) db) (\<lambda>db.
       insert_events evs (ids(event_key ev \<mapsto> returned_id ev db), db))"

definition link_list :: "(string \<times> string \<Rightarrow> int option) \<Rightarrow> event list \<Rightarrow> (int \<times> (int \<times> elink)) list" where
  "link_list ids evs =
     concat (map (\<lambda>ev. map (\<lambda>ed. (TId (Row ed), (the (ids (event_key ev)), Link ed))) (Editions ev)) evs)"

definition link_tours :: "(int \<times> (int \<times> elink)) list \<Rightarrow> edb \<Rightarrow> edb" where
  "link_tours links db =
     db\<lparr>e_tours := map (\<lambda>(t, l). (t, case map_of links (TId t) of Some v \<Rightarrow> Some v | None \<Rightarrow> l)) (e_tours db)\<rparr>"

definition has_tours :: "edb \<Rightarrow> event_row \<Rightarrow> bool" where
  "has_tours db r \<longleftrightarrow> list_ex (\<lambda>t. case snd t of Some (i, l) \<Rightarrow> i = VId r | None \<Rightarrow> False) (e_tours db)"

definition remove_empty :: "edb \<Rightarrow> edb" where
  "remove_empty db = db\<lparr>e_rows := filter (has_tours db) (e_rows db)\<rparr>"

record write_stats =
  SRows :: int
  SEvents :: int
  SCreated :: int
  SRemoved :: int

definition write_events :: "(rune \<Rightarrow> bool) \<Rightarrow> event list \<Rightarrow> edb \<Rightarrow> (sql_error + (write_stats \<times> edb)) option" where
  "write_events ul evs db =
     (case slug_events ul evs db of
        None \<Rightarrow> None
      | Some (evs, taken, created) \<Rightarrow> Some (
          and_then (insert_events evs (\<lambda>_. None, db)) (\<lambda>(ids, db1).
          and_then (exec event_constraints (link_tours (link_list ids evs)) db1) (\<lambda>db2.
          and_then (exec event_constraints remove_empty db2) (\<lambda>db3.
            Inr (\<lparr>SRows = int (length (filter (\<lambda>t. map_of (link_list ids evs) (TId (fst t)) \<noteq> None) (e_tours db1))),
                  SEvents = int (length evs), SCreated = created,
                  SRemoved = int (length (e_rows db2)) - int (length (e_rows db3))\<rparr>, db3))))))"

definition load_tournaments :: "edb \<Rightarrow> trow list" where
  "load_tournaments db = sort_key TId (map fst (e_tours db))"

definition run_events :: "(rune \<Rightarrow> bool) \<Rightarrow> event_override list \<Rightarrow> edb \<Rightarrow> resolved \<times> (sql_error + (write_stats \<times> edb)) option" where
  "run_events ul os db =
     (let res = resolve ul (load_tournaments db) os in (res, write_events ul (Events res) db))"

section \<open>Every slug is found\<close>

definition serial :: "string \<Rightarrow> int \<Rightarrow> string" where
  "serial base n = (if n \<le> 1 then base else base @ ''-'' @ itoa n)"

lemma serial_inj: "1 \<le> a \<Longrightarrow> 1 \<le> b \<Longrightarrow> serial base a = serial base b \<Longrightarrow> a = b"
  using itoa_inj [of a b] by (auto simp: serial_def split: if_splits)

lemma mint_loop_finds:
  assumes "\<And>i. 1 \<le> i \<Longrightarrow> i < m \<Longrightarrow> serial base i \<in> set taken" "serial base m \<notin> set taken" "1 \<le> n" "n \<le> m"
  shows "mint_loop taken base (serial base n) (n + 1) = Some (serial base m)"
  using assms(3,4)
proof (induction "nat (m - n)" arbitrary: n)
  case 0
  then have "n = m" by simp
  then show ?case using assms(2) by (subst mint_loop.simps) simp
next
  case (Suc k)
  then have "serial base n \<in> set taken" by (intro assms(1)) auto
  moreover have "base @ ''-'' @ itoa (n + 1) = serial base (n + 1)" using Suc.prems(1) by (simp add: serial_def)
  moreover have "mint_loop taken base (serial base (n + 1)) (n + 1 + 1) = Some (serial base m)"
    using Suc.hyps(2) Suc.prems by (intro Suc.hyps(1)) auto
  ultimately show ?case by (subst mint_loop.simps) simp
qed

lemma serial_free: "\<exists>m. 1 \<le> m \<and> m \<le> int (length taken) + 1 \<and> serial base m \<notin> set taken"
proof (rule ccontr)
  assume none: "\<not> ?thesis"
  let ?I = "{1..int (length taken) + 1}"
  have "serial base ` ?I \<subseteq> set taken" using none by fastforce
  then have "card (serial base ` ?I) \<le> length taken"
    by (meson card_length card_mono finite_set order_trans)
  moreover have "inj_on (serial base) ?I" by (rule inj_onI) (use serial_inj in auto)
  ultimately show False by (simp add: card_image)
qed

lemma mint_least:
  "\<exists>m. mint ul ev taken = Some (serial (mint_base ul ev) m) \<and> 1 \<le> m \<and> m \<le> int (length taken) + 1
     \<and> serial (mint_base ul ev) m \<notin> set taken
     \<and> (\<forall>i \<in> {1..<m}. serial (mint_base ul ev) i \<in> set taken)"
proof -
  let ?b = "mint_base ul ev"
  let ?P = "\<lambda>k. 1 \<le> k \<and> k \<le> length taken + 1 \<and> serial ?b (int k) \<notin> set taken"
  obtain m0 where "1 \<le> m0" "m0 \<le> int (length taken) + 1" "serial ?b m0 \<notin> set taken" using serial_free by blast
  then have "?P (nat m0)" by auto
  then have P: "?P (LEAST k. ?P k)" by (rule LeastI)
  define m where "m = int (LEAST k. ?P k)"
  have low: "serial ?b i \<in> set taken" if i: "1 \<le> i" "i < m" for i
  proof -
    have "\<not> ?P (nat i)" using i not_less_Least [of "nat i" ?P] unfolding m_def by linarith
    then show ?thesis using i P unfolding m_def by auto
  qed
  have "serial ?b 1 = ?b" by (simp add: serial_def)
  moreover have "mint_loop taken ?b (serial ?b 1) (1 + 1) = Some (serial ?b m)"
    by (rule mint_loop_finds) (use low P in \<open>auto simp: m_def\<close>)
  ultimately have "mint ul ev taken = Some (serial ?b m)" by (simp add: mint_def)
  then show ?thesis using P low unfolding m_def by (intro exI [of _ "int (LEAST k. ?P k)"]) auto
qed

lemma mint_free: "\<exists>s. mint ul ev taken = Some s \<and> s \<notin> set taken"
  using mint_least [of ul ev taken] by blast

text \<open>
  Minting ends, and gives the first free slug of its series. The loop returns the base, or the base
  with the lowest serial number no event holds, after at most one step more than there are slugs taken.
\<close>
theorem mint_terminates:
  "\<exists>m. mint ul ev taken = Some (serial (mint_base ul ev) m) \<and> 1 \<le> m \<and> m \<le> int (length taken) + 1
     \<and> serial (mint_base ul ev) m \<notin> set taken
     \<and> (\<forall>i \<in> {1..<m}. serial (mint_base ul ev) i \<in> set taken)"
  by (rule mint_least)

definition sample_event :: event where
  "sample_event = \<lparr>ETour = ''atp'', EKey = ''number:1'', EName = text_of ''a'', EOrdinal = 0, ESlug = [], FirstSeason = 1,
     LastSeason = 1, Editions = []\<rparr>"

theorem mint_terminates_witness:
  "mint (\<lambda>r. True) sample_event [mint_base (\<lambda>r. True) sample_event] = Some (serial (mint_base (\<lambda>r. True) sample_event) 2)"
proof -
  let ?b = "mint_base (\<lambda>r. True) sample_event"
  obtain m where m: "mint (\<lambda>r. True) sample_event [?b] = Some (serial ?b m)" "1 \<le> m" "m \<le> int (length [?b]) + 1"
    "serial ?b m \<notin> set [?b]" using mint_terminates by metis
  have "m \<noteq> 1" using m(4) by (auto simp: serial_def)
  then have "m = 2" using m(2,3) by simp
  then show ?thesis using m(1) by simp
qed

section \<open>The slugs of the events\<close>

definition same_but_slug :: "event \<Rightarrow> event \<Rightarrow> bool" where
  "same_but_slug a b \<longleftrightarrow> a\<lparr>ESlug := []\<rparr> = b\<lparr>ESlug := []\<rparr>"

lemma same_but_slug_fields:
  "same_but_slug a b \<Longrightarrow> ETour a = ETour b \<and> EKey a = EKey b \<and> EName a = EName b \<and> FirstSeason a = FirstSeason b
     \<and> LastSeason a = LastSeason b \<and> Editions a = Editions b \<and> event_key a = event_key b"
  unfolding same_but_slug_def event_key_def by (cases a; cases b) simp

lemma mint_all_facts:
  assumes "distinct is" "\<forall>i \<in> set is. i < length evs"
  obtains evs' taken' where "mint_all ul is (evs, taken, c) = Some (evs', taken', c + int (length is))"
    and "length evs' = length evs" "\<And>i. i < length evs \<Longrightarrow> same_but_slug (evs ! i) (evs' ! i)"
    and "\<And>i. i \<notin> set is \<Longrightarrow> evs' ! i = evs ! i" "\<And>i. i \<in> set is \<Longrightarrow> ESlug (evs' ! i) \<notin> set taken"
    and "distinct (map (\<lambda>i. ESlug (evs' ! i)) is)"
proof -
  have "\<exists>evs' taken'. mint_all ul is (evs, taken, c) = Some (evs', taken', c + int (length is))
      \<and> length evs' = length evs \<and> (\<forall>i < length evs. same_but_slug (evs ! i) (evs' ! i))
      \<and> (\<forall>i. i \<notin> set is \<longrightarrow> evs' ! i = evs ! i) \<and> (\<forall>i \<in> set is. ESlug (evs' ! i) \<notin> set taken)
      \<and> distinct (map (\<lambda>i. ESlug (evs' ! i)) is)"
    using assms
  proof (induction "is" arbitrary: evs taken c)
    case Nil
    then show ?case by (simp add: same_but_slug_def)
  next
    case (Cons j js)
    obtain s where s: "mint ul (evs ! j) taken = Some s" "s \<notin> set taken" using mint_free by blast
    let ?evs = "evs[j := (evs ! j)\<lparr>ESlug := s\<rparr>]"
    have j: "j < length evs" "j \<notin> set js" using Cons.prems by auto
    obtain evs' taken' where r: "mint_all ul js (?evs, s # taken, c + 1) = Some (evs', taken', c + 1 + int (length js))"
      "length evs' = length evs" "\<forall>i < length evs. same_but_slug (?evs ! i) (evs' ! i)"
      "\<forall>i. i \<notin> set js \<longrightarrow> evs' ! i = ?evs ! i" "\<forall>i \<in> set js. ESlug (evs' ! i) \<notin> set (s # taken)"
      "distinct (map (\<lambda>i. ESlug (evs' ! i)) js)"
      using Cons.IH [of ?evs "s # taken" "c + 1"] Cons.prems by auto
    have ej: "ESlug (evs' ! j) = s" using r(4) j by simp
    have same: "same_but_slug (evs ! i) (evs' ! i)" if "i < length evs" for i
      using r(3) that by (cases "i = j") (auto simp: same_but_slug_def)
    show ?case
      by (intro exI [of _ evs'] exI [of _ taken'] conjI)
        (use s r ej same j in \<open>auto simp: image_iff\<close>)
  qed
  then show ?thesis using that by blast
qed

text \<open>What the events are to the rows of the table before they are written.\<close>

definition slugs_fit :: "event list \<Rightarrow> event_row list \<Rightarrow> bool" where
  "slugs_fit evs rows \<longleftrightarrow> distinct (map event_key evs) \<and> distinct (map ESlug evs)
     \<and> (\<forall>ev \<in> set evs. \<forall>r \<in> set rows. row_key r = event_key ev \<longleftrightarrow> VSlug r = ESlug ev)"

lemma slug_events_facts:
  assumes "distinct (map event_key evs)" "distinct (map VSlug (e_rows db))" "distinct (map row_key (e_rows db))"
  obtains evs' taken created where "slug_events ul evs db = Some (evs', taken, created)" "slugs_fit evs' (e_rows db)"
    and "length evs' = length evs" "\<And>i. i < length evs \<Longrightarrow> same_but_slug (evs ! i) (evs' ! i)"
    and "created = int (length (filter (\<lambda>ev. event_key ev \<notin> row_key ` set (e_rows db)) evs))"
    and "created = 0 \<Longrightarrow> evs' = map (keep_slug (load_slugs db)) evs"
proof -
  let ?ex = "load_slugs db"
  let ?new = "\<lambda>i. map_of ?ex (event_key (evs ! i)) = None"
  let ?order = "filter ?new [0..<length evs]"
  let ?kept = "map (keep_slug ?ex) evs"
  let ?is = "sort_slice (minted_before ?kept) ?order"
  have mo: "map_of ?ex k = Some s \<longleftrightarrow> (\<exists>r \<in> set (e_rows db). row_key r = k \<and> VSlug r = s)" for k s
    using assms(3) by (subst map_of_eq_Some_iff) (auto simp: load_slugs_def o_def)
  have mn: "map_of ?ex k = None \<longleftrightarrow> k \<notin> row_key ` set (e_rows db)" for k
    by (simp add: map_of_eq_None_iff load_slugs_def image_image)
  have taken: "set (map snd ?ex) = VSlug ` set (e_rows db)" by (auto simp: load_slugs_def)
  obtain evs' taken' where m: "mint_all ul ?is (?kept, map snd ?ex, 0) = Some (evs', taken', 0 + int (length ?is))"
    "length evs' = length ?kept" "\<And>i. i < length ?kept \<Longrightarrow> same_but_slug (?kept ! i) (evs' ! i)"
    "\<And>i. i \<notin> set ?is \<Longrightarrow> evs' ! i = ?kept ! i" "\<And>i. i \<in> set ?is \<Longrightarrow> ESlug (evs' ! i) \<notin> set (map snd ?ex)"
    "distinct (map (\<lambda>i. ESlug (evs' ! i)) ?is)"
    by (rule mint_all_facts [of ?is ?kept ul "map snd ?ex" 0]) (use that in auto)
  have same: "same_but_slug (evs ! i) (evs' ! i)" if "i < length evs" for i
    using m(3) [of i] that by (auto simp: same_but_slug_def keep_slug_def split: option.splits)
  have key: "event_key (evs' ! i) = event_key (evs ! i)" if "i < length evs" for i
    using same_but_slug_fields [OF same [OF that]] by simp
  have keys: "map event_key evs' = map event_key evs"
    by (rule nth_equalityI) (use m(2) key in simp_all)
  have old: "\<exists>r \<in> set (e_rows db). row_key r = event_key (evs ! i) \<and> VSlug r = ESlug (evs' ! i)"
    if i: "i < length evs" "\<not> ?new i" for i
  proof -
    obtain s where s: "map_of ?ex (event_key (evs ! i)) = Some s" using i(2) by auto
    have "evs' ! i = ?kept ! i" by (rule m(4)) (use i(2) in simp)
    then have "ESlug (evs' ! i) = s" using i(1) s by (simp add: keep_slug_def)
    then show ?thesis using s mo by blast
  qed
  have fresh: "ESlug (evs' ! i) \<notin> VSlug ` set (e_rows db)" if "i < length evs" "?new i" for i
    using m(5) [of i] that taken by auto
  have fit: "row_key r = event_key (evs' ! i) \<longleftrightarrow> VSlug r = ESlug (evs' ! i)" if i: "i < length evs" and r: "r \<in> set (e_rows db)" for i r
  proof (cases "?new i")
    case True
    then have "event_key (evs ! i) \<notin> row_key ` set (e_rows db)" using mn by blast
    then show ?thesis using key [OF i] fresh [OF i True] r by (metis imageI)
  next
    case False
    obtain r0 where r0: "r0 \<in> set (e_rows db)" "row_key r0 = event_key (evs ! i)" "VSlug r0 = ESlug (evs' ! i)"
      using old [OF i False] by blast
    have "row_key r = row_key r0 \<longleftrightarrow> r = r0" "VSlug r = VSlug r0 \<longleftrightarrow> r = r0"
      using assms(2,3) r r0(1) by (auto simp: distinct_map dest: inj_onD)
    then show ?thesis using key [OF i] r0 by metis
  qed
  have slugs: "distinct (map ESlug evs')"
  proof (subst distinct_conv_nth, intro allI impI)
    fix i j
    assume "i < length (map ESlug evs')" "j < length (map ESlug evs')" "i \<noteq> j"
    then have ij: "i < length evs" "j < length evs" "i \<noteq> j" using m(2) by simp_all
    have "ESlug (evs' ! i) \<noteq> ESlug (evs' ! j)"
    proof (cases "?new i")
      case True
      show ?thesis
      proof (cases "?new j")
        case new_j: True
        have "i \<in> set ?is" "j \<in> set ?is" using ij True new_j by auto
        then show ?thesis using m(6) ij(3) by (auto simp: distinct_map dest: inj_onD)
      next
        case False
        then show ?thesis using old [OF ij(2) False] fresh [OF ij(1) True] by (metis imageI)
      qed
    next
      case False
      obtain r where r: "r \<in> set (e_rows db)" "row_key r = event_key (evs ! i)" "VSlug r = ESlug (evs' ! i)"
        using old [OF ij(1) False] by blast
      have "event_key (evs ! i) \<noteq> event_key (evs ! j)"
        using assms(1) ij by (simp add: distinct_conv_nth)
      then show ?thesis using fit [OF ij(2) r(1)] key [OF ij(2)] r by metis
    qed
    then show "map ESlug evs' ! i \<noteq> map ESlug evs' ! j" using ij m(2) by simp
  qed
  have len: "length ?is = length (filter (\<lambda>ev. event_key ev \<notin> row_key ` set (e_rows db)) evs)"
  proof -
    have "length ?is = length (filter ((\<lambda>ev. event_key ev \<notin> row_key ` set (e_rows db)) \<circ> (!) evs) [0..<length evs])"
      by (simp add: mn o_def)
    also have "\<dots> = length (filter (\<lambda>ev. event_key ev \<notin> row_key ` set (e_rows db)) (map ((!) evs) [0..<length evs]))"
      by (simp add: filter_map)
    finally show ?thesis by (simp add: map_nth)
  qed
  show ?thesis
  proof (rule that [of evs' taken' "int (length ?is)"])
    show "slug_events ul evs db = Some (evs', taken', int (length ?is))" using m(1) by (simp add: slug_events_def Let_def)
    have "row_key r = event_key ev \<longleftrightarrow> VSlug r = ESlug ev" if ev: "ev \<in> set evs'" and r: "r \<in> set (e_rows db)" for ev r
    proof -
      obtain i where "i < length evs" "evs' ! i = ev" using ev m(2) by (metis in_set_conv_nth length_map)
      then show ?thesis using fit r by metis
    qed
    then show "slugs_fit evs' (e_rows db)" unfolding slugs_fit_def keys using assms(1) slugs by blast
    show "length evs' = length evs" using m(2) by simp
    show "\<And>i. i < length evs \<Longrightarrow> same_but_slug (evs ! i) (evs' ! i)" by (rule same)
    show "int (length ?is) = int (length (filter (\<lambda>ev. event_key ev \<notin> row_key ` set (e_rows db)) evs))" using len by simp
    assume "int (length ?is) = 0"
    then have "set ?is = {}" by simp
    then show "evs' = ?kept" using m(2,4) by (intro nth_equalityI) simp_all
  qed
qed

section \<open>Writing the events\<close>

definition ev_ok :: "edb \<Rightarrow> bool" where
  "ev_ok db \<longleftrightarrow> list_all (\<lambda>c. snd c db) event_constraints \<and> (\<forall>r \<in> set (e_rows db). VId r < next_id db)"

lemma ev_ok_iff:
  "ev_ok db \<longleftrightarrow> distinct (map VId (e_rows db)) \<and> distinct (map VSlug (e_rows db)) \<and> distinct (map row_key (e_rows db))
     \<and> distinct (map (TId \<circ> fst) (e_tours db))
     \<and> (\<forall>t \<in> set (e_tours db). \<forall>i l. snd t = Some (i, l) \<longrightarrow> i \<in> VId ` set (e_rows db))
     \<and> (\<forall>r \<in> set (e_rows db). VId r < next_id db)"
  unfolding ev_ok_def event_constraints_def by (auto simp: list_all_iff split: option.splits)

definition holds_event :: "event \<Rightarrow> event_row \<Rightarrow> bool" where
  "holds_event ev r \<longleftrightarrow> row_key r = event_key ev \<and> VSlug r = ESlug ev \<and> VName r = EName ev \<and> VFirst r = FirstSeason ev \<and> VLast r = LastSeason ev"

lemma update_row_simps [simp]:
  "VId (update_row ev r) = VId r" "VSlug (update_row ev r) = VSlug r" "row_key (update_row ev r) = row_key r"
  by (simp_all add: update_row_def row_key_def)

lemma update_row_other: "row_key r \<noteq> event_key ev \<Longrightarrow> update_row ev r = r"
  by (simp add: update_row_def)

lemma update_row_holds: "row_key r = event_key ev \<Longrightarrow> VSlug r = ESlug ev \<Longrightarrow> holds_event ev (update_row ev r)"
  by (simp add: holds_event_def update_row_def row_key_def)

lemma upsert_event_facts:
  assumes "ev_ok db" "slugs_fit (ev # evs) (e_rows db)" "db' = upsert_event ev db"
  obtains r where "exec event_constraints (upsert_event ev) db = Inr db'" "ev_ok db'" "slugs_fit evs (e_rows db')"
    and "e_tours db' = e_tours db" "r \<in> set (e_rows db')" "holds_event ev r" "returned_id ev db' = VId r"
    and "\<And>r'. row_key r' \<noteq> event_key ev \<Longrightarrow> r' \<in> set (e_rows db') \<longleftrightarrow> r' \<in> set (e_rows db)"
    and "\<And>r'. r' \<in> set (e_rows db) \<Longrightarrow> \<exists>r'' \<in> set (e_rows db'). VId r'' = VId r' \<and> row_key r'' = row_key r' \<and> VSlug r'' = VSlug r'"
    and "map_of (load_slugs db) (event_key ev) \<noteq> None \<Longrightarrow> e_rows db' = map (update_row ev) (e_rows db)"
proof -
  let ?new = "\<lparr>VId = next_id db, VTour = ETour ev, VKey = EKey ev, VSlug = ESlug ev, VName = EName ev,
                VFirst = FirstSeason ev, VLast = LastSeason ev\<rparr>"
  note ok = assms(1) [unfolded ev_ok_iff]
  have fit: "\<forall>r \<in> set (e_rows db). row_key r = event_key ev \<longleftrightarrow> VSlug r = ESlug ev" using assms(2) by (simp add: slugs_fit_def)
  have others: "event_key ev \<notin> event_key ` set evs" "ESlug ev \<notin> ESlug ` set evs" using assms(2) by (simp_all add: slugs_fit_def)
  then have apart: "\<forall>ev' \<in> set evs. event_key ev' \<noteq> event_key ev \<and> ESlug ev' \<noteq> ESlug ev" by (metis imageI)
  have fits: "distinct (map event_key evs)" "distinct (map ESlug evs)"
    "\<forall>ev' \<in> set evs. \<forall>r \<in> set (e_rows db). row_key r = event_key ev' \<longleftrightarrow> VSlug r = ESlug ev'"
    using assms(2) by (simp_all add: slugs_fit_def)
  have found: "find (\<lambda>r. row_key r = event_key ev) (e_rows db') = Some r"
    if "distinct (map row_key (e_rows db'))" "r \<in> set (e_rows db')" "row_key r = event_key ev" for r
  proof -
    have "find (\<lambda>r. row_key r = event_key ev) (e_rows db') \<noteq> None" using that by (auto simp: find_None_iff)
    then obtain r0 where r0: "find (\<lambda>r. row_key r = event_key ev) (e_rows db') = Some r0" by blast
    then have "r0 \<in> set (e_rows db')" "row_key r0 = event_key ev" by (auto simp: find_Some_iff)
    then have "r0 = r" using that by (metis distinct_map inj_onD)
    then show ?thesis using r0 by simp
  qed
  have ex: "exec event_constraints (upsert_event ev) db = Inr db'" if "ev_ok db'"
    using that by (simp add: exec_Inr assms(3) ev_ok_def)
  show ?thesis
  proof (cases "event_key ev \<in> row_key ` set (e_rows db)")
    case True
    then have db': "db' = db\<lparr>e_rows := map (update_row ev) (e_rows db), next_id := next_id db + 1\<rparr>"
      by (simp add: assms(3) upsert_event_def)
    obtain r0 where r0: "r0 \<in> set (e_rows db)" "row_key r0 = event_key ev" using True by auto
    have ids: "VId ` set (e_rows db') = VId ` set (e_rows db)" by (simp add: db' image_image)
    have ok': "ev_ok db'"
      unfolding ev_ok_iff ids using ok by (auto simp: db' o_def intro: order.strict_trans)
    have fit': "slugs_fit evs (e_rows db')" using fits by (auto simp: slugs_fit_def db')
    have h: "update_row ev r0 \<in> set (e_rows db')" "holds_event ev (update_row ev r0)"
      using r0 fit update_row_holds by (auto simp: db')
    show ?thesis
    proof (rule that [OF ex [OF ok'] ok' fit' _ h])
      show "e_tours db' = e_tours db" by (simp add: db')
      have "distinct (map row_key (e_rows db'))" using ok' by (simp add: ev_ok_iff)
      then show "returned_id ev db' = VId (update_row ev r0)"
        using found [OF _ h(1)] r0(2) by (simp add: returned_id_def)
      show "r' \<in> set (e_rows db') \<longleftrightarrow> r' \<in> set (e_rows db)" if "row_key r' \<noteq> event_key ev" for r'
        using that by (auto simp: db' update_row_other image_iff) (metis update_row_other update_row_simps(3))+
      show "\<exists>r'' \<in> set (e_rows db'). VId r'' = VId r' \<and> row_key r'' = row_key r' \<and> VSlug r'' = VSlug r'" if "r' \<in> set (e_rows db)" for r'
        using that by (intro bexI [of _ "update_row ev r'"]) (simp_all add: db')
      show "e_rows db' = map (update_row ev) (e_rows db)" by (simp add: db')
    qed
  next
    case False
    then have db': "db' = db\<lparr>e_rows := e_rows db @ [?new], next_id := next_id db + 1\<rparr>"
      by (simp add: assms(3) upsert_event_def)
    have nk: "row_key ?new = event_key ev" by (simp add: row_key_def event_key_def)
    have slug: "ESlug ev \<notin> VSlug ` set (e_rows db)" using False fit by (metis (no_types, lifting) image_iff)
    have id: "next_id db \<notin> VId ` set (e_rows db)" using ok by fastforce
    have ok': "ev_ok db'"
      unfolding ev_ok_iff using ok False slug id nk by (auto simp: db' intro: order.strict_trans)
    have fit': "slugs_fit evs (e_rows db')"
      unfolding slugs_fit_def using fits apart nk by (auto simp: db')
    have h: "?new \<in> set (e_rows db')" "holds_event ev ?new" by (simp_all add: db' holds_event_def nk)
    show ?thesis
    proof (rule that [OF ex [OF ok'] ok' fit' _ h])
      show "e_tours db' = e_tours db" by (simp add: db')
      have "distinct (map row_key (e_rows db'))" using ok' by (simp add: ev_ok_iff)
      then show "returned_id ev db' = VId ?new" using found [OF _ h(1) nk] by (simp add: returned_id_def)
      show "r' \<in> set (e_rows db') \<longleftrightarrow> r' \<in> set (e_rows db)" if "row_key r' \<noteq> event_key ev" for r'
        using that nk by (auto simp: db')
      show "\<exists>r'' \<in> set (e_rows db'). VId r'' = VId r' \<and> row_key r'' = row_key r' \<and> VSlug r'' = VSlug r'" if "r' \<in> set (e_rows db)" for r'
        using that by (intro bexI [of _ r']) (simp_all add: db')
      assume "map_of (load_slugs db) (event_key ev) \<noteq> None"
      then show "e_rows db' = map (update_row ev) (e_rows db)"
        using False by (auto simp: load_slugs_def map_of_eq_None_iff image_image)
    qed
  qed
qed

lemma insert_events_facts:
  assumes "ev_ok db" "slugs_fit evs (e_rows db)"
  shows "\<exists>ids' db'. insert_events evs (ids, db) = Inr (ids', db') \<and> ev_ok db' \<and> e_tours db' = e_tours db
    \<and> (\<forall>ev \<in> set evs. \<exists>r \<in> set (e_rows db'). holds_event ev r \<and> ids' (event_key ev) = Some (VId r))
    \<and> (\<forall>k. k \<notin> event_key ` set evs \<longrightarrow> ids' k = ids k)
    \<and> (\<forall>r. row_key r \<notin> event_key ` set evs \<longrightarrow> (r \<in> set (e_rows db') \<longleftrightarrow> r \<in> set (e_rows db)))
    \<and> (\<forall>r \<in> set (e_rows db). \<exists>r' \<in> set (e_rows db'). VId r' = VId r \<and> row_key r' = row_key r \<and> VSlug r' = VSlug r)"
  using assms
proof (induction evs arbitrary: ids db)
  case Nil
  then show ?case by auto
next
  case (Cons ev evs)
  let ?db = "upsert_event ev db"
  obtain r where u: "exec event_constraints (upsert_event ev) db = Inr ?db" "ev_ok ?db" "slugs_fit evs (e_rows ?db)"
    "e_tours ?db = e_tours db" "r \<in> set (e_rows ?db)" "holds_event ev r" "returned_id ev ?db = VId r"
    "\<And>r'. row_key r' \<noteq> event_key ev \<Longrightarrow> r' \<in> set (e_rows ?db) \<longleftrightarrow> r' \<in> set (e_rows db)"
    "\<And>r'. r' \<in> set (e_rows db) \<Longrightarrow> \<exists>r'' \<in> set (e_rows ?db). VId r'' = VId r' \<and> row_key r'' = row_key r' \<and> VSlug r'' = VSlug r'"
    by (rule upsert_event_facts [OF Cons.prems refl]) (rule that; assumption)
  let ?ids = "ids(event_key ev \<mapsto> VId r)"
  obtain ids' db' where i: "insert_events evs (?ids, ?db) = Inr (ids', db')" "ev_ok db'" "e_tours db' = e_tours ?db"
    "\<forall>ev \<in> set evs. \<exists>r \<in> set (e_rows db'). holds_event ev r \<and> ids' (event_key ev) = Some (VId r)"
    "\<forall>k. k \<notin> event_key ` set evs \<longrightarrow> ids' k = ?ids k"
    "\<forall>r. row_key r \<notin> event_key ` set evs \<longrightarrow> (r \<in> set (e_rows db') \<longleftrightarrow> r \<in> set (e_rows ?db))"
    "\<forall>r \<in> set (e_rows ?db). \<exists>r' \<in> set (e_rows db'). VId r' = VId r \<and> row_key r' = row_key r \<and> VSlug r' = VSlug r"
    using Cons.IH [OF u(2,3), of ?ids] by blast
  have own: "event_key ev \<notin> event_key ` set evs" using Cons.prems(2) by (simp add: slugs_fit_def)
  have rk: "row_key r = event_key ev" using u(6) by (simp add: holds_event_def)
  have r: "r \<in> set (e_rows db')" using i(6) own u(5) rk by metis
  have rid: "ids' (event_key ev) = Some (VId r)" using i(5) [rule_format, OF own] by simp
  have 4: "\<forall>e \<in> set (ev # evs). \<exists>r \<in> set (e_rows db'). holds_event e r \<and> ids' (event_key e) = Some (VId r)"
    using i(4) r rid u(6) by auto
  have 5: "\<forall>k. k \<notin> event_key ` set (ev # evs) \<longrightarrow> ids' k = ids k"
  proof (intro allI impI)
    fix k
    assume "k \<notin> event_key ` set (ev # evs)"
    then have "k \<notin> event_key ` set evs" "k \<noteq> event_key ev" by simp_all
    then show "ids' k = ids k" using i(5) [rule_format, of k] by simp
  qed
  have 6: "\<forall>r. row_key r \<notin> event_key ` set (ev # evs) \<longrightarrow> (r \<in> set (e_rows db') \<longleftrightarrow> r \<in> set (e_rows db))"
    using i(6) u(8) by simp
  have 7: "\<forall>r \<in> set (e_rows db). \<exists>r' \<in> set (e_rows db'). VId r' = VId r \<and> row_key r' = row_key r \<and> VSlug r' = VSlug r"
    using i(7) u(9) by metis
  have "insert_events (ev # evs) (ids, db) = Inr (ids', db')" using u(1,7) i(1) by simp
  then show ?case using i(2,3) u(4) 4 5 6 7 by (intro exI conjI) simp_all
qed

section \<open>Linking and clearing\<close>

lemma same_but_slug_lists:
  assumes "length evs' = length evs" "\<And>i. i < length evs \<Longrightarrow> same_but_slug (evs ! i) (evs' ! i)"
    and "\<And>a b. same_but_slug a b \<Longrightarrow> f a = f b"
  shows "map f evs' = map f evs"
  by (rule nth_equalityI) (use assms in \<open>auto simp: assms(3) [symmetric]\<close>)

lemma link_list_keys: "map fst (link_list ids evs) = map TId (map Row (concat (map Editions evs)))"
  by (induction evs) (simp_all add: link_list_def o_def)

lemma link_list_mem:
  "ev \<in> set evs \<Longrightarrow> ed \<in> set (Editions ev) \<Longrightarrow> (TId (Row ed), (the (ids (event_key ev)), Link ed)) \<in> set (link_list ids evs)"
  by (auto simp: link_list_def)

lemma link_list_cases:
  "(t, v) \<in> set (link_list ids evs) \<Longrightarrow> \<exists>ev \<in> set evs. \<exists>ed \<in> set (Editions ev). t = TId (Row ed) \<and> v = (the (ids (event_key ev)), Link ed)"
  by (auto simp: link_list_def)

text \<open>From the events inserted to the end of the transaction.\<close>

lemma link_and_clear:
  assumes ok: "ev_ok db1" and tours: "e_tours db1 = e_tours db" and rows: "mset rows = mset (map fst (e_tours db))"
    and parts: "mset (map Row (concat (map Editions evs))) = mset rows" and full: "\<forall>ev \<in> set evs. Editions ev \<noteq> []"
    and rowsof: "\<forall>ev \<in> set evs. \<exists>r \<in> set (e_rows db1). holds_event ev r \<and> ids (event_key ev) = Some (VId r)"
    and l: "links = link_list ids evs" and db2: "db2 = link_tours links db1" and db3: "db3 = remove_empty db2"
  shows "exec event_constraints (link_tours links) db1 = Inr db2" and "exec event_constraints remove_empty db2 = Inr db3"
    and "ev_ok db3" and "map fst (e_tours db3) = map fst (e_tours db)"
    and "\<And>r. r \<in> set (e_rows db3) \<longleftrightarrow> r \<in> set (e_rows db1) \<and> row_key r \<in> event_key ` set evs"
    and "\<And>ev ed r. ev \<in> set evs \<Longrightarrow> ed \<in> set (Editions ev) \<Longrightarrow> r \<in> set (e_rows db1) \<Longrightarrow> holds_event ev r \<Longrightarrow>
      (Row ed, Some (VId r, Link ed)) \<in> set (e_tours db3)"
    and "e_tours db3 = map (\<lambda>(t, l). (t, map_of links (TId t))) (e_tours db)"
proof -
  note okd = ok [unfolded ev_ok_iff]
  have tids: "distinct (map TId (map fst (e_tours db)))" using okd tours by (simp add: o_def)
  have dl: "distinct (map fst links)"
  proof -
    have "mset (map fst links) = mset (map TId (map fst (e_tours db)))"
      unfolding l link_list_keys using parts rows by (metis mset_map)
    then show ?thesis using tids by (metis mset_eq_imp_distinct_iff)
  qed
  have lset: "set (map fst links) = TId ` fst ` set (e_tours db)"
    unfolding l link_list_keys using mset_eq_setD [OF parts] mset_eq_setD [OF rows] by (metis list.set_map)
  have vrow: "\<exists>r \<in> set (e_rows db1). holds_event ev r \<and> the (ids (event_key ev)) = VId r" if "ev \<in> set evs" for ev
    using rowsof that by force
  have lv: "\<exists>ev \<in> set evs. \<exists>ed \<in> set (Editions ev). \<exists>r \<in> set (e_rows db1). holds_event ev r \<and> t = TId (Row ed) \<and> v = (VId r, Link ed)"
    if m: "map_of links t = Some v" for t v
  proof -
    have "(t, v) \<in> set links" using m by (rule map_of_SomeD)
    then obtain ev ed where e: "ev \<in> set evs" "ed \<in> set (Editions ev)" "t = TId (Row ed)" "v = (the (ids (event_key ev)), Link ed)"
      using link_list_cases unfolding l by blast
    obtain r where "r \<in> set (e_rows db1)" "holds_event ev r" "the (ids (event_key ev)) = VId r" using vrow [OF e(1)] by blast
    then show ?thesis using e by metis
  qed
  have some: "map_of links (TId (fst t)) \<noteq> None" if "t \<in> set (e_tours db)" for t
    using that lset by (simp add: map_of_eq_None_iff)
  have et: "e_tours db2 = map (\<lambda>(t, l). (t, map_of links (TId t))) (e_tours db)"
    unfolding db2 link_tours_def by (simp add: tours) (use some in force)
  have er: "e_rows db2 = e_rows db1" "next_id db2 = next_id db1" by (simp_all add: db2 link_tours_def)
  have fk: "i \<in> VId ` set (e_rows db1)" if t: "t \<in> set (e_tours db2)" "snd t = Some (i, l)" for t i l
  proof -
    obtain t0 where "map_of links t0 = Some (i, l)" using t unfolding et by auto
    from lv [OF this] show ?thesis by auto
  qed
  have dt: "map (TId \<circ> fst) (e_tours db2) = map TId (map fst (e_tours db))" unfolding et by (simp add: split_def o_def)
  have ok2: "ev_ok db2" unfolding ev_ok_iff er dt using okd fk tids by blast
  then show "exec event_constraints (link_tours links) db1 = Inr db2"
    unfolding exec_Inr db2 ev_ok_def by simp
  have keyed: "r = r'" if "r \<in> set (e_rows db1)" "r' \<in> set (e_rows db1)" "row_key r = row_key r'" for r r'
    using okd that by (metis distinct_map inj_onD)
  have ided: "r = r'" if "r \<in> set (e_rows db1)" "r' \<in> set (e_rows db1)" "VId r = VId r'" for r r'
    using okd that by (metis distinct_map inj_onD)
  have linked: "(Row ed, Some (VId r, Link ed)) \<in> set (e_tours db2)"
    if ev: "ev \<in> set evs" "ed \<in> set (Editions ev)" "r \<in> set (e_rows db1)" "holds_event ev r" for ev ed r
  proof -
    obtain r0 where r0: "r0 \<in> set (e_rows db1)" "holds_event ev r0" "the (ids (event_key ev)) = VId r0" using vrow [OF ev(1)] by blast
    then have "r0 = r" using keyed ev(3,4) by (simp add: holds_event_def)
    then have "(TId (Row ed), (VId r, Link ed)) \<in> set links"
      using link_list_mem [OF ev(1,2), of ids] r0(3) unfolding l by simp
    then have mo: "map_of links (TId (Row ed)) = Some (VId r, Link ed)" using dl by simp
    have "Row ed \<in> set (map Row (concat (map Editions evs)))" using ev(1,2) by auto
    then have "Row ed \<in> fst ` set (e_tours db)" using mset_eq_setD [OF parts] mset_eq_setD [OF rows] by (metis set_map)
    then show ?thesis unfolding et using mo by force
  qed
  have kept: "has_tours db2 r \<longleftrightarrow> row_key r \<in> event_key ` set evs" if r: "r \<in> set (e_rows db1)" for r
  proof
    assume "has_tours db2 r"
    then obtain t l0 where "t \<in> set (e_tours db2)" "snd t = Some (VId r, l0)"
      by (auto simp: has_tours_def list_ex_iff split: option.splits prod.splits)
    then obtain t0 where "map_of links t0 = Some (VId r, l0)" unfolding et by auto
    from lv [OF this] obtain ev r' where "ev \<in> set evs" "r' \<in> set (e_rows db1)" "holds_event ev r'" "VId r = VId r'" by auto
    moreover from this have "r = r'" using ided r by blast
    ultimately show "row_key r \<in> event_key ` set evs" by (auto simp: holds_event_def)
  next
    assume "row_key r \<in> event_key ` set evs"
    then obtain ev where ev: "ev \<in> set evs" "row_key r = event_key ev" by auto
    obtain r0 where r0: "r0 \<in> set (e_rows db1)" "holds_event ev r0" using vrow [OF ev(1)] by blast
    then have "r0 = r" using keyed r ev(2) by (simp add: holds_event_def)
    obtain ed where "ed \<in> set (Editions ev)" using full ev(1) by (meson list.set_sel(1))
    from linked [OF ev(1) this r0] have "(Row ed, Some (VId r, Link ed)) \<in> set (e_tours db2)" using \<open>r0 = r\<close> by simp
    then show "has_tours db2 r" by (force simp: has_tours_def list_ex_iff)
  qed
  have e3: "e_tours db3 = e_tours db2" "e_rows db3 = filter (has_tours db2) (e_rows db1)" "next_id db3 = next_id db1"
    by (simp_all add: db3 remove_empty_def er)
  have fk3: "i \<in> VId ` set (e_rows db3)" if t: "t \<in> set (e_tours db2)" "snd t = Some (i, l)" for t i l
  proof -
    obtain r where r: "r \<in> set (e_rows db1)" "i = VId r" using fk [OF t] by auto
    have "has_tours db2 r" using t r(2) by (force simp: has_tours_def list_ex_iff)
    then show ?thesis using r unfolding e3 by auto
  qed
  have ok3: "ev_ok db3"
    unfolding ev_ok_iff using okd fk3 dt tids by (simp add: e3 distinct_map_filter)
  then show "ev_ok db3" .
  then show "exec event_constraints remove_empty db2 = Inr db3" unfolding exec_Inr db3 ev_ok_def by simp
  show "map fst (e_tours db3) = map fst (e_tours db)" unfolding e3 et by (simp add: split_def o_def)
  show "r \<in> set (e_rows db3) \<longleftrightarrow> r \<in> set (e_rows db1) \<and> row_key r \<in> event_key ` set evs" for r
    unfolding e3 using kept by auto
  show "(Row ed, Some (VId r, Link ed)) \<in> set (e_tours db3)"
    if "ev \<in> set evs" "ed \<in> set (Editions ev)" "r \<in> set (e_rows db1)" "holds_event ev r" for ev ed r
    unfolding e3 by (rule linked [OF that])
  show "e_tours db3 = map (\<lambda>(t, l). (t, map_of links (TId t))) (e_tours db)" unfolding e3 by (rule et)
qed

section \<open>A run\<close>

definition tours_of :: "edb \<Rightarrow> trow list" where
  "tours_of db = map fst (e_tours db)"

lemma load_tournaments_mset: "mset (load_tournaments db) = mset (tours_of db)"
  by (simp add: load_tournaments_def tours_of_def)

lemma load_tournaments_distinct: "ev_ok db \<Longrightarrow> distinct (map TId (load_tournaments db))"
proof -
  assume "ev_ok db"
  then have "distinct (map TId (tours_of db))" by (simp add: ev_ok_iff tours_of_def o_def)
  moreover have "mset (map TId (load_tournaments db)) = mset (map TId (tours_of db))"
    by (simp only: mset_map load_tournaments_mset)
  ultimately show ?thesis by (metis mset_eq_imp_distinct_iff)
qed

lemma run_events_facts:
  assumes ok: "ev_ok db" and events: "events = Events (resolve ul (load_tournaments db) os)"
  obtains st db' evs where
    "run_events ul os db = (resolve ul (load_tournaments db) os, Some (Inr (st, db')))" "ev_ok db'"
    and "tours_of db' = tours_of db" "length evs = length events" "\<And>i. i < length events \<Longrightarrow> same_but_slug (events ! i) (evs ! i)"
    and "\<And>ev. ev \<in> set evs \<Longrightarrow> \<exists>r \<in> set (e_rows db'). holds_event ev r \<and> (\<forall>ed \<in> set (Editions ev). (Row ed, Some (VId r, Link ed)) \<in> set (e_tours db'))"
    and "\<And>r. r \<in> set (e_rows db') \<Longrightarrow> row_key r \<in> event_key ` set events"
    and "\<And>r r'. r \<in> set (e_rows db') \<Longrightarrow> r' \<in> set (e_rows db) \<Longrightarrow> row_key r = row_key r' \<Longrightarrow> VSlug r = VSlug r' \<and> VId r = VId r'"
    and "SCreated st = int (length (filter (\<lambda>ev. event_key ev \<notin> row_key ` set (e_rows db)) events))"
    and "\<And>r. r \<in> set (e_rows db) \<Longrightarrow> (\<forall>ev \<in> set events. row_key r = event_key ev \<longrightarrow> update_row ev r = r) \<Longrightarrow> row_key r \<in> event_key ` set events \<Longrightarrow> r \<in> set (e_rows db')"
proof -
  let ?rows = "load_tournaments db"
  have ids: "distinct (map TId ?rows)" by (rule load_tournaments_distinct [OF ok])
  note part = resolve_partition [OF ids events]
  have dk: "distinct (map event_key events)" unfolding events event_key_def by (rule resolve_keys [OF ids])
  have du: "distinct (map VSlug (e_rows db))" "distinct (map row_key (e_rows db))" using ok by (simp_all add: ev_ok_iff)
  obtain evs taken created where sl: "slug_events ul events db = Some (evs, taken, created)" "slugs_fit evs (e_rows db)"
    "length evs = length events" "\<And>i. i < length events \<Longrightarrow> same_but_slug (events ! i) (evs ! i)"
    "created = int (length (filter (\<lambda>ev. event_key ev \<notin> row_key ` set (e_rows db)) events))"
    by (rule slug_events_facts [OF dk du, of ul]) (rule that; assumption)
  note lists = same_but_slug_lists [OF sl(3,4)]
  have keys: "map event_key evs = map event_key events" by (rule lists) (simp_all add: same_but_slug_fields)
  have eds: "map Editions evs = map Editions events" by (rule lists) (simp_all add: same_but_slug_fields)
  have keyset: "event_key ` set evs = event_key ` set events" using arg_cong [OF keys, of set] by simp
  obtain ids' db1 where ins: "insert_events evs (\<lambda>_. None, db) = Inr (ids', db1)" "ev_ok db1" "e_tours db1 = e_tours db"
    "\<forall>ev \<in> set evs. \<exists>r \<in> set (e_rows db1). holds_event ev r \<and> ids' (event_key ev) = Some (VId r)"
    "\<forall>r \<in> set (e_rows db). \<exists>r' \<in> set (e_rows db1). VId r' = VId r \<and> row_key r' = row_key r \<and> VSlug r' = VSlug r"
    using insert_events_facts [OF ok sl(2), of "\<lambda>_. None"] by blast
  let ?links = "link_list ids' evs"
  let ?db2 = "link_tours ?links db1"
  let ?db3 = "remove_empty ?db2"
  have parts: "mset (map Row (concat (map Editions evs))) = mset ?rows" unfolding eds using part by blast
  have full: "\<forall>ev \<in> set evs. Editions ev \<noteq> []"
  proof
    fix ev
    assume "ev \<in> set evs"
    then have "Editions ev \<in> set (map Editions events)" unfolding eds [symmetric] by simp
    then show "Editions ev \<noteq> []" using part by auto
  qed
  have rm: "mset ?rows = mset (map fst (e_tours db))" using load_tournaments_mset by (simp add: tours_of_def)
  note lc = link_and_clear [OF ins(2,3) rm parts full ins(4) refl refl refl]
  let ?st = "\<lparr>SRows = int (length (filter (\<lambda>t. map_of ?links (TId (fst t)) \<noteq> None) (e_tours db1))),
                  SEvents = int (length evs), SCreated = created,
                  SRemoved = int (length (e_rows ?db2)) - int (length (e_rows ?db3))\<rparr>"
  have rd: "r = r'" if "r \<in> set (e_rows db1)" "r' \<in> set (e_rows db1)" "row_key r = row_key r'" for r r'
    using ins(2) that unfolding ev_ok_iff by (metis distinct_map inj_onD)
  show ?thesis
  proof (rule that [of ?st ?db3 evs])
    show "run_events ul os db = (resolve ul ?rows os, Some (Inr (?st, ?db3)))"
      unfolding run_events_def Let_def events [symmetric] write_events_def sl(1) option.case prod.case ins(1)
        and_then_simps lc(1) lc(2) ..
    show "ev_ok ?db3" by (rule lc(3))
    show "tours_of ?db3 = tours_of db" unfolding tours_of_def by (rule lc(4))
    show "length evs = length events" by (rule sl(3))
    show "\<And>i. i < length events \<Longrightarrow> same_but_slug (events ! i) (evs ! i)" by (rule sl(4))
    show "\<exists>r \<in> set (e_rows ?db3). holds_event ev r \<and> (\<forall>ed \<in> set (Editions ev). (Row ed, Some (VId r, Link ed)) \<in> set (e_tours ?db3))"
      if ev: "ev \<in> set evs" for ev
    proof -
      obtain r where r: "r \<in> set (e_rows db1)" "holds_event ev r" using ins(4) ev by blast
      then have "r \<in> set (e_rows ?db3)" unfolding lc(5) using ev by (auto simp: holds_event_def)
      then show ?thesis using r lc(6) [OF ev _ r] by blast
    qed
    show "row_key r \<in> event_key ` set events" if "r \<in> set (e_rows ?db3)" for r
      using that unfolding lc(5) keyset by blast
    show "VSlug r = VSlug r' \<and> VId r = VId r'" if r: "r \<in> set (e_rows ?db3)" "r' \<in> set (e_rows db)" "row_key r = row_key r'" for r r'
    proof -
      obtain r'' where r'': "r'' \<in> set (e_rows db1)" "VId r'' = VId r'" "row_key r'' = row_key r'" "VSlug r'' = VSlug r'"
        using ins(5) r(2) by blast
      have "r \<in> set (e_rows db1)" using r(1) unfolding lc(5) by blast
      then have "r = r''" by (rule rd) (use r r'' in simp_all)
      then show ?thesis using r'' by simp
    qed
    show "SCreated ?st = int (length (filter (\<lambda>ev. event_key ev \<notin> row_key ` set (e_rows db)) events))" using sl(5) by simp
    show "r \<in> set (e_rows ?db3)" if r: "r \<in> set (e_rows db)" "\<forall>ev \<in> set events. row_key r = event_key ev \<longrightarrow> update_row ev r = r"
      "row_key r \<in> event_key ` set events" for r
    proof -
      obtain i where i: "i < length events" "row_key r = event_key (events ! i)" using r(3) by (auto simp: in_set_conv_nth)
      have f: "ETour (events ! i) = ETour (evs ! i)" "EName (events ! i) = EName (evs ! i)" "FirstSeason (events ! i) = FirstSeason (evs ! i)"
        "LastSeason (events ! i) = LastSeason (evs ! i)" "event_key (events ! i) = event_key (evs ! i)"
        using same_but_slug_fields [OF sl(4) [OF i(1)]] by simp_all
      have ev: "evs ! i \<in> set evs" using i(1) sl(3) by simp
      obtain r0 where r0: "r0 \<in> set (e_rows db1)" "holds_event (evs ! i) r0" using ins(4) ev by blast
      obtain r'' where r'': "r'' \<in> set (e_rows db1)" "VId r'' = VId r" "row_key r'' = row_key r" "VSlug r'' = VSlug r"
        using ins(5) r(1) by blast
      have "r0 = r''" by (rule rd [OF r0(1) r''(1)]) (use r0(2) r''(3) i(2) f(5) in \<open>simp add: holds_event_def\<close>)
      moreover have "update_row (events ! i) r = r" using r(2) i by simp
      then have "VName r = EName (events ! i)" "VFirst r = FirstSeason (events ! i)" "VLast r = LastSeason (events ! i)"
        using i(2) by (metis update_row_def event_row.select_convs(5-7) event_row.surjective event_row.update_convs(5-7))+
      ultimately have "r0 = r" using r0(2) r'' f by (cases r0; cases r) (simp add: holds_event_def row_key_def)
      then show ?thesis using r0 lc(5) ev by (auto simp: holds_event_def)
    qed
  qed
qed

lemma events_of_rows:
  assumes "length evs = length events" "\<And>i. i < length events \<Longrightarrow> same_but_slug (events ! i) (evs ! i)" "ev \<in> set events"
  obtains ev' where "ev' \<in> set evs" "same_but_slug ev ev'"
  using assms by (metis in_set_conv_nth)

text \<open>
  C15: the events stage always ends and never fails, and leaves the table holding exactly the derived
  events. From a consistent state, every event is there with its name and seasons, every tournament is
  linked to the row of its event with the link that placed it, slugs, keys and ids are unique, an event
  that was there keeps its id and its slug, and the tournaments are untouched.
\<close>
theorem events_written:
  assumes "ev_ok db" and "res = resolve ul (load_tournaments db) os"
  shows "\<exists>st db'. run_events ul os db = (res, Some (Inr (st, db'))) \<and> ev_ok db' \<and> tours_of db' = tours_of db
    \<and> row_key ` set (e_rows db') = event_key ` set (Events res)
    \<and> (\<forall>ev \<in> set (Events res). \<exists>r \<in> set (e_rows db'). row_key r = event_key ev \<and> VName r = EName ev
        \<and> VFirst r = FirstSeason ev \<and> VLast r = LastSeason ev
        \<and> (\<forall>ed \<in> set (Editions ev). (Row ed, Some (VId r, Link ed)) \<in> set (e_tours db'))
        \<and> (\<forall>r' \<in> set (e_rows db). row_key r' = row_key r \<longrightarrow> VSlug r = VSlug r' \<and> VId r = VId r'))"
proof -
  obtain st db' evs where run: "run_events ul os db = (res, Some (Inr (st, db')))" "ev_ok db'"
    "tours_of db' = tours_of db" "length evs = length (Events res)" "\<And>i. i < length (Events res) \<Longrightarrow> same_but_slug (Events res ! i) (evs ! i)"
    "\<And>ev. ev \<in> set evs \<Longrightarrow> \<exists>r \<in> set (e_rows db'). holds_event ev r \<and> (\<forall>ed \<in> set (Editions ev). (Row ed, Some (VId r, Link ed)) \<in> set (e_tours db'))"
    "\<And>r. r \<in> set (e_rows db') \<Longrightarrow> row_key r \<in> event_key ` set (Events res)"
    "\<And>r r'. r \<in> set (e_rows db') \<Longrightarrow> r' \<in> set (e_rows db) \<Longrightarrow> row_key r = row_key r' \<Longrightarrow> VSlug r = VSlug r' \<and> VId r = VId r'"
    by (rule run_events_facts [OF assms(1) refl, of ul os, folded assms(2)]) (rule that; assumption)
  have each: "\<exists>r \<in> set (e_rows db'). row_key r = event_key ev \<and> VName r = EName ev
        \<and> VFirst r = FirstSeason ev \<and> VLast r = LastSeason ev
        \<and> (\<forall>ed \<in> set (Editions ev). (Row ed, Some (VId r, Link ed)) \<in> set (e_tours db'))
        \<and> (\<forall>r' \<in> set (e_rows db). row_key r' = row_key r \<longrightarrow> VSlug r = VSlug r' \<and> VId r = VId r')"
    if ev: "ev \<in> set (Events res)" for ev
  proof -
    obtain ev' where e: "ev' \<in> set evs" "same_but_slug ev ev'" by (rule events_of_rows [OF run(4,5) ev])
    obtain r where r: "r \<in> set (e_rows db')" "holds_event ev' r"
      "\<forall>ed \<in> set (Editions ev'). (Row ed, Some (VId r, Link ed)) \<in> set (e_tours db')" using run(6) [OF e(1)] by blast
    show ?thesis
      using r same_but_slug_fields [OF e(2)] run(8) [OF r(1)]
      by (intro bexI [of _ r] conjI ballI impI) (auto simp: holds_event_def)
  qed
  have "row_key ` set (e_rows db') = event_key ` set (Events res)"
    using run(7) each by (auto simp: image_iff) metis
  then show ?thesis using run(1-3) each assms(2) by (intro exI [of _ st] exI [of _ db'] conjI) simp_all
qed

text \<open>
  C17: a second run over the same tournaments changes nothing. It derives the same events, creates none,
  and leaves the rows of the table and the links of the tournaments as the first run wrote them.
\<close>
theorem second_run_changes_nothing:
  assumes "ev_ok db" and "run_events ul os db = (res, Some (Inr (st, db')))"
  shows "\<exists>st' db''. run_events ul os db' = (res, Some (Inr (st', db''))) \<and> SCreated st' = 0
    \<and> set (e_rows db'') = set (e_rows db') \<and> set (e_tours db'') = set (e_tours db')"
proof -
  let ?evs = "Events (resolve ul (load_tournaments db) os)"
  obtain st0 db0 evs where run: "run_events ul os db = (resolve ul (load_tournaments db) os, Some (Inr (st0, db0)))" "ev_ok db0"
    "tours_of db0 = tours_of db" "length evs = length ?evs" "\<And>i. i < length ?evs \<Longrightarrow> same_but_slug (?evs ! i) (evs ! i)"
    "\<And>ev. ev \<in> set evs \<Longrightarrow> \<exists>r \<in> set (e_rows db0). holds_event ev r \<and> (\<forall>ed \<in> set (Editions ev). (Row ed, Some (VId r, Link ed)) \<in> set (e_tours db0))"
    "\<And>r. r \<in> set (e_rows db0) \<Longrightarrow> row_key r \<in> event_key ` set ?evs"
    by (rule run_events_facts [OF assms(1) refl, of ul os]) (rule that; assumption)
  have first: "res = resolve ul (load_tournaments db) os" "db' = db0" using run(1) assms(2) by simp_all
  have load: "load_tournaments db' = load_tournaments db"
    using run(3) by (simp add: first load_tournaments_def tours_of_def)
  have ok': "ev_ok db'" using run(2) first by simp
  obtain st' db'' evs' where run': "run_events ul os db' = (resolve ul (load_tournaments db) os, Some (Inr (st', db'')))" "ev_ok db''"
    "tours_of db'' = tours_of db'" "length evs' = length ?evs" "\<And>i. i < length ?evs \<Longrightarrow> same_but_slug (?evs ! i) (evs' ! i)"
    "\<And>ev. ev \<in> set evs' \<Longrightarrow> \<exists>r \<in> set (e_rows db''). holds_event ev r \<and> (\<forall>ed \<in> set (Editions ev). (Row ed, Some (VId r, Link ed)) \<in> set (e_tours db''))"
    "\<And>r. r \<in> set (e_rows db'') \<Longrightarrow> row_key r \<in> event_key ` set ?evs"
    "\<And>r r'. r \<in> set (e_rows db'') \<Longrightarrow> r' \<in> set (e_rows db') \<Longrightarrow> row_key r = row_key r' \<Longrightarrow> VSlug r = VSlug r' \<and> VId r = VId r'"
    "SCreated st' = int (length (filter (\<lambda>ev. event_key ev \<notin> row_key ` set (e_rows db')) ?evs))"
    "\<And>r. r \<in> set (e_rows db') \<Longrightarrow> (\<forall>ev \<in> set ?evs. row_key r = event_key ev \<longrightarrow> update_row ev r = r) \<Longrightarrow> row_key r \<in> event_key ` set ?evs \<Longrightarrow> r \<in> set (e_rows db'')"
    by (rule run_events_facts [OF ok' refl, of ul os, unfolded load]) (rule that; assumption)
  have there: "\<exists>r \<in> set (e_rows db'). row_key r = event_key ev \<and> VName r = EName ev \<and> VFirst r = FirstSeason ev \<and> VLast r = LastSeason ev
      \<and> (\<forall>ed \<in> set (Editions ev). (Row ed, Some (VId r, Link ed)) \<in> set (e_tours db'))" if ev: "ev \<in> set ?evs" for ev
  proof -
    obtain ev' where e: "ev' \<in> set evs" "same_but_slug ev ev'" by (rule events_of_rows [OF run(4,5) ev])
    from run(6) [OF e(1)] show ?thesis
      using same_but_slug_fields [OF e(2)] unfolding first holds_event_def by metis
  qed
  have keyed': "r = r'" if "r \<in> set (e_rows db')" "r' \<in> set (e_rows db')" "row_key r = row_key r'" for r r'
    using ok' that unfolding ev_ok_iff by (metis distinct_map inj_onD)
  have keyed'': "r = r'" if "r \<in> set (e_rows db'')" "r' \<in> set (e_rows db'')" "row_key r = row_key r'" for r r'
    using run'(2) that unfolding ev_ok_iff by (metis distinct_map inj_onD)
  have stays: "r \<in> set (e_rows db'')" if r: "r \<in> set (e_rows db')" for r
  proof (rule run'(10) [OF r])
    show "row_key r \<in> event_key ` set ?evs" using run(7) r first by simp
    show "\<forall>ev \<in> set ?evs. row_key r = event_key ev \<longrightarrow> update_row ev r = r"
    proof (intro ballI impI)
      fix ev
      assume ev: "ev \<in> set ?evs" "row_key r = event_key ev"
      obtain r0 where r0: "r0 \<in> set (e_rows db')" "row_key r0 = event_key ev" "VName r0 = EName ev" "VFirst r0 = FirstSeason ev" "VLast r0 = LastSeason ev"
        using there [OF ev(1)] by blast
      have "r = r0" by (rule keyed' [OF r r0(1)]) (simp add: ev(2) r0(2))
      then show "update_row ev r = r" using r0 by (simp add: update_row_def)
    qed
  qed
  have rows: "set (e_rows db'') = set (e_rows db')"
  proof (intro equalityI subsetI)
    fix r
    assume r: "r \<in> set (e_rows db'')"
    obtain ev where ev: "ev \<in> set ?evs" "row_key r = event_key ev" using run'(7) [OF r] by auto
    obtain r0 where r0: "r0 \<in> set (e_rows db')" "row_key r0 = event_key ev" using there [OF ev(1)] by blast
    have "r = r0" by (rule keyed'' [OF r stays [OF r0(1)]]) (simp add: ev(2) r0(2))
    then show "r \<in> set (e_rows db')" using r0 by simp
  qed (rule stays)
  have "event_key ev \<in> row_key ` set (e_rows db')" if "ev \<in> set ?evs" for ev
    using there [OF that] by force
  then have "filter (\<lambda>ev. event_key ev \<notin> row_key ` set (e_rows db')) ?evs = []" by (simp add: filter_empty_conv)
  then have zero: "SCreated st' = 0" using run'(9) by simp
  have once: "x = y" if "x \<in> set (e_tours db1)" "y \<in> set (e_tours db1)" "fst x = fst y" "ev_ok db1" for x y db1
    using that unfolding ev_ok_iff by (metis distinct_map inj_onD o_apply)
  have same_link: "x \<in> set (e_tours db')" if x: "x \<in> set (e_tours db'')" for x
  proof -
    have "fst x \<in> set (tours_of db)" using x run'(3) run(3) first by (metis imageI list.set_map tours_of_def)
    then have "fst x \<in> set (load_tournaments db)" using load_tournaments_mset by (metis mset_eq_setD)
    then have "fst x \<in> set (map Row (concat (map Editions ?evs)))"
      using resolve_partition [OF load_tournaments_distinct [OF assms(1)] refl, of ul os] by (metis mset_eq_setD)
    then obtain ev ed where e: "ev \<in> set ?evs" "ed \<in> set (Editions ev)" "fst x = Row ed" by auto
    obtain r where r: "r \<in> set (e_rows db')" "row_key r = event_key ev" "(Row ed, Some (VId r, Link ed)) \<in> set (e_tours db')"
      using there [OF e(1)] e(2) by blast
    obtain ev' where e': "ev' \<in> set evs'" "same_but_slug ev ev'" by (rule events_of_rows [OF run'(4,5) e(1)])
    note sf = same_but_slug_fields [OF e'(2)]
    obtain r' where r': "r' \<in> set (e_rows db'')" "row_key r' = event_key ev" "(Row ed, Some (VId r', Link ed)) \<in> set (e_tours db'')"
      using run'(6) [OF e'(1)] e(2) sf unfolding holds_event_def by metis
    have "VId r' = VId r" using run'(8) [OF r'(1) r(1)] r(2) r'(2) by simp
    moreover have "x = (Row ed, Some (VId r', Link ed))" by (rule once [OF x r'(3) _ run'(2)]) (simp add: e(3))
    ultimately show ?thesis using r(3) by simp
  qed
  have tours: "set (e_tours db'') = set (e_tours db')"
  proof (intro equalityI subsetI same_link)
    fix x
    assume x: "x \<in> set (e_tours db')"
    then have "fst x \<in> fst ` set (e_tours db'')" using run'(3) by (metis imageI list.set_map tours_of_def)
    then obtain y where y: "y \<in> set (e_tours db'')" "fst y = fst x" by auto
    have "y = x" by (rule once [OF same_link [OF y(1)] x y(2) ok'])
    then show "x \<in> set (e_tours db'')" using y by simp
  qed
  show ?thesis using run'(1) zero rows tours first(1) by blast
qed

definition sample_edb :: edb where
  "sample_edb = \<lparr>e_rows = [], e_tours = [(sample_week 1, None), (sample_week 2, None)], next_id = 1\<rparr>"

lemma sample_edb_ok: "ev_ok sample_edb"
  by (simp add: ev_ok_iff sample_edb_def sample_week_def)

theorem events_written_witness:
  "\<exists>res st db'. run_events (\<lambda>r. True) [] sample_edb = (res, Some (Inr (st, db'))) \<and> ev_ok db'
     \<and> tours_of db' = [sample_week 1, sample_week 2]"
  using events_written [OF sample_edb_ok refl, of "\<lambda>r. True" "[]"] by (auto simp: tours_of_def sample_edb_def)

theorem second_run_changes_nothing_witness:
  "\<exists>res st db' st' db''. run_events (\<lambda>r. True) [] sample_edb = (res, Some (Inr (st, db')))
     \<and> run_events (\<lambda>r. True) [] db' = (res, Some (Inr (st', db''))) \<and> SCreated st' = 0"
proof -
  obtain st db' where r: "run_events (\<lambda>r. True) [] sample_edb
      = (resolve (\<lambda>r. True) (load_tournaments sample_edb) [], Some (Inr (st, db')))"
    by (rule run_events_facts [OF sample_edb_ok refl, of "\<lambda>r. True" "[]"])
  then show ?thesis using second_run_changes_nothing [OF sample_edb_ok r] by blast
qed

end
