(* ===== verification/RateLimit.thy ===== *)
theory RateLimit
  imports GoStrings
begin

text \<open>
  \<open>internal/httpapi/ratelimit.go\<close> and \<open>clientIP\<close> of \<open>middleware.go\<close>: a token bucket per client, refilled
  continuously, idle buckets swept away at most once a minute. An instant is the number of nanoseconds since
  Go's zero time, a \<open>time.Duration\<close> a number of nanoseconds, a \<open>float64\<close> a real.
\<close>

section \<open>Instants and durations\<close>

definition second :: int where
  "second = 1000000000"

text \<open>\<open>t.Sub(u)\<close> saturates at the 64 bits of a duration.\<close>

definition dur_sub :: "int \<Rightarrow> int \<Rightarrow> int" where
  "dur_sub t u = max (- (2 ^ 63)) (min (2 ^ 63 - 1) (t - u))"

definition dur_seconds :: "int \<Rightarrow> real" where
  "dur_seconds d = real_of_int d / 1000000000"

definition idle_eviction :: int where
  "idle_eviction = 10 * (60 * second)"

section \<open>The limiter\<close>

record bucket =
  tokens :: real
  last_seen :: int

record limiter =
  rate :: real
  burst :: real
  buckets :: "string \<rightharpoonup> bucket"
  sweep_at :: int

definition new_rate_limiter :: "int \<Rightarrow> limiter" where
  "new_rate_limiter per_minute =
     \<lparr> rate = real_of_int per_minute / 60, burst = real_of_int per_minute, buckets = (\<lambda>_. None), sweep_at = 0 \<rparr>"

definition sweep :: "int \<Rightarrow> limiter \<Rightarrow> limiter" where
  "sweep now l =
     (if dur_sub now (sweep_at l) < 60 * second then l
      else l \<lparr> sweep_at := now,
               buckets := (\<lambda>key. case buckets l key of None \<Rightarrow> None
                 | Some b \<Rightarrow> if idle_eviction < dur_sub now (last_seen b) then None else Some b) \<rparr>)"

definition refill :: "real \<Rightarrow> real \<Rightarrow> int \<Rightarrow> bucket \<Rightarrow> bucket" where
  "refill r u now b =
     \<lparr> tokens = min u (tokens b + dur_seconds (dur_sub now (last_seen b)) * r), last_seen = now \<rparr>"

text \<open>The answer is whether the client may proceed, and if not how long it is to wait.\<close>

definition spend :: "real \<Rightarrow> bucket \<Rightarrow> bucket \<times> bool \<times> int" where
  "spend r b =
     (if tokens b < 1 then (b, False, wrap64 (\<lceil>(1 - tokens b) / r\<rceil> * second))
      else (b \<lparr> tokens := tokens b - 1 \<rparr>, True, 0))"

definition allow :: "int \<Rightarrow> string \<Rightarrow> limiter \<Rightarrow> limiter \<times> bool \<times> int" where
  "allow now key l =
     (let l1 = sweep now l;
          b = (case buckets l1 key of None \<Rightarrow> \<lparr> tokens = burst l1, last_seen = now \<rparr> | Some b \<Rightarrow> b);
          (b', answer) = spend (rate l1) (refill (rate l1) (burst l1) now b)
      in (l1 \<lparr> buckets := (buckets l1)(key \<mapsto> b') \<rparr>, answer))"

text \<open>The requests of all clients, in the order in which they take the lock.\<close>

fun allow_all :: "(int \<times> string) list \<Rightarrow> limiter \<Rightarrow> (bool \<times> int) list \<times> limiter" where
  "allow_all [] l = ([], l)"
| "allow_all ((now, key) # reqs) l =
     (let (l1, answer) = allow now key l; (answers, l2) = allow_all reqs l1 in (answer # answers, l2))"

text \<open>The same as a step relation, for what holds of every limiter the server can reach.\<close>

inductive limiter_reach :: "int \<Rightarrow> int \<Rightarrow> limiter \<Rightarrow> bool" for per_minute :: int where
  start: "limiter_reach per_minute 0 (new_rate_limiter per_minute)"
| request: "limiter_reach per_minute t l \<Longrightarrow> t \<le> now \<Longrightarrow> limiter_reach per_minute now (fst (allow now key l))"

section \<open>The middleware\<close>

text \<open>\<open>net.SplitHostPort\<close>, reduced to the host and to whether it reports an error.\<close>

definition split_host_port :: "string \<Rightarrow> string option" where
  "split_host_port s =
     (if CHR '':'' \<notin> set s then None
      else let i = length s - Suc (length (takeWhile (\<lambda>c. c \<noteq> CHR '':'') (rev s)))
      in if s \<noteq> [] \<and> hd s = CHR ''['' then
           (if CHR '']'' \<notin> set s then None
            else let e = length (takeWhile (\<lambda>c. c \<noteq> CHR '']'') s)
            in if Suc e \<noteq> i then None
            else if CHR ''['' \<in> set (drop 1 s) \<or> CHR '']'' \<in> set (drop (Suc e) s) then None
            else Some (take (e - 1) (drop 1 s)))
         else if CHR '':'' \<in> set (take i s) then None
         else if CHR ''['' \<in> set s \<or> CHR '']'' \<in> set s then None
         else Some (take i s))"

record client_request =
  forwarded_for :: string
  remote_addr :: string

definition client_ip :: "client_request \<Rightarrow> bool \<Rightarrow> string" where
  "client_ip r trust_proxy =
     (if trust_proxy \<and> forwarded_for r \<noteq> [] then
        (if CHR '','' \<in> set (forwarded_for r) then trim_space (takeWhile (\<lambda>c. c \<noteq> CHR '','') (forwarded_for r))
         else trim_space (forwarded_for r))
      else case split_host_port (remote_addr r) of None \<Rightarrow> remote_addr r | Some host \<Rightarrow> host)"

datatype verdict = Served | Rejected nat string string

definition limit_middleware :: "bool \<Rightarrow> int \<Rightarrow> client_request \<Rightarrow> limiter \<Rightarrow> limiter \<times> verdict" where
  "limit_middleware trust_proxy now r l =
     (case allow now (client_ip r trust_proxy) l of
        (l', ok, wait) \<Rightarrow>
          (l', if ok then Served
               else Rejected 429 (itoa \<lfloor>dur_seconds wait\<rfloor>)
                      (''Rate limit exceeded. Retry in '' @ itoa \<lfloor>dur_seconds wait\<rfloor> @ ''s.'')))"

section \<open>One client alone\<close>

text \<open>
  The reference: a client whose bucket is never thrown away, on its own requests only.
\<close>

fun client_answers :: "real \<Rightarrow> real \<Rightarrow> bucket \<Rightarrow> int list \<Rightarrow> (bool \<times> int) list" where
  "client_answers r u b [] = []"
| "client_answers r u b (now # ts) =
     (let (b', answer) = spend r (refill r u now b) in answer # client_answers r u b' ts)"

definition own_answers :: "int \<Rightarrow> int list \<Rightarrow> (bool \<times> int) list" where
  "own_answers per_minute ts =
     client_answers (real_of_int per_minute / 60) (real_of_int per_minute)
       \<lparr> tokens = real_of_int per_minute, last_seen = 0 \<rparr> ts"

definition answers_of :: "string \<Rightarrow> (int \<times> string) list \<Rightarrow> (bool \<times> int) list \<Rightarrow> (bool \<times> int) list" where
  "answers_of key reqs answers = map snd (filter (\<lambda>x. snd (fst x) = key) (zip reqs answers))"

definition times_of :: "string \<Rightarrow> (int \<times> string) list \<Rightarrow> int list" where
  "times_of key reqs = map fst (filter (\<lambda>x. snd x = key) reqs)"

section \<open>Durations\<close>

lemma dur_sub_mono: "t \<le> t' \<Longrightarrow> dur_sub t u \<le> dur_sub t' u"
  by (simp add: dur_sub_def)

lemma dur_sub_self [simp]: "dur_sub t t = 0"
  by (simp add: dur_sub_def)

lemma dur_sub_pos: "u \<le> t \<Longrightarrow> 0 \<le> dur_sub t u"
  by (simp add: dur_sub_def)

lemma dur_sub_le: "u \<le> t \<Longrightarrow> dur_sub t u \<le> t - u"
  by (simp add: dur_sub_def)

lemma dur_seconds_mono: "d \<le> e \<Longrightarrow> dur_seconds d \<le> dur_seconds e"
  by (simp add: dur_seconds_def)

lemma dur_seconds_pos: "0 \<le> d \<Longrightarrow> 0 \<le> dur_seconds d"
  by (simp add: dur_seconds_def)

lemma dur_seconds_self [simp]: "dur_seconds 0 = 0"
  by (simp add: dur_seconds_def)

section \<open>The bucket\<close>

text \<open>A bucket holds between none and \<open>burst\<close> tokens.\<close>

definition bucket_ok :: "real \<Rightarrow> bucket \<Rightarrow> bool" where
  "bucket_ok u b \<longleftrightarrow> 0 \<le> tokens b \<and> tokens b \<le> u"

lemma refill_ok:
  assumes "bucket_ok u b" and "0 \<le> r" and "last_seen b \<le> now"
  shows "bucket_ok u (refill r u now b)"
proof -
  have "0 \<le> dur_seconds (dur_sub now (last_seen b)) * r"
    using assms(2) dur_seconds_pos [OF dur_sub_pos [OF assms(3)]] by simp
  then show ?thesis using assms(1) by (simp add: bucket_ok_def refill_def)
qed

lemma refill_last [simp]: "last_seen (refill r u now b) = now"
  by (simp add: refill_def)

lemma spend_last [simp]: "last_seen (fst (spend r b)) = last_seen b"
  by (simp add: spend_def)

lemma spend_ok: "bucket_ok u b \<Longrightarrow> bucket_ok u (fst (spend r b))"
  by (simp add: bucket_ok_def spend_def)

text \<open>A bucket that is full again by an instant stays full until it is used.\<close>

definition full_at :: "real \<Rightarrow> real \<Rightarrow> int \<Rightarrow> bucket \<Rightarrow> bool" where
  "full_at r u now b \<longleftrightarrow> refill r u now b = \<lparr> tokens = u, last_seen = now \<rparr>"

lemma full_at_iff: "full_at r u now b \<longleftrightarrow> u \<le> tokens b + dur_seconds (dur_sub now (last_seen b)) * r"
  by (auto simp: full_at_def refill_def min_def)

lemma full_at_later:
  assumes "full_at r u t b" and "t \<le> now" and "0 \<le> r"
  shows "full_at r u now b"
proof -
  have "dur_seconds (dur_sub t (last_seen b)) * r \<le> dur_seconds (dur_sub now (last_seen b)) * r"
    by (rule mult_right_mono [OF dur_seconds_mono [OF dur_sub_mono [OF assms(2)]] assms(3)])
  with assms(1) show ?thesis by (simp add: full_at_iff)
qed

lemma idle_is_full:
  assumes "idle_eviction < dur_sub now (last_seen b)" and "0 \<le> tokens b" and "1 \<le> p"
  shows "full_at (real_of_int p / 60) (real_of_int p) now b"
proof -
  have "600 \<le> dur_seconds (dur_sub now (last_seen b))"
    using assms(1) by (simp add: dur_seconds_def idle_eviction_def second_def)
  then have "600 * (real_of_int p / 60) \<le> dur_seconds (dur_sub now (last_seen b)) * (real_of_int p / 60)"
    using assms(3) by (intro mult_right_mono) auto
  then have "10 * real_of_int p \<le> dur_seconds (dur_sub now (last_seen b)) * (real_of_int p / 60)" by simp
  moreover have "1 \<le> real_of_int p" using assms(3) by simp
  ultimately show ?thesis using assms(2) unfolding full_at_iff by linarith
qed

section \<open>Every limiter reached is well formed\<close>

definition limiter_ok :: "int \<Rightarrow> int \<Rightarrow> limiter \<Rightarrow> bool" where
  "limiter_ok p now l \<longleftrightarrow>
     rate l = real_of_int p / 60 \<and> burst l = real_of_int p \<and> sweep_at l \<le> now \<and>
     (\<forall>key b. buckets l key = Some b \<longrightarrow> bucket_ok (real_of_int p) b \<and> last_seen b \<le> now)"

lemma sweep_fields [simp]: "rate (sweep now l) = rate l" "burst (sweep now l) = burst l"
  by (simp_all add: sweep_def)

lemma sweep_keeps: "buckets (sweep now l) key = Some b \<Longrightarrow> buckets l key = Some b"
  by (auto simp: sweep_def split: if_splits option.splits)

lemma sweep_drops:
  "buckets (sweep now l) key = None \<Longrightarrow> buckets l key = Some b \<Longrightarrow> idle_eviction < dur_sub now (last_seen b)"
  by (auto simp: sweep_def split: if_splits option.splits)

lemma sweep_limiter_ok:
  assumes "limiter_ok p t l" and "t \<le> now"
  shows "limiter_ok p now (sweep now l)"
proof -
  have "bucket_ok (real_of_int p) b \<and> last_seen b \<le> now" if "buckets (sweep now l) key = Some b" for key b
    using assms sweep_keeps [OF that] by (force simp: limiter_ok_def)
  moreover have "sweep_at (sweep now l) \<le> now" using assms by (auto simp: limiter_ok_def sweep_def)
  ultimately show ?thesis using assms(1) by (auto simp: limiter_ok_def)
qed

lemma allow_fields:
  "fst (allow now key l) =
     (let b = (case buckets (sweep now l) key of None \<Rightarrow> \<lparr> tokens = burst l, last_seen = now \<rparr> | Some b \<Rightarrow> b)
      in (sweep now l) \<lparr> buckets := (buckets (sweep now l))
           (key \<mapsto> fst (spend (rate l) (refill (rate l) (burst l) now b))) \<rparr>)"
  "snd (allow now key l) =
     (let b = (case buckets (sweep now l) key of None \<Rightarrow> \<lparr> tokens = burst l, last_seen = now \<rparr> | Some b \<Rightarrow> b)
      in snd (spend (rate l) (refill (rate l) (burst l) now b)))"
  by (cases "buckets (sweep now l) key"; simp add: allow_def Let_def case_prod_beta)+

lemma allow_limiter_ok:
  assumes "limiter_ok p t l" and "t \<le> now" and "1 \<le> p"
  shows "limiter_ok p now (fst (allow now key l))"
proof -
  let ?l = "sweep now l"
  let ?b = "case buckets ?l key of None \<Rightarrow> \<lparr> tokens = burst l, last_seen = now \<rparr> | Some b \<Rightarrow> b"
  have ok: "limiter_ok p now ?l" by (rule sweep_limiter_ok [OF assms(1,2)])
  have same: "rate l = real_of_int p / 60" "burst l = real_of_int p"
    using assms(1) by (simp_all add: limiter_ok_def)
  have "bucket_ok (real_of_int p) ?b \<and> last_seen ?b \<le> now"
    using ok same assms(3) by (auto simp: limiter_ok_def bucket_ok_def split: option.split)
  then have "bucket_ok (real_of_int p) (fst (spend (rate l) (refill (rate l) (burst l) now ?b)))"
    unfolding same using assms(3) by (intro spend_ok refill_ok) auto
  then show ?thesis
    using ok by (auto simp: allow_fields Let_def limiter_ok_def)
qed

lemma new_limiter_ok: "limiter_ok p 0 (new_rate_limiter p)"
  by (simp add: limiter_ok_def new_rate_limiter_def)

lemma reach_limiter_ok: "limiter_reach p now l \<Longrightarrow> 1 \<le> p \<Longrightarrow> limiter_ok p now l"
  by (induction rule: limiter_reach.induct) (auto intro: new_limiter_ok allow_limiter_ok)



section \<open>Sweeping is invisible\<close>

text \<open>
  The simulation: the bucket the limiter keeps is the client's own, and where it keeps none the client's own
  bucket is full.
\<close>

definition sim :: "int \<Rightarrow> int \<Rightarrow> limiter \<Rightarrow> (string \<Rightarrow> bucket) \<Rightarrow> bool" where
  "sim p now l B \<longleftrightarrow> limiter_ok p now l \<and>
     (\<forall>key. bucket_ok (real_of_int p) (B key) \<and> last_seen (B key) \<le> now) \<and>
     (\<forall>key. case buckets l key of Some b \<Rightarrow> B key = b
        | None \<Rightarrow> full_at (real_of_int p / 60) (real_of_int p) now (B key))"

lemma simD:
  assumes "sim p now l B"
  shows "limiter_ok p now l" and "\<And>b. buckets l key = Some b \<Longrightarrow> B key = b"
    and "buckets l key = None \<Longrightarrow> full_at (real_of_int p / 60) (real_of_int p) now (B key)"
    and "bucket_ok (real_of_int p) (B key)" and "last_seen (B key) \<le> now"
proof -
  have s: "limiter_ok p now l" "case buckets l key of Some b \<Rightarrow> B key = b
      | None \<Rightarrow> full_at (real_of_int p / 60) (real_of_int p) now (B key)"
    and o: "bucket_ok (real_of_int p) (B key) \<and> last_seen (B key) \<le> now"
    using assms unfolding sim_def by blast+
  show "limiter_ok p now l" by (rule s(1))
  show "\<And>b. buckets l key = Some b \<Longrightarrow> B key = b" using s(2) by simp
  show "buckets l key = None \<Longrightarrow> full_at (real_of_int p / 60) (real_of_int p) now (B key)" using s(2) by simp
  show "bucket_ok (real_of_int p) (B key)" "last_seen (B key) \<le> now" using o by simp_all
qed

lemma sweep_sim:
  assumes s: "sim p t l B" and le: "t \<le> now" and p: "1 \<le> p"
  shows "sim p now (sweep now l) B"
  unfolding sim_def
proof (intro conjI allI)
  show "limiter_ok p now (sweep now l)" by (rule sweep_limiter_ok [OF simD(1) [OF s] le])
  fix key
  show "bucket_ok (real_of_int p) (B key)" by (rule simD(4) [OF s])
  show "last_seen (B key) \<le> now" by (rule order_trans [OF simD(5) [OF s] le])
  show "case buckets (sweep now l) key of Some b \<Rightarrow> B key = b
      | None \<Rightarrow> full_at (real_of_int p / 60) (real_of_int p) now (B key)"
  proof (cases "buckets (sweep now l) key")
    case (Some b)
    then show ?thesis using simD(2) [OF s sweep_keeps [OF Some]] by simp
  next
    case None
    have "full_at (real_of_int p / 60) (real_of_int p) now (B key)"
    proof (cases "buckets l key")
      case None
      from full_at_later [OF simD(3) [OF s None] le] p show ?thesis by simp
    next
      case (Some b)
      have "0 \<le> tokens b" using simD(1) [OF s] Some by (auto simp: limiter_ok_def bucket_ok_def)
      from idle_is_full [OF sweep_drops [OF None Some] this p] simD(2) [OF s Some] show ?thesis by simp
    qed
    with None show ?thesis by simp
  qed
qed

lemma allow_sim:
  assumes s: "sim p t l B" and le: "t \<le> now" and p: "1 \<le> p"
  shows "sim p now (fst (allow now key l))
      (B(key := fst (spend (real_of_int p / 60) (refill (real_of_int p / 60) (real_of_int p) now (B key)))))"
    and "snd (allow now key l) = snd (spend (real_of_int p / 60) (refill (real_of_int p / 60) (real_of_int p) now (B key)))"
proof -
  let ?l = "sweep now l"
  let ?b = "case buckets ?l key of None \<Rightarrow> \<lparr> tokens = burst l, last_seen = now \<rparr> | Some b \<Rightarrow> b"
  have s': "sim p now ?l B" by (rule sweep_sim [OF s le p])
  have same: "rate l = real_of_int p / 60" "burst l = real_of_int p"
    using simD(1) [OF s] by (simp_all add: limiter_ok_def)
  have b: "refill (rate l) (burst l) now ?b = refill (real_of_int p / 60) (real_of_int p) now (B key)"
  proof (cases "buckets ?l key")
    case None
    with simD(3) [OF s' None] show ?thesis
      by (simp add: same full_at_def) (simp add: refill_def)
  next
    case (Some b)
    with simD(2) [OF s' Some] show ?thesis by (simp add: same)
  qed
  show "snd (allow now key l) = snd (spend (real_of_int p / 60) (refill (real_of_int p / 60) (real_of_int p) now (B key)))"
    unfolding allow_fields Let_def b unfolding same by (rule refl)
  have ok: "limiter_ok p now (fst (allow now key l))" by (rule allow_limiter_ok [OF simD(1) [OF s] le p])
  have bs: "buckets (fst (allow now key l)) =
      (buckets ?l)(key \<mapsto> fst (spend (real_of_int p / 60) (refill (real_of_int p / 60) (real_of_int p) now (B key))))"
    unfolding allow_fields Let_def b unfolding same by simp
  show "sim p now (fst (allow now key l))
      (B(key := fst (spend (real_of_int p / 60) (refill (real_of_int p / 60) (real_of_int p) now (B key)))))"
    unfolding sim_def bs
  proof (intro conjI allI ok)
    fix k
    have "bucket_ok (real_of_int p) (fst (spend (real_of_int p / 60) (refill (real_of_int p / 60) (real_of_int p) now (B key))))"
      using p by (intro spend_ok refill_ok simD(4,5) [OF s']) simp
    then show "bucket_ok (real_of_int p) ((B(key := fst (spend (real_of_int p / 60)
          (refill (real_of_int p / 60) (real_of_int p) now (B key))))) k)"
      using simD(4) [OF s', of k] by simp
    show "last_seen ((B(key := fst (spend (real_of_int p / 60)
          (refill (real_of_int p / 60) (real_of_int p) now (B key))))) k) \<le> now"
      using simD(5) [OF s', of k] by simp
    show "case ((buckets ?l)(key \<mapsto> fst (spend (real_of_int p / 60)
          (refill (real_of_int p / 60) (real_of_int p) now (B key))))) k of
        Some b \<Rightarrow> (B(key := fst (spend (real_of_int p / 60)
          (refill (real_of_int p / 60) (real_of_int p) now (B key))))) k = b
      | None \<Rightarrow> full_at (real_of_int p / 60) (real_of_int p) now ((B(key := fst (spend (real_of_int p / 60)
          (refill (real_of_int p / 60) (real_of_int p) now (B key))))) k)"
      using simD(2,3) [OF s', of k] by (cases "k = key") (auto split: option.split)
  qed
qed

lemma allow_all_sim:
  assumes "sim p t l B" and "sorted (t # map fst reqs)" and "1 \<le> p"
  shows "answers_of key reqs (fst (allow_all reqs l)) =
    client_answers (real_of_int p / 60) (real_of_int p) (B key) (times_of key reqs)"
  using assms
proof (induction reqs arbitrary: t l B)
  case Nil
  then show ?case by (simp add: answers_of_def times_of_def)
next
  case (Cons q reqs)
  obtain now k where q: "q = (now, k)" by (cases q)
  let ?b = "spend (real_of_int p / 60) (refill (real_of_int p / 60) (real_of_int p) now (B k))"
  have le: "t \<le> now" and srt: "sorted (now # map fst reqs)" using Cons.prems(2) q by auto
  note st = allow_sim [OF Cons.prems(1) le Cons.prems(3), of k]
  note IH = Cons.IH [OF st(1) srt Cons.prems(3)]
  show ?case
  proof (cases "k = key")
    case True
    with IH st(2) show ?thesis
      by (simp add: q answers_of_def times_of_def Let_def case_prod_beta)
  next
    case False
    with IH show ?thesis
      by (simp add: q answers_of_def times_of_def Let_def case_prod_beta)
  qed
qed

lemma new_sim:
  "1 \<le> p \<Longrightarrow> sim p 0 (new_rate_limiter p) (\<lambda>_. \<lparr> tokens = real_of_int p, last_seen = 0 \<rparr>)"
  using new_limiter_ok [of p] by (simp add: sim_def full_at_iff new_rate_limiter_def) (simp add: bucket_ok_def limiter_ok_def)

lemma limiter_answers:
  assumes "1 \<le> p" and "sorted (0 # map fst reqs)"
  shows "answers_of key reqs (fst (allow_all reqs (new_rate_limiter p))) = own_answers p (times_of key reqs)"
  unfolding own_answers_def using allow_all_sim [OF new_sim [OF assms(1)] assms(2,1)] by simp

text \<open>
  C20: Every client has its own allowance and throwing idle buckets away changes nothing: for any limit of at
  least one and any interleaving of requests in time order, what the limiter answers to a client is what a
  bucket of its own, never swept, would answer to that client's requests alone.
\<close>

theorem sweeping_is_invisible:
  assumes "1 \<le> p" and "sorted (0 # map fst reqs)"
  shows "answers_of key reqs (fst (allow_all reqs (new_rate_limiter p))) = own_answers p (times_of key reqs)"
  by (rule limiter_answers [OF assms])

theorem sweeping_is_invisible_witness:
  "answers_of ''a'' [(0, ''a''), (second, ''b''), (700 * second, ''a'')]
     (fst (allow_all [(0, ''a''), (second, ''b''), (700 * second, ''a'')] (new_rate_limiter 1))) =
   own_answers 1 [0, 700 * second]"
  using sweeping_is_invisible [of 1 "[(0, ''a''), (second, ''b''), (700 * second, ''a'')]" "''a''"]
  by (simp add: second_def times_of_def)

section \<open>How much a client can get through\<close>

lemma sorted_from_last: "sorted (x # xs @ ys) \<Longrightarrow> sorted (last (x # xs) # ys)"
  by (induction xs arbitrary: x) auto

lemma allow_all_append:
  "fst (allow_all (xs @ ys) l) = fst (allow_all xs l) @ fst (allow_all ys (snd (allow_all xs l)))"
  "snd (allow_all (xs @ ys) l) = snd (allow_all ys (snd (allow_all xs l)))"
  by (induction xs arbitrary: l) (auto simp: Let_def case_prod_beta)

lemma allow_all_length [simp]: "length (fst (allow_all reqs l)) = length reqs"
  by (induction reqs arbitrary: l) (auto simp: Let_def case_prod_beta)

lemma allow_all_state:
  assumes "sim p t l B" and "sorted (t # map fst reqs)" and "1 \<le> p"
  shows "\<exists>B'. sim p (last (t # map fst reqs)) (snd (allow_all reqs l)) B' \<and> (\<forall>k. k \<notin> snd ` set reqs \<longrightarrow> B' k = B k)"
  using assms
proof (induction reqs arbitrary: t l B)
  case Nil
  then show ?case by auto
next
  case (Cons q reqs)
  obtain now k where q: "q = (now, k)" by (cases q)
  have le: "t \<le> now" and srt: "sorted (now # map fst reqs)" using Cons.prems(2) q by auto
  from Cons.IH [OF allow_sim(1) [OF Cons.prems(1) le Cons.prems(3), of k] srt Cons.prems(3)]
  obtain B' where "sim p (last (now # map fst reqs)) (snd (allow_all reqs (fst (allow now k l)))) B'"
    and "\<forall>k'. k' \<notin> snd ` set reqs \<longrightarrow> B' k' = (B(k := fst (spend (real_of_int p / 60)
        (refill (real_of_int p / 60) (real_of_int p) now (B k))))) k'" by blast
  then show ?case by (intro exI [of _ B']) (simp add: q Let_def case_prod_beta)
qed

text \<open>What a bucket lets through is what it held plus what flowed in.\<close>

lemma client_allowed:
  assumes "bucket_ok u b" and "0 \<le> r" and "sorted (last_seen b # ts)"
  shows "real (length (filter fst (client_answers r u b ts))) \<le>
    tokens b + dur_seconds (last (last_seen b # ts) - last_seen b) * r"
  using assms
proof (induction ts arbitrary: b)
  case Nil
  then show ?case by (simp add: bucket_ok_def)
next
  case (Cons now ts)
  let ?c = "refill r u now b"
  let ?d = "fst (spend r ?c)"
  have le: "last_seen b \<le> now" and srt: "sorted (now # ts)" using Cons.prems(3) by auto
  have ok: "bucket_ok u ?d" by (rule spend_ok [OF refill_ok [OF Cons.prems(1,2) le]])
  have IH: "real (length (filter fst (client_answers r u ?d ts))) \<le>
      tokens ?d + dur_seconds (last (now # ts) - now) * r"
    using Cons.IH [OF ok Cons.prems(2)] srt by simp
  have in_flow: "tokens ?c \<le> tokens b + dur_seconds (now - last_seen b) * r"
    using mult_right_mono [OF dur_seconds_mono [OF dur_sub_le [OF le]] Cons.prems(2)]
    by (simp add: refill_def min_le_iff_disj)
  have spent: "(if fst (snd (spend r ?c)) then 1 else 0) + tokens ?d \<le> tokens ?c"
    by (simp add: spend_def)
  have sum: "dur_seconds (now - last_seen b) * r + dur_seconds (last (now # ts) - now) * r =
      dur_seconds (last (now # ts) - last_seen b) * r"
    by (simp add: dur_seconds_def algebra_simps add_divide_distrib [symmetric] diff_divide_distrib)
  have "real (length (filter fst (client_answers r u b (now # ts)))) =
      (if fst (snd (spend r ?c)) then 1 else 0) + real (length (filter fst (client_answers r u ?d ts)))"
    by (simp add: Let_def case_prod_beta)
  with IH in_flow spent sum show ?case by simp
qed

lemma refill_again: "last_seen b = now \<Longrightarrow> tokens b \<le> u \<Longrightarrow> refill r u now b = b"
  by (simp add: refill_def min_absorb2)

lemma client_window:
  assumes "bucket_ok u b" and "0 \<le> r" and "sorted (last_seen b # ts)"
    and "\<forall>t\<in>set ts. s \<le> t \<and> t \<le> e" and "s \<le> e"
  shows "real (length (filter fst (client_answers r u b ts))) \<le> u + dur_seconds (e - s) * r"
proof (cases ts)
  case Nil
  have "0 \<le> dur_seconds (e - s) * r" using assms(2,5) by (simp add: dur_seconds_def)
  then show ?thesis using Nil assms(1) by (simp add: bucket_ok_def)
next
  case (Cons now ts')
  let ?c = "refill r u now b"
  have le: "last_seen b \<le> now" and srt: "sorted (now # ts')" using assms(3) Cons by auto
  have ok: "bucket_ok u ?c" by (rule refill_ok [OF assms(1,2) le])
  have "refill r u now ?c = ?c" using ok by (intro refill_again) (simp_all add: bucket_ok_def)
  then have same: "client_answers r u b ts = client_answers r u ?c ts" by (simp add: Cons)
  have "last (now # ts) \<in> set ts" and "now \<in> set ts" by (simp_all add: Cons)
  then have "last (now # ts) - now \<le> e - s" using assms(4) by (smt (verit))
  then have flow: "dur_seconds (last (now # ts) - now) * r \<le> dur_seconds (e - s) * r"
    by (intro mult_right_mono dur_seconds_mono assms(2))
  have "real (length (filter fst (client_answers r u ?c ts))) \<le> tokens ?c + dur_seconds (last (now # ts) - now) * r"
    using client_allowed [OF ok assms(2), of ts] srt by (simp add: Cons)
  with flow same ok show ?thesis by (simp add: bucket_ok_def)
qed

text \<open>
  C19: The limit holds over every window, not only from one minute to the next: of the requests of one client
  between two instants, however they fall and whatever the other clients do, the limiter lets at most
  \<open>burst\<close> plus the rate times the elapsed time through.
\<close>

theorem window_is_bounded:
  assumes "1 \<le> p" and "sorted (0 # map fst (before @ window @ later))"
    and "\<forall>q\<in>set window. s \<le> fst q \<and> fst q \<le> e" and "s \<le> e"
  shows "real (length (filter fst (answers_of key window (take (length window) (drop (length before)
      (fst (allow_all (before @ window @ later) (new_rate_limiter p)))))))) \<le>
    real_of_int p + dur_seconds (e - s) * (real_of_int p / 60)"
proof -
  let ?l = "snd (allow_all before (new_rate_limiter p))" and ?t = "last (0 # map fst before)"
  have srt: "sorted (0 # map fst before)" "sorted (?t # map fst window)"
    using sorted_from_last [of 0 "map fst before" "map fst (window @ later)"] assms(2)
    by (auto simp: sorted_append simp del: last.simps)
  from allow_all_state [OF new_sim [OF assms(1)] srt(1) assms(1)] obtain B where B: "sim p ?t ?l B" by blast
  have part: "take (length window) (drop (length before) (fst (allow_all (before @ window @ later) (new_rate_limiter p))))
      = fst (allow_all window ?l)"
    by (simp add: allow_all_append)
  have own: "answers_of key window (fst (allow_all window ?l)) =
      client_answers (real_of_int p / 60) (real_of_int p) (B key) (times_of key window)"
    by (rule allow_all_sim [OF B srt(2) assms(1)])
  have "sorted (times_of key window)" and sub: "set (times_of key window) \<subseteq> fst ` set window"
    using srt(2) by (auto simp: times_of_def intro: sorted_filter)
  moreover have "last_seen (B key) \<le> t" if "t \<in> fst ` set window" for t
    using that srt(2) simD(5) [OF B, of key] by fastforce
  ultimately have "sorted (last_seen (B key) # times_of key window)" by auto
  then show ?thesis
    unfolding part own using assms(1,3,4) sub by (intro client_window simD(4) [OF B]) auto
qed

theorem window_is_bounded_witness:
  "real (length (filter fst (answers_of ''a'' [(0, ''a''), (0, ''a''), (second, ''a'')]
     (take (length [(0, ''a''), (0, ''a''), (second, ''a'')]) (drop (length ([] :: (int \<times> string) list))
       (fst (allow_all ([] @ [(0, ''a''), (0, ''a''), (second, ''a'')] @ []) (new_rate_limiter 1)))))))) \<le>
   real_of_int 1 + dur_seconds (second - 0) * (real_of_int 1 / 60)"
  by (rule window_is_bounded) (simp_all add: second_def)

section \<open>What Retry-After promises\<close>

lemma refused:
  assumes "spend r b = (b', False, wait)" and "0 < r" and "0 \<le> tokens b" and "1 \<le> 60 * r"
  shows "b' = b \<and> tokens b < 1 \<and> wait = \<lceil>(1 - tokens b) / r\<rceil> * second \<and> second \<le> wait \<and> wait \<le> 60 * second"
proof -
  have b: "b' = b" "tokens b < 1" and w: "wait = wrap64 (\<lceil>(1 - tokens b) / r\<rceil> * second)"
    using assms(1) by (auto simp: spend_def split: if_splits)
  have "(1 - tokens b) / r \<le> 60" using assms(2,3,4) by (simp add: pos_divide_le_eq)
  then have up: "\<lceil>(1 - tokens b) / r\<rceil> \<le> 60" by (simp add: ceiling_le_iff)
  have "0 < (1 - tokens b) / r" using b(2) assms(2) by simp
  then have lo: "1 \<le> \<lceil>(1 - tokens b) / r\<rceil>" by (simp add: le_ceiling_iff)
  define n where "n = \<lceil>(1 - tokens b) / r\<rceil>"
  have n: "1 \<le> n" "n \<le> 60" using up lo by (simp_all add: n_def)
  then have "wrap64 (n * second) = n * second" by (intro wrap64_id) (simp_all add: second_def)
  with b w n show ?thesis by (simp add: second_def flip: n_def)
qed

lemma waited_enough:
  assumes "tokens b < 1" and "0 < r" and "1 \<le> u" and "0 \<le> last_seen b" and "last_seen b \<le> t'"
    and "w = \<lceil>(1 - tokens b) / r\<rceil> * second" and "w \<le> 60 * second"
  shows "last_seen b + w \<le> t' \<Longrightarrow> fst (snd (spend r (refill r u t' b)))"
    and "t' \<le> last_seen b + w - second \<Longrightarrow> \<not> fst (snd (spend r (refill r u t' b)))"
proof -
  let ?n = "\<lceil>(1 - tokens b) / r\<rceil>" and ?d = "dur_seconds (dur_sub t' (last_seen b))"
  assume "last_seen b + w \<le> t'"
  then have "w \<le> dur_sub t' (last_seen b)" using assms(7) by (simp add: dur_sub_def second_def)
  then have "real_of_int ?n \<le> ?d"
    using dur_seconds_mono [of w "dur_sub t' (last_seen b)"] by (simp add: dur_seconds_def assms(6) second_def)
  then have "(1 - tokens b) / r \<le> ?d" using le_of_int_ceiling [of "(1 - tokens b) / r"] by linarith
  then have "1 - tokens b \<le> ?d * r" using assms(2) by (simp add: pos_divide_le_eq)
  then show "fst (snd (spend r (refill r u t' b)))" using assms(3) by (simp add: spend_def refill_def)
next
  let ?n = "\<lceil>(1 - tokens b) / r\<rceil>" and ?d = "dur_seconds (dur_sub t' (last_seen b))"
  assume le: "t' \<le> last_seen b + w - second"
  have "dur_sub t' (last_seen b) \<le> w - second" using dur_sub_le [OF assms(5)] le by simp
  then have "?d \<le> real_of_int (?n - 1)"
    using dur_seconds_mono [of "dur_sub t' (last_seen b)" "w - second"]
    by (simp add: dur_seconds_def assms(6) second_def diff_divide_distrib)
  moreover have "real_of_int (?n - 1) < (1 - tokens b) / r"
    using ceiling_correct [of "(1 - tokens b) / r"] by simp
  ultimately have "?d < (1 - tokens b) / r" by linarith
  then have "?d * r < 1 - tokens b" using assms(2) by (simp add: pos_less_divide_eq)
  then show "\<not> fst (snd (spend r (refill r u t' b)))" by (simp add: spend_def refill_def)
qed

text \<open>
  C21: \<open>Retry-After\<close> is honest to the second: when a client is refused, it is told to wait between one second and
  sixty; if it asks again after that long it is served, whatever the other clients did meanwhile, and if it
  asks again a second or more too early it is refused.
\<close>

theorem retry_after_is_honest:
  assumes "1 \<le> p" and "sorted (0 # map fst (before @ (t, key) # others @ [(t', key)]))"
    and "\<forall>q\<in>set others. snd q \<noteq> key"
    and "answers = fst (allow_all (before @ (t, key) # others @ [(t', key)]) (new_rate_limiter p))"
    and "answers ! length before = (False, wait)"
  shows "second \<le> wait \<and> wait \<le> 60 * second
    \<and> (t + wait \<le> t' \<longrightarrow> fst (last answers))
    \<and> (t' \<le> t + wait - second \<longrightarrow> \<not> fst (last answers))"
proof -
  let ?l = "snd (allow_all before (new_rate_limiter p))" and ?t = "last (0 # map fst before)"
  let ?r = "real_of_int p / 60" and ?u = "real_of_int p"
  have srt: "sorted (0 # map fst before)" "sorted (?t # t # map fst others @ [t'])"
    using sorted_from_last [of 0 "map fst before" "t # map fst others @ [t']"] assms(2)
    by (auto simp: sorted_append simp del: last.simps)
  from allow_all_state [OF new_sim [OF assms(1)] srt(1) assms(1)] obtain B where B: "sim p ?t ?l B" by blast
  have le: "?t \<le> t" "0 \<le> t" and srt': "sorted (t # map fst others)" "sorted (t # map fst others @ [t'])"
    using srt(2) assms(2) by (auto simp: sorted_append simp del: last.simps)
  let ?c = "refill ?r ?u t (B key)" and ?l2 = "fst (allow t key ?l)"
  note st = allow_sim [OF B le(1) assms(1), of key]
  from allow_all_state [OF st(1) srt'(1) assms(1)] obtain B' where
    B': "sim p (last (t # map fst others)) (snd (allow_all others ?l2)) B'"
    and keeps: "\<forall>k. k \<notin> snd ` set others \<longrightarrow> B' k = (B(key := fst (spend ?r ?c))) k" by blast
  have last: "last (t # map fst others) \<le> t'" "t \<le> t'"
    using sorted_from_last [of t "map fst others" "[t']"] srt'(2) by (auto simp: sorted_append simp del: last.simps)
  have "key \<notin> snd ` set others" using assms(3) by (auto simp: image_iff)
  then have own: "B' key = fst (spend ?r ?c)" using keeps by (simp only: fun_upd_same simp_thms)
  have "answers ! length before = snd (allow t key ?l)"
    by (simp add: assms(4) allow_all_append nth_append Let_def case_prod_beta)
  then have no: "spend ?r ?c = (fst (spend ?r ?c), False, wait)" using st(2) assms(5) by (metis prod.collapse)
  have "bucket_ok ?u ?c" using assms(1) B le(1) by (intro refill_ok simD(4)) (auto intro: order_trans [OF simD(5)])
  then have r: "fst (spend ?r ?c) = ?c \<and> tokens ?c < 1 \<and> wait = \<lceil>(1 - tokens ?c) / ?r\<rceil> * second
      \<and> second \<le> wait \<and> wait \<le> 60 * second"
    using assms(1) by (intro refused [OF no]) (auto simp: bucket_ok_def)
  have "last answers = snd (allow t' key (snd (allow_all others ?l2)))"
    by (simp add: assms(4) allow_all_append Let_def case_prod_beta)
  also have "\<dots> = snd (spend ?r (refill ?r ?u t' (B' key)))" by (rule allow_sim(2) [OF B' last(1) assms(1)])
  finally have ans: "last answers = snd (spend ?r (refill ?r ?u t' ?c))" by (simp only: own r)
  have "0 < ?r" "1 \<le> ?u" using assms(1) by simp_all
  note early_late = waited_enough [OF _ this, of ?c t' wait]
  have "(t + wait \<le> t' \<longrightarrow> fst (last answers)) \<and> (t' \<le> t + wait - second \<longrightarrow> \<not> fst (last answers))"
    unfolding ans using early_late r le(2) last(2) by (simp only: refill_last) blast
  then show ?thesis using r by blast
qed

lemma answers_of_all: "\<forall>q\<in>set reqs. snd q = key \<Longrightarrow> length answers = length reqs \<Longrightarrow> answers_of key reqs answers = answers"
  by (induction answers reqs rule: list_induct2') (auto simp: answers_of_def)

lemma one_a_minute:
  "fst (allow_all [(0, ''a''), (second, ''a''), (61 * second, ''a'')] (new_rate_limiter 1)) =
     [(True, 0), (False, 59 * second), (True, 0)]"
proof -
  let ?reqs = "[(0, ''a''), (second, ''a''), (61 * second, ''a'')]"
  have "own_answers 1 [0, second, 61 * second] = [(True, 0), (False, 59 * second), (True, 0)]"
    by (simp add: own_answers_def refill_def spend_def dur_sub_def dur_seconds_def second_def wrap64_def)
  moreover have "answers_of ''a'' ?reqs (fst (allow_all ?reqs (new_rate_limiter 1))) =
      fst (allow_all ?reqs (new_rate_limiter 1))"
    by (rule answers_of_all) (simp, rule allow_all_length)
  ultimately show ?thesis
    using limiter_answers [of 1 ?reqs "''a''"] by (simp add: second_def times_of_def del: allow_all.simps)
qed

theorem retry_after_is_honest_witness:
  "fst (last (fst (allow_all ([(0, ''a'')] @ (second, ''a'') # [] @ [(61 * second, ''a'')]) (new_rate_limiter 1))))"
  using retry_after_is_honest [of 1 "[(0, ''a'')]" second "''a''" "[]" "61 * second" _ "59 * second", OF _ _ _ refl]
  unfolding append.simps one_a_minute by (simp add: second_def)

text \<open>
  The middleware charges the address it identified and no other: behind a trusted proxy the first entry of
  \<open>X-Forwarded-For\<close>, and without one the host of the connection whatever the header says; a client out of tokens
  gets status 429 with a whole number of seconds between 1 and 60, and no other client is ever answered 429
  for it.
\<close>

theorem middleware_charges_the_client:
  assumes "1 \<le> p" and "limiter_reach p t l" and "t \<le> now" and "limit_middleware trust now r l = (l', v)"
  shows "l' = fst (allow now (client_ip r trust) l)
    \<and> (v = Served \<or> (\<exists>n msg. v = Rejected 429 (itoa n) msg \<and> 1 \<le> n \<and> n \<le> 60))
    \<and> (\<forall>key. key \<noteq> client_ip r trust \<longrightarrow> buckets l' key = buckets (sweep now l) key)"
proof -
  let ?key = "client_ip r trust" and ?r = "real_of_int p / 60" and ?u = "real_of_int p"
  let ?b = "case buckets (sweep now l) ?key of None \<Rightarrow> \<lparr>tokens = burst l, last_seen = now\<rparr> | Some b \<Rightarrow> b"
  have ok: "limiter_ok p now (sweep now l)" by (rule sweep_limiter_ok [OF reach_limiter_ok [OF assms(2,1)] assms(3)])
  have same: "rate l = ?r" "burst l = ?u" using ok by (simp_all add: limiter_ok_def)
  have "bucket_ok ?u ?b \<and> last_seen ?b \<le> now"
    using ok same assms(1) by (auto simp: limiter_ok_def bucket_ok_def split: option.split)
  then have c: "bucket_ok ?u (refill ?r ?u now ?b)" using assms(1) by (intro refill_ok) auto
  obtain ok' wait where a: "allow now ?key l = (l', ok', wait)"
    and v: "v = (if ok' then Served else Rejected 429 (itoa \<lfloor>dur_seconds wait\<rfloor>)
        (''Rate limit exceeded. Retry in '' @ itoa \<lfloor>dur_seconds wait\<rfloor> @ ''s.''))"
    using assms(4) by (auto simp: limit_middleware_def split: prod.splits)
  have spent: "spend ?r (refill ?r ?u now ?b) = (fst (spend ?r (refill ?r ?u now ?b)), ok', wait)"
    using a allow_fields(2) [of now ?key l] same by (simp add: Let_def prod_eq_iff)
  have "1 \<le> \<lfloor>dur_seconds wait\<rfloor> \<and> \<lfloor>dur_seconds wait\<rfloor> \<le> 60" if "\<not> ok'"
  proof -
    from refused [of ?r "refill ?r ?u now ?b"] spent that c assms(1)
    have "second \<le> wait \<and> wait \<le> 60 * second" by (simp add: bucket_ok_def)
    then show ?thesis by (simp add: dur_seconds_def second_def le_floor_iff floor_le_iff)
  qed
  moreover have "buckets l' key = buckets (sweep now l) key" if "key \<noteq> ?key" for key
    using that a allow_fields(1) [of now ?key l] by (simp add: Let_def)
  ultimately show ?thesis using v a by (cases ok') auto
qed

theorem middleware_charges_the_client_witness:
  "client_ip \<lparr>forwarded_for = ''9.9.9.9'', remote_addr = ''[::1]:80''\<rparr> False = ''::1'' \<and>
   fst (limit_middleware False 0 \<lparr>forwarded_for = ''9.9.9.9'', remote_addr = ''[::1]:80''\<rparr> (new_rate_limiter 1))
     = fst (allow 0 ''::1'' (new_rate_limiter 1))"
proof -
  have ip: "client_ip \<lparr>forwarded_for = ''9.9.9.9'', remote_addr = ''[::1]:80''\<rparr> False = ''::1''" by code_simp
  show ?thesis
    using middleware_charges_the_client [OF _ limiter_reach.start, of 1 0 False
        "\<lparr>forwarded_for = ''9.9.9.9'', remote_addr = ''[::1]:80''\<rparr>"] ip
    by (metis order_refl prod.collapse)
qed

end
