(* ===== verification/Cache.thy ===== *)
theory Cache
  imports GoStrings
begin

text \<open>
  \<open>internal/cache/cache.go\<close>: a byte cache in Redis in front of the database. Redis is a store of keys, and an
  operation on it either succeeds, fails without effect or fails after it took effect (a timeout). The
  counters are far from the 64 bits they have and are modelled as integers. Parsing the address and the
  lifetime is done by the client library and the standard library and is a parameter.
\<close>

section \<open>The cache\<close>

type_synonym store = "string \<rightharpoonup> string"

definition cache_namespace :: string where
  "cache_namespace = ''deucepoint:v1:''"

definition default_ttl :: int where
  "default_ttl = 24 * 60 * 60 * 1000000000"

text \<open>\<open>Enabled\<close> asks whether there is a client at all.\<close>

record cache =
  enabled :: bool
  ttl :: int
  hits :: int
  misses :: int
  failures :: int

datatype fate = Answered | Lost | Landed

definition from_env :: "(string \<Rightarrow> bool) \<Rightarrow> (string \<Rightarrow> int option) \<Rightarrow> string \<Rightarrow> string \<Rightarrow> cache option" where
  "from_env url_ok parse_duration redis_url cache_ttl =
     (if redis_url = [] then Some \<lparr>enabled = False, ttl = 0, hits = 0, misses = 0, failures = 0\<rparr>
      else if \<not> url_ok redis_url then None
      else if cache_ttl \<noteq> [] then
        (case parse_duration cache_ttl of None \<Rightarrow> None
         | Some d \<Rightarrow> Some \<lparr>enabled = True, ttl = d, hits = 0, misses = 0, failures = 0\<rparr>)
      else Some \<lparr>enabled = True, ttl = default_ttl, hits = 0, misses = 0, failures = 0\<rparr>)"

definition cache_fail :: "cache \<Rightarrow> cache" where
  "cache_fail c = c\<lparr>failures := failures c + 1, misses := misses c + 1\<rparr>"

definition cache_get :: "fate \<Rightarrow> string \<Rightarrow> cache \<times> store \<Rightarrow> cache \<times> string option" where
  "cache_get f key cs =
     (if \<not> enabled (fst cs) then (fst cs, None)
      else if f \<noteq> Answered then (cache_fail (fst cs), None)
      else case snd cs (cache_namespace @ key) of
             Some v \<Rightarrow> ((fst cs)\<lparr>hits := hits (fst cs) + 1\<rparr>, Some v)
           | None \<Rightarrow> ((fst cs)\<lparr>misses := misses (fst cs) + 1\<rparr>, None))"

definition cache_set :: "fate \<Rightarrow> string \<Rightarrow> string \<Rightarrow> cache \<times> store \<Rightarrow> cache \<times> store" where
  "cache_set f key value cs =
     (if \<not> enabled (fst cs) then cs
      else case f of
             Answered \<Rightarrow> (fst cs, (snd cs)(cache_namespace @ key \<mapsto> value))
           | Lost \<Rightarrow> (cache_fail (fst cs), snd cs)
           | Landed \<Rightarrow> (cache_fail (fst cs), (snd cs)(cache_namespace @ key \<mapsto> value)))"

text \<open>
  One round of \<open>Flush\<close>: what \<open>SCAN\<close> answers (the keys found and the next cursor) and what becomes of the
  \<open>UNLINK\<close> of those keys. The loop runs as long as Redis answers; \<open>None\<close> stands for not returned yet.
\<close>

datatype scan_reply = ScanFailed | Scanned "string list" nat

definition unlink :: "string list \<Rightarrow> store \<Rightarrow> store" where
  "unlink ks s = (\<lambda>k. if k \<in> set ks then None else s k)"

definition unlinked :: "string list \<Rightarrow> store \<Rightarrow> int" where
  "unlinked ks s = int (length (filter (\<lambda>k. s k \<noteq> None) (remdups ks)))"

fun flush_loop :: "(scan_reply \<times> fate) list \<Rightarrow> int \<Rightarrow> store \<Rightarrow> (int \<times> bool) option \<times> store" where
  "flush_loop [] removed s = (None, s)"
| "flush_loop ((ScanFailed, f) # rounds) removed s = (Some (removed, False), s)"
| "flush_loop ((Scanned ks next, f) # rounds) removed s =
     (if ks \<noteq> [] \<and> f \<noteq> Answered
      then (Some (removed, False), if f = Landed then unlink ks s else s)
      else
        let n = (if ks \<noteq> [] then unlinked ks s else 0); s' = (if ks \<noteq> [] then unlink ks s else s)
        in if next = 0 then (Some (removed + n, True), s') else flush_loop rounds (removed + n) s')"

definition cache_flush :: "(scan_reply \<times> fate) list \<Rightarrow> cache \<Rightarrow> store \<Rightarrow> (int \<times> bool) option \<times> store" where
  "cache_flush rounds c s = (if \<not> enabled c then (Some (0, True), s) else flush_loop rounds 0 s)"

definition cache_reachable :: "fate \<Rightarrow> cache \<Rightarrow> bool" where
  "cache_reachable ping c = (if \<not> enabled c then False else ping = Answered)"

record cache_stats =
  SEnabled :: bool
  SHits :: int
  SMisses :: int
  SErrors :: int
  SHitRate :: real

definition stats_of :: "cache option \<Rightarrow> cache_stats" where
  "stats_of co =
     (case co of None \<Rightarrow> \<lparr>SEnabled = False, SHits = 0, SMisses = 0, SErrors = 0, SHitRate = 0\<rparr>
      | Some c \<Rightarrow> \<lparr>SEnabled = enabled c, SHits = hits c, SMisses = misses c, SErrors = failures c,
          SHitRate = (if 0 < hits c + misses c then real_of_int (hits c) / real_of_int (hits c + misses c) else 0)\<rparr>)"

definition ttl_for :: "cache \<Rightarrow> int" where
  "ttl_for c = (if \<not> enabled c then 0 else ttl c)"

text \<open>\<open>FlushFromEnv\<close>: what it logs, which is all its caller learns.\<close>

datatype flush_log = BadConfiguration | NothingToClear | NotCleared int | Cleared int

definition flush_from_env ::
  "(string \<Rightarrow> bool) \<Rightarrow> (string \<Rightarrow> int option) \<Rightarrow> string \<Rightarrow> string \<Rightarrow> (scan_reply \<times> fate) list \<Rightarrow> store
    \<Rightarrow> flush_log option \<times> store" where
  "flush_from_env url_ok parse_duration redis_url cache_ttl rounds s =
     (case from_env url_ok parse_duration redis_url cache_ttl of
        None \<Rightarrow> (Some BadConfiguration, s)
      | Some c \<Rightarrow>
          if \<not> enabled c then (Some NothingToClear, s)
          else case cache_flush rounds c s of
                 (None, s') \<Rightarrow> (None, s')
               | (Some (removed, True), s') \<Rightarrow> (Some (Cleared removed), s')
               | (Some (removed, False), s') \<Rightarrow> (Some (NotCleared (ttl_for c)), s'))"

section \<open>What a cache promises\<close>

text \<open>
  The interface the read path relies on. What is not promised is that a value put is found: a cache may forget
  and fail at any time.
\<close>

locale byte_cache =
  fixes get :: "'s \<Rightarrow> 'k \<Rightarrow> 'v option" and put :: "'k \<Rightarrow> 'v \<Rightarrow> 's \<Rightarrow> 's" and holds :: "'s \<Rightarrow> 'k \<Rightarrow> 'v \<Rightarrow> bool"
  assumes get_holds: "get s k = Some v \<Longrightarrow> holds s k v"
    and put_holds: "holds (put k v s) k' v' \<Longrightarrow> k' = k \<and> v' = v \<or> holds s k' v'"
begin

text \<open>Whatever is true of every entry stays true of every entry, and is true of every answer.\<close>

lemma entries_kept:
  assumes "\<And>k v. holds s k v \<Longrightarrow> P k v" and "P k v" and "holds (put k v s) k' v'"
  shows "P k' v'"
  using put_holds [OF assms(3)] assms(1,2) by blast

lemma answer_kept:
  assumes "\<And>k v. holds s k v \<Longrightarrow> P k v" and "get s k = Some v"
  shows "P k v"
  by (rule assms(1) [OF get_holds [OF assms(2)]])

end

interpretation redis: byte_cache
  "\<lambda>cs k. snd (cache_get f k cs)" "cache_set g" "\<lambda>cs k v. snd cs (cache_namespace @ k) = Some v"
  for f g
  by unfold_locales (auto simp: cache_get_def cache_set_def split: if_splits option.splits fate.splits)

section \<open>A broken Redis costs time and nothing else\<close>

text \<open>
  A cache that is off, down or slow only ever says \<open>not cached\<close>: a read counts exactly one hit or one miss
  when a Redis is configured, an error is always also a miss, an answer is what the store holds, and a
  disabled cache never touches the store or the counters.
\<close>

theorem every_read_counted:
  "(let (c', answer) = cache_get f key (c, s)
    in (if enabled c then hits c' + misses c' = hits c + misses c + 1 \<and> (answer \<noteq> None \<longleftrightarrow> hits c' = hits c + 1)
          \<and> failures c' = failures c + (if f = Answered then 0 else 1)
          \<and> answer = (if f = Answered then s (cache_namespace @ key) else None)
        else c' = c \<and> answer = None))
   \<and> (let (c', s') = cache_set g key v (c, s)
      in hits c' = hits c \<and> enabled c' = enabled c
        \<and> misses c' - misses c = failures c' - failures c
        \<and> s' = s(cache_namespace @ key := s' (cache_namespace @ key))
        \<and> (s' (cache_namespace @ key) = Some v \<or> s' (cache_namespace @ key) = s (cache_namespace @ key))
        \<and> (enabled c \<or> c' = c \<and> s' = s))"
  by (auto simp: cache_get_def cache_set_def cache_fail_def split: option.splits fate.splits)

section \<open>Flushing\<close>

abbreviation ours :: "string \<Rightarrow> bool" where
  "ours k \<equiv> has_prefix k cache_namespace"

lemma ours_iff: "ours k \<longleftrightarrow> (\<exists>k'. k = cache_namespace @ k')"
  by (metis append_eq_conv_conj append_take_drop_id has_prefix_def)

text \<open>
  What the documentation of \<open>SCAN\<close> promises of a full iteration: every key returned matches the pattern, and
  every matching key present throughout is returned. The iteration ends at the first cursor 0.
\<close>

fun scan_keys :: "(scan_reply \<times> fate) list \<Rightarrow> string list" where
  "scan_keys [] = []"
| "scan_keys ((ScanFailed, f) # rounds) = scan_keys rounds"
| "scan_keys ((Scanned ks next, f) # rounds) = ks @ scan_keys rounds"

fun full_iteration :: "(scan_reply \<times> fate) list \<Rightarrow> bool" where
  "full_iteration [(Scanned ks next, f)] \<longleftrightarrow> next = 0 \<and> f = Answered"
| "full_iteration ((Scanned ks next, f) # rounds) \<longleftrightarrow> next \<noteq> 0 \<and> f = Answered \<and> full_iteration rounds"
| "full_iteration rounds \<longleftrightarrow> False"

lemma unlinked_card: "unlinked ks s = int (card (set ks \<inter> dom s))"
proof -
  have "set (filter (\<lambda>k. s k \<noteq> None) (remdups ks)) = set ks \<inter> dom s" by (auto simp: dom_def)
  then show ?thesis unfolding unlinked_def by (metis distinct_card distinct_filter distinct_remdups)
qed

lemma unlink_append: "unlink (ks @ ks') s = unlink ks' (unlink ks s)"
  by (auto simp: unlink_def)

lemma unlinked_append: "unlinked (ks @ ks') s = unlinked ks s + unlinked ks' (unlink ks s)"
proof -
  have d: "set ks' \<inter> dom (unlink ks s) = (set ks' \<inter> dom s) - set ks"
    by (auto simp: unlink_def dom_def)
  have "card (set (ks @ ks') \<inter> dom s) = card ((set ks \<inter> dom s) \<union> ((set ks' \<inter> dom s) - set ks))"
    by (rule arg_cong [of _ _ card]) auto
  also have "\<dots> = card (set ks \<inter> dom s) + card ((set ks' \<inter> dom s) - set ks)"
    by (rule card_Un_disjoint) auto
  finally show ?thesis by (simp add: unlinked_card d)
qed

lemma unlink_nil [simp]: "unlink [] s = s" "unlinked [] s = 0"
  by (simp_all add: unlink_def unlinked_def)

lemma flush_loop_full:
  "full_iteration rounds \<Longrightarrow>
    flush_loop rounds removed s = (Some (removed + unlinked (scan_keys rounds) s, True), unlink (scan_keys rounds) s)"
proof (induction rounds arbitrary: removed s rule: full_iteration.induct)
  case (1 ks nxt f)
  then show ?case by (auto simp: Let_def)
next
  case (2 ks nxt f r rounds)
  then show ?case by (auto simp: Let_def unlinked_append unlink_append)
qed auto

lemma flush_loop_spares:
  "list_all ours (scan_keys rounds) \<Longrightarrow> \<not> ours k \<Longrightarrow> snd (flush_loop rounds removed s) k = s k"
  by (induction rounds removed s rule: flush_loop.induct) (auto simp: Let_def unlink_def list_all_iff)

text \<open>
  C25: Flushing removes everything this cache put in Redis and nothing else: with a full iteration of \<open>SCAN\<close>
  that answers, it ends, reports success and the number of keys of ours there were, and leaves exactly the keys
  of others; cut short by any failure it still never touches a key that is not ours.
\<close>

theorem flush_clears:
  assumes "enabled c" and "list_all ours (scan_keys rounds)"
  shows "(\<forall>k. \<not> ours k \<longrightarrow> snd (cache_flush rounds c s) k = s k)
    \<and> (full_iteration rounds \<and> (\<forall>k. ours k \<and> s k \<noteq> None \<longrightarrow> k \<in> set (scan_keys rounds)) \<longrightarrow>
      cache_flush rounds c s =
        (Some (int (card {k. ours k \<and> s k \<noteq> None}), True), \<lambda>k. if ours k then None else s k))"
proof (intro conjI allI impI)
  fix k
  assume "\<not> ours k"
  then show "snd (cache_flush rounds c s) k = s k"
    using assms flush_loop_spares [OF assms(2)] by (simp add: cache_flush_def)
next
  assume full: "full_iteration rounds \<and> (\<forall>k. ours k \<and> s k \<noteq> None \<longrightarrow> k \<in> set (scan_keys rounds))"
  then have "set (scan_keys rounds) \<inter> dom s = {k. ours k \<and> s k \<noteq> None}"
    using assms(2) by (auto simp: list_all_iff dom_def)
  moreover have "unlink (scan_keys rounds) s = (\<lambda>k. if ours k then None else s k)"
    using assms(2) full by (auto simp: unlink_def list_all_iff fun_eq_iff)
  ultimately show "cache_flush rounds c s =
      (Some (int (card {k. ours k \<and> s k \<noteq> None}), True), \<lambda>k. if ours k then None else s k)"
    using assms(1) full by (simp add: cache_flush_def flush_loop_full unlinked_card)
qed

theorem flush_clears_witness:
  "snd (cache_flush [(Scanned [''deucepoint:v1:/a''] 7, Answered), (Scanned [] 0, Answered)]
     \<lparr>enabled = True, ttl = 1, hits = 0, misses = 0, failures = 0\<rparr>
     [''deucepoint:v1:/a'' \<mapsto> ''x'', ''other'' \<mapsto> ''z'']) ''other'' = Some ''z''"
proof -
  have ours_all: "list_all ours (scan_keys [(Scanned [''deucepoint:v1:/a''] 7, Answered), (Scanned [] 0, Answered)])"
    and o: "\<not> ours ''other''"
    by (simp_all add: has_prefix_def cache_namespace_def)
  have "enabled \<lparr>enabled = True, ttl = 1, hits = 0, misses = 0, failures = 0\<rparr>" by simp
  from flush_clears [OF this ours_all, THEN conjunct1, THEN spec, THEN mp, OF o,
      of "[''deucepoint:v1:/a'' \<mapsto> ''x'', ''other'' \<mapsto> ''z'']"]
  show ?thesis by simp
qed

end
