(* ===== verification/HttpCache.thy ===== *)
theory HttpCache
  imports Cache
begin

text \<open>
  \<open>internal/httpapi/cache.go\<close> and \<open>etag.go\<close>: the key a response is cached under, the handler that answers from
  the cache or fills it, and revalidation with an entity tag. A request's query is the list of its parameters
  in the order of the URL, as \<open>net/url\<close> parses it. A handler is a function of the request for a given state of
  the data; status 0 is a handler that never set one, which \<open>net/http\<close> sends as 200. The digest of a body (the
  hex form of the first half of its SHA-256) is a parameter.
\<close>

section \<open>Requests and keys\<close>

record request =
  rmethod :: string
  rpath :: string
  rquery :: "(string \<times> string) list"
  if_none_match :: string

text \<open>\<open>Values.Get\<close>: the first value, empty when there is none.\<close>

definition query_get :: "request \<Rightarrow> string \<Rightarrow> string" where
  "query_get r name = (case map_of (rquery r) name of None \<Rightarrow> [] | Some v \<Rightarrow> v)"

text \<open>\<open>url.QueryEscape\<close>.\<close>

definition plain_char :: "char \<Rightarrow> bool" where
  "plain_char c \<longleftrightarrow> is_digit c \<or> c \<in> set ''-_.~''
     \<or> (let n = (of_char c :: nat) in 65 \<le> n \<and> n \<le> 90 \<or> 97 \<le> n \<and> n \<le> 122)"

definition hex_digit :: "nat \<Rightarrow> char" where
  "hex_digit n = ''0123456789ABCDEF'' ! n"

definition escape_char :: "char \<Rightarrow> string" where
  "escape_char c =
     (if plain_char c then [c] else if c = CHR '' '' then ''+''
      else [CHR ''%'', hex_digit (of_char c div 16), hex_digit (of_char c mod 16)])"

definition query_escape :: "string \<Rightarrow> string" where
  "query_escape s = concat (map escape_char s)"

definition cache_params :: "request \<Rightarrow> string list" where
  "cache_params r = sort (filter (\<lambda>n. query_get r n \<noteq> []) (remdups (map fst (rquery r))))"

definition cache_key :: "request \<Rightarrow> string" where
  "cache_key r =
     (if cache_params r = [] then rpath r
      else rpath r @ ''?'' @
        join (map (\<lambda>n. query_escape n @ ''='' @ query_escape (query_get r n)) (cache_params r)) ''&'')"

section \<open>The cached handler\<close>

record response =
  status :: nat
  body :: string

datatype x_cache = Unset | Hit | Miss

definition safe_method :: "request \<Rightarrow> bool" where
  "safe_method r \<longleftrightarrow> rmethod r = ''GET'' \<or> rmethod r = ''HEAD''"

definition storable :: "response \<Rightarrow> bool" where
  "storable resp \<longleftrightarrow> status resp = 0 \<or> status resp = 200"

definition cached :: "fate \<Rightarrow> fate \<Rightarrow> (request \<Rightarrow> response) \<Rightarrow> request \<Rightarrow> cache \<times> store
    \<Rightarrow> (response \<times> x_cache) \<times> cache \<times> store" where
  "cached f g handler r cs =
     (if \<not> enabled (fst cs) \<or> \<not> safe_method r then ((handler r, Unset), cs)
      else case cache_get f (cache_key r) cs of
             (c, Some b) \<Rightarrow> ((\<lparr>status = 0, body = b\<rparr>, Hit), (c, snd cs))
           | (c, None) \<Rightarrow>
               let resp = handler r
               in ((resp, Miss), if storable resp then cache_set g (cache_key r) (body resp) (c, snd cs) else (c, snd cs)))"

section \<open>Entity tags\<close>

definition etag_matches :: "string \<Rightarrow> string \<Rightarrow> bool" where
  "etag_matches header tag \<longleftrightarrow>
     header \<noteq> [] \<and>
     (trim_space header = ''*'' \<or> list_ex (\<lambda>c. trim_prefix (trim_space c) ''W/'' = tag) (split_on header CHR '',''))"

definition etag_of :: "(string \<Rightarrow> string) \<Rightarrow> string \<Rightarrow> string" where
  "etag_of digest b = [CHR 34] @ digest b @ [CHR 34]"

definition etag_flush :: "response \<Rightarrow> response" where
  "etag_flush resp = (if status resp = 0 then resp\<lparr>status := 200\<rparr> else resp)"

text \<open>The response sent, and the \<open>ETag\<close> header if one is set.\<close>

definition etag :: "(string \<Rightarrow> string) \<Rightarrow> (request \<Rightarrow> response) \<Rightarrow> request \<Rightarrow> response \<times> string option" where
  "etag digest handler r =
     (if \<not> safe_method r then (handler r, None)
      else let resp = handler r in
        if status resp \<noteq> 0 \<and> status resp \<noteq> 200 then (etag_flush resp, None)
        else let tag = etag_of digest (body resp) in
          if etag_matches (if_none_match r) tag then (\<lparr>status = 304, body = []\<rparr>, Some tag)
          else (etag_flush resp, Some tag))"

section \<open>The escape is reversible\<close>

definition hex_val :: "char \<Rightarrow> nat" where
  "hex_val c = length (takeWhile (\<lambda>d. d \<noteq> c) ''0123456789ABCDEF'')"

fun unescape :: "string \<Rightarrow> string" where
  "unescape (c # s) =
     (if c = CHR ''%'' then
        (case s of h # l # s' \<Rightarrow> char_of (16 * hex_val h + hex_val l) # unescape s' | _ \<Rightarrow> [])
      else (if c = CHR ''+'' then CHR '' '' else c) # unescape s)"
| "unescape [] = []"

lemma hex_val_digit: "n < 16 \<Longrightarrow> hex_val (hex_digit n) = n"
proof -
  have "\<forall>n \<in> set [0..<16]. hex_val (hex_digit n) = n" by code_simp
  then show "n < 16 \<Longrightarrow> hex_val (hex_digit n) = n" by simp
qed

lemma hex_digit_plain: "n < 16 \<Longrightarrow> plain_char (hex_digit n)"
proof -
  have "\<forall>n \<in> set [0..<16]. plain_char (hex_digit n)" by code_simp
  then show "n < 16 \<Longrightarrow> plain_char (hex_digit n)" by simp
qed

lemma plain_not: "plain_char c \<Longrightarrow> c \<noteq> CHR ''%'' \<and> c \<noteq> CHR ''+'' \<and> c \<noteq> CHR ''='' \<and> c \<noteq> CHR ''&'' \<and> c \<noteq> CHR ''?''"
  by (auto simp: plain_char_def is_digit_def less_eq_char_def Let_def)

lemma of_char_split: "(of_char (c :: char) :: nat) div 16 < 16" "(of_char (c :: char) :: nat) mod 16 < 16"
proof -
  have "(of_char c :: nat) < 256" using of_char_mod_256 [of c, where 'a = nat] by (metis mod_less_divisor zero_less_numeral)
  then show "(of_char c :: nat) div 16 < 16" "(of_char c :: nat) mod 16 < 16"
    by (simp_all add: less_mult_imp_div_less)
qed

lemma unescape_char: "unescape (escape_char c @ s) = c # unescape s"
proof -
  have "char_of (16 * hex_val (hex_digit (of_char c div 16)) + hex_val (hex_digit (of_char c mod 16))) = c"
    by (simp only: hex_val_digit of_char_split mult_div_mod_eq char_of_char)
  then show ?thesis using plain_not [of c] by (auto simp: escape_char_def)
qed

lemma unescape_escape [simp]: "unescape (query_escape s) = s"
  by (induction s) (auto simp: query_escape_def unescape_char)

lemma query_escape_eq [simp]: "query_escape s = query_escape t \<longleftrightarrow> s = t"
  by (metis unescape_escape)

lemma escape_char_clean: "d \<in> set (escape_char c) \<Longrightarrow> plain_char d \<or> d = CHR ''+'' \<or> d = CHR ''%''"
  using of_char_split [of c] by (auto simp: escape_char_def hex_digit_plain split: if_splits)

lemma query_escape_clean:
  "CHR ''='' \<notin> set (query_escape s)" "CHR ''&'' \<notin> set (query_escape s)"
  using escape_char_clean plain_not by (fastforce simp: query_escape_def)+

section \<open>What a key identifies\<close>

lemma split_on_append: "c \<notin> set a \<Longrightarrow> split_on (a @ c # s) c = a # split_on s c"
  by (induction a) auto

lemma split_on_none: "c \<notin> set a \<Longrightarrow> split_on a c = [a]"
  by (induction a) auto

lemma split_join: "xs \<noteq> [] \<Longrightarrow> \<forall>x \<in> set xs. c \<notin> set x \<Longrightarrow> split_on (join xs [c]) c = xs"
  by (induction xs "[c]" rule: join.induct) (simp_all add: split_on_append split_on_none)

lemma cache_params_facts: "sorted (cache_params r)" "distinct (cache_params r)"
  "n \<in> set (cache_params r) \<longleftrightarrow> query_get r n \<noteq> []"
proof -
  show "sorted (cache_params r)" "distinct (cache_params r)" by (simp_all add: cache_params_def)
  have "n \<in> fst ` set (rquery r)" if "query_get r n \<noteq> []"
    using that by (auto simp: query_get_def split: option.splits dest!: map_of_SomeD intro: rev_image_eqI)
  then show "n \<in> set (cache_params r) \<longleftrightarrow> query_get r n \<noteq> []" by (auto simp: cache_params_def)
qed

lemma same_params:
  assumes "\<And>n. query_get r n = query_get r' n"
  shows "cache_params r = cache_params r'"
  by (rule sorted_distinct_set_unique [OF cache_params_facts(1,2) cache_params_facts(1,2)])
    (auto simp: cache_params_facts(3) assms)

definition pair_text :: "request \<Rightarrow> string \<Rightarrow> string" where
  "pair_text r n = query_escape n @ ''='' @ query_escape (query_get r n)"

lemma pair_text_eq: "pair_text r n = pair_text r' n' \<longleftrightarrow> n = n' \<and> query_get r n = query_get r' n'"
  by (simp add: pair_text_def append_sep_eq query_escape_clean)

lemma pair_text_clean: "CHR ''&'' \<notin> set (pair_text r n)"
  using query_escape_clean by (simp add: pair_text_def)

lemma key_params:
  assumes "map (pair_text r) ns = map (pair_text r') ns'"
  shows "ns = ns' \<and> (\<forall>n \<in> set ns. query_get r n = query_get r' n)"
  using assms by (induction ns arbitrary: ns') (auto simp: pair_text_eq)

lemma cache_key_eq:
  "cache_key r = (if cache_params r = [] then rpath r
     else rpath r @ CHR ''?'' # join (map (pair_text r) (cache_params r)) ''&'')"
  by (simp add: cache_key_def pair_text_def [abs_def])

lemma cache_key_iff:
  assumes p: "CHR ''?'' \<notin> set (rpath r)" "CHR ''?'' \<notin> set (rpath r')"
  shows "cache_key r = cache_key r' \<longleftrightarrow> rpath r = rpath r' \<and> (\<forall>n. query_get r n = query_get r' n)"
proof
  assume "rpath r = rpath r' \<and> (\<forall>n. query_get r n = query_get r' n)"
  then show "cache_key r = cache_key r'" using same_params [of r r'] by (simp add: cache_key_def)
next
  assume eq: "cache_key r = cache_key r'"
  have same: "cache_params r = cache_params r' \<and> rpath r = rpath r' \<and> (\<forall>n \<in> set (cache_params r). query_get r n = query_get r' n)"
  proof (cases "cache_params r = [] \<or> cache_params r' = []")
    case True
    then show ?thesis using eq p by (auto simp: cache_key_eq append_sep_none append_sep_none [symmetric] split: if_splits)
  next
    case False
    then have t: "rpath r = rpath r'"
      and j: "join (map (pair_text r) (cache_params r)) ''&'' = join (map (pair_text r') (cache_params r')) ''&''"
      using eq p by (simp_all add: cache_key_eq append_sep_eq)
    have "map (pair_text r) (cache_params r) = map (pair_text r') (cache_params r')"
      using arg_cong [OF j, of "\<lambda>s. split_on s CHR ''&''"] False pair_text_clean by (simp add: split_join)
    from key_params [OF this] t show ?thesis by simp
  qed
  then have "query_get r n = query_get r' n" for n
    using cache_params_facts(3) [of n r] cache_params_facts(3) [of n r'] by (metis)
  with same show "rpath r = rpath r' \<and> (\<forall>n. query_get r n = query_get r' n)" by blast
qed

text \<open>
  Two requests whose paths hold no question mark share a cache entry exactly when their paths agree and the first
  value of every parameter does, a missing one and an empty one being the same. The order of the parameters, values
  after the first and escaping make no difference. A path with an escaped question mark is outside this: it can have
  the key of another path with a query (\<open>key_collision\<close>).
\<close>

theorem key_identifies_request:
  assumes "CHR ''?'' \<notin> set (rpath r)" and "CHR ''?'' \<notin> set (rpath r')"
  shows "cache_key r = cache_key r' \<longleftrightarrow> rpath r = rpath r' \<and> (\<forall>n. query_get r n = query_get r' n)"
  by (rule cache_key_iff [OF assms])

theorem key_identifies_request_witness:
  "cache_key \<lparr>rmethod = ''GET'', rpath = ''/players'', rquery = [(''q'', ''a&b=c''), (''tour'', []), (''limit'', ''5'')], if_none_match = []\<rparr>
   = cache_key \<lparr>rmethod = ''GET'', rpath = ''/players'', rquery = [(''limit'', ''5''), (''q'', ''a&b=c'')], if_none_match = []\<rparr>"
proof -
  have "query_get \<lparr>rmethod = ''GET'', rpath = ''/players'', rquery = [(''q'', ''a&b=c''), (''tour'', []), (''limit'', ''5'')], if_none_match = []\<rparr> n
      = query_get \<lparr>rmethod = ''GET'', rpath = ''/players'', rquery = [(''limit'', ''5''), (''q'', ''a&b=c'')], if_none_match = []\<rparr> n" for n
    by (auto simp: query_get_def)
  then show ?thesis
    using key_identifies_request
      [of "\<lparr>rmethod = ''GET'', rpath = ''/players'', rquery = [(''q'', ''a&b=c''), (''tour'', []), (''limit'', ''5'')], if_none_match = []\<rparr>"
        "\<lparr>rmethod = ''GET'', rpath = ''/players'', rquery = [(''limit'', ''5''), (''q'', ''a&b=c'')], if_none_match = []\<rparr>"]
    by simp
qed

text \<open>A path with an escaped question mark is not told apart from a query.\<close>

lemma key_collision:
  "cache_key \<lparr>rmethod = ''GET'', rpath = ''/rankings?tour=wta'', rquery = [], if_none_match = []\<rparr> =
   cache_key \<lparr>rmethod = ''GET'', rpath = ''/rankings'', rquery = [(''tour'', ''wta'')], if_none_match = []\<rparr>"
  by code_simp

section \<open>Runs of the server\<close>

text \<open>
  The data behind the handlers, the cache, Redis, and the requests that have missed and have not filled the
  cache yet: between the read and the write of one \<open>cached\<close> call the handler runs, and everything else may
  happen meanwhile.
\<close>

record 'd world =
  data :: 'd
  wcache :: cache
  redis_store :: store
  filling :: "(string \<times> string) list"

datatype wevent = Serves request response | DataChanged | Flushed | Silent

inductive wstep :: "('d \<Rightarrow> request \<Rightarrow> response) \<Rightarrow> 'd world \<Rightarrow> wevent \<Rightarrow> 'd world \<Rightarrow> bool"
  for handler :: "'d \<Rightarrow> request \<Rightarrow> response" where
  bypass: "\<not> enabled (wcache w) \<or> \<not> safe_method r \<Longrightarrow> wstep handler w (Serves r (handler (data w) r)) w"
| hit: "enabled (wcache w) \<Longrightarrow> safe_method r \<Longrightarrow>
    cache_get f (cache_key r) (wcache w, redis_store w) = (c, Some b) \<Longrightarrow>
    wstep handler w (Serves r \<lparr>status = 0, body = b\<rparr>) (w\<lparr>wcache := c\<rparr>)"
| miss: "enabled (wcache w) \<Longrightarrow> safe_method r \<Longrightarrow>
    cache_get f (cache_key r) (wcache w, redis_store w) = (c, None) \<Longrightarrow>
    resp = handler (data w) r \<Longrightarrow>
    wstep handler w (Serves r resp)
      (w\<lparr>wcache := c, filling := (if storable resp then (cache_key r, body resp) # filling w else filling w)\<rparr>)"
| fill: "(k, b) \<in> set (filling w) \<Longrightarrow> cache_set g k b (wcache w, redis_store w) = (c, s) \<Longrightarrow>
    wstep handler w Silent (w\<lparr>wcache := c, redis_store := s, filling := remove1 (k, b) (filling w)\<rparr>)"
| expire: "wstep handler w Silent (w\<lparr>redis_store := (redis_store w)(k := None)\<rparr>)"
| others: "\<not> ours k \<Longrightarrow> wstep handler w Silent (w\<lparr>redis_store := (redis_store w)(k := v)\<rparr>)"
| change: "wstep handler w DataChanged (w\<lparr>data := d\<rparr>)"
| flushed: "wstep handler w Flushed (w\<lparr>redis_store := (\<lambda>k. if ours k then None else redis_store w k)\<rparr>)"


inductive wrun :: "('d \<Rightarrow> request \<Rightarrow> response) \<Rightarrow> 'd world \<Rightarrow> wevent list \<Rightarrow> 'd world \<Rightarrow> bool"
  for handler :: "'d \<Rightarrow> request \<Rightarrow> response" where
  stay: "wrun handler w [] w"
| go: "wstep handler w e w1 \<Longrightarrow> wrun handler w1 es w2 \<Longrightarrow> wrun handler w (e # es) w2"









text \<open>A response as the client sees it.\<close>

definition seen :: "response \<Rightarrow> response" where
  "seen resp = etag_flush resp"




definition sample_request :: request where
  "sample_request = \<lparr>rmethod = ''GET'', rpath = ''/seasons'', rquery = [], if_none_match = []\<rparr>"

definition sample_world :: "string world" where
  "sample_world = \<lparr>data = ''old'', wcache = \<lparr>enabled = True, ttl = 1, hits = 0, misses = 0, failures = 0\<rparr>,
     redis_store = Map.empty, filling = []\<rparr>"

definition sample_handler :: "string \<Rightarrow> request \<Rightarrow> response" where
  "sample_handler d r = \<lparr>status = 200, body = d\<rparr>"

lemma sample_miss:
  "wstep sample_handler sample_world (Serves sample_request \<lparr>status = 200, body = ''old''\<rparr>)
     (sample_world\<lparr>wcache := \<lparr>enabled = True, ttl = 1, hits = 0, misses = 1, failures = 0\<rparr>,
        filling := [(''/seasons'', ''old'')]\<rparr>)"
proof -
  have k: "cache_key sample_request = ''/seasons''" by code_simp
  have "wstep sample_handler sample_world (Serves sample_request (sample_handler (data sample_world) sample_request))
     (sample_world\<lparr>wcache := \<lparr>enabled = True, ttl = 1, hits = 0, misses = 1, failures = 0\<rparr>,
        filling := (if storable (sample_handler (data sample_world) sample_request)
          then (cache_key sample_request, body (sample_handler (data sample_world) sample_request)) # filling sample_world
          else filling sample_world)\<rparr>)"
    by (rule wstep.miss [where f = Answered])
      (simp_all add: sample_world_def sample_request_def safe_method_def cache_get_def)
  then show ?thesis by (simp add: k sample_handler_def sample_world_def storable_def)
qed



text \<open>
  A fill can outlive a flush: a request that missed before the data changed fills the cache after the flush
  that followed the change has finished, and from then on the old answer is served, to every request and after
  a flush that succeeded, until the entry expires.
\<close>

theorem fill_survives_flush:
  "\<exists>w. wrun sample_handler sample_world
      [Serves sample_request \<lparr>status = 200, body = ''old''\<rparr>, DataChanged, Flushed, Silent,
       Serves sample_request \<lparr>status = 0, body = ''old''\<rparr>] w
    \<and> data w = ''new'' \<and> seen \<lparr>status = 0, body = ''old''\<rparr> \<noteq> seen (sample_handler (data w) sample_request)"
proof -
  let ?c = "\<lparr>enabled = True, ttl = 1, hits = 0, misses = 1, failures = 0\<rparr>"
  let ?w1 = "sample_world\<lparr>wcache := ?c, filling := [(''/seasons'', ''old'')]\<rparr>"
  let ?w2 = "?w1\<lparr>data := ''new''\<rparr>"
  let ?w3 = "?w2\<lparr>redis_store := (\<lambda>k. if ours k then None else redis_store ?w2 k)\<rparr>"
  let ?s = "(redis_store ?w3)(cache_namespace @ ''/seasons'' \<mapsto> ''old'')"
  let ?w4 = "?w3\<lparr>wcache := ?c, redis_store := ?s, filling := remove1 (''/seasons'', ''old'') (filling ?w3)\<rparr>"
  let ?w5 = "?w4\<lparr>wcache := ?c\<lparr>hits := 1\<rparr>\<rparr>"
  have k: "cache_key sample_request = ''/seasons''" by code_simp
  have 2: "wstep sample_handler ?w1 DataChanged ?w2" by (rule wstep.change)
  have 3: "wstep sample_handler ?w2 Flushed ?w3" by (rule wstep.flushed)
  have 4: "wstep sample_handler ?w3 Silent ?w4"
    by (rule wstep.fill [where g = Answered]) (simp_all add: cache_set_def)
  have 5: "wstep sample_handler ?w4 (Serves sample_request \<lparr>status = 0, body = ''old''\<rparr>) ?w5"
    by (rule wstep.hit [where f = Answered])
      (simp_all add: cache_get_def k, simp add: sample_request_def safe_method_def)
  have "wrun sample_handler sample_world
      [Serves sample_request \<lparr>status = 200, body = ''old''\<rparr>, DataChanged, Flushed, Silent,
       Serves sample_request \<lparr>status = 0, body = ''old''\<rparr>] ?w5"
    by (rule wrun.go [OF sample_miss wrun.go [OF 2 wrun.go [OF 3 wrun.go [OF 4 wrun.go [OF 5 wrun.stay]]]]])
  then show ?thesis
    by (intro exI [of _ ?w5]) (simp add: seen_def etag_flush_def sample_handler_def)
qed

section \<open>The whole call is the steps\<close>

lemma cached_steps:
  assumes "cached f g (handler (data w)) r (wcache w, redis_store w) = ((resp, x), c, s)" and "filling w = []"
  shows "\<exists>es w'. wrun handler w (Serves r resp # es) w' \<and> set es \<subseteq> {Silent}
    \<and> w' = w\<lparr>wcache := c, redis_store := s\<rparr>"
proof (cases "\<not> enabled (wcache w) \<or> \<not> safe_method r")
  case True
  then have "resp = handler (data w) r" "c = wcache w" "s = redis_store w"
    using assms(1) by (auto simp: cached_def)
  then show ?thesis using wrun.go [OF wstep.bypass [OF True] wrun.stay, of handler] by force
next
  case False
  obtain c1 o1 where g: "cache_get f (cache_key r) (wcache w, redis_store w) = (c1, o1)" by fastforce
  show ?thesis
  proof (cases o1)
    case (Some b)
    then have "resp = \<lparr>status = 0, body = b\<rparr>" "c = c1" "s = redis_store w"
      using assms(1) False g by (auto simp: cached_def)
    moreover have "wstep handler w (Serves r \<lparr>status = 0, body = b\<rparr>) (w\<lparr>wcache := c1\<rparr>)"
      using False g Some by (intro wstep.hit) auto
    ultimately show ?thesis
      by (intro exI [of _ "[]"] exI [of _ "w\<lparr>wcache := c1\<rparr>"]) (auto intro!: wrun.intros)
  next
    case None
    let ?w1 = "w\<lparr>wcache := c1, filling := (if storable resp then (cache_key r, body resp) # filling w else filling w)\<rparr>"
    have resp: "resp = handler (data w) r"
      and cs: "(c, s) = (if storable resp then cache_set g (cache_key r) (body resp) (c1, redis_store w) else (c1, redis_store w))"
      using assms(1) False g None by (auto simp: cached_def Let_def)
    have 1: "wstep handler w (Serves r resp) ?w1"
      by (rule wstep.miss [where f = f]) (use False g None resp in auto)
    show ?thesis
    proof (cases "storable resp")
      case True
      have "wstep handler ?w1 Silent (?w1\<lparr>wcache := c, redis_store := s, filling := remove1 (cache_key r, body resp) (filling ?w1)\<rparr>)"
        by (rule wstep.fill [where g = g]) (use True cs in auto)
      then have "wrun handler w (Serves r resp # [Silent]) (w\<lparr>wcache := c, redis_store := s, filling := []\<rparr>)"
        using 1 True assms(2) by (auto intro!: wrun.intros)
      moreover have "w\<lparr>wcache := c, redis_store := s, filling := []\<rparr> = w\<lparr>wcache := c, redis_store := s\<rparr>"
        using assms(2) by (cases w) simp
      ultimately show ?thesis by (intro exI [of _ "[Silent]"] exI) auto
    next
      case False
      then have "wstep handler w (Serves r resp) (w\<lparr>wcache := c, redis_store := s\<rparr>)"
        using 1 cs assms(2) by (cases w) simp
      then show ?thesis by (intro exI [of _ "[]"] exI) (auto intro: wrun.go wrun.stay)
    qed
  qed
qed

section \<open>Revalidation\<close>

lemma trim_tag:
  "trim_space (etag_of digest b) = etag_of digest b" "trim_prefix (etag_of digest b) ''W/'' = etag_of digest b"
  "etag_of digest b \<noteq> []" "etag_of digest b \<noteq> ''*''"
  by (simp_all add: etag_of_def trim_space_def trim_by_def is_space_def trim_prefix_def has_prefix_def)

lemma matches_own_tag:
  assumes "CHR '','' \<notin> set (digest old)"
  shows "etag_matches (etag_of digest old) t \<longleftrightarrow> etag_of digest old = t"
proof -
  have "CHR '','' \<notin> set (etag_of digest old)" using assms by (simp add: etag_of_def)
  then show ?thesis
    unfolding etag_matches_def by (simp only: split_on_none trim_tag list_ex_Nil_iff list_ex_Cons_iff simp_thms)
qed

text \<open>
  C26: Revalidation answers 304 exactly when the client's copy is still good: for a digest that writes
  hexadecimal digits, a client that sends back the tag it was given with an earlier body, alone or in a list of
  tags without commas, gets an empty 304 when the digest of the body has not changed, and the new body with the new tag when it
  has; a response that is not a 200 and a method that is not safe carry no tag and pass through.
\<close>

theorem revalidation_is_exact:
  assumes "\<And>b. list_all (\<lambda>c. c \<in> set ''0123456789abcdef'') (digest b)"
    and "if_none_match r = etag_of digest old" and "safe_method r"
  shows "etag digest handler r =
    (if status (handler r) \<noteq> 0 \<and> status (handler r) \<noteq> 200 then (handler r, None)
     else if digest (body (handler r)) = digest old
     then (\<lparr>status = 304, body = []\<rparr>, Some (etag_of digest old))
     else (\<lparr>status = 200, body = body (handler r)\<rparr>, Some (etag_of digest (body (handler r)))))"
proof -
  have "CHR '','' \<notin> set (digest old)"
  proof
    assume "CHR '','' \<in> set (digest old)"
    then have "CHR '','' \<in> set ''0123456789abcdef''" using assms(1) [of old] unfolding list_all_iff by (rule bspec [rotated])
    then show False by simp
  qed
  note m = matches_own_tag [of digest old, OF this]
  have t: "etag_of digest old = etag_of digest b \<longleftrightarrow> digest b = digest old" for b by (auto simp: etag_of_def)
  show ?thesis
  proof (cases "status (handler r) \<noteq> 0 \<and> status (handler r) \<noteq> 200")
    case True
    then show ?thesis using assms(3) by (simp add: etag_def Let_def etag_flush_def)
  next
    case False
    then have "etag_flush (handler r) = \<lparr>status = 200, body = body (handler r)\<rparr>"
      by (cases "handler r") (auto simp: etag_flush_def)
    then show ?thesis
      unfolding etag_def Let_def assms(2) m t if_not_P [OF False] using assms(3) by (simp add: etag_of_def)
  qed
qed

theorem revalidation_is_exact_witness:
  "etag (\<lambda>b. if b = ''x'' then ''0a'' else ''0b'') (\<lambda>r. \<lparr>status = 200, body = ''x''\<rparr>)
     \<lparr>rmethod = ''GET'', rpath = ''/'', rquery = [], if_none_match = etag_of (\<lambda>b. if b = ''x'' then ''0a'' else ''0b'') ''x''\<rparr>
   = (\<lparr>status = 304, body = []\<rparr>, Some (etag_of (\<lambda>b. if b = ''x'' then ''0a'' else ''0b'') ''x''))"
  by (subst revalidation_is_exact [where old = "''x''"]) (simp_all add: safe_method_def)

end
