(* ===== verification/IngestRow.thy ===== *)
theory IngestRow
  imports ScoreParse "HOL-Library.Word"
begin

unbundle bit_operations_syntax

text \<open>
  \<open>internal/ingest\<close>, from a record of a source file to a row: \<open>profile.go\<close> (columns by header name, cleaning
  of text), \<open>row.go\<close> (fields, statistics, tier, season, synthetic match numbers), \<open>classify.go\<close> (what the score
  tells) and the \<open>Reader\<close> of \<open>reader.go\<close> over what \<open>encoding/csv\<close> yields, records and errors. A string is a list of
  bytes. The result of \<open>strconv.ParseFloat\<close> is the parameter \<open>fl\<close>, \<open>None\<close> for an error and else a real number, an
  infinity or NaN; a date is year, month and day.
\<close>

section \<open>UTF-8\<close>

text \<open>The width of the first rune of a string as \<open>unicode/utf8\<close> decodes it, 0 where it is invalid.\<close>

abbreviation byte :: "char \<Rightarrow> nat" where
  "byte c \<equiv> of_char c"

abbreviation cont_byte :: "char \<Rightarrow> bool" where
  "cont_byte c \<equiv> 128 \<le> byte c \<and> byte c \<le> 191"

definition second_byte_ok :: "nat \<Rightarrow> nat \<Rightarrow> bool" where
  "second_byte_ok b0 b1 \<longleftrightarrow>
     (if b0 = 224 then 160 \<le> b1 \<and> b1 \<le> 191 else if b0 = 237 then 128 \<le> b1 \<and> b1 \<le> 159
      else if b0 = 240 then 144 \<le> b1 \<and> b1 \<le> 191 else if b0 = 244 then 128 \<le> b1 \<and> b1 \<le> 143
      else 128 \<le> b1 \<and> b1 \<le> 191)"

definition rune_width :: "string \<Rightarrow> nat" where
  "rune_width s =
     (case s of [] \<Rightarrow> 0
      | a # s1 \<Rightarrow>
          if byte a < 128 then 1
          else case s1 of [] \<Rightarrow> 0
          | b # s2 \<Rightarrow>
              if \<not> (194 \<le> byte a \<and> byte a \<le> 244) \<or> \<not> second_byte_ok (byte a) (byte b) then 0
              else if byte a \<le> 223 then 2
              else case s2 of [] \<Rightarrow> 0
              | c # s3 \<Rightarrow>
                  if \<not> cont_byte c then 0
                  else if byte a \<le> 239 then 3
                  else case s3 of [] \<Rightarrow> 0
                  | d # _ \<Rightarrow> if cont_byte d then 4 else 0)"

function valid_utf8 :: "string \<Rightarrow> bool" where
  "valid_utf8 s = (if s = [] then True else if rune_width s = 0 then False else valid_utf8 (drop (rune_width s) s))"
  by pat_completeness auto
termination by (relation "measure length") auto

function drop_invalid :: "string \<Rightarrow> string" where
  "drop_invalid s =
     (if s = [] then []
      else if rune_width s = 0 then drop_invalid (tl s)
      else take (rune_width s) s @ drop_invalid (drop (rune_width s) s))"
  by pat_completeness auto
termination by (relation "measure length") auto

declare valid_utf8.simps [simp del] drop_invalid.simps [simp del]

definition clean_text :: "string \<Rightarrow> string" where
  "clean_text s = (let t = trim_space s in if valid_utf8 t then t else drop_invalid t)"

section \<open>Layouts\<close>

record profile =
  winner_stat :: string
  loser_stat :: string
  has_indoor :: bool
  alphanumeric_ids :: bool

definition profiles :: "string \<Rightarrow> profile option" where
  "profiles p =
     (if p = ''sackmann'' then Some \<lparr>winner_stat = ''w_'', loser_stat = ''l_'', has_indoor = False, alphanumeric_ids = False\<rparr>
      else if p = ''tml'' then Some \<lparr>winner_stat = ''w_'', loser_stat = ''l_'', has_indoor = True, alphanumeric_ids = True\<rparr>
      else None)"

definition required_columns :: "string list" where
  "required_columns =
     [''tourney_id'', ''tourney_name'', ''tourney_date'', ''tourney_level'', ''match_num'', ''round'', ''best_of'',
      ''score'', ''winner_id'', ''winner_name'', ''loser_id'', ''loser_name'']"

record columns =
  col_idx :: "string \<rightharpoonup> nat"
  col_profile :: profile
  col_name :: string

datatype ingest_error =
  UnknownProfile string
| MissingColumns string "string list"
| NoDate | BadDate string
| BadMatchNum string
| NoTourneyID
| MissingPlayerID string int
| SamePlayer string int string
| CsvFailed

definition byte_order_mark :: string where
  "byte_order_mark = [CHR 0xEF, CHR 0xBB, CHR 0xBF]"

definition header_name :: "string \<Rightarrow> string" where
  "header_name h = trim_space (trim_prefix h byte_order_mark)"

definition header_index :: "string list \<Rightarrow> string \<rightharpoonup> nat" where
  "header_index header = fold (\<lambda>(i, h) m. m(header_name h \<mapsto> i)) (enumerate 0 header) Map.empty"

definition new_columns :: "string \<Rightarrow> string list \<Rightarrow> ingest_error + columns" where
  "new_columns profile_name header =
     (case profiles profile_name of
        None \<Rightarrow> Inl (UnknownProfile profile_name)
      | Some p \<Rightarrow>
          let idx = header_index header;
              missing = filter (\<lambda>want. idx want = None) required_columns
          in if missing \<noteq> [] then Inl (MissingColumns profile_name missing)
             else Inr \<lparr>col_idx = idx, col_profile = p, col_name = profile_name\<rparr>)"

definition col_get :: "columns \<Rightarrow> string list \<Rightarrow> string \<Rightarrow> string" where
  "col_get c rec name =
     (case col_idx c name of None \<Rightarrow> [] | Some i \<Rightarrow> if length rec \<le> i then [] else clean_text (rec ! i))"

definition col_has :: "columns \<Rightarrow> string \<Rightarrow> bool" where
  "col_has c name \<longleftrightarrow> col_idx c name \<noteq> None"

section \<open>Fields\<close>

text \<open>A \<open>float64\<close> as \<open>ParseFloat\<close> returns it. Every comparison with NaN is false.\<close>

datatype go_float = Finite real | PosInf | NegInf | NaN

fun float_less :: "go_float \<Rightarrow> real \<Rightarrow> bool" where
  "float_less (Finite a) b = (a < b)"
| "float_less NegInf b = True"
| "float_less f b = False"

fun float_greater :: "go_float \<Rightarrow> real \<Rightarrow> bool" where
  "float_greater (Finite a) b = (b < a)"
| "float_greater PosInf b = True"
| "float_greater f b = False"

text \<open>
  \<open>int(f)\<close>: truncation; out of range, for an infinity and for NaN the value is left to the implementation, and
  amd64 gives the least integer.
\<close>

definition least_int64 :: int where
  "least_int64 = - (2 ^ 63)"

fun go_trunc :: "go_float \<Rightarrow> int" where
  "go_trunc (Finite f) = (if - (2 ^ 63) \<le> f \<and> f < 2 ^ 63 then (if 0 \<le> f then \<lfloor>f\<rfloor> else \<lceil>f\<rceil>) else least_int64)"
| "go_trunc f = least_int64"

type_synonym float_parser = "string \<Rightarrow> go_float option"

definition opt_int :: "float_parser \<Rightarrow> string \<Rightarrow> int option" where
  "opt_int fl s =
     (if s = [] then None
      else case atoi s of Some n \<Rightarrow> Some n | None \<Rightarrow> map_option go_trunc (fl s))"

definition opt_float :: "float_parser \<Rightarrow> string \<Rightarrow> go_float option" where
  "opt_float fl s = (if s = [] then None else fl s)"

definition opt_height :: "float_parser \<Rightarrow> string \<Rightarrow> int option" where
  "opt_height fl s =
     (case opt_int fl s of None \<Rightarrow> None | Some h \<Rightarrow> if h < 100 \<or> 250 < h then None else Some h)"

definition opt_age :: "float_parser \<Rightarrow> string \<Rightarrow> go_float option" where
  "opt_age fl s =
     (case opt_float fl s of None \<Rightarrow> None | Some a \<Rightarrow> if float_less a 10 \<or> float_greater a 70 then None else Some a)"

definition atoi_or :: "float_parser \<Rightarrow> string \<Rightarrow> int \<Rightarrow> int" where
  "atoi_or fl s fallback = (case opt_int fl s of Some n \<Rightarrow> n | None \<Rightarrow> fallback)"

definition normalise_surface :: "string \<Rightarrow> string" where
  "normalise_surface s =
     (if to_lower s \<in> {''hard'', ''clay'', ''grass'', ''carpet''} then to_lower s else [])"

definition normalise_hand :: "string \<Rightarrow> string" where
  "normalise_hand s =
     (if to_upper s \<in> {''R'', ''L''} then to_upper s else if to_upper s \<in> {''U'', ''A''} then ''U'' else [])"

type_synonym civil = "int \<times> int \<times> int"

definition leap_year :: "int \<Rightarrow> bool" where
  "leap_year y \<longleftrightarrow> y mod 4 = 0 \<and> (y mod 100 \<noteq> 0 \<or> y mod 400 = 0)"

definition days_in :: "int \<Rightarrow> int \<Rightarrow> int" where
  "days_in m y =
     (if m = 2 then (if leap_year y then 29 else 28) else if m \<in> {4, 6, 9, 11} then 30 else 31)"

text \<open>\<open>time.Parse("20060102", s)\<close>.\<close>

definition parse_yyyymmdd :: "string \<Rightarrow> civil option" where
  "parse_yyyymmdd s =
     (if length s \<noteq> 8 \<or> \<not> list_all is_digit s then None
      else let y = digits_val (take 4 s); m = digits_val (take 2 (drop 4 s)); d = digits_val (drop 6 s)
      in if m < 1 \<or> 12 < m \<or> d < 1 \<or> days_in m y < d then None else Some (y, m, d))"

definition parse_tourney_date :: "string \<Rightarrow> ingest_error + civil" where
  "parse_tourney_date s =
     (if s = [] then Inl NoDate
      else case parse_yyyymmdd s of None \<Rightarrow> Inl (BadDate s) | Some d \<Rightarrow> Inr d)"

section \<open>Rows\<close>

record serve_stats =
  Aces :: int
  DoubleFaults :: int
  ServePoints :: int
  FirstIn :: int
  FirstWon :: int
  SecondWon :: int
  ServeGames :: int
  BPSaved :: int
  BPFaced :: int

record side_row =
  MSourceID :: string
  MName :: string
  MHand :: string
  MCountry :: string
  MHeight :: "int option"
  MAge :: "go_float option"
  MSeed :: "int option"
  MEntry :: string
  MRank :: "int option"
  MRankPoints :: "int option"
  MStats :: "serve_stats option"
  MBirth :: "civil option"
  MWikidata :: string

record match_row =
  TourneyID :: string
  TourneyName :: string
  MSurface :: string
  MLevel :: string
  DrawSize :: "int option"
  TourneyDate :: civil
  MatchNum :: int
  MRound :: string
  BestOf :: int
  MScore :: string
  Minutes :: "int option"
  Indoor :: "bool option"
  MWinner :: side_row
  MLoser :: side_row

definition has_detailed_stats :: "match_row \<Rightarrow> bool" where
  "has_detailed_stats m \<longleftrightarrow> MStats (MWinner m) \<noteq> None \<and> MStats (MLoser m) \<noteq> None"

text \<open>All differences of two 64-bit figures are kept at 64 bits.\<close>

definition consistent :: "serve_stats \<Rightarrow> bool" where
  "consistent s \<longleftrightarrow>
     (let second_serves = wrap64 (ServePoints s - FirstIn s)
      in FirstIn s \<le> ServePoints s \<and> FirstWon s \<le> FirstIn s \<and> SecondWon s \<le> second_serves \<and> BPSaved s \<le> BPFaced s)"

definition parse_stats :: "float_parser \<Rightarrow> columns \<Rightarrow> string list \<Rightarrow> string \<Rightarrow> serve_stats option" where
  "parse_stats fl c rec pre =
     (case opt_int fl (col_get c rec (pre @ ''svpt'')) of
        None \<Rightarrow> None
      | Some svpt \<Rightarrow>
          let stats = \<lparr>Aces = atoi_or fl (col_get c rec (pre @ ''ace'')) 0,
                DoubleFaults = atoi_or fl (col_get c rec (pre @ ''df'')) 0,
                ServePoints = svpt,
                FirstIn = atoi_or fl (col_get c rec (pre @ ''1stIn'')) 0,
                FirstWon = atoi_or fl (col_get c rec (pre @ ''1stWon'')) 0,
                SecondWon = atoi_or fl (col_get c rec (pre @ ''2ndWon'')) 0,
                ServeGames = atoi_or fl (col_get c rec (pre @ ''SvGms'')) 0,
                BPSaved = atoi_or fl (col_get c rec (pre @ ''bpSaved'')) 0,
                BPFaced = atoi_or fl (col_get c rec (pre @ ''bpFaced'')) 0\<rparr>
          in if consistent stats then Some stats else None)"

definition parse_side :: "float_parser \<Rightarrow> columns \<Rightarrow> string list \<Rightarrow> string \<Rightarrow> string \<Rightarrow> side_row" where
  "parse_side fl c rec side stat_prefix =
     \<lparr>MSourceID = col_get c rec (side @ ''_id''),
      MName = col_get c rec (side @ ''_name''),
      MHand = normalise_hand (col_get c rec (side @ ''_hand'')),
      MCountry = to_upper (col_get c rec (side @ ''_ioc'')),
      MHeight = opt_height fl (col_get c rec (side @ ''_ht'')),
      MAge = opt_age fl (col_get c rec (side @ ''_age'')),
      MSeed = opt_int fl (col_get c rec (side @ ''_seed'')),
      MEntry = to_upper (col_get c rec (side @ ''_entry'')),
      MRank = opt_int fl (col_get c rec (side @ ''_rank'')),
      MRankPoints = opt_int fl (col_get c rec (side @ ''_rank_points'')),
      MStats = parse_stats fl c rec stat_prefix,
      MBirth = None, MWikidata = []\<rparr>"

definition parse_indoor :: "columns \<Rightarrow> string list \<Rightarrow> bool option" where
  "parse_indoor c rec =
     (if \<not> has_indoor (col_profile c) \<or> \<not> col_has c ''indoor'' then None
      else if to_upper (col_get c rec ''indoor'') = ''I'' then Some True
      else if to_upper (col_get c rec ''indoor'') = ''O'' then Some False
      else None)"

text \<open>\<open>hash/fnv\<close>: FNV-1a at 32 bits.\<close>

definition fnv32a :: "string \<Rightarrow> 32 word" where
  "fnv32a s = foldl (\<lambda>h c. (h XOR of_nat (byte c)) * 16777619) 2166136261 s"

definition synthetic_base :: int where
  "synthetic_base = 1000"

definition synthetic_range :: int where
  "synthetic_range = 31000"

definition synthetic_match_num :: "match_row \<Rightarrow> int" where
  "synthetic_match_num m =
     synthetic_base +
       uint (fnv32a (MRound m @ [CHR 0x00] @ MSourceID (MWinner m) @ [CHR 0x00] @ MSourceID (MLoser m)) mod word_of_int synthetic_range)"

definition match_num_of :: "string \<Rightarrow> ingest_error + int" where
  "match_num_of field =
     (if field = [] then Inr 0 else case atoi field of None \<Rightarrow> Inl (BadMatchNum field) | Some n \<Rightarrow> Inr n)"

definition parse_row :: "float_parser \<Rightarrow> columns \<Rightarrow> string list \<Rightarrow> ingest_error + match_row" where
  "parse_row fl c rec =
     (case parse_tourney_date (col_get c rec ''tourney_date'') of Inl e \<Rightarrow> Inl e | Inr date \<Rightarrow>
      (case match_num_of (col_get c rec ''match_num'') of Inl e \<Rightarrow> Inl e | Inr num \<Rightarrow>
        let m = \<lparr>TourneyID = col_get c rec ''tourney_id'',
              TourneyName = col_get c rec ''tourney_name'',
              MSurface = normalise_surface (col_get c rec ''surface''),
              MLevel = col_get c rec ''tourney_level'',
              DrawSize = opt_int fl (col_get c rec ''draw_size''),
              TourneyDate = date, MatchNum = num,
              MRound = col_get c rec ''round'',
              BestOf = atoi_or fl (col_get c rec ''best_of'') 3,
              MScore = col_get c rec ''score'',
              Minutes = opt_int fl (col_get c rec ''minutes''),
              Indoor = parse_indoor c rec,
              MWinner = parse_side fl c rec ''winner'' (winner_stat (col_profile c)),
              MLoser = parse_side fl c rec ''loser'' (loser_stat (col_profile c))\<rparr>
        in if TourneyID m = [] then Inl NoTourneyID
           else if MSourceID (MWinner m) = [] \<or> MSourceID (MLoser m) = [] then Inl (MissingPlayerID (TourneyID m) (MatchNum m))
           else
             let m = (if MatchNum m = 0 then m\<lparr>MatchNum := synthetic_match_num m\<rparr> else m)
             in if MSourceID (MWinner m) = MSourceID (MLoser m)
                then Inl (SamePlayer (TourneyID m) (MatchNum m) (MSourceID (MWinner m)))
                else Inr m))"

section \<open>What a row says\<close>

definition numeric_level :: "string \<Rightarrow> int option" where
  "numeric_level s =
     (if s = [] \<or> \<not> list_all is_digit s then None
      else Some (foldl (\<lambda>n c. wrap64 (n * 10 + digit_val c)) 0 s))"

definition tier :: "match_row \<Rightarrow> string \<Rightarrow> string" where
  "tier m fallback =
     (let level = to_upper (trim_space (MLevel m)) in
      if level = [] then fallback
      else if level = ''C'' then ''challenger''
      else if level = ''S'' then ''futures''
      else case numeric_level level of
             Some n \<Rightarrow> if 250 \<le> n then ''tour'' else if n = 125 then ''challenger'' else ''itf''
           | None \<Rightarrow> ''tour'')"

definition row_season :: "match_row \<Rightarrow> int" where
  "row_season m =
     (if 4 < length (TourneyID m) \<and> TourneyID m ! 4 = CHR ''-'' \<and> atoi (take 4 (TourneyID m)) \<noteq> None
      then the (atoi (take 4 (TourneyID m))) else fst (TourneyDate m))"

text \<open>The pattern \<open>^Q\d+$\<close>.\<close>

definition is_qualifying :: "match_row \<Rightarrow> bool" where
  "is_qualifying m \<longleftrightarrow>
     (case to_upper (MRound m) of [] \<Rightarrow> False | c # ds \<Rightarrow> c = CHR ''Q'' \<and> ds \<noteq> [] \<and> list_all is_digit ds)"

record classified =
  c_incomplete :: bool
  c_sets :: "tset list"
  c_tiebreaks_winner :: "int option"
  c_tiebreaks_loser :: "int option"
  c_deciding_set :: "bool option"
  c_sets_winner :: "int option"
  c_sets_loser :: "int option"
  c_games_winner :: "int option"
  c_games_loser :: "int option"

definition no_figures :: "bool \<Rightarrow> tset list \<Rightarrow> classified" where
  "no_figures i ss =
     \<lparr>c_incomplete = i, c_sets = ss, c_tiebreaks_winner = None, c_tiebreaks_loser = None, c_deciding_set = None,
      c_sets_winner = None, c_sets_loser = None, c_games_winner = None, c_games_loser = None\<rparr>"

definition classify_score :: "string \<Rightarrow> int \<Rightarrow> classified" where
  "classify_score text best_of =
     (case parse_score text of
        Inl _ \<Rightarrow> no_figures True []
      | Inr s \<Rightarrow>
          if incomplete s then no_figures True (sets s)
          else (no_figures False (sets s))
            \<lparr>c_tiebreaks_winner := Some (to_int16 (fst (tiebreaks s))), c_tiebreaks_loser := Some (to_int16 (snd (tiebreaks s))),
             c_deciding_set := Some (went_to_decider best_of s),
             c_sets_winner := Some (to_int16 (fst (sets_decided s))), c_sets_loser := Some (to_int16 (snd (sets_decided s))),
             c_games_winner := Some (to_int16 (fst (games s))), c_games_loser := Some (to_int16 (snd (games s)))\<rparr>)"

definition is_team_event :: "string \<Rightarrow> bool" where
  "is_team_event level \<longleftrightarrow> to_upper (trim_space level) \<in> {''D'', ''T''}"

definition first_name :: "string \<Rightarrow> string" where
  "first_name full = (let parts = str_fields full in if length parts < 2 then [] else hd parts)"

definition last_name :: "string \<Rightarrow> string" where
  "last_name full = (let parts = str_fields full in if length parts < 2 then [] else join (drop 1 parts) '' '')"

section \<open>The reader\<close>

text \<open>
  The loop of \<open>uniqueSynthetic\<close>, which would not end if every number of the range were taken.
\<close>

partial_function (option) probe :: "(int \<Rightarrow> bool) \<Rightarrow> int \<Rightarrow> int option" where
  "probe used n =
     (if \<not> used n then Some n
      else probe used (if synthetic_base + synthetic_range \<le> n + 1 then synthetic_base else n + 1))"

record reader =
  rd_cols :: columns
  rd_rows :: nat
  rd_synthetic :: "(string \<times> int) set"

definition unique_synthetic :: "match_row \<Rightarrow> reader \<Rightarrow> (int \<times> reader) option" where
  "unique_synthetic row r =
     (case probe (\<lambda>n. (TourneyID row, n) \<in> rd_synthetic r) (MatchNum row) of
        None \<Rightarrow> None
      | Some n \<Rightarrow> Some (n, r\<lparr>rd_synthetic := insert (TourneyID row, n) (rd_synthetic r)\<rparr>))"

text \<open>What a call of \<open>csv.Reader.Read\<close> returns: a record, an error, or the end of the file.\<close>

datatype csv_read = CsvRecord "string list" | CsvError | CsvEnd

text \<open>\<open>Next\<close> on a record that was read. \<open>None\<close> is a call that does not return.\<close>

definition reader_next :: "float_parser \<Rightarrow> string list \<Rightarrow> reader \<Rightarrow> ((ingest_error + match_row) \<times> reader) option" where
  "reader_next fl rec r =
     (let r = r\<lparr>rd_rows := rd_rows r + 1\<rparr> in
      case parse_row fl (rd_cols r) rec of
        Inl e \<Rightarrow> Some (Inl e, r)
      | Inr row \<Rightarrow>
          if synthetic_base \<le> MatchNum row then
            (case unique_synthetic row r of None \<Rightarrow> None | Some (n, r) \<Rightarrow> Some (Inr (row\<lparr>MatchNum := n\<rparr>), r))
          else Some (Inr row, r))"

text \<open>
  A file read by calls of \<open>Next\<close> until the end of the file, with the rows and the errors in file order. An error of
  the csv reader is returned as it is and no row is counted.
\<close>

fun read_rows :: "float_parser \<Rightarrow> csv_read list \<Rightarrow> reader \<Rightarrow> ((ingest_error + match_row) list \<times> reader) option" where
  "read_rows fl [] r = Some ([], r)"
| "read_rows fl (CsvEnd # reads) r = Some ([], r)"
| "read_rows fl (CsvError # reads) r =
     (case read_rows fl reads r of None \<Rightarrow> None | Some (xs, r) \<Rightarrow> Some (Inl CsvFailed # xs, r))"
| "read_rows fl (CsvRecord rec # reads) r =
     (case reader_next fl rec r of None \<Rightarrow> None | Some (x, r) \<Rightarrow>
      (case read_rows fl reads r of None \<Rightarrow> None | Some (xs, r) \<Rightarrow> Some (x # xs, r)))"

definition new_reader :: "string \<Rightarrow> string list \<Rightarrow> ingest_error + reader" where
  "new_reader profile_name header =
     (case new_columns profile_name header of Inl e \<Rightarrow> Inl e
      | Inr c \<Rightarrow> Inr \<lparr>rd_cols = c, rd_rows = 0, rd_synthetic = {}\<rparr>)"

end
