(* ===== verification/IngestRowFacts.thy ===== *)
theory IngestRowFacts
  imports IngestRow
begin

text \<open>
  What holds of the rows read: they are well formed whatever the file says, do not depend on the order of its
  columns, carry statistics only where the source recorded consistent ones, and have match numbers of their
  own.
\<close>

section \<open>Clean text is valid UTF-8\<close>

lemma rune_width_le: "rune_width s \<le> length s"
  by (auto simp: rune_width_def split: list.splits if_splits)

lemma rune_width_take: "0 < rune_width s \<Longrightarrow> rune_width (take (rune_width s) s @ t) = rune_width s"
proof (cases s)
  case (Cons a s1)
  assume w: "0 < rune_width s"
  show ?thesis
  proof (cases "byte a < 128")
    case True
    then show ?thesis by (simp add: Cons rune_width_def)
  next
    case a: False
    then obtain b s2 where s1: "s1 = b # s2" using w by (cases s1) (auto simp: Cons rune_width_def)
    have ab: "194 \<le> byte a" "byte a \<le> 244" "second_byte_ok (byte a) (byte b)"
      using w a by (auto simp: Cons s1 rune_width_def split: if_splits)
    show ?thesis
    proof (cases "byte a \<le> 223")
      case True
      then show ?thesis using a ab by (simp add: Cons s1 rune_width_def)
    next
      case a': False
      then obtain c s3 where s2: "s2 = c # s3" using w a by (cases s2) (auto simp: Cons s1 rune_width_def split: if_splits)
      have c: "cont_byte c" using w a ab a' by (auto simp: Cons s1 s2 rune_width_def split: if_splits)
      show ?thesis
      proof (cases "byte a \<le> 239")
        case True
        then have "rune_width s = 3" using a ab a' c by (simp add: Cons s1 s2 rune_width_def)
        moreover have "take 3 s = [a, b, c]" by (simp add: Cons s1 s2 numeral_3_eq_3)
        ultimately show ?thesis using True a ab a' c by (simp add: rune_width_def)
      next
        case a'': False
        then obtain d s4 where s3: "s3 = d # s4" using w a ab a' c by (cases s3) (auto simp: Cons s1 s2 rune_width_def split: if_splits)
        have d: "cont_byte d" using w a ab a' c a'' by (auto simp: Cons s1 s2 s3 rune_width_def split: if_splits)
        then have "rune_width s = 4" using a ab a' c a'' by (simp add: Cons s1 s2 s3 rune_width_def)
        moreover have "take 4 s = [a, b, c, d]" by (simp add: Cons s1 s2 s3 eval_nat_numeral)
        ultimately show ?thesis using a ab a' c a'' d by (simp add: rune_width_def)
      qed
    qed
  qed
qed (simp add: rune_width_def)

lemma valid_drop_invalid: "valid_utf8 (drop_invalid s)"
proof (induction s rule: drop_invalid.induct)
  case (1 s)
  show ?case
  proof (cases "s = [] \<or> rune_width s = 0")
    case True
    then show ?thesis using 1 by (cases "s = []") (auto simp: drop_invalid.simps [of s] drop_invalid.simps [of "[]"] valid_utf8.simps [of "[]"])
  next
    case False
    let ?t = "take (rune_width s) s @ drop_invalid (drop (rune_width s) s)"
    have w: "rune_width ?t = rune_width s" using rune_width_take False by blast
    have "drop (rune_width s) ?t = drop_invalid (drop (rune_width s) s)" using rune_width_le [of s] by simp
    moreover have "?t \<noteq> []" using False by simp
    ultimately have "valid_utf8 ?t" using False 1(2) w by (subst valid_utf8.simps) simp
    then show ?thesis using False by (simp add: drop_invalid.simps [of s])
  qed
qed

lemma valid_clean_text: "valid_utf8 (clean_text s)"
  by (simp add: clean_text_def Let_def valid_drop_invalid)

lemma valid_nil [simp]: "valid_utf8 []"
  by (simp add: valid_utf8.simps)

lemma valid_col_get: "valid_utf8 (col_get c rec name)"
  by (simp add: col_get_def valid_clean_text split: option.split)

section \<open>Well-formed rows\<close>

text \<open>An age is that of a human, or NaN, which is neither below 10 nor above 70.\<close>

definition age_ok :: "go_float \<Rightarrow> bool" where
  "age_ok f \<longleftrightarrow> f = NaN \<or> (\<exists>a. f = Finite a \<and> 10 \<le> a \<and> a \<le> 70)"

definition side_ok :: "side_row \<Rightarrow> bool" where
  "side_ok p \<longleftrightarrow>
     MSourceID p \<noteq> [] \<and> list_all valid_utf8 [MSourceID p, MName p, MHand p, MCountry p, MEntry p]
     \<and> MHand p \<in> {[], ''R'', ''L'', ''U''}
     \<and> (case MHeight p of None \<Rightarrow> True | Some h \<Rightarrow> 100 \<le> h \<and> h \<le> 250)
     \<and> (case MAge p of None \<Rightarrow> True | Some a \<Rightarrow> age_ok a)
     \<and> (case MStats p of None \<Rightarrow> True | Some s \<Rightarrow> consistent s)"

definition civil_ok :: "civil \<Rightarrow> bool" where
  "civil_ok = (\<lambda>(y, m, d). 0 \<le> y \<and> y \<le> 9999 \<and> 1 \<le> m \<and> m \<le> 12 \<and> 1 \<le> d \<and> d \<le> days_in m y)"

definition row_ok :: "match_row \<Rightarrow> bool" where
  "row_ok m \<longleftrightarrow>
     TourneyID m \<noteq> [] \<and> list_all valid_utf8 [TourneyID m, TourneyName m, MSurface m, MLevel m, MRound m, MScore m]
     \<and> civil_ok (TourneyDate m)
     \<and> MatchNum m \<noteq> 0
     \<and> MSurface m \<in> {[], ''hard'', ''clay'', ''grass'', ''carpet''}
     \<and> side_ok (MWinner m) \<and> side_ok (MLoser m) \<and> MSourceID (MWinner m) \<noteq> MSourceID (MLoser m)"

lemma digits_val_acc:
  assumes "list_all is_digit s" and "0 \<le> a"
  shows "0 \<le> foldl (\<lambda>n c. n * 10 + digit_val c) a s \<and>
    foldl (\<lambda>n c. n * 10 + digit_val c) a s < (a + 1) * 10 ^ length s"
  using assms
proof (induction s arbitrary: a)
  case (Cons c s)
  have d: "0 \<le> digit_val c" "digit_val c \<le> 9" using digit_val_range Cons.prems(1) by auto
  have IH: "0 \<le> foldl (\<lambda>n c. n * 10 + digit_val c) (a * 10 + digit_val c) s \<and>
      foldl (\<lambda>n c. n * 10 + digit_val c) (a * 10 + digit_val c) s < (a * 10 + digit_val c + 1) * 10 ^ length s"
    using Cons.prems d by (intro Cons.IH) auto
  have "(a * 10 + digit_val c + 1) * 10 ^ length s \<le> ((a + 1) * 10) * 10 ^ length s"
    using d by (intro mult_right_mono) auto
  then have "(a * 10 + digit_val c + 1) * 10 ^ length s \<le> (a + 1) * 10 ^ length (c # s)" by simp
  with IH show ?case unfolding foldl.simps by (blast intro: order_less_le_trans)
qed simp

lemma digits_val_range: "list_all is_digit s \<Longrightarrow> 0 \<le> digits_val s \<and> digits_val s < 10 ^ length s"
  using digits_val_acc [of s 0] by (simp add: digits_val_def)

lemma parse_date_ok: "parse_tourney_date s = Inr d \<Longrightarrow> civil_ok d"
proof -
  assume a: "parse_tourney_date s = Inr d"
  then have p: "parse_yyyymmdd s = Some d" by (auto simp: parse_tourney_date_def split: if_splits option.splits)
  then have len: "length s = 8" and dig: "list_all is_digit s" by (auto simp: parse_yyyymmdd_def split: if_splits)
  have "list_all is_digit (take 4 s)" using dig by (auto simp: list_all_iff dest: in_set_takeD)
  then have "0 \<le> digits_val (take 4 s) \<and> digits_val (take 4 s) < 10 ^ length (take 4 s)"
    by (rule digits_val_range)
  then show ?thesis using p len by (auto simp: parse_yyyymmdd_def civil_ok_def Let_def split: if_splits)
qed

lemma upper_char_ascii:
  "byte (upper_char c) < 128 \<longleftrightarrow> byte c < 128" "128 \<le> byte c \<Longrightarrow> upper_char c = c"
  by (auto simp: upper_char_def)

lemma cont_byte_upper: "cont_byte (upper_char c) = cont_byte c"
  using upper_char_ascii [of c] by (metis linorder_not_less)

lemma second_byte_upper: "second_byte_ok n (byte (upper_char c)) = second_byte_ok n (byte c)"
proof (cases "byte c < 128")
  case True
  then have "byte (upper_char c) < 128" by (simp add: upper_char_ascii)
  then show ?thesis using True by (simp add: second_byte_ok_def)
qed (simp add: upper_char_ascii)

lemma rune_width_upper: "rune_width (map upper_char s) = rune_width s"
proof (cases s)
  case (Cons a s1)
  show ?thesis
  proof (cases "byte a < 128")
    case True
    then show ?thesis by (simp add: Cons rune_width_def upper_char_ascii)
  next
    case False
    then have "upper_char a = a" by (simp add: upper_char_ascii)
    then show ?thesis using False
      by (auto simp: Cons rune_width_def second_byte_upper cont_byte_upper split: list.split)
  qed
qed simp

lemma valid_to_upper: "valid_utf8 (to_upper s) = valid_utf8 s"
proof (induction s rule: valid_utf8.induct)
  case (1 s)
  then show ?case
    by (subst (1 2) valid_utf8.simps) (simp add: to_upper_def rune_width_upper drop_map)
qed

lemma valid_ascii: "list_all (\<lambda>c. byte c < 128) s \<Longrightarrow> valid_utf8 s"
proof (induction s)
  case (Cons c s)
  then show ?case by (subst valid_utf8.simps) (simp add: rune_width_def)
qed simp

lemma valid_normalised: "valid_utf8 (normalise_hand s)" "valid_utf8 (normalise_surface s)"
  by (rule valid_ascii, auto simp: normalise_hand_def normalise_surface_def)+

lemma opt_age_ok: "opt_age fl s = Some a \<Longrightarrow> age_ok a"
  by (cases a) (auto simp: opt_age_def age_ok_def split: option.splits if_splits)

lemma nan_age_kept: "s \<noteq> [] \<Longrightarrow> fl s = Some NaN \<Longrightarrow> opt_age fl s = Some NaN"
  by (simp add: opt_age_def opt_float_def)

lemma parse_stats_consistent: "parse_stats fl c rec pre = Some s \<Longrightarrow> consistent s"
  by (auto simp: parse_stats_def Let_def split: option.splits if_splits)

lemma opt_height_ok: "opt_height fl s = Some h \<Longrightarrow> 100 \<le> h \<and> h \<le> 250"
  by (auto simp: opt_height_def split: option.splits if_splits)

lemma normalise_hand_range: "normalise_hand s \<in> {[], ''R'', ''L'', ''U''}"
  by (auto simp: normalise_hand_def)

lemma parse_side_ok:
  "MSourceID (parse_side fl c rec side pre) \<noteq> [] \<Longrightarrow> side_ok (parse_side fl c rec side pre)"
  using normalise_hand_range [of "col_get c rec (side @ ''_hand'')"]
  by (auto simp: side_ok_def parse_side_def valid_col_get valid_to_upper valid_normalised
      dest: opt_age_ok opt_height_ok parse_stats_consistent split: option.split)

lemma normalise_surface_range: "normalise_surface s \<in> {[], ''hard'', ''clay'', ''grass'', ''carpet''}"
  by (auto simp: normalise_surface_def)

lemma synthetic_range_ok: "1000 \<le> synthetic_match_num m \<and> synthetic_match_num m < 32000"
proof -
  have "uint (x mod (31000 :: 32 word)) < 31000" for x
  proof -
    have "uint (x mod 31000) = uint x mod uint (31000 :: 32 word)" by (rule uint_mod)
    also have "\<dots> = uint x mod 31000" by simp
    finally show ?thesis by simp
  qed
  then show ?thesis by (simp add: synthetic_match_num_def synthetic_base_def synthetic_range_def)
qed

lemma parse_row_cases:
  assumes "parse_row fl c rec = Inr m"
  obtains date num where "parse_tourney_date (col_get c rec ''tourney_date'') = Inr date"
    and "match_num_of (col_get c rec ''match_num'') = Inr num"
    and "TourneyID m = col_get c rec ''tourney_id''" and "TourneyID m \<noteq> []" and "TourneyDate m = date"
    and "MSurface m = normalise_surface (col_get c rec ''surface'')" and "MScore m = col_get c rec ''score''"
    and "TourneyName m = col_get c rec ''tourney_name''" and "MLevel m = col_get c rec ''tourney_level''"
    and "MRound m = col_get c rec ''round''"
    and "MWinner m = parse_side fl c rec ''winner'' (winner_stat (col_profile c))"
    and "MLoser m = parse_side fl c rec ''loser'' (loser_stat (col_profile c))"
    and "MSourceID (MWinner m) \<noteq> []" and "MSourceID (MLoser m) \<noteq> []" and "MSourceID (MWinner m) \<noteq> MSourceID (MLoser m)"
    and "MatchNum m = num \<and> num \<noteq> 0 \<or> num = 0 \<and> MatchNum m = synthetic_match_num m"
proof -
  obtain date where d: "parse_tourney_date (col_get c rec ''tourney_date'') = Inr date"
    using assms by (auto simp: parse_row_def split: sum.splits)
  obtain num where n: "match_num_of (col_get c rec ''match_num'') = Inr num"
    using assms d by (auto simp: parse_row_def split: sum.splits)
  show ?thesis
    by (rule that [OF d n]) (use assms d n in \<open>auto simp: parse_row_def Let_def synthetic_match_num_def split: if_splits\<close>)
qed

lemma parse_row_ok:
  assumes "parse_row fl c rec = Inr m"
  shows "row_ok m"
  using assms
proof (rule parse_row_cases)
  fix date num
  assume f: "parse_tourney_date (col_get c rec ''tourney_date'') = Inr date"
    "TourneyID m = col_get c rec ''tourney_id''" "TourneyID m \<noteq> []" "TourneyDate m = date"
    "MWinner m = parse_side fl c rec ''winner'' (winner_stat (col_profile c))"
    "MLoser m = parse_side fl c rec ''loser'' (loser_stat (col_profile c))"
    "MSourceID (MWinner m) \<noteq> []" "MSourceID (MLoser m) \<noteq> []" "MSourceID (MWinner m) \<noteq> MSourceID (MLoser m)"
    "MatchNum m = num \<and> num \<noteq> 0 \<or> num = 0 \<and> MatchNum m = synthetic_match_num m"
    and texts: "MSurface m = normalise_surface (col_get c rec ''surface'')" "MScore m = col_get c rec ''score''"
    "TourneyName m = col_get c rec ''tourney_name''" "MLevel m = col_get c rec ''tourney_level''"
    "MRound m = col_get c rec ''round''"
  have "side_ok (MWinner m)" "side_ok (MLoser m)" using f(5-8) parse_side_ok by metis+
  moreover have "MatchNum m \<noteq> 0" using f(10) synthetic_range_ok [of m] by auto
  moreover have "list_all valid_utf8 [TourneyID m, TourneyName m, MSurface m, MLevel m, MRound m, MScore m]"
    unfolding texts f(2) by (simp add: valid_col_get valid_normalised)
  moreover have "MSurface m \<in> {[], ''hard'', ''clay'', ''grass'', ''carpet''}"
    unfolding texts by (rule normalise_surface_range)
  ultimately show ?thesis using f(3,4,9) parse_date_ok [OF f(1)] unfolding row_ok_def by blast
qed

text \<open>
  C27: Whatever a source file holds, a row that is read is well formed: it names a tournament, a valid date and two
  different players, every text in it is valid UTF-8, the surface and the hands are from their lists, a height is
  from 100 to 250 or absent, an age from 10 to 70, the NaN that \<open>ParseFloat\<close> accepts, or absent, its statistics are
  consistent or absent, and its match number is not zero, an empty one being replaced by one between 1000 and 31999.
\<close>

theorem rows_well_formed:
  assumes "parse_row fl c rec = Inr m"
  shows "row_ok m \<and> (col_get c rec ''match_num'' = [] \<longrightarrow> 1000 \<le> MatchNum m \<and> MatchNum m < 32000)"
  using assms
proof (rule parse_row_cases)
  fix num
  assume n: "match_num_of (col_get c rec ''match_num'') = Inr num"
    "MatchNum m = num \<and> num \<noteq> 0 \<or> num = 0 \<and> MatchNum m = synthetic_match_num m"
  have "num = 0" if "col_get c rec ''match_num'' = []" using n(1) that by (simp add: match_num_of_def)
  then show ?thesis using n(2) synthetic_range_ok [of m] parse_row_ok [OF assms] by auto
qed

section \<open>Statistics\<close>

text \<open>The checks compare figures with one another and not with zero.\<close>

lemma negative_line_passes:
  "consistent \<lparr>Aces = -1, DoubleFaults = 0, ServePoints = -5, FirstIn = -5, FirstWon = -6, SecondWon = -1,
     ServeGames = 0, BPSaved = -2, BPFaced = -1\<rparr>"
  by (simp add: consistent_def wrap64_def)

text \<open>Figures read from a file are 64-bit integers.\<close>

lemma atoi_int64: "atoi s = Some n \<Longrightarrow> - (2 ^ 63) \<le> n \<and> n < 2 ^ 63"
  by (auto simp: atoi_def parse_int_def Let_def split: if_splits list.splits)

lemma go_trunc_int64: "- (2 ^ 63) \<le> go_trunc f \<and> go_trunc f < 2 ^ 63"
proof (cases f)
  case (Finite a)
  then show ?thesis by (auto simp: least_int64_def floor_less_iff le_floor_iff ceiling_less_iff le_ceiling_iff)
qed (simp_all add: least_int64_def)

lemma opt_int_int64: "opt_int fl s = Some n \<Longrightarrow> - (2 ^ 63) \<le> n \<and> n < 2 ^ 63"
  using atoi_int64 go_trunc_int64 by (auto simp: opt_int_def split: if_splits option.splits)

text \<open>
  C29: A line of statistics is kept only where serve points were recorded and none of the four contradictions is in
  it: more first serves in than points served, more first serve points won than first serves in, more second serve
  points won than second serves played, more break points saved than faced. The kept figures are the columns', one
  that is absent or no number counting as 0. The difference is taken at 64 bits, so the third check is what it says
  where the second serves are fewer than 2^63, as they are unless first serves in is negative: the checks are
  comparisons only, and a line of negative figures passes them.
\<close>

theorem statistics_possible:
  assumes "parse_stats fl c rec pre = Some s"
  shows "col_has c (pre @ ''svpt'') \<and> opt_int fl (col_get c rec (pre @ ''svpt'')) = Some (ServePoints s)
    \<and> FirstIn s \<le> ServePoints s \<and> FirstWon s \<le> FirstIn s \<and> BPSaved s \<le> BPFaced s
    \<and> (0 \<le> FirstIn s \<or> ServePoints s - FirstIn s < 2 ^ 63
        \<longrightarrow> SecondWon s \<le> ServePoints s - FirstIn s \<and> FirstWon s + SecondWon s \<le> ServePoints s)
    \<and> FirstIn s = atoi_or fl (col_get c rec (pre @ ''1stIn'')) 0
    \<and> FirstWon s = atoi_or fl (col_get c rec (pre @ ''1stWon'')) 0
    \<and> SecondWon s = atoi_or fl (col_get c rec (pre @ ''2ndWon'')) 0
    \<and> BPSaved s = atoi_or fl (col_get c rec (pre @ ''bpSaved'')) 0
    \<and> BPFaced s = atoi_or fl (col_get c rec (pre @ ''bpFaced'')) 0"
proof -
  obtain svpt where v: "opt_int fl (col_get c rec (pre @ ''svpt'')) = Some svpt"
    using assms by (auto simp: parse_stats_def split: option.splits)
  then have s: "ServePoints s = svpt" "consistent s"
      "FirstIn s = atoi_or fl (col_get c rec (pre @ ''1stIn'')) 0"
      "FirstWon s = atoi_or fl (col_get c rec (pre @ ''1stWon'')) 0"
      "SecondWon s = atoi_or fl (col_get c rec (pre @ ''2ndWon'')) 0"
      "BPSaved s = atoi_or fl (col_get c rec (pre @ ''bpSaved'')) 0"
      "BPFaced s = atoi_or fl (col_get c rec (pre @ ''bpFaced'')) 0"
    using assms by (auto simp: parse_stats_def Let_def split: if_splits)
  have le: "FirstIn s \<le> ServePoints s" "FirstWon s \<le> FirstIn s" "BPSaved s \<le> BPFaced s"
      "SecondWon s \<le> wrap64 (ServePoints s - FirstIn s)"
    using s(2) by (auto simp: consistent_def Let_def)
  have "ServePoints s < 2 ^ 63" using opt_int_int64 [OF v] s(1) by simp
  then have "wrap64 (ServePoints s - FirstIn s) = ServePoints s - FirstIn s"
    if "0 \<le> FirstIn s \<or> ServePoints s - FirstIn s < 2 ^ 63"
    using that le(1) by (intro wrap64_id) auto
  then have "SecondWon s \<le> ServePoints s - FirstIn s \<and> FirstWon s + SecondWon s \<le> ServePoints s"
    if "0 \<le> FirstIn s \<or> ServePoints s - FirstIn s < 2 ^ 63"
    using that le(2,4) by auto
  moreover have "col_has c (pre @ ''svpt'')"
    using v by (auto simp: col_has_def col_get_def opt_int_def split: option.splits)
  ultimately show ?thesis using v s(1,3-7) le(1-3) by blast
qed

definition sample_header :: "string list" where
  "sample_header = required_columns @ [''w_svpt'', ''w_1stIn'']"

definition sample_record :: "string list" where
  "sample_record = [''2025-560'', ''US Open'', ''20250825'', ''G'', [], ''R128'', ''5'', ''6-4 6-4 6-4'',
     ''S0AG'', ''Jannik Sinner'', ''V0AB'', ''Vit Kopriva'', ''60'', ''40'']"

definition sample_cols :: columns where
  "sample_cols = \<lparr>col_idx = header_index sample_header, col_profile = the (profiles ''tml''), col_name = ''tml''\<rparr>"

lemma sample_parsed:
  "map_option ServePoints (parse_stats (\<lambda>_. None) sample_cols sample_record ''w_'') = Some 60"
  "(case parse_row (\<lambda>_. None) sample_cols sample_record of Inl e \<Rightarrow> None | Inr m \<Rightarrow> Some (MSourceID (MWinner m))) = Some ''S0AG''"
  by code_simp+

theorem rows_well_formed_witness:
  "\<exists>m. parse_row (\<lambda>_. None) sample_cols sample_record = Inr m \<and> row_ok m"
proof -
  obtain m where m: "parse_row (\<lambda>_. None) sample_cols sample_record = Inr m"
    using sample_parsed(2) by (auto split: sum.splits)
  show ?thesis using rows_well_formed [OF m] m by blast
qed

theorem statistics_possible_witness:
  "\<exists>s. parse_stats (\<lambda>_. None) sample_cols sample_record ''w_'' = Some s \<and> FirstIn s \<le> ServePoints s"
proof -
  obtain s where s: "parse_stats (\<lambda>_. None) sample_cols sample_record ''w_'' = Some s"
    using sample_parsed(1) by auto
  show ?thesis using statistics_possible [OF s] s by blast
qed

section \<open>Match numbers\<close>

lemma probe_up:
  "\<not> used u \<Longrightarrow> n \<le> u \<Longrightarrow> u < 32000 \<Longrightarrow> \<exists>v. probe used n = Some v"
proof (induction "nat (u - n)" arbitrary: n)
  case 0
  then have "n = u" by simp
  then show ?case using 0 by (subst probe.simps) simp
next
  case (Suc k)
  show ?case
  proof (cases "used n")
    case True
    then have "n \<noteq> u" using Suc.prems by auto
    then have "\<exists>v. probe used (n + 1) = Some v" using Suc.hyps(2) Suc.prems by (intro Suc.hyps(1)) auto
    moreover have "n + 1 < 32000" using \<open>n \<noteq> u\<close> Suc.prems by auto
    ultimately show ?thesis using True by (subst probe.simps) (simp add: synthetic_base_def synthetic_range_def)
  qed (subst probe.simps, simp)
qed

lemma probe_returns:
  assumes "\<not> used u" and "1000 \<le> u" and "u < 32000"
  shows "\<exists>v. probe used n = Some v"
proof -
  have base: "\<exists>v. probe used 1000 = Some v" by (rule probe_up) (use assms in auto)
  have high: "\<exists>v. probe used n = Some v" if "32000 \<le> n + 1" for n
    using that base by (subst probe.simps) (simp add: synthetic_base_def synthetic_range_def)
  show ?thesis
  proof (induction "nat (32000 - n)" arbitrary: n)
    case 0
    then show ?case by (intro high) simp
  next
    case (Suc k)
    show ?case
    proof (cases "32000 \<le> n + 1")
      case True
      then show ?thesis by (rule high)
    next
      case False
      then have "\<exists>v. probe used (n + 1) = Some v" using Suc by (intro Suc.hyps(1)) auto
      then show ?thesis using False by (subst probe.simps) (simp add: synthetic_base_def synthetic_range_def)
    qed
  qed
qed

lemma probe_result:
  assumes "probe used n = Some v" and "1000 \<le> n"
  shows "\<not> used v \<and> 1000 \<le> v \<and> (v = n \<or> v < 32000)"
proof -
  have "1000 \<le> n \<longrightarrow> \<not> used v \<and> 1000 \<le> v \<and> (v = n \<or> v < 32000)"
  proof (rule probe.raw_induct [where P = "\<lambda>used n v. 1000 \<le> n \<longrightarrow> \<not> used v \<and> 1000 \<le> v \<and> (v = n \<or> v < 32000)", OF _ assms(1)])
    fix p :: "(int \<Rightarrow> bool) \<Rightarrow> int \<Rightarrow> int option" and used n v
    assume IH: "\<And>used n v. p used n = Some v \<Longrightarrow> 1000 \<le> n \<longrightarrow> \<not> used v \<and> 1000 \<le> v \<and> (v = n \<or> v < 32000)"
      and step: "(if \<not> used n then Some n else p used (if synthetic_base + synthetic_range \<le> n + 1 then synthetic_base else n + 1)) = Some v"
    show "1000 \<le> n \<longrightarrow> \<not> used v \<and> 1000 \<le> v \<and> (v = n \<or> v < 32000)"
      using step IH [of used _ v] by (auto simp: synthetic_base_def synthetic_range_def split: if_splits) force+
  qed
  then show ?thesis using assms(2) by blast
qed

text \<open>The rows of a file that were read, and the numbers that are not the source's.\<close>

definition rows_of :: "(ingest_error + match_row) list \<Rightarrow> match_row list" where
  "rows_of xs = concat (map (case_sum (\<lambda>_. []) (\<lambda>m. [m])) xs)"

definition high_keys :: "match_row list \<Rightarrow> (string \<times> int) list" where
  "high_keys ms = map (\<lambda>m. (TourneyID m, MatchNum m)) (filter (\<lambda>m. synthetic_base \<le> MatchNum m) ms)"

lemma reader_next_row:
  assumes "reader_next fl rec r = Some (x, r')"
  shows "(case x of Inl e \<Rightarrow> rd_synthetic r' = rd_synthetic r
      | Inr m \<Rightarrow> \<exists>m0. parse_row fl (rd_cols r) rec = Inr m0 \<and> m = m0\<lparr>MatchNum := MatchNum m\<rparr>
          \<and> (if synthetic_base \<le> MatchNum m0
             then synthetic_base \<le> MatchNum m \<and> (TourneyID m, MatchNum m) \<notin> rd_synthetic r
               \<and> rd_synthetic r' = insert (TourneyID m, MatchNum m) (rd_synthetic r)
               \<and> (MatchNum m = MatchNum m0 \<or> MatchNum m < 32000)
             else MatchNum m = MatchNum m0 \<and> rd_synthetic r' = rd_synthetic r))
    \<and> rd_cols r' = rd_cols r"
proof (cases "parse_row fl (rd_cols r) rec")
  case (Inl e)
  then have "x = Inl e" "r' = r\<lparr>rd_rows := rd_rows r + 1\<rparr>" using assms by (simp_all add: reader_next_def)
  then show ?thesis by simp
next
  case (Inr m0)
  show ?thesis
  proof (cases "synthetic_base \<le> MatchNum m0")
    case False
    then have "x = Inr m0" "r' = r\<lparr>rd_rows := rd_rows r + 1\<rparr>" using assms Inr by (simp_all add: reader_next_def)
    then show ?thesis using False Inr by simp
  next
    case True
    then obtain n where p: "probe (\<lambda>n. (TourneyID m0, n) \<in> rd_synthetic r) (MatchNum m0) = Some n"
      and x: "x = Inr (m0\<lparr>MatchNum := n\<rparr>)" "r' = r\<lparr>rd_rows := rd_rows r + 1, rd_synthetic := insert (TourneyID m0, n) (rd_synthetic r)\<rparr>"
      using assms Inr by (auto simp: reader_next_def unique_synthetic_def Let_def split: option.splits)
    from probe_result [OF p] True have "(TourneyID m0, n) \<notin> rd_synthetic r \<and> 1000 \<le> n \<and> (n = MatchNum m0 \<or> n < 32000)"
      by (simp add: synthetic_base_def)
    then show ?thesis using x Inr True by (simp add: synthetic_base_def)
  qed
qed

text \<open>What one call of \<open>Next\<close> may give: the parsed record, with another number only if its own is 1000 or more.\<close>

fun reads_as :: "float_parser \<Rightarrow> columns \<Rightarrow> csv_read \<Rightarrow> ingest_error + match_row \<Rightarrow> bool" where
  "reads_as fl c (CsvRecord rec) x =
     (case parse_row fl c rec of
        Inl e \<Rightarrow> x = Inl e
      | Inr m \<Rightarrow> (case x of Inl e \<Rightarrow> False
          | Inr m' \<Rightarrow> m' = m\<lparr>MatchNum := MatchNum m'\<rparr>
              \<and> (if MatchNum m < synthetic_base then MatchNum m' = MatchNum m
                 else synthetic_base \<le> MatchNum m' \<and> (MatchNum m' = MatchNum m \<or> MatchNum m' < 32000))))"
| "reads_as fl c CsvError x = (x = Inl CsvFailed)"
| "reads_as fl c CsvEnd x = False"

definition before_end :: "csv_read list \<Rightarrow> csv_read list" where
  "before_end reads = takeWhile (\<lambda>x. x \<noteq> CsvEnd) reads"

definition record_count :: "csv_read list \<Rightarrow> nat" where
  "record_count reads = length (filter (\<lambda>x. x \<noteq> CsvError) (before_end reads))"

lemma reader_next_reads_as:
  assumes "reader_next fl rec r = Some (x, r')"
  shows "reads_as fl (rd_cols r) (CsvRecord rec) x"
proof (cases x)
  case (Inl e)
  then show ?thesis using assms by (auto simp: reader_next_def Let_def split: sum.splits if_splits option.splits)
next
  case (Inr m)
  obtain m0 where "parse_row fl (rd_cols r) rec = Inr m0" "m = m0\<lparr>MatchNum := MatchNum m\<rparr>"
    "if synthetic_base \<le> MatchNum m0 then synthetic_base \<le> MatchNum m \<and> (MatchNum m = MatchNum m0 \<or> MatchNum m < 32000)
     else MatchNum m = MatchNum m0"
    using reader_next_row [OF assms] Inr by (auto split: if_splits)
  then show ?thesis using Inr by (auto split: if_splits)
qed

lemma read_rows_numbers:
  "read_rows fl reads r = Some (xs, r') \<Longrightarrow>
    distinct (high_keys (rows_of xs)) \<and> set (high_keys (rows_of xs)) \<inter> rd_synthetic r = {}
    \<and> rd_synthetic r' = rd_synthetic r \<union> set (high_keys (rows_of xs))
    \<and> list_all2 (reads_as fl (rd_cols r)) (before_end reads) xs"
proof (induction reads arbitrary: r xs)
  case Nil
  then show ?case by (simp add: rows_of_def high_keys_def before_end_def)
next
  case (Cons rd reads)
  show ?case
  proof (cases rd)
    case CsvEnd
    then show ?thesis using Cons.prems by (auto simp: rows_of_def high_keys_def before_end_def)
  next
    case CsvError
    then obtain ys where rest: "read_rows fl reads r = Some (ys, r')" and xs: "xs = Inl CsvFailed # ys"
      using Cons.prems by (auto split: option.splits)
    show ?thesis using Cons.IH [OF rest] CsvError xs by (simp add: rows_of_def before_end_def)
  next
    case (CsvRecord rec)
    obtain x r1 ys where n: "reader_next fl rec r = Some (x, r1)" and rest: "read_rows fl reads r1 = Some (ys, r')"
      and xs: "xs = x # ys"
      using Cons.prems CsvRecord by (auto split: option.splits)
    have cols: "rd_cols r1 = rd_cols r" using reader_next_row [OF n] by simp
    have as: "list_all2 (reads_as fl (rd_cols r)) (before_end (rd # reads)) xs"
      using Cons.IH [OF rest] reader_next_reads_as [OF n] cols xs CsvRecord by (simp add: before_end_def)
    note IH = Cons.IH [OF rest]
    show ?thesis
    proof (cases x)
      case (Inl e)
      then show ?thesis using reader_next_row [OF n] IH xs as by (simp add: rows_of_def)
    next
      case (Inr m)
      then show ?thesis
        using reader_next_row [OF n] IH xs as by (auto simp: rows_of_def high_keys_def split: if_splits)
    qed
  qed
qed

lemma card_full:
  assumes "finite S" and "card S < 31000"
  shows "\<exists>u. (t, u) \<notin> S \<and> 1000 \<le> u \<and> u < (32000 :: int)"
proof (rule ccontr)
  assume no: "\<not> ?thesis"
  then have "Pair t ` {1000..<32000} \<subseteq> S" by auto
  then have "card (Pair t ` {1000..<32000 :: int}) \<le> card S" by (rule card_mono [OF assms(1)])
  moreover have "card (Pair t ` {1000..<32000 :: int}) = 31000" by (subst card_image) (auto simp: inj_on_def)
  ultimately show False using assms(2) by simp
qed

lemma reader_next_returns:
  assumes "finite (rd_synthetic r)" and "card (rd_synthetic r) < 31000"
  shows "\<exists>x r'. reader_next fl rec r = Some (x, r') \<and> finite (rd_synthetic r') \<and> card (rd_synthetic r') \<le> card (rd_synthetic r) + 1"
proof -
  have "\<exists>x r'. reader_next fl rec r = Some (x, r')"
  proof (cases "parse_row fl (rd_cols r) rec")
    case (Inl e)
    then show ?thesis by (simp add: reader_next_def)
  next
    case (Inr m)
    obtain u where "(TourneyID m, u) \<notin> rd_synthetic r" "1000 \<le> u" "u < 32000" using card_full [OF assms] by blast
    then obtain v where "probe (\<lambda>n. (TourneyID m, n) \<in> rd_synthetic r) (MatchNum m) = Some v"
      using probe_returns [of "\<lambda>n. (TourneyID m, n) \<in> rd_synthetic r" u "MatchNum m"] by blast
    then show ?thesis using Inr by (simp add: reader_next_def unique_synthetic_def Let_def)
  qed
  then obtain x r' where n: "reader_next fl rec r = Some (x, r')" by blast
  have "rd_synthetic r' = rd_synthetic r \<or> (\<exists>k. rd_synthetic r' = insert k (rd_synthetic r))"
    using reader_next_row [OF n] by (auto split: sum.splits if_splits)
  then show ?thesis using n assms(1) card_insert_le_m1 by (metis add.commute card_insert_if finite_insert le_add2 plus_1_eq_Suc order_refl)
qed

lemma read_rows_returns:
  "finite (rd_synthetic r) \<Longrightarrow> card (rd_synthetic r) + record_count reads \<le> 31000 \<Longrightarrow> read_rows fl reads r \<noteq> None"
proof (induction reads arbitrary: r)
  case (Cons rd reads)
  show ?case
  proof (cases rd)
    case CsvEnd
    then show ?thesis by simp
  next
    case CsvError
    then have "read_rows fl reads r \<noteq> None"
      using Cons.prems by (intro Cons.IH) (simp_all add: record_count_def before_end_def)
    then show ?thesis using CsvError by (auto split: option.splits)
  next
    case (CsvRecord rec)
    then have c: "record_count (rd # reads) = record_count reads + 1" by (simp add: record_count_def before_end_def)
    then obtain x r1 where n: "reader_next fl rec r = Some (x, r1)" "finite (rd_synthetic r1)"
        "card (rd_synthetic r1) \<le> card (rd_synthetic r) + 1"
      using reader_next_returns [of r fl rec] Cons.prems by auto
    then have "read_rows fl reads r1 \<noteq> None" using Cons.prems(2) c by (intro Cons.IH) auto
    then show ?thesis using n CsvRecord by (auto split: option.splits)
  qed
qed simp

text \<open>The bound is needed: once a tournament has taken every number, the next search for one never ends.\<close>

lemma probe_stuck:
  assumes "\<And>u. 1000 \<le> u \<Longrightarrow> u < 32000 \<Longrightarrow> used u" and "1000 \<le> n" "n < 32000"
  shows "probe used n = None"
proof (cases "probe used n")
  case (Some v)
  from probe_result [OF Some assms(2)] assms show ?thesis by auto
qed

text \<open>
  C28: Reading a file of at most 31000 records ends (a record the CSV reader rejects does not count towards them):
  every call gives what its record says, one row or one error, where a row without a number below 1000 may have
  been moved to another free one; and no two rows of a tournament are left with the same number of 1000 or more,
  be they two matches whose numbers collided or one match the file repeats. Without the bound the search for a
  free number need not end.
\<close>

theorem reading_ends_with_own_numbers:
  assumes "new_reader profile_name header = Inr r" and "record_count reads \<le> 31000"
  shows "\<exists>xs r'. read_rows fl reads r = Some (xs, r') \<and> list_all2 (reads_as fl (rd_cols r)) (before_end reads) xs
    \<and> distinct (high_keys (rows_of xs))"
proof -
  have "rd_synthetic r = {}" using assms(1) by (auto simp: new_reader_def split: sum.splits)
  then have "read_rows fl reads r \<noteq> None" using assms(2) by (intro read_rows_returns) auto
  then obtain xs r' where "read_rows fl reads r = Some (xs, r')" by fastforce
  then show ?thesis using read_rows_numbers [of fl reads r xs r'] by blast
qed

theorem reading_ends_with_own_numbers_witness:
  "\<exists>r xs r'. new_reader ''tml'' sample_header = Inr r
     \<and> read_rows (\<lambda>_. None) [CsvRecord sample_record, CsvError, CsvRecord sample_record, CsvEnd] r = Some (xs, r')
     \<and> length xs = 3 \<and> distinct (high_keys (rows_of xs))"
proof -
  let ?reads = "[CsvRecord sample_record, CsvError, CsvRecord sample_record, CsvEnd]"
  have "(case new_reader ''tml'' sample_header of Inl _ \<Rightarrow> False | Inr _ \<Rightarrow> True)" by code_simp
  then obtain r where r: "new_reader ''tml'' sample_header = Inr r" by (auto split: sum.splits)
  have "record_count ?reads \<le> 31000" by (simp add: record_count_def before_end_def)
  from reading_ends_with_own_numbers [OF r this] obtain xs r' where
    x: "read_rows (\<lambda>_. None) ?reads r = Some (xs, r')" "distinct (high_keys (rows_of xs))"
    "list_all2 (reads_as (\<lambda>_. None) (rd_cols r)) (before_end ?reads) xs" by blast
  have "length xs = 3" using list_all2_lengthD [OF x(3)] by (simp add: before_end_def)
  then show ?thesis using r x by blast
qed

text \<open>
  A record that is in a file twice, with no match number, is read as two matches: the second is moved past the
  number the first one took, so that the two no longer share a natural key.
\<close>

theorem repeated_row_is_two_matches:
  assumes "rd_synthetic r = {}" and "parse_row fl (rd_cols r) rec = Inr m" and "1000 \<le> MatchNum m"
    and "read_rows fl [CsvRecord rec, CsvRecord rec] r = Some (xs, r')"
  shows "\<exists>n. xs = [Inr m, Inr (m\<lparr>MatchNum := n\<rparr>)] \<and> n \<noteq> MatchNum m"
proof -
  have "probe (\<lambda>n. (TourneyID m, n) \<in> rd_synthetic r) (MatchNum m) = Some (MatchNum m)"
    using assms(1) by (subst probe.simps) simp
  then have 1: "reader_next fl rec r = Some (Inr m, r\<lparr>rd_rows := rd_rows r + 1, rd_synthetic := {(TourneyID m, MatchNum m)}\<rparr>)"
    using assms(1,2,3) by (simp add: reader_next_def unique_synthetic_def synthetic_base_def)
  let ?r1 = "r\<lparr>rd_rows := rd_rows r + 1, rd_synthetic := {(TourneyID m, MatchNum m)}\<rparr>"
  obtain y r2 where 2: "reader_next fl rec ?r1 = Some (y, r2)" and xs: "xs = [Inr m, y]"
    using assms(4) 1 by (auto split: option.splits)
  obtain m2 where y: "y = Inr m2"
    using 2 assms(2,3) by (auto simp: reader_next_def Let_def synthetic_base_def split: option.splits)
  have "m2 = m\<lparr>MatchNum := MatchNum m2\<rparr>" "(TourneyID m2, MatchNum m2) \<noteq> (TourneyID m, MatchNum m)"
    using reader_next_row [OF 2] y assms(2,3) by (auto simp: synthetic_base_def)
  then show ?thesis using xs y by (metis match_row.select_convs(1) match_row.update_convs(7) match_row.surjective)
qed

section \<open>Columns are read by name\<close>

lemma header_index_fold:
  "distinct (map header_name hs) \<Longrightarrow> name \<in> header_name ` set hs \<Longrightarrow>
    \<exists>i < length hs. header_name (hs ! i) = name
      \<and> fold (\<lambda>(i, h) m. m(header_name h \<mapsto> i)) (enumerate n hs) M name = Some (n + i)"
  "name \<notin> header_name ` set hs \<Longrightarrow>
    fold (\<lambda>(i, h) m. m(header_name h \<mapsto> i)) (enumerate n hs) M name = M name"
proof (induction hs arbitrary: n M)
  case (Cons h hs)
  {
    case 1
    show ?case
    proof (cases "name = header_name h")
      case True
      then have "name \<notin> header_name ` set hs" using 1 by auto
      then show ?thesis using True Cons.IH(2) [of "Suc n" "M(header_name h \<mapsto> n)"] by (intro exI [of _ 0]) simp
    next
      case False
      then have "distinct (map header_name hs)" "name \<in> header_name ` set hs" using 1 by auto
      then obtain i where "i < length hs" "header_name (hs ! i) = name"
        "fold (\<lambda>(i, h) m. m(header_name h \<mapsto> i)) (enumerate (Suc n) hs) (M(header_name h \<mapsto> n)) name = Some (Suc n + i)"
        using Cons.IH(1) [of "Suc n" "M(header_name h \<mapsto> n)"] by blast
      then show ?thesis by (intro exI [of _ "Suc i"]) (simp del: fun_upd_apply)
    qed
  next
    case 2
    then show ?case using Cons.IH(2) by simp
  }
qed auto

text \<open>A column of a record, found by the name in the header.\<close>

definition named_field :: "string list \<Rightarrow> string list \<Rightarrow> string \<Rightarrow> string option" where
  "named_field header rec name = map_of (zip (map header_name header) rec) name"

lemma named_field_nth:
  assumes "distinct (map header_name header)" and "length rec = length header" and "i < length header"
  shows "named_field header rec (header_name (header ! i)) = Some (rec ! i)"
proof -
  have "(map header_name header ! i, rec ! i) \<in> set (zip (map header_name header) rec)"
    unfolding set_zip using assms(2,3) by (intro CollectI exI [of _ i]) simp
  then show ?thesis
    using assms by (simp add: named_field_def)
qed

lemma header_index_field:
  assumes "distinct (map header_name header)" and "length rec = length header"
  shows "(case header_index header name of None \<Rightarrow> None | Some i \<Rightarrow> if length rec \<le> i then None else Some (rec ! i))
      = named_field header rec name"
    and "(header_index header name = None) = (named_field header rec name = None)"
proof -
  have "(case header_index header name of None \<Rightarrow> None | Some i \<Rightarrow> if length rec \<le> i then None else Some (rec ! i))
      = named_field header rec name \<and> (header_index header name = None) = (named_field header rec name = None)"
  proof (cases "name \<in> header_name ` set header")
    case True
    then obtain i where "i < length header" "header_name (header ! i) = name" "header_index header name = Some i"
      using header_index_fold(1) [OF assms(1) True, of 0 Map.empty] by (auto simp: header_index_def)
    then show ?thesis using named_field_nth [OF assms, of i] assms(2) by auto
  next
    case False
    then have "named_field header rec name = None"
      using assms(2) by (auto simp: named_field_def map_of_eq_None_iff dest!: set_zip_leftD)
    then show ?thesis using header_index_fold(2) [OF False, of 0 Map.empty] by (simp add: header_index_def)
  qed
  then show "(case header_index header name of None \<Rightarrow> None | Some i \<Rightarrow> if length rec \<le> i then None else Some (rec ! i))
      = named_field header rec name" "(header_index header name = None) = (named_field header rec name = None)" by simp_all
qed

lemma col_get_named:
  assumes "new_columns p header = Inr c" and "distinct (map header_name header)" and "length rec = length header"
  shows "col_get c rec name = (case named_field header rec name of None \<Rightarrow> [] | Some v \<Rightarrow> clean_text v)"
    and "col_has c name = (named_field header rec name \<noteq> None)"
proof -
  have idx: "col_idx c = header_index header" using assms(1) by (auto simp: new_columns_def Let_def split: option.splits if_splits)
  show "col_has c name = (named_field header rec name \<noteq> None)"
    using header_index_field(2) [OF assms(2,3)] by (simp add: col_has_def idx)
  show "col_get c rec name = (case named_field header rec name of None \<Rightarrow> [] | Some v \<Rightarrow> clean_text v)"
    using header_index_field(1) [OF assms(2,3), of name]
    by (auto simp: col_get_def idx split: option.splits if_splits)
qed

lemma parse_row_cong:
  assumes "\<And>name. col_get c rec name = col_get c' rec' name" and "\<And>name. col_has c name = col_has c' name"
    and "col_profile c = col_profile c'"
  shows "parse_row fl c rec = parse_row fl c' rec'"
  unfolding parse_row_def parse_side_def parse_stats_def parse_indoor_def assms by (rule refl)

lemma named_field_perm:
  assumes "mset (zip header rec) = mset (zip header' rec')" and "length rec = length header" and "length rec' = length header'"
    and "distinct (map header_name header)"
  shows "distinct (map header_name header')" and "named_field header rec = named_field header' rec'"
proof -
  have h: "mset (map header_name header) = mset (map header_name header')"
    using arg_cong [OF assms(1), of "image_mset (header_name \<circ> fst)"] assms(2,3)
    by (simp flip: mset_map map_map)
  then show d: "distinct (map header_name header')" using assms(4) by (metis mset_eq_imp_distinct_iff)
  have "mset (zip (map header_name header) rec) = mset (zip (map header_name header') rec')"
    using arg_cong [OF assms(1), of "image_mset (map_prod header_name id)"]
    by (simp add: zip_map1 flip: mset_map) (simp add: map_prod_def case_prod_unfold)
  then have s: "set (zip (map header_name header) rec) = set (zip (map header_name header') rec')"
    by (rule mset_eq_setD)
  show "named_field header rec = named_field header' rec'"
    unfolding named_field_def
    by (rule map_of_inject_set [THEN iffD2, OF _ _ s]) (use assms(2-4) d in simp_all)
qed

text \<open>
  The order of the columns does not matter: two files whose headers name different columns, and that give every
  column the same value in different orders, are read alike, with the same rows and the same errors.
\<close>

theorem column_order_irrelevant:
  assumes "mset (zip header rec) = mset (zip header' rec')" and "length rec = length header" and "length rec' = length header'"
    and "distinct (map header_name header)"
    and "new_columns p header = Inr c"
  shows "\<exists>c'. new_columns p header' = Inr c' \<and> parse_row fl c rec = parse_row fl c' rec'"
proof -
  have d: "distinct (map header_name header')" and nf: "named_field header rec = named_field header' rec'"
    using named_field_perm [OF assms(1-4)] by blast+
  have none: "(header_index header name = None) = (header_index header' name = None)" for name
    using header_index_field(2) [OF assms(4,2)] header_index_field(2) [OF d assms(3)] nf by simp
  obtain pr where pr: "profiles p = Some pr" using assms(5) by (auto simp: new_columns_def split: option.splits)
  have "filter (\<lambda>want. header_index header' want = None) required_columns = []"
    using assms(5) pr none by (auto simp: new_columns_def Let_def split: if_splits)
  then obtain c' where c': "new_columns p header' = Inr c'" "col_profile c' = pr"
    using pr by (simp add: new_columns_def Let_def)
  have "col_profile c = pr" using assms(5) pr by (auto simp: new_columns_def Let_def split: if_splits)
  then have "parse_row fl c rec = parse_row fl c' rec'"
    using col_get_named [OF assms(5,4,2)] col_get_named [OF c'(1) d assms(3)] nf c'(2) by (intro parse_row_cong) auto
  then show ?thesis using c'(1) by blast
qed

theorem column_order_irrelevant_witness:
  "\<exists>c c'. new_columns ''sackmann'' required_columns = Inr c \<and> new_columns ''sackmann'' (rev required_columns) = Inr c'
     \<and> parse_row (\<lambda>_. None) c (take 12 sample_record) = parse_row (\<lambda>_. None) c' (rev (take 12 sample_record))"
proof -
  have "(case new_columns ''sackmann'' required_columns of Inl _ \<Rightarrow> False | Inr _ \<Rightarrow> True)" by code_simp
  then obtain c where c: "new_columns ''sackmann'' required_columns = Inr c" by (auto split: sum.splits)
  have len: "length (take 12 sample_record) = length required_columns" by (simp add: sample_record_def required_columns_def)
  have d: "distinct (map header_name required_columns)" by code_simp
  show ?thesis
    using column_order_irrelevant [OF _ len _ d c, of "rev required_columns" "rev (take 12 sample_record)"] c len
    by (auto simp: zip_rev simp del: take_rev)
qed

end
