(* ===== verification/IngestSource.thy ===== *)
theory IngestSource
  imports IngestRow
begin

text \<open>
  \<open>internal/ingest/source.go\<close> and the source half of \<open>reference.go\<close>: the registry of source files, its
  validation, which sources cover a tour and a season and in what order, and the plan of one job per file that the
  pipeline makes of it. Reading and decoding the JSON file is left out; the decoded registry is the argument.
\<close>

section \<open>Sources\<close>

definition tour_atp :: string where "tour_atp = ''atp''"
definition tour_wta :: string where "tour_wta = ''wta''"

record source =
  SName :: string
  STour :: string
  STier :: string
  SProfile :: string
  SBaseURL :: string
  SPath :: string
  SFirstSeason :: int
  SLastSeason :: int
  SThrough :: string
  SPrecedence :: int
  SAttribution :: string
  SQualifying :: bool

definition covers :: "source \<Rightarrow> int \<Rightarrow> bool" where
  "covers s season \<longleftrightarrow> SFirstSeason s \<le> season \<and> season \<le> SLastSeason s"

text \<open>\<open>time.Parse("2006-01-02", s)\<close>.\<close>

definition parse_iso_date :: "string \<Rightarrow> civil option" where
  "parse_iso_date s =
     (if length s = 10 \<and> s ! 4 = CHR ''-'' \<and> s ! 7 = CHR ''-''
      then parse_yyyymmdd (take 4 s @ take 2 (drop 5 s) @ drop 8 s) else None)"

datatype config_error =
    EmptyRegistry | NoName | UnknownTour string | NoProfile string | NoLocation string | NoSeasonMark string
  | SeasonsReversed string | BadThrough string string | UnknownSchema string | DuplicateName string
  | UnknownKind string | NoDecades string | NoAttribution string

text \<open>\<open>None\<close> is the zero time: the final season is complete.\<close>

definition through_date :: "source \<Rightarrow> config_error + civil option" where
  "through_date s =
     (if SThrough s = [] then Inr None
      else case parse_iso_date (SThrough s) of None \<Rightarrow> Inl (BadThrough (SName s) (SThrough s)) | Some d \<Rightarrow> Inr (Some d))"

text \<open>\<open>strings.ReplaceAll\<close> for a pattern that is not empty.\<close>

fun replace_all :: "string \<Rightarrow> string \<Rightarrow> string \<Rightarrow> string" where
  "replace_all [] old new = []"
| "replace_all (c # s) old new =
     (if has_prefix (c # s) old then new @ replace_all (drop (length old - 1) s) old new else c # replace_all s old new)"

definition rel_path :: "source \<Rightarrow> int \<Rightarrow> string" where
  "rel_path s season = replace_all (SPath s) ''{season}'' (itoa season)"

definition source_url :: "source \<Rightarrow> int \<Rightarrow> string" where
  "source_url s season = trim_suffix (SBaseURL s) ''/'' @ ''/'' @ rel_path s season"

section \<open>Reference and charting sources\<close>

record ref_source =
  FName :: string
  FTour :: string
  FKind :: string
  FBaseURL :: string
  FPath :: string
  FDecades :: "string list"
  FAttribution :: string

definition rel_paths :: "ref_source \<Rightarrow> string list" where
  "rel_paths r =
     (if FDecades r = [] then [FPath r] else map (\<lambda>d. replace_all (FPath r) ''{decade}'' d) (FDecades r))"

definition validate_ref :: "ref_source \<Rightarrow> config_error option" where
  "validate_ref r =
     (if FName r = [] then Some NoName
      else if FTour r \<noteq> tour_atp \<and> FTour r \<noteq> tour_wta then Some (UnknownTour (FName r))
      else if FKind r \<noteq> ''players'' \<and> FKind r \<noteq> ''rankings'' then Some (UnknownKind (FName r))
      else if FBaseURL r = [] \<or> FPath r = [] then Some (NoLocation (FName r))
      else if FKind r = ''rankings'' \<and> FDecades r = [] then Some (NoDecades (FName r))
      else if FAttribution r = [] then Some (NoAttribution (FName r))
      else None)"

record charting_source =
  CsName :: string
  CsTour :: string
  CsBaseURL :: string
  CsMatches :: string
  CsStats :: string
  CsAttribution :: string

definition validate_charting :: "charting_source \<Rightarrow> config_error option" where
  "validate_charting c =
     (if CsName c = [] then Some NoName
      else if CsTour c \<noteq> tour_atp \<and> CsTour c \<noteq> tour_wta then Some (UnknownTour (CsName c))
      else if CsBaseURL c = [] \<or> CsMatches c = [] \<or> CsStats c = [] then Some (NoLocation (CsName c))
      else if CsAttribution c = [] then Some (NoAttribution (CsName c))
      else None)"

section \<open>The registry\<close>

record registry =
  GSources :: "source list"
  GReference :: "ref_source list"
  GCharting :: "charting_source list"

definition reference_for :: "registry \<Rightarrow> string \<Rightarrow> ref_source list" where
  "reference_for g kind = filter (\<lambda>r. FKind r = kind) (GReference g)"

text \<open>The first failure of a loop of checks.\<close>

fun first_failure :: "('a \<Rightarrow> config_error option) \<Rightarrow> 'a list \<Rightarrow> config_error option" where
  "first_failure f [] = None"
| "first_failure f (x # xs) = (case f x of None \<Rightarrow> first_failure f xs | Some e \<Rightarrow> Some e)"

definition check_source :: "source \<Rightarrow> config_error option" where
  "check_source s =
     (if SName s = [] then Some NoName
      else if STour s \<noteq> tour_atp \<and> STour s \<noteq> tour_wta then Some (UnknownTour (SName s))
      else if SProfile s = [] then Some (NoProfile (SName s))
      else if SBaseURL s = [] \<or> SPath s = [] then Some (NoLocation (SName s))
      else if \<not> contains_sub (SPath s) ''{season}'' then Some (NoSeasonMark (SName s))
      else if SFirstSeason s > SLastSeason s then Some (SeasonsReversed (SName s))
      else case through_date s of Inl e \<Rightarrow> Some e
        | Inr _ \<Rightarrow> if profiles (SProfile s) = None then Some (UnknownSchema (SName s)) else None)"

fun check_sources :: "string list \<Rightarrow> source list \<Rightarrow> config_error option" where
  "check_sources seen [] = None"
| "check_sources seen (s # ss) =
     (case check_source s of Some e \<Rightarrow> Some e
      | None \<Rightarrow> if SName s \<in> set seen then Some (DuplicateName (SName s)) else check_sources (SName s # seen) ss)"

definition validate_registry :: "registry \<Rightarrow> config_error option" where
  "validate_registry g =
     (if GSources g = [] then Some EmptyRegistry
      else case first_failure validate_ref (GReference g) of Some e \<Rightarrow> Some e
      | None \<Rightarrow> (case first_failure validate_charting (GCharting g) of Some e \<Rightarrow> Some e
      | None \<Rightarrow> check_sources [] (GSources g)))"

definition source_less :: "source \<Rightarrow> source \<Rightarrow> bool" where
  "source_less a b \<longleftrightarrow> (if SPrecedence a \<noteq> SPrecedence b then SPrecedence a > SPrecedence b else SName a < SName b)"

definition sources_for :: "registry \<Rightarrow> string \<Rightarrow> int \<Rightarrow> source list" where
  "sources_for g tour season = sort_slice source_less (filter (\<lambda>s. STour s = tour \<and> covers s season) (GSources g))"

definition all_seasons :: "registry \<Rightarrow> int list" where
  "all_seasons g = sort_slice (<) (remdups (concat (map (\<lambda>s. [SFirstSeason s..SLastSeason s]) (GSources g))))"

definition add_attribution :: "string \<Rightarrow> string list \<Rightarrow> string list" where
  "add_attribution a out = (if a = [] \<or> a \<in> set out then out else out @ [a])"

definition attributions :: "registry \<Rightarrow> string list" where
  "attributions g =
     sort_slice (<) (fold add_attribution (map SAttribution (GSources g) @ map CsAttribution (GCharting g)) [])"

section \<open>The plan\<close>

type_synonym file_key = "string \<times> string"

definition season_key :: "string \<Rightarrow> int \<Rightarrow> file_key" where
  "season_key source_name season = (source_name, itoa season)"

definition path_key :: "string \<Rightarrow> string \<Rightarrow> file_key" where
  "path_key source_name path = (source_name, path)"

record job =
  JSource :: source
  JSeason :: int

definition job_key :: "job \<Rightarrow> file_key" where
  "job_key j = season_key (SName (JSource j)) (JSeason j)"

record options =
  OWorkers :: int
  OBatchSize :: int
  OSeasons :: "int list"
  OTours :: "string list"
  OForce :: bool

definition default_batch_size :: int where "default_batch_size = 2000"

definition workers_of :: "int \<Rightarrow> options \<Rightarrow> int" where
  "workers_of gomaxprocs opt = (if OWorkers opt > 0 then OWorkers opt else gomaxprocs)"

definition batch_size_of :: "options \<Rightarrow> int" where
  "batch_size_of opt = (if OBatchSize opt > 0 then OBatchSize opt else default_batch_size)"

definition plan_tours :: "options \<Rightarrow> string list" where
  "plan_tours opt = (if OTours opt = [] then [tour_atp, tour_wta] else OTours opt)"

definition plan_seasons :: "registry \<Rightarrow> options \<Rightarrow> int list" where
  "plan_seasons g opt = (if OSeasons opt = [] then all_seasons g else OSeasons opt)"

definition plan :: "registry \<Rightarrow> options \<Rightarrow> job list" where
  "plan g opt = concat (map (\<lambda>t. concat (map (\<lambda>season.
     map (\<lambda>s. \<lparr>JSource = s, JSeason = season\<rparr>) (sources_for g t season)) (plan_seasons g opt))) (plan_tours opt))"

section \<open>The order of the sources\<close>

interpretation source_slice: slice_order source_less
  by unfold_locales (auto simp: source_less_def split: if_splits)

lemma check_sources_names:
  "check_sources seen ss = None \<Longrightarrow> distinct (map SName ss) \<and> set (map SName ss) \<inter> set seen = {}
    \<and> (\<forall>s \<in> set ss. check_source s = None)"
proof (induction ss arbitrary: seen)
  case (Cons s ss)
  then have "check_source s = None" "SName s \<notin> set seen" "check_sources (SName s # seen) ss = None"
    by (auto split: option.splits if_splits)
  then show ?case using Cons.IH [of "SName s # seen"] by auto
qed simp

lemma validate_registryD:
  assumes "validate_registry g = None"
  shows "distinct (map SName (GSources g))" "\<forall>s \<in> set (GSources g). check_source s = None"
proof -
  have "check_sources [] (GSources g) = None" using assms by (auto simp: validate_registry_def split: if_splits option.splits)
  from check_sources_names [OF this] show "distinct (map SName (GSources g))" "\<forall>s \<in> set (GSources g). check_source s = None"
    by simp_all
qed

lemma check_source_tour: "check_source s = None \<Longrightarrow> STour s = tour_atp \<or> STour s = tour_wta"
  by (auto simp: check_source_def split: if_splits)

lemma source_less_total:
  assumes "distinct (map SName ss)" and "a \<in> set ss" and "b \<in> set ss" and "a \<noteq> b"
  shows "source_less a b \<or> source_less b a"
proof -
  have "SName a \<noteq> SName b" using assms by (auto simp: distinct_map dest: inj_onD)
  then show ?thesis by (auto simp: source_less_def)
qed

lemma set_sources_for: "set (sources_for g t y) = {s \<in> set (GSources g). STour s = t \<and> covers s y}"
  by (auto simp: sources_for_def)

lemma sources_for_sorted:
  assumes "distinct (map SName (GSources g))"
  shows "distinct (sources_for g t y)" "sorted_wrt source_less (sources_for g t y)"
proof -
  have d: "distinct (filter (\<lambda>s. STour s = t \<and> covers s y) (GSources g))" using assms by (simp add: distinct_map)
  then show "distinct (sources_for g t y)" by (simp add: sources_for_def)
  show "sorted_wrt source_less (sources_for g t y)"
    unfolding sources_for_def using d by (rule source_slice.sort_slice_strict) (use source_less_total [OF assms] in auto)
qed

lemma sources_for_order:
  assumes "distinct (map SName (GSources g))" and "mset (GSources g') = mset (GSources g)"
  shows "sources_for g' t y = sources_for g t y"
  unfolding sources_for_def
proof (rule source_slice.sort_slice_deterministic)
  show "mset (filter (\<lambda>s. STour s = t \<and> covers s y) (GSources g')) = mset (filter (\<lambda>s. STour s = t \<and> covers s y) (GSources g))"
    unfolding mset_filter assms(2) by (rule refl)
  have "set (GSources g') = set (GSources g)" using assms(2) by (rule mset_eq_setD)
  then show "source_less a b \<or> source_less b a"
    if "a \<in> set (filter (\<lambda>s. STour s = t \<and> covers s y) (GSources g'))" "b \<in> set (filter (\<lambda>s. STour s = t \<and> covers s y) (GSources g'))" "a \<noteq> b" for a b
    using that source_less_total [OF assms(1)] by simp
qed

lemma set_all_seasons: "set (all_seasons g) = {y. \<exists>s \<in> set (GSources g). covers s y}"
  by (auto simp: all_seasons_def covers_def)

lemma all_seasons_sorted: "sorted_wrt (<) (all_seasons g)"
  unfolding all_seasons_def by (rule int_slice.sort_slice_strict) auto

lemma all_seasons_order:
  assumes "mset (GSources g') = mset (GSources g)"
  shows "all_seasons g' = all_seasons g"
  unfolding all_seasons_def
proof (rule int_slice.sort_slice_deterministic)
  have s: "set (GSources g') = set (GSources g)" using assms by (rule mset_eq_setD)
  show "mset (remdups (concat (map (\<lambda>s. [SFirstSeason s..SLastSeason s]) (GSources g')))) =
      mset (remdups (concat (map (\<lambda>s. [SFirstSeason s..SLastSeason s]) (GSources g))))"
    by (rule set_eq_iff_mset_eq_distinct [THEN iffD1, rotated 2]) (simp_all add: s)
qed auto

lemma set_plan:
  "set (plan g opt) = {\<lparr>JSource = s, JSeason = y\<rparr> | s y. s \<in> set (GSources g) \<and> STour s \<in> set (plan_tours opt)
     \<and> y \<in> set (plan_seasons g opt) \<and> covers s y}"
  by (auto simp: plan_def set_sources_for)

lemma itoa_minus: "n < 0 \<Longrightarrow> itoa n = CHR ''-'' # digits_of (nat (- n))"
  by (simp add: itoa_def)

lemma itoa_determines:
  assumes "itoa a = itoa b"
  shows "a = b"
proof -
  have nm: "CHR ''-'' \<notin> set (digits_of n)" for n using digits_of_digits by (fastforce simp: is_digit_def)
  have val: "n = (if hd (itoa n) = CHR ''-'' then - digits_val (tl (itoa n)) else digits_val (itoa n))" for n
  proof (cases "n < 0")
    case True
    then show ?thesis by (simp add: itoa_minus digits_val_digits_of)
  next
    case False
    then have i: "itoa n = digits_of (nat n)" by (simp add: itoa_nonneg)
    have "hd (digits_of (nat n)) \<noteq> CHR ''-''" using nm [of "nat n"] by (metis digits_of_nonempty hd_in_set)
    then show ?thesis using False by (simp add: i digits_val_digits_of)
  qed
  show ?thesis using val [of a] val [of b] unfolding assms by simp
qed

lemma distinct_plan:
  assumes "distinct (map SName (GSources g))" and "distinct (plan_tours opt)" and "distinct (plan_seasons g opt)"
  shows "distinct (plan g opt)"
proof -
  have "distinct (map (\<lambda>s. \<lparr>JSource = s, JSeason = y\<rparr>) (sources_for g t y))" for t y
    using sources_for_sorted(1) [OF assms(1)] by (simp add: distinct_map inj_on_def)
  note one = this
  have inner: "distinct (concat (map (\<lambda>y. map (\<lambda>s. \<lparr>JSource = s, JSeason = y\<rparr>) (sources_for g t y)) (plan_seasons g opt)))" for t
    by (rule distinct_concat_map [OF assms(3) one]) auto
  show ?thesis
    unfolding plan_def by (rule distinct_concat_map [OF assms(2) inner]) (auto simp: set_sources_for)
qed

lemma plan_keys_distinct:
  assumes v: "validate_registry g = None" and opts: "distinct (OTours opt)" "distinct (OSeasons opt)"
  shows "distinct (map job_key (plan g opt))"
proof -
  note d = validate_registryD(1) [OF v]
  have dt: "distinct (plan_tours opt)" using opts(1) by (simp add: plan_tours_def tour_atp_def tour_wta_def)
  have ds: "distinct (plan_seasons g opt)" using opts(2) by (simp add: plan_seasons_def all_seasons_def)
  have "inj_on job_key (set (plan g opt))"
  proof (rule inj_onI)
    fix i j assume m: "i \<in> set (plan g opt)" "j \<in> set (plan g opt)" and k: "job_key i = job_key j"
    have n: "SName (JSource i) = SName (JSource j)" and y: "JSeason i = JSeason j"
      using k itoa_determines by (simp_all add: job_key_def season_key_def)
    have "JSource i = JSource j" using m n d by (auto simp: set_plan distinct_map dest: inj_onD)
    then show "i = j" using y by simp
  qed
  then show ?thesis using distinct_plan [OF d dt ds] by (simp add: distinct_map)
qed

text \<open>
  C39: The plan is the coverage of the registry. For a registry that passes validation and options that name no
  tour or season twice, the pipeline plans exactly one job for every source of a chosen tour and every chosen
  season the source covers, no two jobs share a ledger key, sources of one tour and season come highest precedence
  first and by name within a precedence, and the plan does not depend on the order the file lists the sources in.
\<close>

theorem plan_is_the_coverage:
  assumes v: "validate_registry g = None" and opts: "distinct (OTours opt)" "distinct (OSeasons opt)"
  shows "distinct (map job_key (plan g opt))
    \<and> set (plan g opt) = {\<lparr>JSource = s, JSeason = y\<rparr> | s y. s \<in> set (GSources g) \<and> STour s \<in> set (plan_tours opt)
        \<and> y \<in> set (plan_seasons g opt) \<and> SFirstSeason s \<le> y \<and> y \<le> SLastSeason s}
    \<and> sorted_wrt source_less (sources_for g t y)
    \<and> (\<forall>ss. mset ss = mset (GSources g) \<longrightarrow> plan (g\<lparr>GSources := ss\<rparr>) opt = plan g opt)"
proof (intro conjI allI impI)
  note d = validate_registryD(1) [OF v]
  show "set (plan g opt) = {\<lparr>JSource = s, JSeason = y\<rparr> | s y. s \<in> set (GSources g) \<and> STour s \<in> set (plan_tours opt)
      \<and> y \<in> set (plan_seasons g opt) \<and> SFirstSeason s \<le> y \<and> y \<le> SLastSeason s}"
    unfolding set_plan covers_def by (rule refl)
  show "distinct (map job_key (plan g opt))" by (rule plan_keys_distinct [OF v opts])
  show "sorted_wrt source_less (sources_for g t y)" by (rule sources_for_sorted(2) [OF d])
  fix ss assume m: "mset ss = mset (GSources g)"
  let ?g = "g\<lparr>GSources := ss\<rparr>"
  have "plan_seasons ?g opt = plan_seasons g opt" using all_seasons_order [of ?g g] m by (simp add: plan_seasons_def)
  moreover have "sources_for ?g t y = sources_for g t y" for t y using sources_for_order [OF d, of ?g] m by simp
  ultimately show "plan ?g opt = plan g opt" by (simp add: plan_def)
qed

definition sample_feed :: "string \<Rightarrow> string \<Rightarrow> int \<Rightarrow> source" where
  "sample_feed nm tour prec = \<lparr>SName = nm, STour = tour, STier = ''tour'', SProfile = ''sackmann'', SBaseURL = ''https://x.org/'',
     SPath = ''a/{season}.csv'', SFirstSeason = 2023, SLastSeason = 2024, SThrough = ''2024-01-15'', SPrecedence = prec,
     SAttribution = ''CC'', SQualifying = False\<rparr>"

definition sample_registry :: registry where
  "sample_registry = \<lparr>GSources = [sample_feed ''old'' ''atp'' 1, sample_feed ''new'' ''atp'' 2, sample_feed ''w'' ''wta'' 1],
     GReference = [], GCharting = []\<rparr>"

definition all_files :: options where
  "all_files = \<lparr>OWorkers = 0, OBatchSize = 0, OSeasons = [], OTours = [], OForce = False\<rparr>"

theorem plan_is_the_coverage_witness:
  "distinct (map job_key (plan sample_registry all_files)) \<and> length (plan sample_registry all_files) = 6
    \<and> map (\<lambda>j. (SName (JSource j), JSeason j)) (take 2 (plan sample_registry all_files)) = [(''new'', 2023), (''old'', 2023)]"
proof -
  have v: "validate_registry sample_registry = None" by code_simp
  have opt: "distinct (OTours all_files)" "distinct (OSeasons all_files)" by (simp_all add: all_files_def)
  have "length (plan sample_registry all_files) = 6" by code_simp
  moreover have "map (\<lambda>j. (SName (JSource j), JSeason j)) (take 2 (plan sample_registry all_files)) = [(''new'', 2023), (''old'', 2023)]"
    by code_simp
  ultimately show ?thesis using plan_is_the_coverage [OF v opt] by blast
qed

end
