(* ===== verification/IngestStore.thy ===== *)
theory IngestStore
  imports IngestSource Name Sql
begin

text \<open>
  \<open>internal/ingest/store.go\<close> and \<open>slug.go\<close>: a batch of rows written in one transaction, players and tournaments
  first, then matches, then their participants. A table is an association list from its natural key to the
  row's id and its other columns; ids come from one sequence. A statement fails when a value does not fit its
  column or a check refuses it, and the deferred foreign keys are tested at the commit. Go ranges over the maps
  of players and tournaments in any order: \<open>porder\<close> and \<open>torder\<close> are that order.
\<close>

section \<open>Tables\<close>

type_synonym player_key = "string \<times> string"
type_synonym tourney_key = "string \<times> int \<times> string"
type_synonym match_key = "int \<times> int \<times> bool \<times> int \<times> int"

record player_row =
  PrSlug :: string
  PrName :: string
  PrFirst :: "string option"
  PrLast :: "string option"
  PrCountry :: "string option"
  PrHand :: "string option"
  PrHeight :: "int option"
  PrBirth :: "civil option"
  PrWikidata :: "string option"

record tourney_row =
  ToName :: string
  ToLevel :: string
  ToTier :: string
  ToSurface :: "string option"
  ToDraw :: "int option"
  ToStart :: civil

record stored_match =
  MaRound :: string
  MaBestOf :: int
  MaSurface :: "string option"
  MaScore :: "string option"
  MaMinutes :: "int option"
  MaWinner :: int
  MaLoser :: int
  MaPlayedOn :: civil
  MaTeam :: bool
  MaDetailed :: bool
  MaIndoor :: "bool option"
  MaSource :: string
  MaFigures :: classified

record stored_part =
  PaWon :: bool
  PaSeed :: "int option"
  PaEntry :: "string option"
  PaRank :: "int option"
  PaPoints :: "int option"
  PaAge :: "go_float option"
  PaStats :: "int option list"

record idb =
  i_players :: "(player_key \<times> (int \<times> player_row)) list"
  i_aliases :: "((string \<times> string) \<times> int) list"
  i_tours :: "(tourney_key \<times> (int \<times> tourney_row)) list"
  i_matches :: "(match_key \<times> (int \<times> stored_match)) list"
  i_parts :: "((int \<times> int) \<times> stored_part) list"
  i_seq :: int

definition null_if_empty :: "string \<Rightarrow> string option" where
  "null_if_empty s = (if s = [] then None else Some s)"

definition coalesce :: "'a option \<Rightarrow> 'a option \<Rightarrow> 'a option" where
  "coalesce a b = (case a of None \<Rightarrow> b | Some _ \<Rightarrow> a)"

definition smallint :: "int \<Rightarrow> bool" where
  "smallint n \<longleftrightarrow> - 32768 \<le> n \<and> n \<le> 32767"

definition integer32 :: "int \<Rightarrow> bool" where
  "integer32 n \<longleftrightarrow> - (2 ^ 31) \<le> n \<and> n < 2 ^ 31"

abbreviation fits :: "(int \<Rightarrow> bool) \<Rightarrow> int option \<Rightarrow> bool" where
  "fits p v \<equiv> (case v of None \<Rightarrow> True | Some n \<Rightarrow> p n)"

definition checked :: "bool \<Rightarrow> string \<Rightarrow> 'a \<Rightarrow> sql_error + 'a" where
  "checked ok label x = (if ok then Inr x else Inl (Violates label))"

section \<open>Players\<close>

definition detail :: "side_row \<Rightarrow> nat" where
  "detail p =
     (if MHand p \<noteq> [] then 1 else 0) + (if MHeight p \<noteq> None then 1 else 0)
     + (if MCountry p \<noteq> [] then 1 else 0) + (if MName p \<noteq> [] then 1 else 0)"

definition see_player :: "string \<Rightarrow> side_row \<Rightarrow> (player_key \<times> side_row) list \<Rightarrow> (player_key \<times> side_row) list" where
  "see_player tour p seen =
     (case map_of seen (MSourceID p, tour) of
        None \<Rightarrow> put (MSourceID p, tour) p seen
      | Some prev \<Rightarrow> if detail p > detail prev then put (MSourceID p, tour) p seen else seen)"

definition seen_players :: "string \<Rightarrow> match_row list \<Rightarrow> (player_key \<times> side_row) list" where
  "seen_players tour rows = fold (\<lambda>r seen. see_player tour (MLoser r) (see_player tour (MWinner r) seen)) rows []"

text \<open>The runes of a string, as \<open>range\<close> yields them.\<close>

definition first_rune :: "string \<Rightarrow> rune" where
  "first_rune s =
     (case rune_width s of
        0 \<Rightarrow> 0xFFFD
      | Suc 0 \<Rightarrow> byte (s ! 0)
      | Suc (Suc 0) \<Rightarrow> (byte (s ! 0) mod 32) * 64 + byte (s ! 1) mod 64
      | Suc (Suc (Suc 0)) \<Rightarrow> (byte (s ! 0) mod 16) * 4096 + (byte (s ! 1) mod 64) * 64 + byte (s ! 2) mod 64
      | _ \<Rightarrow> (byte (s ! 0) mod 8) * 262144 + (byte (s ! 1) mod 64) * 4096 + (byte (s ! 2) mod 64) * 64 + byte (s ! 3) mod 64)"

fun runes_of :: "string \<Rightarrow> gotext" where
  "runes_of [] = []"
| "runes_of (c # s) = first_rune (c # s) # runes_of (drop (rune_width (c # s) - 1) s)"

definition disambiguate_slug :: "string \<Rightarrow> string \<Rightarrow> nat \<Rightarrow> string" where
  "disambiguate_slug base tour attempt =
     (if attempt = 0 then base
      else if attempt = 1 then base @ ''-'' @ tour
      else base @ ''-'' @ tour @ ''-'' @ itoa (int attempt - 1))"

definition base_slug :: "(rune \<Rightarrow> bool) \<Rightarrow> side_row \<Rightarrow> string" where
  "base_slug ul p = (let s = slug ul (runes_of (MName p)) in if s = [] then ''player-'' @ MSourceID p else s)"

text \<open>The id a source id resolves to: an alias of a player of the tour first, then the id itself.\<close>

definition player_tour :: "idb \<Rightarrow> int \<Rightarrow> string option" where
  "player_tour db i = map_option (\<lambda>(k, v). snd k) (find (\<lambda>(k, v). fst v = i) (i_players db))"

definition lookup_player :: "idb \<Rightarrow> player_key \<Rightarrow> int option" where
  "lookup_player db k =
     coalesce (map_option snd (find (\<lambda>a. snd (fst a) = fst k \<and> player_tour db (snd a) = Some (snd k)) (i_aliases db)))
       (map_option fst (map_of (i_players db) k))"

definition char3 :: "string \<Rightarrow> string" where
  "char3 s = take 3 s"

definition patch_player :: "side_row \<Rightarrow> player_row \<Rightarrow> player_row" where
  "patch_player p r = r
     \<lparr>PrName := MName p,
      PrFirst := coalesce (null_if_empty (first_name (MName p))) (PrFirst r),
      PrLast := coalesce (null_if_empty (last_name (MName p))) (PrLast r),
      PrCountry := coalesce (map_option char3 (null_if_empty (MCountry p))) (PrCountry r),
      PrHand := coalesce (null_if_empty (MHand p)) (PrHand r),
      PrHeight := coalesce (MHeight p) (PrHeight r),
      PrBirth := coalesce (MBirth p) (PrBirth r),
      PrWikidata := coalesce (null_if_empty (MWikidata p)) (PrWikidata r)\<rparr>"

definition player_fits :: "side_row \<Rightarrow> bool" where
  "player_fits p \<longleftrightarrow> fits smallint (MHeight p) \<and> MHand p \<in> {[], ''R'', ''L'', ''U''}"

definition blank_player :: "string \<Rightarrow> player_row" where
  "blank_player s = \<lparr>PrSlug = s, PrName = [], PrFirst = None, PrLast = None, PrCountry = None, PrHand = None,
     PrHeight = None, PrBirth = None, PrWikidata = None\<rparr>"

definition slugs :: "idb \<Rightarrow> string set" where
  "slugs db = (\<lambda>(k, v). PrSlug (snd v)) ` set (i_players db)"

text \<open>
  One attempt of the insert: \<open>None\<close> is the violation of the unique slug, after which the savepoint is rolled
  back; the sequence has moved on.
\<close>

definition insert_player :: "player_key \<Rightarrow> side_row \<Rightarrow> string \<Rightarrow> idb \<Rightarrow> (int \<times> idb) option" where
  "insert_player k p s db =
     (case map_of (i_players db) k of
        Some (i, r) \<Rightarrow> Some (i, db\<lparr>i_players := put k (i, r\<lparr>PrName := MName p\<rparr>) (i_players db), i_seq := i_seq db + 1\<rparr>)
      | None \<Rightarrow>
          if s \<in> slugs db then None
          else Some (i_seq db, db\<lparr>i_players := i_players db @ [(k, (i_seq db, patch_player p (blank_player s)))],
                 i_seq := i_seq db + 1\<rparr>))"

fun try_slugs :: "player_key \<Rightarrow> side_row \<Rightarrow> string \<Rightarrow> string \<Rightarrow> nat list \<Rightarrow> idb \<Rightarrow> sql_error + (int \<times> idb)" where
  "try_slugs k p base tour [] db = Inl (MissingRow ''could not find a free slug'')"
| "try_slugs k p base tour (a # attempts) db =
     (case insert_player k p (disambiguate_slug base tour a) db of
        Some r \<Rightarrow> Inr r
      | None \<Rightarrow> try_slugs k p base tour attempts (db\<lparr>i_seq := i_seq db + 1\<rparr>))"

definition upsert_player :: "(rune \<Rightarrow> bool) \<Rightarrow> string \<Rightarrow> side_row \<Rightarrow> idb \<Rightarrow> sql_error + (int \<times> idb)" where
  "upsert_player ul tour p db =
     (if \<not> player_fits p then Inl (Violates ''players'')
      else case lookup_player db (MSourceID p, tour) of
        Some i \<Rightarrow> Inr (i, db\<lparr>i_players := map (\<lambda>(k, j, r). (k, j, if j = i then patch_player p r else r)) (i_players db)\<rparr>)
      | None \<Rightarrow> try_slugs (MSourceID p, tour) p (base_slug ul p) tour [0..<50] db)"

fun upsert_players :: "(rune \<Rightarrow> bool) \<Rightarrow> string \<Rightarrow> (player_key \<times> side_row) list \<Rightarrow> (player_key \<times> int) list \<times> idb
    \<Rightarrow> sql_error + ((player_key \<times> int) list \<times> idb)" where
  "upsert_players ul tour [] s = Inr s"
| "upsert_players ul tour ((k, p) # seen) (ids, db) =
     and_then (upsert_player ul tour p db) (\<lambda>(i, db). upsert_players ul tour seen (put k i ids, db))"

section \<open>Tournaments\<close>

definition tourney_key :: "string \<Rightarrow> match_row \<Rightarrow> tourney_key" where
  "tourney_key tour r = (TourneyID r, row_season r, tour)"

definition seen_tourneys :: "string \<Rightarrow> match_row list \<Rightarrow> (tourney_key \<times> match_row) list" where
  "seen_tourneys tour rows =
     fold (\<lambda>r seen. if map_of seen (tourney_key tour r) = None then put (tourney_key tour r) r seen else seen) rows []"

definition tourney_fits :: "source \<Rightarrow> match_row \<Rightarrow> bool" where
  "tourney_fits so r \<longleftrightarrow> fits smallint (DrawSize r) \<and> smallint (row_season r)
     \<and> tier r (STier so) \<in> {''tour'', ''challenger'', ''futures'', ''itf''}"

definition merge_tourney :: "source \<Rightarrow> match_row \<Rightarrow> tourney_row option \<Rightarrow> tourney_row" where
  "merge_tourney so r old =
     \<lparr>ToName = TourneyName r, ToLevel = MLevel r, ToTier = tier r (STier so),
      ToSurface = coalesce (null_if_empty (MSurface r)) (Option.bind old ToSurface),
      ToDraw = coalesce (DrawSize r) (Option.bind old ToDraw), ToStart = TourneyDate r\<rparr>"

text \<open>\<open>INSERT ... ON CONFLICT (key) DO UPDATE ... RETURNING id\<close>.\<close>

definition upsert_id :: "'k \<Rightarrow> ('r option \<Rightarrow> 'r) \<Rightarrow> int \<Rightarrow> ('k \<times> (int \<times> 'r)) list \<Rightarrow> int \<times> ('k \<times> (int \<times> 'r)) list" where
  "upsert_id k merge new_id t =
     (case map_of t k of
        None \<Rightarrow> (new_id, put k (new_id, merge None) t)
      | Some (i, r) \<Rightarrow> (i, put k (i, merge (Some r)) t))"

definition upsert_tourney :: "source \<Rightarrow> tourney_key \<Rightarrow> match_row \<Rightarrow> idb \<Rightarrow> sql_error + (int \<times> idb)" where
  "upsert_tourney so k r db =
     (case upsert_id k (merge_tourney so r) (i_seq db) (i_tours db) of
        (i, t) \<Rightarrow> checked (tourney_fits so r) ''tournaments'' (i, db\<lparr>i_tours := t, i_seq := i_seq db + 1\<rparr>))"

fun upsert_tourneys :: "source \<Rightarrow> (tourney_key \<times> match_row) list \<Rightarrow> (tourney_key \<times> int) list \<times> idb
    \<Rightarrow> sql_error + ((tourney_key \<times> int) list \<times> idb)" where
  "upsert_tourneys so [] s = Inr s"
| "upsert_tourneys so ((k, r) # seen) (ids, db) =
     and_then (upsert_tourney so k r db) (\<lambda>(i, db). upsert_tourneys so seen (put k i ids, db))"

section \<open>Matches\<close>

definition new_match_key :: "int \<Rightarrow> int \<Rightarrow> bool \<Rightarrow> int \<Rightarrow> int \<Rightarrow> match_key" where
  "new_match_key t num qualifying a b = (if a > b then (t, num, qualifying, b, a) else (t, num, qualifying, a, b))"

text \<open>The ids of the tournament, the winner and the loser of a row.\<close>

definition row_ids :: "source \<Rightarrow> (player_key \<times> int) list \<Rightarrow> (tourney_key \<times> int) list \<Rightarrow> match_row \<Rightarrow> sql_error + (int \<times> int \<times> int)" where
  "row_ids so players tourneys r =
     (case map_of tourneys (tourney_key (STour so) r) of None \<Rightarrow> Inl (MissingRow ''tournament not written'')
      | Some t \<Rightarrow> (case map_of players (MSourceID (MWinner r), STour so) of None \<Rightarrow> Inl (MissingRow ''winner not written'')
      | Some w \<Rightarrow> (case map_of players (MSourceID (MLoser r), STour so) of None \<Rightarrow> Inl (MissingRow ''loser not written'')
      | Some l \<Rightarrow> Inr (t, w, l))))"

definition match_fits :: "match_row \<Rightarrow> bool" where
  "match_fits r \<longleftrightarrow> smallint (MatchNum r) \<and> smallint (BestOf r) \<and> fits smallint (Minutes r)"

definition merge_match :: "source \<Rightarrow> match_row \<Rightarrow> int \<Rightarrow> int \<Rightarrow> stored_match option \<Rightarrow> stored_match" where
  "merge_match so r w l old =
     \<lparr>MaRound = MRound r, MaBestOf = BestOf r,
      MaSurface = coalesce (null_if_empty (MSurface r)) (Option.bind old MaSurface),
      MaScore = coalesce (null_if_empty (MScore r)) (Option.bind old MaScore),
      MaMinutes = coalesce (Minutes r) (Option.bind old MaMinutes),
      MaWinner = w, MaLoser = l, MaPlayedOn = TourneyDate r,
      MaTeam = is_team_event (MLevel r), MaDetailed = has_detailed_stats r,
      MaIndoor = coalesce (Indoor r) (Option.bind old MaIndoor),
      MaSource = SName so, MaFigures = classify_score (MScore r) (BestOf r)\<rparr>"

fun upsert_matches :: "source \<Rightarrow> (player_key \<times> int) list \<Rightarrow> (tourney_key \<times> int) list \<Rightarrow> match_row list
    \<Rightarrow> (match_key \<times> int) list \<times> nat \<times> idb \<Rightarrow> sql_error + ((match_key \<times> int) list \<times> nat \<times> idb)" where
  "upsert_matches so players tourneys [] s = Inr s"
| "upsert_matches so players tourneys (r # rows) (ids, collapsed, db) =
     and_then (row_ids so players tourneys r) (\<lambda>(t, w, l).
       let k = new_match_key t (MatchNum r) (is_qualifying r) w l;
           (i, tab) = upsert_id k (merge_match so r w l) (i_seq db) (i_matches db)
       in and_then (checked (match_fits r) ''matches'' (db\<lparr>i_matches := tab, i_seq := i_seq db + 1\<rparr>)) (\<lambda>db.
            upsert_matches so players tourneys rows
              (put k i ids, (if map_of ids k \<noteq> None then collapsed + 1 else collapsed), db)))"

section \<open>Participants\<close>

definition stat_list :: "serve_stats \<Rightarrow> int list" where
  "stat_list s = [Aces s, DoubleFaults s, ServePoints s, FirstIn s, FirstWon s, SecondWon s, ServeGames s, BPSaved s, BPFaced s]"

text \<open>Every statistic is null when none was recorded.\<close>

definition nullable_stats :: "serve_stats option \<Rightarrow> int option list" where
  "nullable_stats st = (case st of None \<Rightarrow> replicate 9 None | Some s \<Rightarrow> map Some (stat_list s))"

definition part_of :: "bool \<Rightarrow> side_row \<Rightarrow> stored_part" where
  "part_of won p =
     \<lparr>PaWon = won, PaSeed = MSeed p, PaEntry = null_if_empty (MEntry p), PaRank = MRank p, PaPoints = MRankPoints p,
      PaAge = MAge p, PaStats = nullable_stats (MStats p)\<rparr>"

text \<open>The columns' widths and the check \<open>match_players_stats_consistent\<close>.\<close>

definition part_fits :: "side_row \<Rightarrow> bool" where
  "part_fits p \<longleftrightarrow> fits smallint (MSeed p) \<and> fits integer32 (MRank p) \<and> fits integer32 (MRankPoints p)
     \<and> (case MStats p of None \<Rightarrow> True
        | Some s \<Rightarrow> list_all smallint (stat_list s) \<and> FirstIn s \<le> ServePoints s \<and> FirstWon s \<le> FirstIn s)"

definition queue_match_player :: "int \<Rightarrow> int \<Rightarrow> bool \<Rightarrow> side_row \<Rightarrow> idb \<Rightarrow> sql_error + idb" where
  "queue_match_player m i won p db =
     checked (part_fits p) ''match_players'' (db\<lparr>i_parts := put (m, i) (part_of won p) (i_parts db)\<rparr>)"

fun upsert_parts :: "source \<Rightarrow> (player_key \<times> int) list \<Rightarrow> (tourney_key \<times> int) list \<Rightarrow> (match_key \<times> int) list \<Rightarrow> match_row list \<Rightarrow> idb
    \<Rightarrow> sql_error + idb" where
  "upsert_parts so players tourneys matches [] db = Inr db"
| "upsert_parts so players tourneys matches (r # rows) db =
     and_then (row_ids so players tourneys r) (\<lambda>(t, w, l).
       case map_of matches (new_match_key t (MatchNum r) (is_qualifying r) w l) of
         None \<Rightarrow> Inl (MissingRow ''match not written'')
       | Some m \<Rightarrow>
           and_then (queue_match_player m w True (MWinner r) db) (\<lambda>db.
           and_then (queue_match_player m l False (MLoser r) db) (\<lambda>db.
             upsert_parts so players tourneys matches rows db)))"

section \<open>The transaction\<close>

definition played_both :: "idb \<Rightarrow> bool" where
  "played_both db \<longleftrightarrow>
     list_all (\<lambda>(k, i, m). (i, MaWinner m) \<in> keys (i_parts db) \<and> (i, MaLoser m) \<in> keys (i_parts db)) (i_matches db)"

definition commit_batch :: "'a \<Rightarrow> idb \<Rightarrow> sql_error + ('a \<times> idb)" where
  "commit_batch x db = checked (played_both db) ''matches_winner_played'' (x, db)"

record batch_result =
  RMatches :: nat
  RPlayers :: nat
  RCollapsed :: nat

definition write_batch :: "(rune \<Rightarrow> bool)
    \<Rightarrow> ((player_key \<times> side_row) list \<Rightarrow> (player_key \<times> side_row) list)
    \<Rightarrow> ((tourney_key \<times> match_row) list \<Rightarrow> (tourney_key \<times> match_row) list)
    \<Rightarrow> source \<Rightarrow> match_row list \<Rightarrow> idb \<Rightarrow> sql_error + (batch_result \<times> idb)" where
  "write_batch ul porder torder so rows db =
     (if rows = [] then Inr (\<lparr>RMatches = 0, RPlayers = 0, RCollapsed = 0\<rparr>, db)
      else
        and_then (upsert_players ul (STour so) (porder (seen_players (STour so) rows)) ([], db)) (\<lambda>(players, db).
        and_then (upsert_tourneys so (torder (seen_tourneys (STour so) rows)) ([], db)) (\<lambda>(tourneys, db).
        and_then (upsert_matches so players tourneys rows ([], 0, db)) (\<lambda>(matches, collapsed, db).
        and_then (upsert_parts so players tourneys matches rows db) (\<lambda>db.
          commit_batch \<lparr>RMatches = length matches, RPlayers = length players, RCollapsed = collapsed\<rparr> db)))))"

end
