(* ===== verification/IngestStoreFacts.thy ===== *)
theory IngestStoreFacts
  imports IngestStore
begin

text \<open>
  What a batch leaves in the database: every row once, complete, with both participants, and the same tables
  again when the same batch is written a second time.
\<close>

section \<open>Overlays\<close>

text \<open>
  An upsert lays the new columns over the old ones: a column is either overwritten or kept where the new value
  is null. Laying twice is laying once, whatever was laid between.
\<close>

locale overlay =
  fixes merge :: "'x \<Rightarrow> 'r option \<Rightarrow> 'r" and over :: "'r \<Rightarrow> 'r \<Rightarrow> 'r"
  assumes merge_some: "merge x (Some r) = over (merge x None) r"
    and over_assoc: "over (over a b) c = over a (over b c)"
    and over_idem: "over a a = a"
begin

lemma merge_twice: "merge x (Some (merge x old)) = merge x old"
proof (cases old)
  case None
  then show ?thesis using merge_some [of x "merge x None"] by (simp add: over_idem)
next
  case (Some r)
  then show ?thesis
    using merge_some [of x r] merge_some [of x "merge x (Some r)"] by (simp add: over_assoc [symmetric] over_idem)
qed

lemma fold_some:
  "fold (\<lambda>x old. Some (merge x old)) xs (Some r) =
    Some (case fold (\<lambda>x old. Some (merge x old)) xs None of None \<Rightarrow> r | Some a \<Rightarrow> over a r)"
proof (induction xs arbitrary: r)
  case (Cons x xs)
  have 1: "fold (\<lambda>x old. Some (merge x old)) (x # xs) (Some r) =
      fold (\<lambda>x old. Some (merge x old)) xs (Some (over (merge x None) r))"
    by (simp add: merge_some)
  have 2: "fold (\<lambda>x old. Some (merge x old)) (x # xs) None = fold (\<lambda>x old. Some (merge x old)) xs (Some (merge x None))"
    by simp
  show ?case
    unfolding 1 2 Cons.IH [of "over (merge x None) r"] Cons.IH [of "merge x None"]
    by (simp add: over_assoc split: option.split)
qed simp

lemma fold_twice:
  "fold (\<lambda>x old. Some (merge x old)) xs (fold (\<lambda>x old. Some (merge x old)) xs old) =
    fold (\<lambda>x old. Some (merge x old)) xs old"
proof (cases old)
  case None
  show ?thesis
  proof (cases "fold (\<lambda>x old. Some (merge x old)) xs None")
    case n: None
    then show ?thesis using None by simp
  next
    case (Some a)
    then show ?thesis using fold_some [of xs a] None by (simp add: over_idem)
  qed
next
  case (Some r)
  then show ?thesis
    using fold_some [of xs r] fold_some [of xs "case fold (\<lambda>x old. Some (merge x old)) xs None of None \<Rightarrow> r | Some a \<Rightarrow> over a r"]
    by (simp add: over_assoc [symmetric] over_idem split: option.splits)
qed

end

lemma coalesce_simps [simp]: "coalesce None b = b" "coalesce (Some x) b = Some x" "coalesce b None = b"
  by (auto simp: coalesce_def split: option.split)

lemma coalesce_assoc: "coalesce (coalesce a b) c = coalesce a (coalesce b c)"
  by (cases a) auto

lemma coalesce_idem: "coalesce a a = a"
  by (cases a) auto

definition over_tourney :: "tourney_row \<Rightarrow> tourney_row \<Rightarrow> tourney_row" where
  "over_tourney a b = a\<lparr>ToSurface := coalesce (ToSurface a) (ToSurface b), ToDraw := coalesce (ToDraw a) (ToDraw b)\<rparr>"

definition over_match :: "stored_match \<Rightarrow> stored_match \<Rightarrow> stored_match" where
  "over_match a b = a\<lparr>MaSurface := coalesce (MaSurface a) (MaSurface b), MaScore := coalesce (MaScore a) (MaScore b),
     MaMinutes := coalesce (MaMinutes a) (MaMinutes b), MaIndoor := coalesce (MaIndoor a) (MaIndoor b)\<rparr>"

interpretation tourney: overlay "merge_tourney so" over_tourney for so
  by unfold_locales (auto simp: merge_tourney_def over_tourney_def coalesce_assoc coalesce_idem)

interpretation stored: overlay "\<lambda>x. merge_match so (fst x) (fst (snd x)) (snd (snd x))" over_match for so
  by unfold_locales (auto simp: merge_match_def over_match_def coalesce_assoc coalesce_idem)

lemma coalesce_twice: "coalesce a (coalesce a b) = coalesce a b"
  by (cases a) auto

lemma patch_twice: "patch_player p (patch_player p r) = patch_player p r"
  by (simp add: patch_player_def coalesce_twice)

section \<open>Association lists\<close>

lemma length_put: "length (put k v t) = (if map_of t k = None then Suc (length t) else length t)"
  by (induction t) auto

lemma put_map_fst: "map fst (put k v t) = (if map_of t k = None then map fst t @ [k] else map fst t)"
  by (induction t) auto

lemma put_same: "map_of t k = Some v \<Longrightarrow> put k v t = t"
  by (induction t) (auto split: if_splits)

lemma filter_key:
  "distinct (map fst xs) \<Longrightarrow> filter (\<lambda>y. fst y = k) xs = (case map_of xs k of None \<Rightarrow> [] | Some x \<Rightarrow> [(k, x)])"
proof (induction xs)
  case (Cons y xs)
  show ?case
  proof (cases "fst y = k")
    case True
    then have "k \<notin> fst ` set xs" using Cons.prems by simp
    then have "\<forall>z \<in> set xs. fst z \<noteq> k" by (metis imageI)
    then have "filter (\<lambda>y. fst y = k) xs = []" by (simp add: filter_empty_conv)
    then show ?thesis using True by (cases y) simp
  next
    case False
    then show ?thesis using Cons by (cases y) simp
  qed
qed simp

lemma alist_eq:
  assumes "map fst t = map fst u" and "distinct (map fst t)" and "map_of t = map_of u"
  shows "t = u"
proof -
  have "snd (t ! i) = snd (u ! i) \<and> fst (t ! i) = fst (u ! i)" if i: "i < length t" for i
  proof -
    have l: "length u = length t" using assms(1) by (metis length_map)
    have f: "fst (t ! i) = fst (u ! i)" using assms(1) i l by (metis nth_map)
    have "map_of t (fst (t ! i)) = Some (snd (t ! i))" using assms(2) i by simp
    moreover have "map_of u (fst (u ! i)) = Some (snd (u ! i))" using assms(1,2) i l by simp
    ultimately show ?thesis using assms(3) f by simp
  qed
  moreover have "length t = length u" using assms(1) by (metis length_map)
  ultimately show ?thesis by (simp add: list_eq_iff_nth_eq prod_eq_iff)
qed

section \<open>Players\<close>

definition player_ids :: "idb \<Rightarrow> int set" where
  "player_ids db = (\<lambda>e. fst (snd e)) ` set (i_players db)"

definition idb_ok :: "idb \<Rightarrow> bool" where
  "idb_ok db \<longleftrightarrow>
     distinct (map fst (i_players db)) \<and> distinct (map (\<lambda>e. fst (snd e)) (i_players db))
     \<and> (\<forall>i \<in> player_ids db. i < i_seq db) \<and> (\<forall>a \<in> set (i_aliases db). snd a \<in> player_ids db)
     \<and> distinct (map fst (i_tours db))
     \<and> distinct (map fst (i_matches db)) \<and> distinct (map (\<lambda>e. fst (snd e)) (i_matches db))
     \<and> (\<forall>e \<in> set (i_matches db). fst (snd e) < i_seq db)
     \<and> distinct (map fst (i_parts db))"

lemma find_cong_set: "(\<And>x. x \<in> set xs \<Longrightarrow> P x = Q x) \<Longrightarrow> find P xs = find Q xs"
  by (induction xs) auto

lemma find_left: "\<exists>x \<in> set xs. P x \<Longrightarrow> find P (xs @ ys) = find P xs"
  by (induction xs) auto

lemma find_in_set: "find P xs = Some x \<Longrightarrow> x \<in> set xs"
  by (auto simp: find_Some_iff)

lemma player_tour_append:
  assumes "i \<in> player_ids db"
  shows "player_tour (db\<lparr>i_players := i_players db @ xs, i_seq := n\<rparr>) i = player_tour db i"
proof -
  obtain e where "e \<in> set (i_players db)" "fst (snd e) = i" using assms by (auto simp: player_ids_def)
  then have "\<exists>x \<in> set (i_players db). (case x of (k, v) \<Rightarrow> fst v = i)"
    by (intro bexI [of _ e]) (simp_all add: case_prod_beta)
  from find_left [OF this] show ?thesis by (simp add: player_tour_def)
qed

lemma player_tour_update:
  "player_tour (db\<lparr>i_players := map (\<lambda>(k, j, r). (k, j, f j r)) (i_players db)\<rparr>) i = player_tour db i"
proof -
  have "map_option (\<lambda>(k, v). snd k) (find (\<lambda>(k, v). fst v = i) (map (\<lambda>(k, j, r). (k, j, f j r)) as)) =
      map_option (\<lambda>(k, v). snd k) (find (\<lambda>(k, v). fst v = i) as)" for as :: "(player_key \<times> int \<times> player_row) list"
    by (induction as) auto
  then show ?thesis by (simp add: player_tour_def)
qed

lemma map_of_update_id:
  "map_option fst (map_of (map (\<lambda>(k, j, r). (k, j, f j r)) t) k) = map_option fst (map_of t k)"
  by (induction t) auto

lemma lookup_update:
  "lookup_player (db\<lparr>i_players := map (\<lambda>(k, j, r). (k, j, f j r)) (i_players db)\<rparr>) k = lookup_player db k"
  unfolding lookup_player_def by (simp add: player_tour_update map_of_update_id)

lemma lookup_append:
  assumes "idb_ok db" and "lookup_player db k' = Some i"
  shows "lookup_player (db\<lparr>i_players := i_players db @ [(k, v)], i_seq := n\<rparr>) k' = Some i"
proof -
  let ?db = "db\<lparr>i_players := i_players db @ [(k, v)], i_seq := n\<rparr>"
  have "find (\<lambda>a. snd (fst a) = fst k' \<and> player_tour ?db (snd a) = Some (snd k')) (i_aliases db) =
      find (\<lambda>a. snd (fst a) = fst k' \<and> player_tour db (snd a) = Some (snd k')) (i_aliases db)"
    by (rule find_cong_set) (use assms(1) in \<open>auto simp: idb_ok_def player_tour_append\<close>)
  then show ?thesis
    using assms(2) unfolding lookup_player_def by (auto simp: coalesce_def map_add_def split: option.splits)
qed

lemma lookup_new:
  assumes "idb_ok db" and "lookup_player db k = None"
  shows "lookup_player (db\<lparr>i_players := i_players db @ [(k, v)], i_seq := n\<rparr>) k = Some (fst v)"
proof -
  let ?db = "db\<lparr>i_players := i_players db @ [(k, v)], i_seq := n\<rparr>"
  have "find (\<lambda>a. snd (fst a) = fst k \<and> player_tour ?db (snd a) = Some (snd k)) (i_aliases db) =
      find (\<lambda>a. snd (fst a) = fst k \<and> player_tour db (snd a) = Some (snd k)) (i_aliases db)"
    by (rule find_cong_set) (use assms(1) in \<open>auto simp: idb_ok_def player_tour_append\<close>)
  then show ?thesis
    using assms(2) unfolding lookup_player_def
    by (cases v) (auto simp: coalesce_def map_add_def split: option.splits)
qed

lemma try_slugs_result:
  assumes "try_slugs k p base tour attempts db = Inr (i, db')" and "map_of (i_players db) k = None"
  shows "\<exists>s. s \<notin> slugs db \<and> i_seq db \<le> i
    \<and> db' = db\<lparr>i_players := i_players db @ [(k, (i, patch_player p (blank_player s)))], i_seq := i + 1\<rparr>"
  using assms
proof (induction attempts arbitrary: db)
  case (Cons a attempts)
  show ?case
  proof (cases "disambiguate_slug base tour a \<in> slugs db")
    case True
    then have "try_slugs k p base tour attempts (db\<lparr>i_seq := i_seq db + 1\<rparr>) = Inr (i, db')"
      using Cons.prems by (simp add: insert_player_def)
    from Cons.IH [OF this] Cons.prems(2) obtain s where "s \<notin> slugs db" "i_seq db + 1 \<le> i"
      "db' = db\<lparr>i_players := i_players db @ [(k, (i, patch_player p (blank_player s)))], i_seq := i + 1\<rparr>"
      by (auto simp: slugs_def)
    then show ?thesis by (intro exI [of _ s]) simp
  next
    case False
    then show ?thesis using Cons.prems by (auto simp: insert_player_def)
  qed
qed simp

text \<open>What one player's upsert does: the row of its id is patched, and nothing else changes but for a new row.\<close>

definition players_only :: "idb \<Rightarrow> idb \<Rightarrow> bool" where
  "players_only db db' \<longleftrightarrow> i_aliases db' = i_aliases db \<and> i_tours db' = i_tours db \<and> i_matches db' = i_matches db
     \<and> i_parts db' = i_parts db \<and> i_seq db \<le> i_seq db'"

lemma upsert_player_facts:
  assumes "upsert_player ul tour p db = Inr (i, db')" and "idb_ok db"
  shows "idb_ok db' \<and> players_only db db' \<and> player_fits p \<and> lookup_player db' (MSourceID p, tour) = Some i
    \<and> (\<forall>k j. lookup_player db k = Some j \<longrightarrow> lookup_player db' k = Some j)
    \<and> (\<forall>e \<in> set (i_players db'). if fst (snd e) = i then \<exists>r. snd (snd e) = patch_player p r else e \<in> set (i_players db))"
proof (cases "lookup_player db (MSourceID p, tour)")
  case (Some j)
  let ?f = "\<lambda>j' r. if j' = i then patch_player p r else r"
  have i: "i = j" and db': "db' = db\<lparr>i_players := map (\<lambda>(k, j, r). (k, j, ?f j r)) (i_players db)\<rparr>" and fit: "player_fits p"
    using assms(1) Some by (auto simp: upsert_player_def split: if_splits)
  have m: "map fst (map (\<lambda>(k, j, r). (k, j, ?f j r)) t) = map fst t"
      "map (\<lambda>e. fst (snd e)) (map (\<lambda>(k, j, r). (k, j, ?f j r)) t) = map (\<lambda>e. fst (snd e)) t" for t :: "(player_key \<times> int \<times> player_row) list"
    by (induction t) auto
  have ids: "player_ids db' = player_ids db"
    using arg_cong [OF m(2) [of "i_players db"], of set] unfolding player_ids_def set_map by (simp add: db')
  have "idb_ok db'"
    using assms(2) unfolding idb_ok_def ids by (simp add: db' m [simplified list.map_comp])
  moreover have "\<forall>e \<in> set (i_players db'). if fst (snd e) = i then \<exists>r. snd (snd e) = patch_player p r else e \<in> set (i_players db)"
    unfolding db' by auto
  ultimately show ?thesis
    using Some i fit unfolding players_only_def by (simp add: db' lookup_update)
next
  case None
  then have k: "map_of (i_players db) (MSourceID p, tour) = None"
    unfolding lookup_player_def by (auto simp: coalesce_def split: option.splits)
  have fit: "player_fits p" and t: "try_slugs (MSourceID p, tour) p (base_slug ul p) tour [0..<50] db = Inr (i, db')"
    using assms(1) None by (auto simp: upsert_player_def split: if_splits)
  from try_slugs_result [OF t k] obtain s where s: "s \<notin> slugs db" "i_seq db \<le> i"
    and db': "db' = db\<lparr>i_players := i_players db @ [((MSourceID p, tour), (i, patch_player p (blank_player s)))], i_seq := i + 1\<rparr>"
    by blast
  have new: "(MSourceID p, tour) \<notin> fst ` set (i_players db)" using k by (simp add: map_of_eq_None_iff)
  have low: "\<forall>j \<in> player_ids db. j < i" using assms(2) s(2) by (auto simp: idb_ok_def)
  have ids: "player_ids db' = insert i (player_ids db)" by (auto simp: player_ids_def db')
  have fresh: "i \<notin> (\<lambda>e. fst (snd e)) ` set (i_players db)" using low unfolding player_ids_def by auto
  have "idb_ok db'"
    using assms(2) new fresh low s(2) unfolding idb_ok_def ids by (auto simp: db')
  moreover have "\<forall>e \<in> set (i_players db'). if fst (snd e) = i then \<exists>r. snd (snd e) = patch_player p r else e \<in> set (i_players db)"
    using fresh unfolding db' by auto
  moreover have "lookup_player db' (MSourceID p, tour) = Some i"
    using lookup_new [OF assms(2) None] unfolding db' by simp
  moreover have "\<forall>k j. lookup_player db k = Some j \<longrightarrow> lookup_player db' k = Some j"
    using lookup_append [OF assms(2)] unfolding db' by blast
  ultimately show ?thesis using fit s(2) unfolding players_only_def by (simp add: db')
qed

lemma players_only_trans: "players_only a b \<Longrightarrow> players_only b c \<Longrightarrow> players_only a c"
  by (auto simp: players_only_def)

text \<open>Every player of the list has a row that its record was laid over, under the id it resolves to.\<close>

definition laid :: "idb \<Rightarrow> (player_key \<times> side_row) list \<Rightarrow> bool" where
  "laid db seen \<longleftrightarrow>
     (\<forall>(k, p) \<in> set seen. \<forall>e \<in> set (i_players db). lookup_player db k = Some (fst (snd e)) \<longrightarrow> patch_player p (snd (snd e)) = snd (snd e))"

lemma upsert_players_facts:
  assumes "upsert_players ul tour seen (pids, db) = Inr (pids', db')" and "idb_ok db" and "distinct (map fst seen)"
    and "\<forall>(k, p) \<in> set seen. k = (MSourceID p, tour)"
  shows "idb_ok db' \<and> players_only db db' \<and> (\<forall>(k, p) \<in> set seen. player_fits p)
    \<and> (\<forall>k j. lookup_player db k = Some j \<longrightarrow> lookup_player db' k = Some j)
    \<and> (\<forall>k. if k \<in> keys seen then map_of pids' k = lookup_player db' k \<and> map_of pids' k \<noteq> None else map_of pids' k = map_of pids k)
    \<and> (inj_on (lookup_player db') (keys seen) \<longrightarrow>
        laid db' seen \<and> (\<forall>e \<in> set (i_players db'). e \<notin> set (i_players db) \<longrightarrow> Some (fst (snd e)) \<in> lookup_player db' ` keys seen))
    \<and> length pids' = length pids + card (keys seen - keys pids)"
  using assms
proof (induction seen arbitrary: pids db)
  case Nil
  then show ?case by (auto simp: players_only_def laid_def)
next
  case (Cons x seen)
  obtain k p where x: "x = (k, p)" by (cases x)
  have k: "k = (MSourceID p, tour)" and new: "k \<notin> keys seen" and d: "distinct (map fst seen)"
    using Cons.prems(3,4) x by auto
  obtain i db1 where u: "upsert_player ul tour p db = Inr (i, db1)"
    and rest: "upsert_players ul tour seen (put k i pids, db1) = Inr (pids', db')"
    using Cons.prems(1) x by (auto simp: and_then_Inr)
  note h = upsert_player_facts [OF u Cons.prems(2)]
  then have ok1: "idb_ok db1"
    and rows: "\<forall>e \<in> set (i_players db1). if fst (snd e) = i then \<exists>r. snd (snd e) = patch_player p r else e \<in> set (i_players db)"
    by blast+
  have ks: "\<forall>(k, p) \<in> set seen. k = (MSourceID p, tour)" using Cons.prems(4) by auto
  note t = Cons.IH [OF rest ok1 d ks]
  have keep: "lookup_player db k' = Some j \<Longrightarrow> lookup_player db' k' = Some j" for k' j
    using h t by blast
  have li: "lookup_player db' k = Some i" using h t k by blast
  have mk: "map_of pids' k = Some i" using t new by (auto simp: k split: if_splits)
  have maps: "if k' \<in> keys (x # seen) then map_of pids' k' = lookup_player db' k' \<and> map_of pids' k' \<noteq> None
      else map_of pids' k' = map_of pids k'" for k'
  proof (cases "k' = k")
    case True
    then show ?thesis using li mk x by simp
  next
    case False
    then show ?thesis using t [THEN conjunct2, THEN conjunct2, THEN conjunct2, THEN conjunct2, THEN conjunct1, rule_format, of k'] x
      by (auto split: if_splits)
  qed
  have inj: "laid db' (x # seen) \<and> (\<forall>e \<in> set (i_players db'). e \<notin> set (i_players db) \<longrightarrow> Some (fst (snd e)) \<in> lookup_player db' ` keys (x # seen))"
    if inj: "inj_on (lookup_player db') (keys (x # seen))"
  proof -
    have l: "laid db' seen" and n: "\<forall>e \<in> set (i_players db'). e \<notin> set (i_players db1) \<longrightarrow> Some (fst (snd e)) \<in> lookup_player db' ` keys seen"
      using t inj by (auto simp: x inj_on_insert)
    have apart: "Some i \<notin> lookup_player db' ` keys seen"
      using inj new li by (force simp: x inj_on_def)
    have own: "patch_player p (snd (snd e)) = snd (snd e)" if e: "e \<in> set (i_players db')" "fst (snd e) = i" for e
    proof -
      have "e \<in> set (i_players db1)" using n e apart by metis
      from bspec [OF rows this] have "\<exists>r. snd (snd e) = patch_player p r" unfolding e(2) by simp
      then show ?thesis using patch_twice by metis
    qed
    have "laid db' (x # seen)" using l own li by (auto simp: laid_def x)
    moreover have "Some (fst (snd e)) \<in> lookup_player db' ` keys (x # seen)" if e: "e \<in> set (i_players db')" "e \<notin> set (i_players db)" for e
    proof (cases "e \<in> set (i_players db1)")
      case True
      then have "fst (snd e) = i" using h e(2) by metis
      then show ?thesis using li x by force
    next
      case False
      then show ?thesis using n e(1) by (auto simp: x)
    qed
    ultimately show ?thesis by blast
  qed
  have len: "length pids' = length pids + card (keys (x # seen) - keys pids)"
  proof -
    have "length pids' = length (put k i pids) + card (keys seen - insert k (keys pids))" using t by simp
    also have "\<dots> = length pids + card (keys (x # seen) - keys pids)"
    proof (cases "map_of pids k")
      case None
      then have "k \<notin> keys pids" by (simp add: map_of_eq_None_iff)
      then have "keys (x # seen) - keys pids = insert k (keys seen - insert k (keys pids))" by (auto simp: x)
      then have "card (keys (x # seen) - keys pids) = Suc (card (keys seen - insert k (keys pids)))" by simp
      then show ?thesis using None by (simp add: length_put)
    next
      case (Some j)
      then have "k \<in> keys pids" by (metis map_of_eq_None_iff option.distinct(1))
      then have "keys (x # seen) - keys pids = keys seen - insert k (keys pids)" by (auto simp: x)
      then show ?thesis using Some by (simp add: length_put)
    qed
    finally show ?thesis .
  qed
  have "idb_ok db'" "players_only db db'" using h t players_only_trans [of db db1 db'] by blast+
  moreover have "\<forall>(k, p) \<in> set (x # seen). player_fits p"
    using h t [THEN conjunct2, THEN conjunct2, THEN conjunct1] x by simp
  moreover have "\<forall>k j. lookup_player db k = Some j \<longrightarrow> lookup_player db' k = Some j" using keep by blast
  ultimately show ?case
    using allI [of "\<lambda>k'. if k' \<in> keys (x # seen) then map_of pids' k' = lookup_player db' k' \<and> map_of pids' k' \<noteq> None
      else map_of pids' k' = map_of pids k'", OF maps] impI [OF inj] len by (intro conjI)
qed

text \<open>A second time nothing is left to do.\<close>

lemma patched_players:
  assumes "\<forall>e \<in> set t. fst (snd e) = i \<longrightarrow> patch_player p (snd (snd e)) = snd (snd e)"
  shows "map (\<lambda>(k, j, r). (k, j, if j = i then patch_player p r else r)) t = t"
  using assms by (induction t) auto

lemma upsert_players_again:
  assumes "\<forall>(k, p) \<in> set seen. k = (MSourceID p, tour) \<and> player_fits p \<and> lookup_player db k \<noteq> None" and "laid db seen"
  shows "\<exists>pids'. upsert_players ul tour seen (pids, db) = Inr (pids', db)
    \<and> (\<forall>k. map_of pids' k = (if k \<in> keys seen then lookup_player db k else map_of pids k))"
  using assms
proof (induction seen arbitrary: pids)
  case (Cons x seen)
  obtain k p where x: "x = (k, p)" by (cases x)
  obtain i where i: "lookup_player db k = Some i" and kp: "k = (MSourceID p, tour)" "player_fits p"
    using Cons.prems(1) x by auto
  have "\<forall>e \<in> set (i_players db). fst (snd e) = i \<longrightarrow> patch_player p (snd (snd e)) = snd (snd e)"
    using Cons.prems(2) x i by (auto simp: laid_def)
  from patched_players [OF this] have u: "upsert_player ul tour p db = Inr (i, db)"
    using i kp by (simp add: upsert_player_def)
  have "\<exists>pids'. upsert_players ul tour seen (put k i pids, db) = Inr (pids', db)
      \<and> (\<forall>k'. map_of pids' k' = (if k' \<in> keys seen then lookup_player db k' else map_of (put k i pids) k'))"
    using Cons.prems by (intro Cons.IH) (auto simp: laid_def)
  then show ?case using u i x by (auto split: if_splits)
qed simp

section \<open>Tables with an id\<close>

text \<open>A list of upserts into one table, with the ids returned.\<close>

fun upsert_all :: "('x \<Rightarrow> 'r option \<Rightarrow> 'r) \<Rightarrow> ('k \<times> 'x) list \<Rightarrow> ('k \<times> int) list \<times> int \<times> ('k \<times> (int \<times> 'r)) list
    \<Rightarrow> ('k \<times> int) list \<times> int \<times> ('k \<times> (int \<times> 'r)) list" where
  "upsert_all merge [] s = s"
| "upsert_all merge ((k, x) # xs) (kids, n, t) =
     (let (i, t) = upsert_id k (merge x) n t in upsert_all merge xs (put k i kids, n + 1, t))"

abbreviation content :: "('k \<times> (int \<times> 'r)) list \<Rightarrow> 'k \<Rightarrow> 'r option" where
  "content t k \<equiv> map_option snd (map_of t k)"

lemma upsert_id_facts:
  assumes "upsert_id k merge n t = (i, t')"
  shows "content t' k' = (if k' = k then Some (merge (content t k)) else content t k')"
    and "map_of t k' = Some (j, r) \<Longrightarrow> map_option fst (map_of t' k') = Some j"
    and "map_option fst (map_of t' k) = Some i"
    and "map fst t' = (if map_of t k = None then map fst t @ [k] else map fst t)"
    and "distinct (map fst t') = distinct (map fst t)"
  using assms by (auto simp: upsert_id_def put_map_fst split: option.splits)

lemma upsert_all_facts:
  assumes "upsert_all merge xs (kids, n, t) = (kids', n', t')"
  shows "content t' k = fold (\<lambda>x old. Some (merge x old)) (map snd (filter (\<lambda>y. fst y = k) xs)) (content t k)
    \<and> (map_of t k \<noteq> None \<longrightarrow> map_option fst (map_of t' k) = map_option fst (map_of t k))
    \<and> map_of kids' k = (if k \<in> keys xs then map_option fst (map_of t' k) else map_of kids k)
    \<and> (keys xs \<subseteq> keys t \<longrightarrow> map fst t' = map fst t) \<and> distinct (map fst t') = distinct (map fst t)
    \<and> keys t' = keys t \<union> keys xs \<and> n' = n + int (length xs)"
  using assms
proof (induction xs arbitrary: kids n t)
  case Nil
  then show ?case by simp
next
  case (Cons y xs)
  obtain k0 x where y: "y = (k0, x)" by (cases y)
  obtain i t1 where u: "upsert_id k0 (merge x) n t = (i, t1)" by fastforce
  have rest: "upsert_all merge xs (put k0 i kids, n + 1, t1) = (kids', n', t')" using Cons.prems u y by simp
  note IH = Cons.IH [OF rest]
  note f = upsert_id_facts [OF u]
  have k1: "keys t1 = insert k0 (keys t)"
    using arg_cong [OF f(4), of set] by (auto simp: map_of_eq_None_iff image_iff split: if_splits)
  have old: "map_of t k \<noteq> None \<Longrightarrow> map_option fst (map_of t' k) = map_option fst (map_of t k)"
    using IH f(2) [of k] by fastforce
  have "content t' k = fold (\<lambda>x old. Some (merge x old)) (map snd (filter (\<lambda>y. fst y = k) (y # xs))) (content t k)"
    using IH f(1) [of k] y by auto
  moreover have "map_of kids' k = (if k \<in> keys (y # xs) then map_option fst (map_of t' k) else map_of kids k)"
  proof (cases "k \<in> keys xs")
    case True
    then show ?thesis using IH by simp
  next
    case False
    then have m: "map_of kids' k = map_of (put k0 i kids) k" using IH by simp
    have "map_option fst (map_of t' k0) = Some i" if "k = k0"
    proof -
      have "map_of t1 k0 \<noteq> None" using f(3) by auto
      then have "map_option fst (map_of t' k0) = map_option fst (map_of t1 k0)" using IH that by simp
      then show ?thesis using f(3) by simp
    qed
    then show ?thesis using m False y by auto
  qed
  moreover have "map fst t' = map fst t" if sub: "keys (y # xs) \<subseteq> keys t"
  proof -
    have "map_of t k0 \<noteq> None" using sub y by (simp add: map_of_eq_None_iff)
    then have "map fst t1 = map fst t" using f(4) by simp
    moreover have "keys xs \<subseteq> keys t1" using sub k1 by auto
    ultimately show ?thesis using IH by simp
  qed
  moreover have "distinct (map fst t') = distinct (map fst t)" using IH f(5) by simp
  moreover have "keys t' = keys t \<union> keys (y # xs)" using IH k1 y by auto
  moreover have "n' = n + int (length (y # xs))" using IH by simp
  ultimately show ?case using old by blast
qed

lemmas all_content = upsert_all_facts [THEN conjunct1]
lemmas all_old = upsert_all_facts [THEN conjunct2, THEN conjunct1, THEN mp]
lemmas all_ids = upsert_all_facts [THEN conjunct2, THEN conjunct2, THEN conjunct1]
lemmas all_order = upsert_all_facts [THEN conjunct2, THEN conjunct2, THEN conjunct2, THEN conjunct1, THEN mp]
lemmas all_distinct = upsert_all_facts [THEN conjunct2, THEN conjunct2, THEN conjunct2, THEN conjunct2, THEN conjunct1]
lemmas all_keys = upsert_all_facts [THEN conjunct2, THEN conjunct2, THEN conjunct2, THEN conjunct2, THEN conjunct2, THEN conjunct1]
lemmas all_seq = upsert_all_facts [THEN conjunct2, THEN conjunct2, THEN conjunct2, THEN conjunct2, THEN conjunct2, THEN conjunct2]

text \<open>
  If the upserts over a table leave the content of every key as it was, and bring no new key, they leave the
  table as it is.
\<close>

lemma upsert_all_stable:
  assumes u: "upsert_all merge xs (kids, n, t) = (kids', n', t')" and sub: "keys xs \<subseteq> keys t" and d: "distinct (map fst t)"
    and same: "\<And>k. content t' k = content t k"
  shows "t' = t"
proof (rule alist_eq)
  show fs: "map fst t' = map fst t" by (rule all_order [OF u sub])
  show "distinct (map fst t')" using d fs by simp
  have "map_of t' k = map_of t k" for k
  proof (cases "map_of t k")
    case None
    then have "content t' k = None" using same [of k] by simp
    then show ?thesis using None by simp
  next
    case (Some v)
    then have "map_option fst (map_of t' k) = Some (fst v)" using all_old [OF u, of k] by simp
    then show ?thesis using Some same [of k] by (cases "map_of t' k") (auto simp: prod_eq_iff)
  qed
  then show "map_of t' = map_of t" by (rule ext)
qed

text \<open>The same upserts over the table they left behind leave it as it is.\<close>

context overlay
begin

lemma upsert_all_again:
  assumes u1: "upsert_all merge xs (kids, n, t) = (kids', n', t')" and d: "distinct (map fst t)"
  shows "\<exists>kids2. upsert_all merge xs ([], m, t') = (kids2, m + int (length xs), t')
    \<and> (\<forall>k. map_of kids2 k = (if k \<in> keys xs then map_of kids' k else None))"
proof -
  obtain kids2 m2 t2 where u2: "upsert_all merge xs ([], m, t') = (kids2, m2, t2)" by (metis prod_cases3)
  have "t2 = t'"
  proof (rule upsert_all_stable [OF u2])
    show "keys xs \<subseteq> keys t'" unfolding all_keys [OF u1] by blast
    show "distinct (map fst t')" unfolding all_distinct [OF u1] by (rule d)
    show "content t2 k = content t' k" for k
      unfolding all_content [OF u2] all_content [OF u1] by (rule fold_twice)
  qed
  then show ?thesis
    using u2 all_seq [OF u2] all_ids [OF u2] all_ids [OF u1] by auto
qed

end

section \<open>Tournaments\<close>

lemma upsert_tourneys_all:
  assumes "upsert_tourneys so seen (kids, db) = Inr (kids', db')"
  shows "(\<forall>(k, r) \<in> set seen. tourney_fits so r)
    \<and> (\<exists>n t. upsert_all (merge_tourney so) seen (kids, i_seq db, i_tours db) = (kids', n, t) \<and> db' = db\<lparr>i_tours := t, i_seq := n\<rparr>)"
  using assms
proof (induction seen arbitrary: kids db)
  case (Cons x seen)
  obtain k r where x: "x = (k, r)" by (cases x)
  obtain i t where u: "upsert_id k (merge_tourney so r) (i_seq db) (i_tours db) = (i, t)" by fastforce
  have fit: "tourney_fits so r"
    and rest: "upsert_tourneys so seen (put k i kids, db\<lparr>i_tours := t, i_seq := i_seq db + 1\<rparr>) = Inr (kids', db')"
    using Cons.prems u x by (auto simp: upsert_tourney_def and_then_Inr checked_def split: if_splits)
  show ?case using Cons.IH [OF rest] fit u x by auto
qed simp

lemma upsert_tourneys_do:
  assumes "\<forall>(k, r) \<in> set seen. tourney_fits so r"
    and "upsert_all (merge_tourney so) seen (kids, i_seq db, i_tours db) = (kids', n, t)"
  shows "upsert_tourneys so seen (kids, db) = Inr (kids', db\<lparr>i_tours := t, i_seq := n\<rparr>)"
  using assms
proof (induction seen arbitrary: kids db)
  case (Cons x seen)
  obtain k r where x: "x = (k, r)" by (cases x)
  obtain i t1 where u: "upsert_id k (merge_tourney so r) (i_seq db) (i_tours db) = (i, t1)" by fastforce
  have "upsert_tourneys so seen (put k i kids, db\<lparr>i_tours := t1, i_seq := i_seq db + 1\<rparr>) =
      Inr (kids', (db\<lparr>i_tours := t1, i_seq := i_seq db + 1\<rparr>)\<lparr>i_tours := t, i_seq := n\<rparr>)"
    using Cons.prems u x by (intro Cons.IH) auto
  then show ?case using Cons.prems(1) u x by (simp add: upsert_tourney_def checked_def)
qed simp

text \<open>With every tournament once, the order does not matter the second time.\<close>

lemma tourneys_again:
  assumes d: "distinct (map fst seen)" and p: "mset seen' = mset seen" and dt: "distinct (map fst t)"
    and u1: "upsert_all (merge_tourney so) seen (kids, n, t) = (kids', n', t')"
  shows "\<exists>kids2. upsert_all (merge_tourney so) seen' ([], m, t') = (kids2, m + int (length seen), t')
    \<and> (\<forall>k. map_of kids2 k = (if k \<in> keys seen then map_of kids' k else None))"
proof -
  obtain kids2 m2 t2 where u2: "upsert_all (merge_tourney so) seen' ([], m, t') = (kids2, m2, t2)" by (metis prod_cases3)
  have st: "set seen' = set seen" by (rule mset_eq_setD [OF p])
  then have ks: "keys seen' = keys seen" by simp
  have ms: "mset (map fst seen') = mset (map fst seen)" unfolding mset_map p by (rule refl)
  have d': "distinct (map fst seen')" unfolding mset_eq_imp_distinct_iff [OF ms] by (rule d)
  have mo: "map_of seen' = map_of seen" by (rule map_of_inject_set [THEN iffD2, OF d' d]) (rule st)
  have "t2 = t'"
  proof (rule upsert_all_stable [OF u2])
    show "keys seen' \<subseteq> keys t'" unfolding all_keys [OF u1] ks by blast
    show "distinct (map fst t')" unfolding all_distinct [OF u1] by (rule dt)
    show "content t2 k = content t' k" for k
      unfolding all_content [OF u2] all_content [OF u1] filter_key [OF d'] filter_key [OF d] mo
      by (cases "map_of seen k") (simp_all add: tourney.merge_twice)
  qed
  moreover have "map_of kids2 k = (if k \<in> keys seen then map_of kids' k else None)" for k
    using all_ids [OF u2, of k] all_ids [OF u1, of k] calculation ks by simp
  ultimately show ?thesis using u2 all_seq [OF u2] mset_eq_length [OF p] by simp
qed

lemma upsert_all_kids:
  "upsert_all merge xs (kids, n, t) = (kids', n', t') \<Longrightarrow>
    distinct (map fst kids') = distinct (map fst kids) \<and> keys kids' = keys kids \<union> keys xs"
proof (induction xs arbitrary: kids n t)
  case (Cons y xs)
  obtain k x where y: "y = (k, x)" by (cases y)
  obtain i t1 where u: "upsert_id k (merge x) n t = (i, t1)" by fastforce
  have "upsert_all merge xs (put k i kids, n + 1, t1) = (kids', n', t')" using Cons.prems u y by simp
  from Cons.IH [OF this] show ?case by (auto simp: y)
qed simp

lemma upsert_all_length:
  assumes "upsert_all merge xs ([], n, t) = (kids', n', t')"
  shows "length kids' = card (keys xs)"
proof -
  have "distinct (map fst kids')" "keys kids' = keys xs" using upsert_all_kids [OF assms] by simp_all
  then show ?thesis by (metis distinct_card length_map list.set_map)
qed

section \<open>Matches and participants\<close>

abbreviation merge_row :: "source \<Rightarrow> match_row \<times> int \<times> int \<Rightarrow> stored_match option \<Rightarrow> stored_match" where
  "merge_row so x \<equiv> merge_match so (fst x) (fst (snd x)) (snd (snd x))"

definition ids_of :: "source \<Rightarrow> (player_key \<times> int) list \<Rightarrow> (tourney_key \<times> int) list \<Rightarrow> match_row \<Rightarrow> int \<times> int \<times> int" where
  "ids_of so P T r = (case row_ids so P T r of Inl _ \<Rightarrow> (0, 0, 0) | Inr x \<Rightarrow> x)"

definition key_of :: "source \<Rightarrow> (player_key \<times> int) list \<Rightarrow> (tourney_key \<times> int) list \<Rightarrow> match_row \<Rightarrow> match_key" where
  "key_of so P T r = (case ids_of so P T r of (t, w, l) \<Rightarrow> new_match_key t (MatchNum r) (is_qualifying r) w l)"

definition keyed :: "source \<Rightarrow> (player_key \<times> int) list \<Rightarrow> (tourney_key \<times> int) list \<Rightarrow> match_row list
    \<Rightarrow> (match_key \<times> match_row \<times> int \<times> int) list" where
  "keyed so P T rows = map (\<lambda>r. (key_of so P T r, r, snd (ids_of so P T r))) rows"

definition parts_list :: "source \<Rightarrow> (player_key \<times> int) list \<Rightarrow> (tourney_key \<times> int) list \<Rightarrow> (match_key \<times> int) list
    \<Rightarrow> match_row list \<Rightarrow> ((int \<times> int) \<times> stored_part) list" where
  "parts_list so P T M rows =
     concat (map (\<lambda>r. case ids_of so P T r of (t, w, l) \<Rightarrow>
       [((the (map_of M (key_of so P T r)), w), part_of True (MWinner r)),
        ((the (map_of M (key_of so P T r)), l), part_of False (MLoser r))]) rows)"

definition rows_fit :: "source \<Rightarrow> (player_key \<times> int) list \<Rightarrow> (tourney_key \<times> int) list \<Rightarrow> match_row list \<Rightarrow> bool" where
  "rows_fit so P T rows \<longleftrightarrow> (\<forall>r \<in> set rows. row_ids so P T r = Inr (ids_of so P T r) \<and> match_fits r)"

lemma upsert_matches_all:
  "upsert_matches so P T rows (kids, c, db) = Inr (kids', c', db') \<Longrightarrow>
    rows_fit so P T rows
    \<and> (\<exists>n t. upsert_all (merge_row so) (keyed so P T rows) (kids, i_seq db, i_matches db) = (kids', n, t)
        \<and> db' = db\<lparr>i_matches := t, i_seq := n\<rparr>)
    \<and> length kids' + c' = length kids + c + length rows"
proof (induction rows arbitrary: kids c db)
  case Nil
  then show ?case by (simp add: rows_fit_def keyed_def)
next
  case (Cons r rows)
  obtain t w l where x: "row_ids so P T r = Inr (t, w, l)" using Cons.prems by (auto simp: and_then_Inr)
  let ?k = "new_match_key t (MatchNum r) (is_qualifying r) w l"
  obtain i tab where u: "upsert_id ?k (merge_match so r w l) (i_seq db) (i_matches db) = (i, tab)" by fastforce
  have fit: "match_fits r"
    and rest: "upsert_matches so P T rows (put ?k i kids, if map_of kids ?k \<noteq> None then c + 1 else c,
        db\<lparr>i_matches := tab, i_seq := i_seq db + 1\<rparr>) = Inr (kids', c', db')"
    using Cons.prems x u by (auto simp: and_then_Inr checked_def Let_def split: if_splits)
  have ids: "ids_of so P T r = (t, w, l)" by (simp add: ids_of_def x)
  have len: "length (put ?k i kids) + (if map_of kids ?k \<noteq> None then c + 1 else c) = length kids + c + 1"
    by (simp add: length_put)
  show ?case
    using Cons.IH [OF rest] fit x u len ids by (auto simp: rows_fit_def keyed_def key_of_def)
qed

lemma upsert_matches_do:
  "rows_fit so P T rows \<Longrightarrow>
    upsert_all (merge_row so) (keyed so P T rows) (kids, i_seq db, i_matches db) = (kids', n, t) \<Longrightarrow>
    \<exists>c'. upsert_matches so P T rows (kids, c, db) = Inr (kids', c', db\<lparr>i_matches := t, i_seq := n\<rparr>)"
proof (induction rows arbitrary: kids c db)
  case Nil
  then show ?case by (simp add: keyed_def)
next
  case (Cons r rows)
  obtain tt w l where x: "row_ids so P T r = Inr (tt, w, l)" and ids: "ids_of so P T r = (tt, w, l)" and fit: "match_fits r"
    using Cons.prems(1) by (cases "ids_of so P T r") (auto simp: rows_fit_def)
  let ?k = "new_match_key tt (MatchNum r) (is_qualifying r) w l"
  obtain i tab where u: "upsert_id ?k (merge_match so r w l) (i_seq db) (i_matches db) = (i, tab)" by fastforce
  have "\<exists>c'. upsert_matches so P T rows (put ?k i kids, if map_of kids ?k \<noteq> None then c + 1 else c,
      db\<lparr>i_matches := tab, i_seq := i_seq db + 1\<rparr>) =
      Inr (kids', c', (db\<lparr>i_matches := tab, i_seq := i_seq db + 1\<rparr>)\<lparr>i_matches := t, i_seq := n\<rparr>)"
    using Cons.prems u ids by (intro Cons.IH) (auto simp: rows_fit_def keyed_def key_of_def)
  then show ?case using x u fit by (simp add: checked_def Let_def)
qed

definition parts_fit :: "source \<Rightarrow> (player_key \<times> int) list \<Rightarrow> (tourney_key \<times> int) list \<Rightarrow> (match_key \<times> int) list \<Rightarrow> match_row list \<Rightarrow> bool" where
  "parts_fit so P T M rows \<longleftrightarrow>
     (\<forall>r \<in> set rows. row_ids so P T r = Inr (ids_of so P T r) \<and> map_of M (key_of so P T r) \<noteq> None
        \<and> part_fits (MWinner r) \<and> part_fits (MLoser r))"

lemma upsert_parts_iff:
  "upsert_parts so P T M rows db = Inr db' \<longleftrightarrow>
    parts_fit so P T M rows \<and> db' = db\<lparr>i_parts := fold (\<lambda>(k, v). put k v) (parts_list so P T M rows) (i_parts db)\<rparr>"
proof (induction rows arbitrary: db)
  case Nil
  then show ?case by (auto simp: parts_fit_def parts_list_def)
next
  case (Cons r rows)
  show ?case
  proof (cases "row_ids so P T r")
    case (Inl e)
    then show ?thesis by (simp add: parts_fit_def)
  next
    case (Inr x)
    obtain t w l where x: "x = (t, w, l)" by (cases x)
    have ids: "ids_of so P T r = (t, w, l)" using Inr x by (simp add: ids_of_def)
    have k: "key_of so P T r = new_match_key t (MatchNum r) (is_qualifying r) w l" by (simp add: key_of_def ids)
    show ?thesis
    proof (cases "map_of M (key_of so P T r)")
      case None
      then show ?thesis using Inr x by (auto simp: parts_fit_def k)
    next
      case (Some m)
      let ?db = "db\<lparr>i_parts := put (m, l) (part_of False (MLoser r)) (put (m, w) (part_of True (MWinner r)) (i_parts db))\<rparr>"
      have "upsert_parts so P T M (r # rows) db = Inr db' \<longleftrightarrow>
          part_fits (MWinner r) \<and> part_fits (MLoser r) \<and> upsert_parts so P T M rows ?db = Inr db'"
        using Some Inr x by (auto simp: k and_then_Inr queue_match_player_def checked_def)
      then show ?thesis
        using Some Inr x ids by (auto simp: Cons.IH parts_fit_def parts_list_def)
    qed
  qed
qed

lemma map_of_fold_put: "map_of (fold (\<lambda>(k, v). put k v) xs t) = map_of t ++ map_of (rev xs)"
proof (induction xs arbitrary: t)
  case (Cons x xs)
  obtain k v where x: "x = (k, v)" by (cases x)
  have "map_of (fold (\<lambda>(k, v). put k v) (x # xs) t) = map_of (put k v t) ++ map_of (rev xs)"
    unfolding x fold_Cons comp_apply prod.case by (rule Cons.IH)
  also have "\<dots> = map_of t ++ map_of (rev (x # xs))"
    by (simp add: x)
  finally show ?case .
qed simp

lemma distinct_fold_put: "distinct (map fst (fold (\<lambda>(k, v). put k v) xs t)) = distinct (map fst t)"
proof (induction xs arbitrary: t)
  case (Cons x xs)
  obtain k v where x: "x = (k, v)" by (cases x)
  show ?case unfolding x fold_Cons comp_apply prod.case Cons.IH by (rule distinct_put)
qed simp

lemma fold_put_keys: "keys xs \<subseteq> keys t \<Longrightarrow> map fst (fold (\<lambda>(k, v). put k v) xs t) = map fst t"
proof (induction xs arbitrary: t)
  case (Cons x xs)
  obtain k v where x: "x = (k, v)" by (cases x)
  have "map_of t k \<noteq> None" using Cons.prems by (simp add: x map_of_eq_None_iff)
  then have "map fst (put k v t) = map fst t" by (simp add: put_map_fst)
  moreover have "keys xs \<subseteq> keys (put k v t)" using Cons.prems by (auto simp: x)
  ultimately show ?case using Cons.IH [of "put k v t"] by (simp add: x)
qed simp

lemma keys_fold_put: "keys (fold (\<lambda>(k, v). put k v) xs t) = keys t \<union> keys xs"
proof (induction xs arbitrary: t)
  case (Cons x xs)
  obtain k v where x: "x = (k, v)" by (cases x)
  show ?case unfolding x using Cons.IH [of "put k v t"] by simp
qed simp

lemma fold_put_again:
  assumes "distinct (map fst t)"
  shows "fold (\<lambda>(k, v). put k v) xs (fold (\<lambda>(k, v). put k v) xs t) = fold (\<lambda>(k, v). put k v) xs t"
proof (rule alist_eq)
  let ?t = "fold (\<lambda>(k, v). put k v) xs t"
  have "keys xs \<subseteq> keys ?t" unfolding keys_fold_put by blast
  then show fs: "map fst (fold (\<lambda>(k, v). put k v) xs ?t) = map fst ?t" by (rule fold_put_keys)
  show "distinct (map fst (fold (\<lambda>(k, v). put k v) xs ?t))" using assms by (simp only: distinct_fold_put)
  have "m ++ m = m" for m :: "'a \<rightharpoonup> 'b" by (rule ext) (simp add: map_add_def split: option.split)
  then show "map_of (fold (\<lambda>(k, v). put k v) xs ?t) = map_of ?t"
    unfolding map_of_fold_put map_add_assoc [symmetric] by simp
qed

section \<open>The players and tournaments of a batch\<close>

lemma see_player_facts:
  assumes "distinct (map fst seen)" and "\<forall>(k, p) \<in> set seen. k = (MSourceID p, tour)"
  shows "distinct (map fst (see_player tour p seen)) \<and> (\<forall>(k, p) \<in> set (see_player tour p seen). k = (MSourceID p, tour))
    \<and> keys (see_player tour p seen) = insert (MSourceID p, tour) (keys seen)"
proof (cases "map_of seen (MSourceID p, tour)")
  case None
  then show ?thesis using assms by (auto simp: see_player_def set_put)
next
  case (Some prev)
  then have "(MSourceID p, tour) \<in> keys seen" by (metis map_of_eq_None_iff option.distinct(1))
  then show ?thesis using assms Some by (auto simp: see_player_def set_put)
qed

lemma seen_players_facts:
  "distinct (map fst (seen_players tour rows)) \<and> (\<forall>(k, p) \<in> set (seen_players tour rows). k = (MSourceID p, tour))
    \<and> keys (seen_players tour rows) = (\<lambda>r. (MSourceID (MWinner r), tour)) ` set rows \<union> (\<lambda>r. (MSourceID (MLoser r), tour)) ` set rows"
proof -
  have "distinct (map fst (fold (\<lambda>r seen. see_player tour (MLoser r) (see_player tour (MWinner r) seen)) rows seen))
      \<and> (\<forall>(k, p) \<in> set (fold (\<lambda>r seen. see_player tour (MLoser r) (see_player tour (MWinner r) seen)) rows seen). k = (MSourceID p, tour))
      \<and> keys (fold (\<lambda>r seen. see_player tour (MLoser r) (see_player tour (MWinner r) seen)) rows seen) =
          keys seen \<union> (\<lambda>r. (MSourceID (MWinner r), tour)) ` set rows \<union> (\<lambda>r. (MSourceID (MLoser r), tour)) ` set rows"
    if "distinct (map fst seen)" "\<forall>(k, p) \<in> set seen. k = (MSourceID p, tour)" for seen
    using that
  proof (induction rows arbitrary: seen)
    case (Cons r rows)
    let ?s = "see_player tour (MLoser r) (see_player tour (MWinner r) seen)"
    note w = see_player_facts [OF Cons.prems, of "MWinner r"]
    note l = see_player_facts [OF w [THEN conjunct1] w [THEN conjunct2, THEN conjunct1], of "MLoser r"]
    have "keys ?s = insert (MSourceID (MLoser r), tour) (insert (MSourceID (MWinner r), tour) (keys seen))"
      unfolding l [THEN conjunct2, THEN conjunct2] w [THEN conjunct2, THEN conjunct2] by (rule refl)
    then show ?case using Cons.IH [OF l [THEN conjunct1] l [THEN conjunct2, THEN conjunct1]] by (simp add: Un_ac insert_commute)
  qed simp
  from this [of "[]"] show ?thesis by (simp add: seen_players_def)
qed

lemma seen_tourneys_facts:
  "distinct (map fst (seen_tourneys tour rows)) \<and> keys (seen_tourneys tour rows) = tourney_key tour ` set rows"
proof -
  have "distinct (map fst (fold (\<lambda>r seen. if map_of seen (tourney_key tour r) = None then put (tourney_key tour r) r seen else seen) rows seen))
      \<and> keys (fold (\<lambda>r seen. if map_of seen (tourney_key tour r) = None then put (tourney_key tour r) r seen else seen) rows seen) =
          keys seen \<union> tourney_key tour ` set rows"
    if "distinct (map fst seen)" for seen
    using that
  proof (induction rows arbitrary: seen)
    case (Cons r rows)
    let ?s = "if map_of seen (tourney_key tour r) = None then put (tourney_key tour r) r seen else seen"
    have "distinct (map fst ?s)" "keys ?s = insert (tourney_key tour r) (keys seen)"
    proof -
      show "distinct (map fst ?s)" using Cons.prems by simp
      show "keys ?s = insert (tourney_key tour r) (keys seen)"
      proof (cases "map_of seen (tourney_key tour r)")
        case (Some v)
        then have "tourney_key tour r \<in> keys seen" by (metis map_of_eq_None_iff option.distinct(1))
        then show ?thesis using Some by (simp add: insert_absorb)
      qed simp
    qed
    then show ?case using Cons.IH [of ?s] by auto
  qed simp
  from this [of "[]"] show ?thesis by (simp add: seen_tourneys_def)
qed

section \<open>A committed batch\<close>

definition parts_put :: "source \<Rightarrow> (player_key \<times> int) list \<Rightarrow> (tourney_key \<times> int) list \<Rightarrow> (match_key \<times> int) list
    \<Rightarrow> match_row list \<Rightarrow> ((int \<times> int) \<times> stored_part) list \<Rightarrow> ((int \<times> int) \<times> stored_part) list" where
  "parts_put so P T M rows t = fold (\<lambda>(k, v). put k v) (parts_list so P T M rows) t"

lemma write_batch_steps:
  assumes "write_batch ul po to so rows db = Inr (res, db')" and "rows \<noteq> []"
  obtains P dbp T nt tt M c nm tm where
    "upsert_players ul (STour so) (po (seen_players (STour so) rows)) ([], db) = Inr (P, dbp)"
    "\<forall>(k, r) \<in> set (to (seen_tourneys (STour so) rows)). tourney_fits so r"
    "upsert_all (merge_tourney so) (to (seen_tourneys (STour so) rows)) ([], i_seq dbp, i_tours dbp) = (T, nt, tt)"
    "rows_fit so P T rows"
    "upsert_all (merge_row so) (keyed so P T rows) ([], nt, i_matches dbp) = (M, nm, tm)"
    "length M + c = length rows"
    "parts_fit so P T M rows"
    "db' = dbp\<lparr>i_tours := tt, i_matches := tm, i_seq := nm, i_parts := parts_put so P T M rows (i_parts dbp)\<rparr>"
    "played_both db'"
    "res = \<lparr>RMatches = length M, RPlayers = length P, RCollapsed = c\<rparr>"
proof -
  obtain P dbp T dbt M c dbm dbq where
      p: "upsert_players ul (STour so) (po (seen_players (STour so) rows)) ([], db) = Inr (P, dbp)"
    and t: "upsert_tourneys so (to (seen_tourneys (STour so) rows)) ([], dbp) = Inr (T, dbt)"
    and m: "upsert_matches so P T rows ([], 0, dbt) = Inr (M, c, dbm)"
    and q: "upsert_parts so P T M rows dbm = Inr dbq"
    and com: "commit_batch \<lparr>RMatches = length M, RPlayers = length P, RCollapsed = c\<rparr> dbq = Inr (res, db')"
    using assms by (auto simp: write_batch_def and_then_Inr)
  obtain nt tt where t1: "\<forall>(k, r) \<in> set (to (seen_tourneys (STour so) rows)). tourney_fits so r"
      "upsert_all (merge_tourney so) (to (seen_tourneys (STour so) rows)) ([], i_seq dbp, i_tours dbp) = (T, nt, tt)"
    and dbt: "dbt = dbp\<lparr>i_tours := tt, i_seq := nt\<rparr>"
    using upsert_tourneys_all [OF t] by blast
  obtain nm tm where m1: "rows_fit so P T rows" "upsert_all (merge_row so) (keyed so P T rows) ([], i_seq dbt, i_matches dbt) = (M, nm, tm)"
    and dbm: "dbm = dbt\<lparr>i_matches := tm, i_seq := nm\<rparr>" and len: "length M + c = length rows"
    using upsert_matches_all [OF m] by auto
  have q1: "parts_fit so P T M rows" and dbq: "dbq = dbm\<lparr>i_parts := parts_put so P T M rows (i_parts dbm)\<rparr>"
    using q unfolding upsert_parts_iff parts_put_def by blast+
  have "played_both dbq" "db' = dbq" "res = \<lparr>RMatches = length M, RPlayers = length P, RCollapsed = c\<rparr>"
    using com by (auto simp: commit_batch_def checked_def split: if_splits)
  then show thesis using that [OF p t1 m1(1) _ len q1] m1(2) dbt dbm dbq by simp
qed

lemma write_batch_do:
  assumes "rows \<noteq> []"
    and "upsert_players ul (STour so) (po (seen_players (STour so) rows)) ([], db) = Inr (P, db)"
    and "\<forall>(k, r) \<in> set (to (seen_tourneys (STour so) rows)). tourney_fits so r"
    and "upsert_all (merge_tourney so) (to (seen_tourneys (STour so) rows)) ([], i_seq db, i_tours db) = (T, nt, i_tours db)"
    and "rows_fit so P T rows"
    and "upsert_all (merge_row so) (keyed so P T rows) ([], nt, i_matches db) = (M, nm, i_matches db)"
    and "parts_fit so P T M rows" and "parts_put so P T M rows (i_parts db) = i_parts db" and "played_both db"
  shows "\<exists>c. write_batch ul po to so rows db =
    Inr (\<lparr>RMatches = length M, RPlayers = length P, RCollapsed = c\<rparr>, db\<lparr>i_seq := nm\<rparr>)"
proof -
  let ?dbt = "db\<lparr>i_seq := nt\<rparr>" and ?dbm = "db\<lparr>i_seq := nm\<rparr>"
  have t: "upsert_tourneys so (to (seen_tourneys (STour so) rows)) ([], db) = Inr (T, ?dbt)"
    using upsert_tourneys_do [OF assms(3,4)] by simp
  obtain c where m: "upsert_matches so P T rows ([], 0, ?dbt) = Inr (M, c, ?dbm)"
    using upsert_matches_do [OF assms(5), of "[]" ?dbt M nm "i_matches db" 0] assms(6) by auto
  have q: "upsert_parts so P T M rows ?dbm = Inr ?dbm"
    unfolding upsert_parts_iff using assms(7,8) by (simp add: parts_put_def)
  have "played_both ?dbm" using assms(9) by (simp add: played_both_def)
  then show ?thesis
    using assms(1,2) t m q by (simp add: write_batch_def commit_batch_def checked_def)
qed

text \<open>Only the ids matter to what is written of the matches.\<close>

lemma same_ids:
  assumes "map_of P2 = map_of P" and "map_of T2 = map_of T"
  shows "row_ids so P2 T2 = row_ids so P T" "ids_of so P2 T2 = ids_of so P T" "key_of so P2 T2 = key_of so P T"
    "keyed so P2 T2 = keyed so P T" "rows_fit so P2 T2 = rows_fit so P T"
proof -
  show r: "row_ids so P2 T2 = row_ids so P T" by (rule ext) (simp only: row_ids_def assms)
  show i: "ids_of so P2 T2 = ids_of so P T" by (rule ext) (simp only: ids_of_def r)
  show k: "key_of so P2 T2 = key_of so P T" by (rule ext) (simp only: key_of_def i)
  show "keyed so P2 T2 = keyed so P T" by (rule ext) (simp only: keyed_def k i)
  show "rows_fit so P2 T2 = rows_fit so P T" by (rule ext) (simp only: rows_fit_def r i)
qed

lemma same_parts:
  assumes "map_of P2 = map_of P" and "map_of T2 = map_of T" and "map_of M2 = map_of M"
  shows "parts_fit so P2 T2 M2 = parts_fit so P T M" "parts_put so P2 T2 M2 = parts_put so P T M"
  by (rule ext, simp only: parts_fit_def same_ids [OF assms(1,2)] assms(3))
    (intro ext, simp only: parts_put_def parts_list_def same_ids [OF assms(1,2)] assms(3))

lemma same_players:
  assumes "i_players db1 = i_players db" and "i_aliases db1 = i_aliases db"
  shows "lookup_player db1 = lookup_player db" "laid db1 = laid db"
proof -
  have "player_tour db1 = player_tour db" by (rule ext) (simp add: player_tour_def assms)
  then show l: "lookup_player db1 = lookup_player db" by (intro ext) (simp add: lookup_player_def assms)
  show "laid db1 = laid db" by (rule ext) (simp add: laid_def l assms)
qed

text \<open>The facts of a first pass over the players, one by one.\<close>

lemmas players_ok = upsert_players_facts [THEN conjunct1]
lemmas players_frame = upsert_players_facts [THEN conjunct2, THEN conjunct1]
lemmas players_fit = upsert_players_facts [THEN conjunct2, THEN conjunct2, THEN conjunct1]
lemmas players_ids = upsert_players_facts [THEN conjunct2, THEN conjunct2, THEN conjunct2, THEN conjunct2, THEN conjunct1, THEN spec]
lemmas players_laid =
  upsert_players_facts [THEN conjunct2, THEN conjunct2, THEN conjunct2, THEN conjunct2, THEN conjunct2, THEN conjunct1, THEN mp, THEN conjunct1]
lemmas players_length = upsert_players_facts [THEN conjunct2, THEN conjunct2, THEN conjunct2, THEN conjunct2, THEN conjunct2, THEN conjunct2]

lemma distinct_order: "mset t' = mset t \<Longrightarrow> distinct (map fst t) \<Longrightarrow> distinct (map fst t')"
  using mset_eq_imp_distinct_iff [of "map fst t'" "map fst t"] by simp

lemma players_again:
  assumes u: "upsert_players ul tour seen ([], db) = Inr (P, dbp)" and ok: "idb_ok db" and d: "distinct (map fst seen)"
    and ks: "\<forall>(k, p) \<in> set seen. k = (MSourceID p, tour)" and st: "mset seen' = mset seen"
    and same: "i_players db1 = i_players dbp" "i_aliases db1 = i_aliases dbp" and ok1: "idb_ok db1"
    and inj: "inj_on (lookup_player db1) (keys seen)"
  shows "\<exists>P2. upsert_players ul tour seen' ([], db1) = Inr (P2, db1) \<and> map_of P2 = map_of P \<and> length P2 = length P"
proof -
  note hyp = u ok d ks
  have s: "set seen' = set seen" using st by (rule mset_eq_setD)
  have ks': "\<forall>(k, p) \<in> set seen'. k = (MSourceID p, tour)" unfolding s by (rule ks)
  have d': "distinct (map fst seen')" by (rule distinct_order [OF st d])
  have "laid dbp seen" using players_laid [OF hyp] inj unfolding same_players [OF same] by blast
  then have l: "laid db1 seen'" unfolding same_players [OF same] laid_def s .
  have "k = (MSourceID p, tour) \<and> player_fits p \<and> lookup_player db1 k \<noteq> None" if e: "(k, p) \<in> set seen'" for k p
  proof -
    have "k \<in> keys seen" using e unfolding s by force
    then show ?thesis
      using bspec [OF ks' e] bspec [OF players_fit [OF hyp], of "(k, p)"] e players_ids [OF hyp, of k]
      unfolding s same_players [OF same] by auto
  qed
  then have all: "\<forall>(k, p) \<in> set seen'. k = (MSourceID p, tour) \<and> player_fits p \<and> lookup_player db1 k \<noteq> None"
    by blast
  obtain P2 where u2: "upsert_players ul tour seen' ([], db1) = Inr (P2, db1)"
    and m2: "\<forall>k. map_of P2 k = (if k \<in> keys seen' then lookup_player db1 k else map_of [] k)"
    using upsert_players_again [OF all l] by blast
  have "map_of P2 k = map_of P k" for k
    using m2 [rule_format, of k] players_ids [OF hyp, of k] unfolding s same_players [OF same] by (simp split: if_splits)
  moreover have "length P2 = length P"
    unfolding players_length [OF hyp] players_length [OF u2 ok1 d' ks'] s by (rule refl)
  ultimately show ?thesis using u2 by blast
qed

lemma seen_order:
  assumes "mset (po (seen_players tour rows)) = mset (seen_players tour rows)"
  shows "distinct (map fst (po (seen_players tour rows)))"
    and "\<forall>(k, p) \<in> set (po (seen_players tour rows)). k = (MSourceID p, tour)"
    and "set (po (seen_players tour rows)) = set (seen_players tour rows)"
proof -
  show s: "set (po (seen_players tour rows)) = set (seen_players tour rows)" using assms by (rule mset_eq_setD)
  show "distinct (map fst (po (seen_players tour rows)))"
    by (rule distinct_order [OF assms seen_players_facts [THEN conjunct1]])
  show "\<forall>(k, p) \<in> set (po (seen_players tour rows)). k = (MSourceID p, tour)"
    unfolding s by (rule seen_players_facts [THEN conjunct2, THEN conjunct1])
qed

lemma seen_tourneys_order:
  assumes "mset (to (seen_tourneys tour rows)) = mset (seen_tourneys tour rows)"
  shows "distinct (map fst (to (seen_tourneys tour rows)))"
    and "set (to (seen_tourneys tour rows)) = set (seen_tourneys tour rows)"
proof -
  show "set (to (seen_tourneys tour rows)) = set (seen_tourneys tour rows)" using assms by (rule mset_eq_setD)
  show "distinct (map fst (to (seen_tourneys tour rows)))"
    by (rule distinct_order [OF assms seen_tourneys_facts [THEN conjunct1]])
qed

text \<open>Ids stay distinct and below the sequence.\<close>

definition ids_fresh :: "('k \<times> (int \<times> 'r)) list \<Rightarrow> int \<Rightarrow> bool" where
  "ids_fresh t n \<longleftrightarrow> distinct (map (\<lambda>e. fst (snd e)) t) \<and> (\<forall>e \<in> set t. fst (snd e) < n)"

lemma put_map_ids: "map_of t k = Some (i, r) \<Longrightarrow> map (\<lambda>e. fst (snd e)) (put k (i, r') t) = map (\<lambda>e. fst (snd e)) t"
  by (induction t) (auto split: if_splits)

lemma put_append: "map_of t k = None \<Longrightarrow> put k v t = t @ [(k, v)]"
  by (induction t) (auto split: if_splits)

lemma ids_fresh_alt: "ids_fresh t n \<longleftrightarrow> distinct (map (\<lambda>e. fst (snd e)) t) \<and> (\<forall>i \<in> set (map (\<lambda>e. fst (snd e)) t). i < n)"
  by (auto simp: ids_fresh_def)

lemma ids_fresh_mono: "ids_fresh t n \<Longrightarrow> n \<le> m \<Longrightarrow> ids_fresh t m"
  by (fastforce simp: ids_fresh_def)

lemma upsert_id_fresh:
  assumes "upsert_id k merge n t = (i, t')" and f: "ids_fresh t n"
  shows "ids_fresh t' (n + 1)"
proof (cases "map_of t k")
  case None
  then have t': "t' = t @ [(k, (n, merge None))]" using assms(1) by (auto simp: upsert_id_def put_append)
  have "n \<notin> (\<lambda>e. fst (snd e)) ` set t" using f by (auto simp: ids_fresh_def)
  then show ?thesis using f unfolding t' by (auto simp: ids_fresh_def)
next
  case (Some v)
  obtain j r where v: "v = (j, r)" by (cases v)
  have t': "t' = put k (j, merge (Some r)) t" using assms(1) Some v by (auto simp: upsert_id_def)
  have "map (\<lambda>e. fst (snd e)) t' = map (\<lambda>e. fst (snd e)) t" unfolding t' using Some v by (intro put_map_ids) simp
  then have "ids_fresh t' n" using f unfolding ids_fresh_alt by simp
  then show ?thesis by (rule ids_fresh_mono) simp
qed

lemma upsert_all_fresh: "upsert_all merge xs (kids, n, t) = (kids', n', t') \<Longrightarrow> ids_fresh t n \<Longrightarrow> ids_fresh t' n'"
proof (induction xs arbitrary: kids n t)
  case (Cons y xs)
  obtain k x where y: "y = (k, x)" by (cases y)
  obtain i t1 where u: "upsert_id k (merge x) n t = (i, t1)" by fastforce
  show ?case using Cons.IH [of "put k i kids" "n + 1" t1] upsert_id_fresh [OF u] Cons.prems u y by simp
qed simp

lemma batch_ok:
  assumes ok: "idb_ok db" and w: "write_batch ul po to so rows db = Inr (res, db1)"
    and order: "mset (po (seen_players (STour so) rows)) = mset (seen_players (STour so) rows)"
  shows "idb_ok db1"
proof (cases "rows = []")
  case True
  then show ?thesis using ok w by (simp add: write_batch_def)
next
  case False
  let ?S = "seen_players (STour so) rows" and ?U = "seen_tourneys (STour so) rows"
  obtain P dbp T nt tt M c nm tm where
      p: "upsert_players ul (STour so) (po ?S) ([], db) = Inr (P, dbp)"
    and tf: "\<forall>(k, r) \<in> set (to ?U). tourney_fits so r"
    and t: "upsert_all (merge_tourney so) (to ?U) ([], i_seq dbp, i_tours dbp) = (T, nt, tt)"
    and mf: "rows_fit so P T rows"
    and m: "upsert_all (merge_row so) (keyed so P T rows) ([], nt, i_matches dbp) = (M, nm, tm)"
    and len: "length M + c = length rows" and pf: "parts_fit so P T M rows"
    and db1: "db1 = dbp\<lparr>i_tours := tt, i_matches := tm, i_seq := nm, i_parts := parts_put so P T M rows (i_parts dbp)\<rparr>"
    and played: "played_both db1" and res: "res = \<lparr>RMatches = length M, RPlayers = length P, RCollapsed = c\<rparr>"
    by (rule write_batch_steps [OF w False])
  have okp: "idb_ok dbp" by (rule players_ok [OF p ok seen_order(1,2) [of po, OF order]])
  have nt: "i_seq dbp \<le> nt" and nm: "nt \<le> nm" using all_seq [OF t] all_seq [OF m] by simp_all
  have "ids_fresh (i_matches dbp) nt" using okp nt by (auto simp: idb_ok_def ids_fresh_def)
  from upsert_all_fresh [OF m this] have fm: "ids_fresh tm nm" .
  have "player_ids db1 = player_ids dbp" by (simp add: player_ids_def db1)
  then show ?thesis
    using okp nt nm fm all_distinct [OF t] all_distinct [OF m]
    unfolding idb_ok_def by (fastforce simp: db1 ids_fresh_def parts_put_def distinct_fold_put)
qed

text \<open>
  C30: Writing a committed batch a second time changes nothing, provided that the source ids in it resolve to
  different players. If such a batch of rows was written over a well-formed database, writing it again, in whatever
  order Go then ranges over its maps of players and tournaments, commits and leaves every table as it was, with the
  same counts of matches and players: every insert meets its own row, no name, slug, statistic or participant moves,
  and only the sequence has advanced. Two source ids that reconciliation has made one player are excluded: their
  records overwrite each other, and a second run can change the name (\<open>aliases_overwrite\<close>).
\<close>

theorem reingest_changes_nothing:
  assumes ok: "idb_ok db" and w: "write_batch ul po to so rows db = Inr (res, db1)"
    and orders: "mset (po (seen_players (STour so) rows)) = mset (seen_players (STour so) rows)"
      "mset (po' (seen_players (STour so) rows)) = mset (seen_players (STour so) rows)"
      "mset (to (seen_tourneys (STour so) rows)) = mset (seen_tourneys (STour so) rows)"
      "mset (to' (seen_tourneys (STour so) rows)) = mset (seen_tourneys (STour so) rows)"
    and inj: "inj_on (lookup_player db1) (keys (seen_players (STour so) rows))"
  shows "\<exists>c n. write_batch ul po' to' so rows db1 =
    Inr (\<lparr>RMatches = RMatches res, RPlayers = RPlayers res, RCollapsed = c\<rparr>, db1\<lparr>i_seq := n\<rparr>)"
proof (cases "rows = []")
  case True
  then show ?thesis using w by (intro exI [of _ 0] exI [of _ "i_seq db1"]) (auto simp: write_batch_def)
next
  case False
  let ?S = "seen_players (STour so) rows" and ?U = "seen_tourneys (STour so) rows"
  obtain P dbp T nt tt M c nm tm where
      p: "upsert_players ul (STour so) (po ?S) ([], db) = Inr (P, dbp)"
    and tf: "\<forall>(k, r) \<in> set (to ?U). tourney_fits so r"
    and t: "upsert_all (merge_tourney so) (to ?U) ([], i_seq dbp, i_tours dbp) = (T, nt, tt)"
    and mf: "rows_fit so P T rows"
    and m: "upsert_all (merge_row so) (keyed so P T rows) ([], nt, i_matches dbp) = (M, nm, tm)"
    and len: "length M + c = length rows" and pf: "parts_fit so P T M rows"
    and db1: "db1 = dbp\<lparr>i_tours := tt, i_matches := tm, i_seq := nm, i_parts := parts_put so P T M rows (i_parts dbp)\<rparr>"
    and played: "played_both db1" and res: "res = \<lparr>RMatches = length M, RPlayers = length P, RCollapsed = c\<rparr>"
    by (rule write_batch_steps [OF w False])
  note so1 = seen_order [of po, OF orders(1)]
  have okp: "idb_ok dbp" by (rule players_ok [OF p ok so1(1,2)])
  then have d: "distinct (map fst (i_tours dbp))" "distinct (map fst (i_matches dbp))" "distinct (map fst (i_parts dbp))"
    by (simp_all add: idb_ok_def)
  have same: "i_players db1 = i_players dbp" "i_aliases db1 = i_aliases dbp" by (simp_all add: db1)
  have inj1: "inj_on (lookup_player db1) (keys (po ?S))" unfolding so1(3) by (rule inj)
  have mS: "mset (po' ?S) = mset (po ?S)" using orders(1,2) by simp
  obtain P2 where p2: "upsert_players ul (STour so) (po' ?S) ([], db1) = Inr (P2, db1)"
    and mp: "map_of P2 = map_of P" and lp: "length P2 = length P"
    using players_again [OF p ok so1(1,2) mS same batch_ok [OF ok w orders(1)] inj1] by blast
  have tf2: "\<forall>(k, r) \<in> set (to' ?U). tourney_fits so r"
    using tf unfolding seen_tourneys_order(2) [of to, OF orders(3)] seen_tourneys_order(2) [of to', OF orders(4)] .
  have dU: "distinct (map fst (to ?U))" by (rule seen_tourneys_order(1) [of to, OF orders(3)])
  have mU: "mset (to' ?U) = mset (to ?U)" using orders(3,4) by simp
  obtain T2 where t2: "upsert_all (merge_tourney so) (to' ?U) ([], i_seq db1, i_tours db1) =
        (T2, i_seq db1 + int (length (to ?U)), i_tours db1)"
    and mt0: "\<forall>k. map_of T2 k = (if k \<in> keys (to ?U) then map_of T k else None)"
    using tourneys_again [OF dU mU d(1) t, of "i_seq db1"] unfolding db1 by auto
  have mt: "map_of T2 = map_of T"
  proof (rule ext)
    show "map_of T2 k = map_of T k" for k
      using mt0 [rule_format, of k] all_ids [OF t, of k] by (simp split: if_splits)
  qed
  obtain M2 n where m2: "upsert_all (merge_row so) (keyed so P T rows) ([], i_seq db1 + int (length (to ?U)), i_matches db1) =
        (M2, n, i_matches db1)"
    and mm0: "\<forall>k. map_of M2 k = (if k \<in> keys (keyed so P T rows) then map_of M k else None)"
    using stored.upsert_all_again [OF m d(2)] unfolding db1 by fastforce
  have mm: "map_of M2 = map_of M"
  proof (rule ext)
    show "map_of M2 k = map_of M k" for k
      using mm0 [rule_format, of k] all_ids [OF m, of k] by (simp split: if_splits)
  qed
  have lm: "length M2 = length M" unfolding upsert_all_length [OF m2] upsert_all_length [OF m] by (rule refl)
  note si = same_ids [OF mp mt] and sp = same_parts [OF mp mt mm]
  have parts: "parts_put so P2 T2 M2 rows (i_parts db1) = i_parts db1"
    unfolding sp db1 using fold_put_again [OF d(3)] by (simp add: parts_put_def)
  have "\<exists>c. write_batch ul po' to' so rows db1 =
      Inr (\<lparr>RMatches = length M2, RPlayers = length P2, RCollapsed = c\<rparr>, db1\<lparr>i_seq := n\<rparr>)"
  proof (rule write_batch_do [where po = po' and to = to', OF False p2 tf2 t2])
    show "rows_fit so P2 T2 rows" unfolding si by (rule mf)
    show "upsert_all (merge_row so) (keyed so P2 T2 rows) ([], i_seq db1 + int (length (to ?U)), i_matches db1) = (M2, n, i_matches db1)"
      unfolding si by (rule m2)
    show "parts_fit so P2 T2 M2 rows" unfolding sp by (rule pf)
  qed (rule parts, rule played)
  then show ?thesis unfolding lm lp res by auto
qed

section \<open>What a batch stores\<close>

text \<open>The match a row is, in the ids of the database.\<close>

definition match_of :: "source \<Rightarrow> idb \<Rightarrow> match_row \<Rightarrow> match_key option" where
  "match_of so db r =
     Option.bind (map_of (i_tours db) (tourney_key (STour so) r)) (\<lambda>t.
     Option.bind (lookup_player db (MSourceID (MWinner r), STour so)) (\<lambda>w.
     Option.bind (lookup_player db (MSourceID (MLoser r), STour so)) (\<lambda>l.
       Some (new_match_key (fst t) (MatchNum r) (is_qualifying r) w l))))"

lemma row_ids_Inr:
  "row_ids so P T r = Inr (t, w, l) \<longleftrightarrow> map_of T (tourney_key (STour so) r) = Some t
    \<and> map_of P (MSourceID (MWinner r), STour so) = Some w \<and> map_of P (MSourceID (MLoser r), STour so) = Some l"
  by (auto simp: row_ids_def split: option.splits)

lemma parts_list_append: "parts_list so P T M (as @ bs) = parts_list so P T M as @ parts_list so P T M bs"
  by (simp add: parts_list_def)

lemma keys_keyed: "keys (keyed so P T rows) = key_of so P T ` set rows"
  by (simp add: keyed_def image_image)

lemma keys_parts_list:
  "x \<in> keys (parts_list so P T M rows) \<Longrightarrow> \<exists>r \<in> set rows. fst x = the (map_of M (key_of so P T r))"
  by (auto simp: parts_list_def split: prod.splits)

lemma last_content:
  assumes u: "upsert_all (merge_row so) (keyed so P T (as @ r # bs)) (kids, n, t) = (kids', n', t')"
    and last: "\<forall>r' \<in> set bs. key_of so P T r' \<noteq> key_of so P T r"
  shows "\<exists>i old. map_of t' (key_of so P T r) = Some (i, merge_row so (r, snd (ids_of so P T r)) old)
    \<and> map_of kids' (key_of so P T r) = Some i"
proof -
  let ?k = "key_of so P T r"
  have none: "filter (\<lambda>y. fst y = ?k) (keyed so P T bs) = []"
    using last by (auto simp: keyed_def filter_empty_conv)
  have split: "keyed so P T (as @ r # bs) = keyed so P T as @ (?k, r, snd (ids_of so P T r)) # keyed so P T bs"
    by (simp add: keyed_def)
  obtain old where "content t' ?k = Some (merge_row so (r, snd (ids_of so P T r)) old)"
    using all_content [OF u, of ?k] unfolding split by (simp add: none)
  then obtain i where m: "map_of t' ?k = Some (i, merge_row so (r, snd (ids_of so P T r)) old)" by auto
  have "?k \<in> keys (keyed so P T (as @ r # bs))" unfolding split by simp
  then have "map_of kids' ?k = Some i" using all_ids [OF u, of ?k] m by simp
  then show ?thesis using m by blast
qed

lemma last_parts:
  assumes "ids_of so P T r = (t, w, l)" and "map_of M (key_of so P T r) = Some i"
    and "\<forall>r' \<in> set bs. the (map_of M (key_of so P T r')) \<noteq> i"
  shows "map_of (parts_put so P T M (as @ r # bs) ps) (i, l) = Some (part_of False (MLoser r))
    \<and> (w \<noteq> l \<longrightarrow> map_of (parts_put so P T M (as @ r # bs) ps) (i, w) = Some (part_of True (MWinner r)))"
proof -
  have none: "map_of (rev (parts_list so P T M bs)) (i, j) = None" for j
    unfolding map_of_eq_None_iff using keys_parts_list [of "(i, j)" so P T M bs] assms(3) by auto
  have "parts_list so P T M (as @ r # bs) =
      parts_list so P T M as @ [((i, w), part_of True (MWinner r)), ((i, l), part_of False (MLoser r))] @ parts_list so P T M bs"
    using parts_list_append [of so P T M as "r # bs"] assms(1,2) by (simp add: parts_list_def)
  then show ?thesis
    using none by (simp add: parts_put_def map_of_fold_put map_add_def)
qed

text \<open>
  C31: What a committed batch leaves of each row. Every row of the input is counted once, written or collapsed into
  an earlier one; and the last row of each match is in the database as it was read: under its tournament, its number
  and the ids its players resolve to, with the winner it names, the round, the figures of its score and the flag that
  says whether statistics were recorded, and with a participant row for each side holding that side's own record.
\<close>

theorem batch_stores_rows:
  assumes ok: "idb_ok db" and w: "write_batch ul po to so rows db = Inr (res, db1)"
    and orders: "mset (po (seen_players (STour so) rows)) = mset (seen_players (STour so) rows)"
      "mset (to (seen_tourneys (STour so) rows)) = mset (seen_tourneys (STour so) rows)"
    and rows: "rows = as @ r # bs" and last: "\<forall>r' \<in> set bs. match_of so db1 r' \<noteq> match_of so db1 r"
  shows "RMatches res + RCollapsed res = length rows
    \<and> (\<exists>t tr wi lo i m. map_of (i_tours db1) (tourney_key (STour so) r) = Some (t, tr)
        \<and> lookup_player db1 (MSourceID (MWinner r), STour so) = Some wi
        \<and> lookup_player db1 (MSourceID (MLoser r), STour so) = Some lo
        \<and> map_of (i_matches db1) (new_match_key t (MatchNum r) (is_qualifying r) wi lo) = Some (i, m)
        \<and> MaWinner m = wi \<and> MaLoser m = lo \<and> MaRound m = MRound r \<and> MaFigures m = classify_score (MScore r) (BestOf r)
        \<and> MaDetailed m = has_detailed_stats r
        \<and> map_of (i_parts db1) (i, lo) = Some (part_of False (MLoser r))
        \<and> (wi \<noteq> lo \<longrightarrow> map_of (i_parts db1) (i, wi) = Some (part_of True (MWinner r))))"
proof -
  have False: "rows \<noteq> []" using rows by simp
  let ?S = "seen_players (STour so) rows" and ?U = "seen_tourneys (STour so) rows"
  obtain P dbp T nt tt M c nm tm where
      p: "upsert_players ul (STour so) (po ?S) ([], db) = Inr (P, dbp)"
    and tf: "\<forall>(k, r) \<in> set (to ?U). tourney_fits so r"
    and t: "upsert_all (merge_tourney so) (to ?U) ([], i_seq dbp, i_tours dbp) = (T, nt, tt)"
    and mf: "rows_fit so P T rows"
    and m: "upsert_all (merge_row so) (keyed so P T rows) ([], nt, i_matches dbp) = (M, nm, tm)"
    and len: "length M + c = length rows" and pf: "parts_fit so P T M rows"
    and db1: "db1 = dbp\<lparr>i_tours := tt, i_matches := tm, i_seq := nm, i_parts := parts_put so P T M rows (i_parts dbp)\<rparr>"
    and played: "played_both db1" and res: "res = \<lparr>RMatches = length M, RPlayers = length P, RCollapsed = c\<rparr>"
    by (rule write_batch_steps [OF w False])
  have same: "i_players db1 = i_players dbp" "i_aliases db1 = i_aliases dbp" by (simp_all add: db1)
  note so1 = seen_order [of po, OF orders(1)]
  have P: "map_of P k = lookup_player db1 k" if "map_of P k = Some x" for k x
    using players_ids [OF p ok so1(1,2), of k] that unfolding same_players [OF same] by (simp split: if_splits)
  have T: "map_of T k = map_option fst (map_of (i_tours db1) k)" if "map_of T k = Some x" for k x
    using all_ids [OF t, of k] that by (simp add: db1 split: if_splits)
  have ids: "\<exists>t w l. ids_of so P T r' = (t, w, l) \<and> map_option fst (map_of (i_tours db1) (tourney_key (STour so) r')) = Some t
      \<and> lookup_player db1 (MSourceID (MWinner r'), STour so) = Some w \<and> lookup_player db1 (MSourceID (MLoser r'), STour so) = Some l"
    if r': "r' \<in> set rows" for r'
  proof -
    obtain t w l where i: "ids_of so P T r' = (t, w, l)" by (metis prod_cases3)
    then have "row_ids so P T r' = Inr (t, w, l)" using mf r' by (simp add: rows_fit_def)
    then show ?thesis unfolding row_ids_Inr using i P T by (metis option.inject)
  qed
  have mo: "match_of so db1 r' = Some (key_of so P T r')" if "r' \<in> set rows" for r'
    using ids [OF that] by (auto simp: match_of_def key_of_def)
  have lastk: "\<forall>r' \<in> set bs. key_of so P T r' \<noteq> key_of so P T r" using last mo rows by simp
  obtain i old where tm: "map_of tm (key_of so P T r) = Some (i, merge_row so (r, snd (ids_of so P T r)) old)"
    and M: "map_of M (key_of so P T r) = Some i"
    using last_content [OF m [unfolded rows] lastk] by blast
  have fresh: "distinct (map (\<lambda>e. fst (snd e)) tm)" "distinct (map fst tm)"
    using batch_ok [OF ok w orders(1)] by (simp_all add: idb_ok_def db1)
  have other: "the (map_of M (key_of so P T r')) \<noteq> i" if r': "r' \<in> set bs" for r'
  proof
    assume eq: "the (map_of M (key_of so P T r')) = i"
    have "key_of so P T r' \<in> keys (keyed so P T rows)" unfolding keys_keyed using r' rows by simp
    then have "map_of M (key_of so P T r') = map_option fst (map_of tm (key_of so P T r'))"
      using all_ids [OF m, of "key_of so P T r'"] by simp
    moreover have "map_of M (key_of so P T r') \<noteq> None" using pf r' rows by (simp add: parts_fit_def)
    ultimately obtain x where "map_of tm (key_of so P T r') = Some (i, x)" using eq by auto
    then have "(key_of so P T r', i, x) \<in> set tm" by (rule map_of_SomeD)
    moreover have "(key_of so P T r, i, merge_row so (r, snd (ids_of so P T r)) old) \<in> set tm" using tm by (rule map_of_SomeD)
    ultimately have "(key_of so P T r', i, x) = (key_of so P T r, i, merge_row so (r, snd (ids_of so P T r)) old)"
      using fresh(1) unfolding distinct_map by (elim conjE inj_onD) simp_all
    then show False using lastk r' by simp
  qed
  obtain t w l where i: "ids_of so P T r = (t, w, l)" and l: "map_option fst (map_of (i_tours db1) (tourney_key (STour so) r)) = Some t"
      "lookup_player db1 (MSourceID (MWinner r), STour so) = Some w" "lookup_player db1 (MSourceID (MLoser r), STour so) = Some l"
    using ids [of r] rows by auto
  note lp = last_parts [of so P T r t w l M i bs as "i_parts dbp", OF i M, folded rows]
  have "RMatches res + RCollapsed res = length rows" using len by (simp add: res)
  moreover have "map_of (i_matches db1) (new_match_key t (MatchNum r) (is_qualifying r) w l) = Some (i, merge_match so r w l old)"
    using tm i by (simp add: db1 key_of_def)
  moreover have "map_of (i_parts db1) (i, l) = Some (part_of False (MLoser r))"
      "w \<noteq> l \<longrightarrow> map_of (i_parts db1) (i, w) = Some (part_of True (MWinner r))"
    using lp other by (auto simp: db1)
  moreover obtain tr where "map_of (i_tours db1) (tourney_key (STour so) r) = Some (t, tr)" using l(1) by auto
  moreover have "MaWinner (merge_match so r w l old) = w" "MaLoser (merge_match so r w l old) = l" "MaRound (merge_match so r w l old) = MRound r"
      "MaFigures (merge_match so r w l old) = classify_score (MScore r) (BestOf r)"
      "MaDetailed (merge_match so r w l old) = has_detailed_stats r"
    by (simp_all add: merge_match_def)
  ultimately show ?thesis using l(2,3) by blast
qed

section \<open>Small batches\<close>

definition sample_side :: "string \<Rightarrow> string \<Rightarrow> side_row" where
  "sample_side sid nm = \<lparr>MSourceID = sid, MName = nm, MHand = ''R'', MCountry = ''ESP'', MHeight = Some 185, MAge = None,
     MSeed = None, MEntry = [], MRank = Some 12, MRankPoints = None, MStats = None, MBirth = None, MWikidata = []\<rparr>"

definition sample_match :: "int \<Rightarrow> side_row \<Rightarrow> side_row \<Rightarrow> match_row" where
  "sample_match n w l = \<lparr>TourneyID = ''2024-339'', TourneyName = ''Brisbane'', MSurface = ''hard'', MLevel = ''A'',
     DrawSize = Some 32, TourneyDate = (2024, 1, 1), MatchNum = n, MRound = ''R32'', BestOf = 3, MScore = ''6-4 6-4'',
     Minutes = None, Indoor = None, MWinner = w, MLoser = l\<rparr>"

definition sample_source :: source where
  "sample_source = (sample_feed ''sackmann'' ''atp'' 1)"

definition empty_idb :: idb where
  "empty_idb = \<lparr>i_players = [], i_aliases = [], i_tours = [], i_matches = [], i_parts = [], i_seq = 1\<rparr>"

definition sample_idb :: idb where
  "sample_idb = empty_idb\<lparr>i_players := [((''a1'', ''atp''), (1, blank_player ''ann-one'')), ((''b2'', ''atp''), (2, blank_player ''bo-two''))],
     i_seq := 3\<rparr>"

definition sample_rows :: "match_row list" where
  "sample_rows = [sample_match 300 (sample_side ''a1'' ''Ann One'') (sample_side ''b2'' ''Bo Two''),
     sample_match 300 (sample_side ''b2'' ''Bo Two'') (sample_side ''a1'' ''Ann One'')]"

definition idb_of :: "'e + (batch_result \<times> idb) \<Rightarrow> idb" where
  "idb_of r = (case r of Inl _ \<Rightarrow> empty_idb | Inr (_, db) \<Rightarrow> db)"

definition names_slugs :: "idb \<Rightarrow> (string \<times> string \<times> string) list" where
  "names_slugs db = map (\<lambda>e. (fst (fst e), PrName (snd (snd e)), PrSlug (snd (snd e)))) (i_players db)"

lemma sample_written:
  "\<exists>res db1. write_batch (\<lambda>_. False) (\<lambda>s. s) (\<lambda>s. s) sample_source sample_rows sample_idb = Inr (res, db1)
    \<and> RCollapsed res = 1 \<and> lookup_player db1 (''a1'', ''atp'') = Some 1 \<and> lookup_player db1 (''b2'', ''atp'') = Some 2"
proof -
  have "(case write_batch (\<lambda>_. False) (\<lambda>s. s) (\<lambda>s. s) sample_source sample_rows sample_idb of Inl _ \<Rightarrow> False
    | Inr (res, db1) \<Rightarrow> RCollapsed res = 1 \<and> lookup_player db1 (''a1'', ''atp'') = Some 1 \<and> lookup_player db1 (''b2'', ''atp'') = Some 2)"
    by code_simp
  then show ?thesis by (auto split: sum.splits)
qed

lemma sample_seen: "keys (seen_players (STour sample_source) sample_rows) = {(''a1'', ''atp''), (''b2'', ''atp'')}"
  unfolding seen_players_facts [THEN conjunct2, THEN conjunct2]
  by (auto simp: sample_rows_def sample_match_def sample_side_def sample_source_def sample_feed_def)

lemma sample_idb_ok: "idb_ok sample_idb"
  by (auto simp: idb_ok_def sample_idb_def empty_idb_def player_ids_def)

theorem reingest_changes_nothing_witness:
  "\<exists>res db1 c n. write_batch (\<lambda>_. False) (\<lambda>s. s) (\<lambda>s. s) sample_source sample_rows sample_idb = Inr (res, db1)
    \<and> write_batch (\<lambda>_. False) rev rev sample_source sample_rows db1 =
      Inr (\<lparr>RMatches = RMatches res, RPlayers = RPlayers res, RCollapsed = c\<rparr>, db1\<lparr>i_seq := n\<rparr>)"
proof -
  obtain res db1 where w: "write_batch (\<lambda>_. False) (\<lambda>s. s) (\<lambda>s. s) sample_source sample_rows sample_idb = Inr (res, db1)"
    and l: "lookup_player db1 (''a1'', ''atp'') = Some 1" "lookup_player db1 (''b2'', ''atp'') = Some 2"
    using sample_written by blast
  have "inj_on (lookup_player db1) (keys (seen_players (STour sample_source) sample_rows))"
    unfolding sample_seen using l by (simp add: inj_on_def)
  from reingest_changes_nothing [OF sample_idb_ok w _ _ _ _ this, of rev rev] w show ?thesis by auto
qed

theorem batch_stores_rows_witness:
  "\<exists>res db1 m. write_batch (\<lambda>_. False) (\<lambda>s. s) (\<lambda>s. s) sample_source sample_rows sample_idb = Inr (res, db1)
    \<and> RMatches res + RCollapsed res = 2 \<and> m \<in> snd ` snd ` set (i_matches db1) \<and> MaWinner m = 2 \<and> MaLoser m = 1"
proof -
  obtain res db1 where w: "write_batch (\<lambda>_. False) (\<lambda>s. s) (\<lambda>s. s) sample_source sample_rows sample_idb = Inr (res, db1)"
    and l: "lookup_player db1 (''a1'', ''atp'') = Some 1" "lookup_player db1 (''b2'', ''atp'') = Some 2"
    using sample_written by blast
  have r: "sample_rows = [hd sample_rows] @ last sample_rows # []" by (simp add: sample_rows_def)
  have s: "MSourceID (MWinner (last sample_rows)) = ''b2''" "MSourceID (MLoser (last sample_rows)) = ''a1''"
      "STour sample_source = ''atp''" "length sample_rows = 2"
    by (simp_all add: sample_rows_def sample_match_def sample_side_def sample_source_def sample_feed_def)
  from batch_stores_rows [OF sample_idb_ok w _ _ r] have
    "RMatches res + RCollapsed res = 2 \<and> (\<exists>k i m. map_of (i_matches db1) k = Some (i, m) \<and> MaWinner m = 2 \<and> MaLoser m = 1)"
    unfolding s using l by fastforce
  then show ?thesis using w by (force dest: map_of_SomeD)
qed

text \<open>
  The order of Go's maps shows. Two source ids of one reconciled player in a batch: the last of them in map order
  names the player, so writing the batch again can rename it. Two new namesakes in a batch: the first in map order
  gets the plain slug.
\<close>

definition merged_idb :: idb where
  "merged_idb = empty_idb\<lparr>i_players := [((''a1'', ''atp''), (1, blank_player ''ann-one''))], i_aliases := [((''tml'', ''x9''), 1)], i_seq := 2\<rparr>"

lemma aliases_overwrite:
  "let rows = [sample_match 300 (sample_side ''a1'' ''Ann One'') (sample_side ''x9'' ''Anne One'')]
   in hd (names_slugs (idb_of (write_batch (\<lambda>_. False) (\<lambda>s. s) (\<lambda>s. s) sample_source rows merged_idb))) = (''a1'', ''Anne One'', ''ann-one'')
    \<and> hd (names_slugs (idb_of (write_batch (\<lambda>_. False) rev (\<lambda>s. s) sample_source rows merged_idb))) = (''a1'', ''Ann One'', ''ann-one'')"
  by code_simp

lemma sample_slug: "base_slug (\<lambda>_. False) (sample_side sid ''Ann One'') = ''ann-one''"
proof -
  have r: "runes_of ''Ann One'' = [65, 110, 110, 32, 79, 110, 101]" by code_simp
  have t: "trim_text [65, 110, 110, 32, 79, 110, 101] = [65, 110, 110, 32, 79, 110, 101]"
    by (simp add: trim_text_def space_rune_def)
  have l: "map lower_rune [65, 110, 110, 32, 79, 110, 101] = [97, 110, 110, 32, 111, 110, 101]" by (simp add: lower_rune_def)
  have "fold_rune 32 = []" by (simp add: fold_rune_def fold_table_def)
  then have c: "convert_loop (\<lambda>_. False) CHR ''-'' [97, 110, 110, 32, 111, 110, 101] [] True = ''ann-one''"
    by (simp add: ascii_alnum_def char_of_def bit_0)
  have "slug (\<lambda>_. False) (runes_of ''Ann One'') = ''ann-one''"
    unfolding slug_def convert_def r t l c by code_simp
  then show ?thesis by (simp add: base_slug_def sample_side_def)
qed

lemma namesakes_race:
  "let a = ((''a1'', ''atp''), sample_side ''a1'' ''Ann One''); b = ((''b2'', ''atp''), sample_side ''b2'' ''Ann One'')
   in (\<exists>ids db. upsert_players (\<lambda>_. False) ''atp'' [a, b] ([], empty_idb) = Inr (ids, db)
         \<and> names_slugs db = [(''a1'', ''Ann One'', ''ann-one''), (''b2'', ''Ann One'', ''ann-one-atp'')])
    \<and> (\<exists>ids db. upsert_players (\<lambda>_. False) ''atp'' [b, a] ([], empty_idb) = Inr (ids, db)
         \<and> names_slugs db = [(''b2'', ''Ann One'', ''ann-one''), (''a1'', ''Ann One'', ''ann-one-atp'')])"
proof -
  have up: "[0..<50] = 0 # 1 # [2..<50]" by (simp add: upt_conv_Cons)
  show ?thesis
    by (simp add: upsert_player_def player_fits_def lookup_player_def empty_idb_def sample_slug up insert_player_def slugs_def
        names_slugs_def patch_player_def blank_player_def disambiguate_slug_def smallint_def player_tour_def)
      (simp add: sample_side_def smallint_def)
qed

end
