(* ===== verification/Pipeline.thy ===== *)
theory Pipeline
  imports IngestStoreFacts
begin

text \<open>
  \<open>internal/ingest/pipeline.go\<close> and \<open>ledger.go\<close>: files read by several workers, their chunks sent over one
  channel to a single writer, and the ledger that lets a later run skip what has not changed. The goroutines are
  a step relation: every interleaving of the workers, the feeder, the writer and a cancellation is a run. What a
  fetcher opens and what the CSV decoder returns, call by call, are parameters.
\<close>

section \<open>Chunks\<close>

record chunk =
  KSource :: source
  KKey :: file_key
  KRows :: "match_row list option"
  KSeen :: nat
  KRejected :: nat
  KMissing :: bool
  KSkipped :: bool
  KValidator :: string

definition blank_chunk :: "job \<Rightarrow> chunk" where
  "blank_chunk j = \<lparr>KSource = JSource j, KKey = job_key j, KRows = None, KSeen = 0, KRejected = 0,
     KMissing = False, KSkipped = False, KValidator = []\<rparr>"

definition rows_chunk :: "job \<Rightarrow> match_row list \<Rightarrow> nat \<Rightarrow> nat \<Rightarrow> chunk" where
  "rows_chunk j batch seen rejected = (blank_chunk j)\<lparr>KRows := Some batch, KSeen := seen, KRejected := rejected\<rparr>"

section \<open>Reading a file\<close>

text \<open>What opening a file gives: the body is what the n-th call of the CSV decoder returns.\<close>

datatype opened = Unchanged | Absent | OpenFailed | Opened "nat \<Rightarrow> csv_read" string

datatype read_error = CannotOpen | BadHeader | Cancelled

record fetcher =
  conditional :: bool
  open_plain :: "source \<Rightarrow> int \<Rightarrow> opened"
  open_if_changed :: "string \<Rightarrow> string \<Rightarrow> string \<Rightarrow> opened"

definition open_file :: "fetcher \<Rightarrow> job \<Rightarrow> string \<Rightarrow> opened" where
  "open_file f j validator =
     (if conditional f then open_if_changed f (SBaseURL (JSource j)) (rel_path (JSource j) (JSeason j)) validator
      else case open_plain f (JSource j) (JSeason j) of Opened body _ \<Rightarrow> Opened body [] | res \<Rightarrow> res)"

text \<open>
  The loop of \<open>readFile\<close>: \<open>n\<close> records have been asked for, \<open>out\<close> was sent. An error that is not the end of the
  file is counted and skipped, so a body that fails on every further call is read for ever.
\<close>

partial_function (option) read_loop ::
    "float_parser \<Rightarrow> int \<Rightarrow> job \<Rightarrow> (nat \<Rightarrow> csv_read) \<Rightarrow> nat \<Rightarrow> reader \<Rightarrow> match_row list \<Rightarrow> nat \<Rightarrow> nat \<Rightarrow> chunk list
      \<Rightarrow> chunk list option" where
  "read_loop fl sz j body n r batch seen rejected out =
     (case body n of
        CsvEnd \<Rightarrow> Some (if batch \<noteq> [] \<or> seen > 0 then out @ [rows_chunk j batch seen rejected] else out)
      | CsvError \<Rightarrow> read_loop fl sz j body (n + 1) r batch (seen + 1) (rejected + 1) out
      | CsvRecord rec \<Rightarrow>
          (case reader_next fl rec r of
             None \<Rightarrow> None
           | Some (Inl e, r) \<Rightarrow> read_loop fl sz j body (n + 1) r batch (seen + 1) (rejected + 1) out
           | Some (Inr row, r) \<Rightarrow>
               if int (length (batch @ [row])) \<ge> sz
               then read_loop fl sz j body (n + 1) r [] 0 0 (out @ [rows_chunk j (batch @ [row]) (seen + 1) rejected])
               else read_loop fl sz j body (n + 1) r (batch @ [row]) (seen + 1) rejected out))"

text \<open>The chunks one file sends when nothing is cancelled, and the error it ends with. \<open>None\<close> is not returning.\<close>

definition read_file :: "float_parser \<Rightarrow> fetcher \<Rightarrow> int \<Rightarrow> job \<Rightarrow> string \<Rightarrow> (chunk list \<times> read_error option) option" where
  "read_file fl f sz j validator =
     (case open_file f j validator of
        Unchanged \<Rightarrow> Some ([(blank_chunk j)\<lparr>KSkipped := True\<rparr>], None)
      | Absent \<Rightarrow> Some ([(blank_chunk j)\<lparr>KMissing := True\<rparr>], None)
      | OpenFailed \<Rightarrow> Some ([], Some CannotOpen)
      | Opened body current \<Rightarrow>
          (case body 0 of
             CsvRecord header \<Rightarrow>
               (case new_reader (SProfile (JSource j)) header of
                  Inl e \<Rightarrow> Some ([], Some BadHeader)
                | Inr r \<Rightarrow> map_option (\<lambda>cs. (cs @ [(blank_chunk j)\<lparr>KValidator := current\<rparr>], None))
                    (read_loop fl sz j body 1 r [] 0 0 []))
           | _ \<Rightarrow> Some ([], Some BadHeader)))"

section \<open>The writer\<close>

record run_stats =
  FilesRead :: nat
  FilesMissing :: nat
  FilesSkipped :: nat
  RowsSeen :: nat
  RowsWritten :: nat
  RowsRejected :: nat
  RowsCollapsed :: nat

definition no_stats :: run_stats where
  "no_stats = \<lparr>FilesRead = 0, FilesMissing = 0, FilesSkipped = 0, RowsSeen = 0, RowsWritten = 0, RowsRejected = 0, RowsCollapsed = 0\<rparr>"

type_synonym ledger = "(file_key \<times> (string \<times> nat \<times> nat)) list"

record 'db wstate =
  w_stats :: run_stats
  w_err :: "sql_error option"
  w_tally :: "(file_key \<times> (nat \<times> nat)) list"
  w_db :: 'db
  w_ledger :: ledger

type_synonym 'db batch_writer = "source \<Rightarrow> match_row list \<Rightarrow> 'db \<Rightarrow> sql_error + (batch_result \<times> 'db)"

definition put_ledger :: "file_key \<Rightarrow> string \<Rightarrow> nat \<times> nat \<Rightarrow> ledger \<Rightarrow> ledger" where
  "put_ledger k validator t l = put k (validator, t) l"

definition load_ledger :: "ledger \<Rightarrow> file_key \<rightharpoonup> string" where
  "load_ledger l = (\<lambda>k. map_option fst (map_of l k))"

text \<open>\<open>record\<close>; \<open>rec\<close> is which entries the ledger can store, and a failure only loses the shortcut.\<close>

definition record_file :: "(file_key \<Rightarrow> bool) \<Rightarrow> file_key \<Rightarrow> string \<Rightarrow> nat \<times> nat \<Rightarrow> ledger \<Rightarrow> ledger" where
  "record_file rec k validator t l =
     (if validator = [] \<or> \<not> rec k then l else put_ledger k validator t l)"

definition take_chunk :: "'db batch_writer \<Rightarrow> (file_key \<Rightarrow> bool) \<Rightarrow> chunk \<Rightarrow> 'db wstate \<Rightarrow> 'db wstate" where
  "take_chunk wr rec c s =
     (let s = s\<lparr>w_stats := (w_stats s)\<lparr>RowsSeen := RowsSeen (w_stats s) + KSeen c, RowsRejected := RowsRejected (w_stats s) + KRejected c\<rparr>\<rparr>
      in if KSkipped c then s\<lparr>w_stats := (w_stats s)\<lparr>FilesSkipped := FilesSkipped (w_stats s) + 1\<rparr>\<rparr>
      else if KMissing c then s\<lparr>w_stats := (w_stats s)\<lparr>FilesMissing := FilesMissing (w_stats s) + 1\<rparr>\<rparr>
      else
        let (seen, written) = (case map_of (w_tally s) (KKey c) of None \<Rightarrow> (0, 0) | Some t \<Rightarrow> t);
            s = s\<lparr>w_tally := put (KKey c) (seen + KSeen c, written) (w_tally s)\<rparr>
        in case KRows c of
          None \<Rightarrow>
            s\<lparr>w_stats := (w_stats s)\<lparr>FilesRead := FilesRead (w_stats s) + 1\<rparr>,
              w_ledger := (if w_err s = None then record_file rec (KKey c) (KValidator c) (seen + KSeen c, written) (w_ledger s) else w_ledger s),
              w_tally := filter (\<lambda>t. fst t \<noteq> KKey c) (w_tally s)\<rparr>
        | Some rows \<Rightarrow>
            if w_err s \<noteq> None then s
            else (case wr (KSource c) rows (w_db s) of
              Inl e \<Rightarrow> s\<lparr>w_err := Some e\<rparr>
            | Inr (res, db) \<Rightarrow>
                s\<lparr>w_db := db, w_tally := put (KKey c) (seen + KSeen c, written + RMatches res) (w_tally s),
                  w_stats := (w_stats s)\<lparr>RowsWritten := RowsWritten (w_stats s) + RMatches res,
                    RowsCollapsed := RowsCollapsed (w_stats s) + RCollapsed res\<rparr>\<rparr>))"

text \<open>A batch whose connection fails.\<close>

definition flaky :: "bool \<Rightarrow> 'db batch_writer \<Rightarrow> 'db batch_writer" where
  "flaky down wr = (if down then (\<lambda>_ _ _. Inl (Driver ''connection'')) else wr)"

section \<open>The goroutines\<close>

datatype worker = Idle | Busy job "chunk list" "read_error option" | Exited

record 'db pipe =
  p_todo :: "job list"
  p_workers :: "worker list"
  p_chan :: "chunk list"
  p_errs :: "read_error list"
  p_cancelled :: bool
  p_write :: "'db wstate"

definition start_pipe :: "job list \<Rightarrow> nat \<Rightarrow> 'db \<Rightarrow> ledger \<Rightarrow> 'db pipe" where
  "start_pipe jobs n db l =
     \<lparr>p_todo = jobs, p_workers = replicate n Idle, p_chan = [], p_errs = [], p_cancelled = False,
      p_write = \<lparr>w_stats = no_stats, w_err = None, w_tally = [], w_db = db, w_ledger = l\<rparr>\<rparr>"

text \<open>
  One step; the label is the chunk the writer took, if it did, and whether the connection failed it then. \<open>reads j\<close> is what \<open>readFile\<close> sends and returns for
  a job. The channel holds as many chunks as there are workers.
\<close>

inductive pipe_step :: "(job \<Rightarrow> (chunk list \<times> read_error option) option) \<Rightarrow> 'db batch_writer \<Rightarrow> (file_key \<Rightarrow> bool)
    \<Rightarrow> 'db pipe \<Rightarrow> (chunk \<times> bool) list \<Rightarrow> 'db pipe \<Rightarrow> bool"
  for reads :: "job \<Rightarrow> (chunk list \<times> read_error option) option" and wr :: "'db batch_writer" and rec :: "file_key \<Rightarrow> bool" where
  pipe_start: "i < length (p_workers s) \<Longrightarrow> p_workers s ! i = Idle \<Longrightarrow> p_todo s = j # js \<Longrightarrow> reads j = Some (cs, e) \<Longrightarrow>
    pipe_step reads wr rec s [] (s\<lparr>p_todo := js, p_workers := (p_workers s)[i := Busy j cs e]\<rparr>)"
| pipe_stop: "p_cancelled s \<Longrightarrow> p_todo s \<noteq> [] \<Longrightarrow> pipe_step reads wr rec s [] (s\<lparr>p_todo := []\<rparr>)"
| pipe_send: "i < length (p_workers s) \<Longrightarrow> p_workers s ! i = Busy j (c # cs) e \<Longrightarrow> length (p_chan s) < length (p_workers s) \<Longrightarrow>
    pipe_step reads wr rec s [] (s\<lparr>p_chan := p_chan s @ [c], p_workers := (p_workers s)[i := Busy j cs e]\<rparr>)"
| pipe_skip: "i < length (p_workers s) \<Longrightarrow> p_workers s ! i = Busy j (c # cs) e \<Longrightarrow> p_cancelled s \<Longrightarrow> KSkipped c \<or> KMissing c \<Longrightarrow>
    pipe_step reads wr rec s [] (s\<lparr>p_workers := (p_workers s)[i := Idle]\<rparr>)"
| pipe_abandon: "i < length (p_workers s) \<Longrightarrow> p_workers s ! i = Busy j (c # cs) e \<Longrightarrow> p_cancelled s \<Longrightarrow> \<not> KSkipped c \<Longrightarrow> \<not> KMissing c \<Longrightarrow>
    pipe_step reads wr rec s [] (s\<lparr>p_workers := (p_workers s)[i := Exited], p_errs := p_errs s @ [Cancelled]\<rparr>)"
| pipe_done: "i < length (p_workers s) \<Longrightarrow> p_workers s ! i = Busy j [] None \<Longrightarrow>
    pipe_step reads wr rec s [] (s\<lparr>p_workers := (p_workers s)[i := Idle]\<rparr>)"
| pipe_fail: "i < length (p_workers s) \<Longrightarrow> p_workers s ! i = Busy j [] (Some x) \<Longrightarrow>
    pipe_step reads wr rec s [] (s\<lparr>p_workers := (p_workers s)[i := Exited], p_errs := p_errs s @ [x]\<rparr>)"
| pipe_quit: "i < length (p_workers s) \<Longrightarrow> p_workers s ! i = Idle \<Longrightarrow> p_todo s = [] \<Longrightarrow>
    pipe_step reads wr rec s [] (s\<lparr>p_workers := (p_workers s)[i := Exited]\<rparr>)"
| pipe_cancel: "\<not> p_cancelled s \<Longrightarrow> pipe_step reads wr rec s [] (s\<lparr>p_cancelled := True\<rparr>)"
| pipe_take: "p_chan s = c # cs \<Longrightarrow>
    pipe_step reads wr rec s [(c, down)] (s\<lparr>p_chan := cs, p_write := take_chunk (flaky down wr) rec c (p_write s)\<rparr>)"

inductive pipe_run :: "(job \<Rightarrow> (chunk list \<times> read_error option) option) \<Rightarrow> 'db batch_writer \<Rightarrow> (file_key \<Rightarrow> bool)
    \<Rightarrow> 'db pipe \<Rightarrow> (chunk \<times> bool) list \<Rightarrow> 'db pipe \<Rightarrow> bool"
  for reads :: "job \<Rightarrow> (chunk list \<times> read_error option) option" and wr :: "'db batch_writer" and rec :: "file_key \<Rightarrow> bool" where
  here: "pipe_run reads wr rec s [] s"
| more: "pipe_run reads wr rec s ls t \<Longrightarrow> pipe_step reads wr rec t ms u \<Longrightarrow> pipe_run reads wr rec s (ls @ ms) u"

text \<open>The channel is closed and drained: the loop of the writer ends.\<close>

definition drained :: "'db pipe \<Rightarrow> bool" where
  "drained s \<longleftrightarrow> p_chan s = [] \<and> (\<forall>w \<in> set (p_workers s). w = Exited)"

datatype run_error = NothingSelected | LedgerFailed | WriteFailed sql_error | ReadFailed read_error | NothingFound nat nat

definition run_outcome :: "nat \<Rightarrow> 'db pipe \<Rightarrow> run_error option" where
  "run_outcome planned s =
     (case w_err (p_write s) of
        Some e \<Rightarrow> Some (WriteFailed e)
      | None \<Rightarrow> (case p_errs s of
          e # _ \<Rightarrow> Some (ReadFailed e)
        | [] \<Rightarrow>
            if FilesRead (w_stats (p_write s)) = 0 \<and> FilesSkipped (w_stats (p_write s)) = 0
            then Some (NothingFound planned (FilesMissing (w_stats (p_write s)))) else None))"

text \<open>What the ledger already holds, for a run that can resume; \<open>Inl\<close> when it cannot be read.\<close>

definition known_files :: "fetcher \<Rightarrow> options \<Rightarrow> sql_error + ledger \<Rightarrow> sql_error + (file_key \<rightharpoonup> string)" where
  "known_files f opt ledger =
     (if \<not> conditional f \<or> OForce opt then Inr (\<lambda>_. None)
      else case ledger of Inl e \<Rightarrow> Inl e | Inr l \<Rightarrow> Inr (load_ledger l))"

definition job_reads :: "float_parser \<Rightarrow> fetcher \<Rightarrow> options \<Rightarrow> (file_key \<rightharpoonup> string) \<Rightarrow> job
    \<Rightarrow> (chunk list \<times> read_error option) option" where
  "job_reads fl f opt known j =
     read_file fl f (batch_size_of opt) j (case known (job_key j) of None \<Rightarrow> [] | Some v \<Rightarrow> v)"

text \<open>A whole run: which outcomes it can have, with the state it leaves.\<close>

inductive run_pipeline :: "float_parser \<Rightarrow> int \<Rightarrow> fetcher \<Rightarrow> 'db batch_writer \<Rightarrow> (file_key \<Rightarrow> bool) \<Rightarrow> registry \<Rightarrow> options
    \<Rightarrow> 'db \<Rightarrow> ledger \<Rightarrow> run_error option \<Rightarrow> 'db pipe \<Rightarrow> bool"
  for fl :: float_parser and procs :: int and f :: fetcher and wr :: "'db batch_writer" and rec :: "file_key \<Rightarrow> bool"
    and g :: registry and opt :: options and db :: 'db and l :: ledger where
  none: "plan g opt = [] \<Longrightarrow> run_pipeline fl procs f wr rec g opt db l (Some NothingSelected) (start_pipe [] 0 db l)"
| unread: "plan g opt \<noteq> [] \<Longrightarrow> known_files f opt (Inl e) = Inl e' \<Longrightarrow>
    run_pipeline fl procs f wr rec g opt db l (Some LedgerFailed) (start_pipe [] 0 db l)"
| ran: "plan g opt \<noteq> [] \<Longrightarrow> known_files f opt (Inr l) = Inr known \<Longrightarrow>
    pipe_run (job_reads fl f opt known) wr rec (start_pipe (plan g opt) (nat (workers_of procs opt)) db l) ls s \<Longrightarrow> drained s \<Longrightarrow>
    run_pipeline fl procs f wr rec g opt db l (run_outcome (length (plan g opt)) s) s"

end
