(* ===== verification/PipelineFacts.thy ===== *)
theory PipelineFacts
  imports Pipeline IngestRowFacts
begin

text \<open>
  What a run of the pipeline guarantees under every interleaving: it ends, its counts balance, and a file it
  recorded in the ledger is a file whose every readable row is in the database.
\<close>

section \<open>Reading\<close>

text \<open>The rows a list of decoder results holds, the unreadable ones left out.\<close>

fun next_rows :: "float_parser \<Rightarrow> csv_read list \<Rightarrow> reader \<Rightarrow> match_row list option" where
  "next_rows fl [] r = Some []"
| "next_rows fl (CsvRecord rec # xs) r =
     (case reader_next fl rec r of
        None \<Rightarrow> None
      | Some (Inl e, r) \<Rightarrow> next_rows fl xs r
      | Some (Inr row, r) \<Rightarrow> map_option ((#) row) (next_rows fl xs r))"
| "next_rows fl (x # xs) r = next_rows fl xs r"

definition chunk_rows :: "chunk \<Rightarrow> match_row list" where
  "chunk_rows c = (case KRows c of None \<Rightarrow> [] | Some rows \<Rightarrow> rows)"

definition closing :: "chunk \<Rightarrow> bool" where
  "closing c \<longleftrightarrow> KRows c = None \<and> \<not> KSkipped c \<and> \<not> KMissing c"

definition chunk_ok :: "job \<Rightarrow> chunk \<Rightarrow> bool" where
  "chunk_ok j c \<longleftrightarrow> KKey c = job_key j \<and> KSource c = JSource j \<and> KSeen c = length (chunk_rows c) + KRejected c
     \<and> (KSkipped c \<or> KMissing c \<longrightarrow> KRows c = None) \<and> \<not> (KSkipped c \<and> KMissing c)"

definition batch_chunk :: "job \<Rightarrow> chunk \<Rightarrow> bool" where
  "batch_chunk j c \<longleftrightarrow> chunk_ok j c \<and> KRows c \<noteq> None"

lemma batch_rows_chunk: "batch_chunk j (rows_chunk j batch seen rejected) \<longleftrightarrow> seen = length batch + rejected"
  by (auto simp: batch_chunk_def chunk_ok_def rows_chunk_def blank_chunk_def chunk_rows_def)

lemma rows_rows_chunk: "chunk_rows (rows_chunk j batch seen rejected) = batch"
  by (simp add: chunk_rows_def rows_chunk_def)

lemma seen_rows_chunk: "KSeen (rows_chunk j batch seen rejected) = seen"
  by (simp add: rows_chunk_def)

definition read_up_to :: "float_parser \<Rightarrow> (nat \<Rightarrow> csv_read) \<Rightarrow> nat \<Rightarrow> reader \<Rightarrow> nat \<Rightarrow> match_row list \<Rightarrow> bool" where
  "read_up_to fl body n r m rows \<longleftrightarrow>
     body (n + m) = CsvEnd \<and> (\<forall>i < m. body (n + i) \<noteq> CsvEnd) \<and> next_rows fl (map body [n..<n + m]) r = Some rows"

lemma read_up_to_Suc:
  assumes "read_up_to fl body (n + 1) r' m rows" and "body n \<noteq> CsvEnd"
    and "next_rows fl (body n # map body [Suc n..<Suc n + m]) r = Some rows'"
  shows "read_up_to fl body n r (Suc m) rows'"
proof -
  have "body (n + i) \<noteq> CsvEnd" if "i < Suc m" for i
    using assms(1,2) that by (cases i) (auto simp: read_up_to_def)
  moreover have "[n..<n + Suc m] = n # [Suc n..<Suc n + m]" by (simp add: upt_conv_Cons del: upt_Suc)
  ultimately show ?thesis using assms(1,3) unfolding read_up_to_def by (simp del: upt_Suc)
qed

text \<open>What the loop of \<open>readFile\<close> sent when it ends: every readable row, once, in the order of the file.\<close>

lemma read_loop_result:
  "read_loop fl sz j body n r batch seen rejected out = Some cs \<Longrightarrow>
    \<forall>c \<in> set out. batch_chunk j c \<Longrightarrow> seen = length batch + rejected \<Longrightarrow>
    (\<forall>c \<in> set cs. batch_chunk j c) \<and>
    (\<exists>m rows. read_up_to fl body n r m rows
      \<and> concat (map chunk_rows cs) = concat (map chunk_rows out) @ batch @ rows
      \<and> sum_list (map KSeen cs) = sum_list (map KSeen out) + seen + m)"
proof (induction rule: read_loop.raw_induct [rotated 1, consumes 1])
  case (1 loop fl sz j body n r batch seen rejected out cs)
  note IH = 1(1) and run = 1(2) and ok = 1(3) and cnt = 1(4)
  show ?case
  proof (cases "body n")
    case CsvEnd
    then have cs: "cs = (if batch \<noteq> [] \<or> seen > 0 then out @ [rows_chunk j batch seen rejected] else out)" using run by simp
    have "read_up_to fl body n r 0 []" using CsvEnd by (simp add: read_up_to_def)
    moreover have "concat (map chunk_rows cs) = concat (map chunk_rows out) @ batch @ []"
      using cs by (auto simp: rows_rows_chunk)
    moreover have "sum_list (map KSeen cs) = sum_list (map KSeen out) + seen + 0" using cs by (auto simp: seen_rows_chunk)
    moreover have "\<forall>c \<in> set cs. batch_chunk j c" using cs ok cnt by (auto simp: batch_rows_chunk)
    ultimately show ?thesis by blast
  next
    case CsvError
    then have "loop fl sz j body (n + 1) r batch (seen + 1) (rejected + 1) out = Some cs" using run by simp
    from IH [OF this ok] cnt obtain m rows where h: "\<forall>c \<in> set cs. batch_chunk j c" "read_up_to fl body (n + 1) r m rows"
      "concat (map chunk_rows cs) = concat (map chunk_rows out) @ batch @ rows"
      "sum_list (map KSeen cs) = sum_list (map KSeen out) + (seen + 1) + m" by auto
    have "read_up_to fl body n r (Suc m) rows"
      by (rule read_up_to_Suc [OF h(2)]) (use CsvError h(2) in \<open>simp_all add: read_up_to_def\<close>)
    then show ?thesis using h by (intro conjI exI [of _ "Suc m"] exI [of _ rows]) simp_all
  next
    case (CsvRecord rec)
    obtain x r1 where nx: "reader_next fl rec r = Some (x, r1)" using run CsvRecord by (auto split: option.splits)
    show ?thesis
    proof (cases x)
      case (Inl e)
      then have "loop fl sz j body (n + 1) r1 batch (seen + 1) (rejected + 1) out = Some cs" using run CsvRecord nx by simp
      from IH [OF this ok] cnt obtain m rows where h: "\<forall>c \<in> set cs. batch_chunk j c" "read_up_to fl body (n + 1) r1 m rows"
        "concat (map chunk_rows cs) = concat (map chunk_rows out) @ batch @ rows"
        "sum_list (map KSeen cs) = sum_list (map KSeen out) + (seen + 1) + m" by auto
      have "read_up_to fl body n r (Suc m) rows"
        by (rule read_up_to_Suc [OF h(2)]) (use CsvRecord nx Inl h(2) in \<open>simp_all add: read_up_to_def\<close>)
      then show ?thesis using h by (intro conjI exI [of _ "Suc m"] exI [of _ rows]) simp_all
    next
      case (Inr row)
      have up: "read_up_to fl body n r (Suc m) (row # rows)" if h: "read_up_to fl body (n + 1) r1 m rows" for m rows
        by (rule read_up_to_Suc [OF h]) (use CsvRecord nx Inr h in \<open>simp_all add: read_up_to_def\<close>)
      show ?thesis
      proof (cases "int (length (batch @ [row])) \<ge> sz")
        case True
        let ?c = "rows_chunk j (batch @ [row]) (seen + 1) rejected"
        have l: "loop fl sz j body (n + 1) r1 [] 0 0 (out @ [?c]) = Some cs"
          using run CsvRecord nx Inr True by simp
        have o2: "\<forall>c \<in> set (out @ [?c]). batch_chunk j c" using ok cnt by (auto simp: batch_rows_chunk)
        from IH [OF l o2] obtain m rows where h: "\<forall>c \<in> set cs. batch_chunk j c" "read_up_to fl body (n + 1) r1 m rows"
          "concat (map chunk_rows cs) = concat (map chunk_rows (out @ [?c])) @ [] @ rows"
          "sum_list (map KSeen cs) = sum_list (map KSeen (out @ [?c])) + 0 + m" by auto
        then show ?thesis using up [OF h(2)]
          by (intro conjI exI [of _ "Suc m"] exI [of _ "row # rows"]) (simp_all add: rows_rows_chunk seen_rows_chunk)
      next
        case False
        then have "loop fl sz j body (n + 1) r1 (batch @ [row]) (seen + 1) rejected out = Some cs"
          using run CsvRecord nx Inr by simp
        from IH [OF this ok] cnt obtain m rows where h: "\<forall>c \<in> set cs. batch_chunk j c" "read_up_to fl body (n + 1) r1 m rows"
          "concat (map chunk_rows cs) = concat (map chunk_rows out) @ (batch @ [row]) @ rows"
          "sum_list (map KSeen cs) = sum_list (map KSeen out) + (seen + 1) + m" by auto
        then show ?thesis using up [OF h(2)]
          by (intro conjI exI [of _ "Suc m"] exI [of _ "row # rows"]) simp_all
      qed
    qed
  qed
qed

text \<open>The chunks of one file: batches, then at most one marker, which says how the file ended.\<close>

definition file_chunks :: "job \<Rightarrow> chunk list \<Rightarrow> read_error option \<Rightarrow> bool" where
  "file_chunks j cs e \<longleftrightarrow> (\<forall>c \<in> set cs. chunk_ok j c) \<and> (\<forall>c \<in> set (butlast cs). KRows c \<noteq> None)
     \<and> (if e = None then cs \<noteq> [] \<and> KRows (last cs) = None else cs = [])"

lemma chunk_ok_marker:
  "chunk_ok j (blank_chunk j)" "chunk_ok j ((blank_chunk j)\<lparr>KSkipped := True\<rparr>)" "chunk_ok j ((blank_chunk j)\<lparr>KMissing := True\<rparr>)"
  "chunk_ok j ((blank_chunk j)\<lparr>KValidator := v\<rparr>)"
  by (simp_all add: chunk_ok_def blank_chunk_def chunk_rows_def)

text \<open>A file read to its end: the body ends, and the rows before the end are the readable ones of its records.\<close>

definition whole_file :: "float_parser \<Rightarrow> job \<Rightarrow> (nat \<Rightarrow> csv_read) \<Rightarrow> match_row list \<Rightarrow> bool" where
  "whole_file fl j body rows \<longleftrightarrow>
     (\<exists>header r m. body 0 = CsvRecord header \<and> new_reader (SProfile (JSource j)) header = Inr r \<and> read_up_to fl body 1 r m rows)"

lemma read_file_facts:
  assumes "read_file fl f sz j validator = Some (cs, e)"
  shows "file_chunks j cs e \<and> (cs \<noteq> [] \<and> closing (last cs) \<longrightarrow>
    (\<exists>body. open_file f j validator = Opened body (KValidator (last cs)) \<and> whole_file fl j body (concat (map chunk_rows cs))))"
proof (cases "open_file f j validator")
  case (Opened body current)
  show ?thesis
  proof (cases "body 0")
    case (CsvRecord header)
    show ?thesis
    proof (cases "new_reader (SProfile (JSource j)) header")
      case (Inl x)
      then show ?thesis using assms Opened CsvRecord by (auto simp: read_file_def file_chunks_def)
    next
      case (Inr r)
      then obtain bs where l: "read_loop fl sz j body 1 r [] 0 0 [] = Some bs"
        and cs: "cs = bs @ [(blank_chunk j)\<lparr>KValidator := current\<rparr>]" and e: "e = None"
        using assms Opened CsvRecord by (auto simp: read_file_def)
      obtain m rows where b: "\<forall>c \<in> set bs. batch_chunk j c" and u: "read_up_to fl body 1 r m rows"
        and rs: "concat (map chunk_rows bs) = rows"
        using read_loop_result [OF l] by auto
      have "chunk_rows ((blank_chunk j)\<lparr>KValidator := current\<rparr>) = []" by (simp add: chunk_rows_def blank_chunk_def)
      then have "whole_file fl j body (concat (map chunk_rows cs))"
        unfolding whole_file_def using CsvRecord Inr u rs by (auto simp: cs)
      moreover have "file_chunks j cs e"
        using b chunk_ok_marker(4) by (auto simp: file_chunks_def cs e batch_chunk_def blank_chunk_def)
      ultimately show ?thesis using Opened by (simp add: cs)
    qed
  qed (use assms Opened in \<open>auto simp: read_file_def file_chunks_def\<close>)
qed (use assms chunk_ok_marker in \<open>auto simp: read_file_def file_chunks_def closing_def blank_chunk_def\<close>)

text \<open>A body whose every further call fails is never finished with: the call does not return.\<close>

lemma failing_body_never_ends:
  assumes "\<forall>i \<ge> n. body i = CsvError"
  shows "read_loop fl sz j body n r [] 0 0 [] = None"
proof (cases "read_loop fl sz j body n r [] 0 0 []")
  case (Some cs)
  from read_loop_result [OF this] obtain m where "body (n + m) = CsvEnd" by (auto simp: read_up_to_def)
  then show ?thesis using assms by simp
qed

section \<open>The writer\<close>

definition balanced :: "run_stats \<Rightarrow> bool" where
  "balanced st \<longleftrightarrow> RowsSeen st = RowsWritten st + RowsRejected st + RowsCollapsed st"

definition files_done :: "run_stats \<Rightarrow> nat" where
  "files_done st = FilesRead st + FilesMissing st + FilesSkipped st"

definition take_all :: "'db batch_writer \<Rightarrow> (file_key \<Rightarrow> bool) \<Rightarrow> (chunk \<times> bool) list \<Rightarrow> 'db wstate \<Rightarrow> 'db wstate" where
  "take_all wr rec ls w = fold (\<lambda>(c, down). take_chunk (flaky down wr) rec c) ls w"

lemma take_all_simps [simp]:
  "take_all wr rec [] w = w"
  "take_all wr rec (ls @ [(c, down)]) w = take_chunk (flaky down wr) rec c (take_all wr rec ls w)"
  by (simp_all add: take_all_def)

text \<open>
  What the pipeline relies on of the store it writes to: a batch that is written keeps the store's invariant, is
  counted in full, is held afterwards, and takes away nothing that was held.
\<close>

locale batch_store =
  fixes wr :: "'db batch_writer" and ok :: "'db \<Rightarrow> bool" and held :: "source \<Rightarrow> match_row list \<Rightarrow> 'db \<Rightarrow> bool"
  assumes wr_ok: "ok db \<Longrightarrow> wr so rows db = Inr (res, db') \<Longrightarrow> ok db'"
    and wr_count: "ok db \<Longrightarrow> wr so rows db = Inr (res, db') \<Longrightarrow> RMatches res + RCollapsed res = length rows"
    and wr_held: "ok db \<Longrightarrow> wr so rows db = Inr (res, db') \<Longrightarrow> held so rows db'"
    and wr_keeps: "ok db \<Longrightarrow> wr so rows db = Inr (res, db') \<Longrightarrow> held so' rows' db \<Longrightarrow> held so' rows' db'"
begin

lemma flaky_Inr: "flaky down wr so rows db = Inr x \<longleftrightarrow> \<not> down \<and> wr so rows db = Inr x"
  by (simp add: flaky_def)

lemma take_db:
  "w_db (take_chunk (flaky down wr) rec c w) = w_db w \<or>
   (\<exists>rows res. wr (KSource c) rows (w_db w) = Inr (res, w_db (take_chunk (flaky down wr) rec c w)))"
  by (auto simp: take_chunk_def Let_def flaky_def split: option.splits sum.splits if_splits prod.splits)

lemma take_keeps:
  assumes "ok (w_db w)"
  shows "ok (w_db (take_chunk (flaky down wr) rec c w))"
    and "held so rows (w_db w) \<Longrightarrow> held so rows (w_db (take_chunk (flaky down wr) rec c w))"
proof -
  let ?w = "take_chunk (flaky down wr) rec c w"
  show "ok (w_db ?w)"
    using take_db [of down rec c w] assms wr_ok by metis
  show "held so rows (w_db ?w)" if "held so rows (w_db w)"
    using take_db [of down rec c w] assms that wr_keeps by metis
qed

lemma take_err: "w_err (take_chunk (flaky down wr) rec c w) = None \<Longrightarrow> w_err w = None"
  by (auto simp: take_chunk_def Let_def split: option.splits sum.splits if_splits prod.splits)

lemma take_files:
  assumes "chunk_ok j c"
  shows "files_done (w_stats (take_chunk (flaky down wr) rec c w)) = files_done (w_stats w) + (if KRows c = None then 1 else 0)"
  using assms by (auto simp: take_chunk_def files_done_def chunk_ok_def Let_def split: option.splits sum.splits prod.splits)

lemma take_batch:
  assumes ok: "ok (w_db w)" and c: "chunk_ok j c" and e: "w_err (take_chunk (flaky down wr) rec c w) = None"
  shows "(balanced (w_stats w) \<longrightarrow> balanced (w_stats (take_chunk (flaky down wr) rec c w)))
    \<and> (KRows c \<noteq> None \<longrightarrow> held (JSource j) (chunk_rows c) (w_db (take_chunk (flaky down wr) rec c w)))"
proof (cases "KRows c")
  case None
  have "KSeen c = KRejected c" using c None by (simp add: chunk_ok_def chunk_rows_def)
  then show ?thesis using None by (auto simp: take_chunk_def balanced_def Let_def split: option.splits prod.splits)
next
  case (Some rows)
  have n: "\<not> KSkipped c" "\<not> KMissing c" and so: "KSource c = JSource j" and seen: "KSeen c = length rows + KRejected c"
    using c Some by (auto simp: chunk_ok_def chunk_rows_def)
  have e0: "w_err w = None" using e by (rule take_err)
  obtain res db where w: "wr (JSource j) rows (w_db w) = Inr (res, db)" and up: "\<not> down"
    using e e0 Some n so by (auto simp: take_chunk_def flaky_def Let_def split: option.splits sum.splits if_splits prod.splits)
  have "w_db (take_chunk (flaky down wr) rec c w) = db"
    using w up e0 Some n so by (auto simp: take_chunk_def flaky_def Let_def split: option.splits prod.splits)
  moreover have "RMatches res + RCollapsed res = length rows" by (rule wr_count [OF ok w])
  then have "balanced (w_stats w) \<longrightarrow> balanced (w_stats (take_chunk (flaky down wr) rec c w))"
    using w up e0 Some n so seen by (auto simp: take_chunk_def flaky_def balanced_def Let_def split: option.splits prod.splits)
  ultimately show ?thesis using wr_held [OF ok w] Some by (simp add: chunk_rows_def)
qed

lemma all_ok: "ok (w_db w) \<Longrightarrow> ok (w_db (take_all wr rec ls w))"
  by (induction ls rule: rev_induct) (auto simp: take_keeps)

lemma all_keep:
  assumes "ok (w_db w)" and "held so rows (w_db (take_all wr rec ls w))"
  shows "held so rows (w_db (take_all wr rec (ls @ ms) w))"
proof (induction ms rule: rev_induct)
  case (snoc x ms)
  obtain c down where x: "x = (c, down)" by (cases x)
  have "take_all wr rec (ls @ ms @ [x]) w = take_chunk (flaky down wr) rec c (take_all wr rec (ls @ ms) w)"
    using take_all_simps(2) [of wr rec "ls @ ms" c down w] by (simp add: x)
  then show ?case using take_keeps(2) [OF all_ok [OF assms(1)] snoc] by simp
qed (use assms in simp)

lemma all_held:
  assumes "ok (w_db w)" and "\<forall>x \<in> set ls. \<exists>j. chunk_ok j (fst x)" and "w_err (take_all wr rec ls w) = None"
  shows "(balanced (w_stats w) \<longrightarrow> balanced (w_stats (take_all wr rec ls w)))
    \<and> (\<forall>x \<in> set ls. KRows (fst x) \<noteq> None \<longrightarrow> held (KSource (fst x)) (chunk_rows (fst x)) (w_db (take_all wr rec ls w)))"
  using assms(2,3)
proof (induction ls rule: rev_induct)
  case (snoc x ls)
  obtain c down where x: "x = (c, down)" by (cases x)
  obtain j where j: "chunk_ok j c" using snoc.prems(1) x by auto
  have err: "w_err (take_chunk (flaky down wr) rec c (take_all wr rec ls w)) = None" using snoc.prems(2) by (simp add: x)
  from take_err [OF this] snoc have IH: "balanced (w_stats w) \<longrightarrow> balanced (w_stats (take_all wr rec ls w))"
    "\<forall>x \<in> set ls. KRows (fst x) \<noteq> None \<longrightarrow> held (KSource (fst x)) (chunk_rows (fst x)) (w_db (take_all wr rec ls w))" by auto
  note okl = all_ok [OF assms(1)]
  have so: "KSource c = JSource j" using j by (simp add: chunk_ok_def)
  show ?case
    using IH take_batch [OF okl j err] take_keeps(2) [OF okl] unfolding x take_all_simps by (auto simp: so)
qed simp

lemma all_files:
  "\<forall>x \<in> set ls. \<exists>j. chunk_ok j (fst x) \<Longrightarrow>
    files_done (w_stats (take_all wr rec ls w)) = files_done (w_stats w) + length (filter (\<lambda>x. KRows (fst x) = None) ls)"
proof (induction ls rule: rev_induct)
  case (snoc x ls)
  obtain c down where x: "x = (c, down)" by (cases x)
  obtain j where "chunk_ok j c" using snoc.prems x by auto
  then show ?case using snoc take_files [of j c down rec] by (simp add: x)
qed simp

end

text \<open>An entry the run changed is one it recorded, at the closing chunk of that file and with nothing failed before.\<close>

lemma take_ledger:
  "w_ledger (take_chunk wr rec c w) = w_ledger w \<or>
    closing c \<and> w_err w = None \<and> (\<exists>t. w_ledger (take_chunk wr rec c w) = put (KKey c) (KValidator c, t) (w_ledger w))"
  by (auto simp: take_chunk_def record_file_def put_ledger_def closing_def Let_def split: option.splits sum.splits prod.splits)

lemma recorded_split:
  "map_of (w_ledger (take_all wr rec ls w)) k \<noteq> map_of (w_ledger w) k \<Longrightarrow>
    \<exists>l1 c down l2 t. ls = l1 @ (c, down) # l2 \<and> KKey c = k \<and> closing c \<and> w_err (take_all wr rec l1 w) = None
      \<and> map_of (w_ledger (take_all wr rec ls w)) k = Some (KValidator c, t)"
proof (induction ls rule: rev_induct)
  case (snoc x ls)
  obtain c down where x: "x = (c, down)" by (cases x)
  let ?w = "take_all wr rec ls w"
  have step: "take_all wr rec (ls @ [x]) w = take_chunk (flaky down wr) rec c ?w" by (simp add: x)
  show ?case
  proof (cases "map_of (w_ledger (take_chunk (flaky down wr) rec c ?w)) k = map_of (w_ledger ?w) k")
    case True
    then have "map_of (w_ledger ?w) k \<noteq> map_of (w_ledger w) k" using snoc.prems step by simp
    from snoc.IH [OF this] obtain l1 c' down' l2 t where "ls = l1 @ (c', down') # l2" "KKey c' = k" "closing c'"
      "w_err (take_all wr rec l1 w) = None" "map_of (w_ledger ?w) k = Some (KValidator c', t)" by blast
    then show ?thesis using True step by (intro exI [of _ l1] exI [of _ c'] exI [of _ down'] exI [of _ "l2 @ [x]"] exI [of _ t]) simp
  next
    case False
    then obtain t where c: "closing c" "w_err ?w = None"
      and l: "w_ledger (take_chunk (flaky down wr) rec c ?w) = put (KKey c) (KValidator c, t) (w_ledger ?w)"
      using take_ledger [of "flaky down wr" rec c ?w] by auto
    have "KKey c = k" using False l by (auto split: if_splits)
    then show ?thesis using c l step x
      by (intro exI [of _ ls] exI [of _ c] exI [of _ down] exI [of _ "[]"] exI [of _ t]) simp
  qed
qed simp

section \<open>The goroutines\<close>

abbreviation of_job :: "job \<Rightarrow> chunk list \<Rightarrow> chunk list" where
  "of_job j xs \<equiv> filter (\<lambda>c. KKey c = job_key j) xs"

text \<open>
  The chunks sent so far, in the order the writer takes them. A file not started has sent nothing, a file being read
  has sent what its worker has not left, and every file has sent a first part of its chunks.
\<close>

definition pipe_inv :: "(job \<Rightarrow> (chunk list \<times> read_error option) option) \<Rightarrow> job list \<Rightarrow> chunk list \<Rightarrow> 'db pipe \<Rightarrow> bool" where
  "pipe_inv reads jobs xs s \<longleftrightarrow>
     set (p_todo s) \<subseteq> set jobs \<and> distinct (p_todo s)
     \<and> (\<forall>i < length (p_workers s). \<forall>j cs e. p_workers s ! i = Busy j cs e \<longrightarrow>
          j \<in> set jobs \<and> j \<notin> set (p_todo s) \<and> reads j = Some (of_job j xs @ cs, e))
     \<and> (\<forall>i < length (p_workers s). \<forall>i' < length (p_workers s). \<forall>j cs e cs' e'.
          p_workers s ! i = Busy j cs e \<longrightarrow> p_workers s ! i' = Busy j cs' e' \<longrightarrow> i = i')
     \<and> (\<forall>j \<in> set (p_todo s). of_job j xs = [])
     \<and> (\<forall>j \<in> set jobs. of_job j xs = [] \<or> (\<exists>r e. reads j = Some (of_job j xs @ r, e)))
     \<and> (\<forall>c \<in> set xs. \<exists>j \<in> set jobs. chunk_ok j c)"

definition reads_files :: "(job \<Rightarrow> (chunk list \<times> read_error option) option) \<Rightarrow> job list \<Rightarrow> bool" where
  "reads_files reads jobs \<longleftrightarrow> distinct (map job_key jobs)
     \<and> (\<forall>j \<in> set jobs. \<forall>cs e. reads j = Some (cs, e) \<longrightarrow> file_chunks j cs e)"

lemma pipe_step_inv:
  assumes "pipe_step reads wr rec s ms s'" and rf: "reads_files reads jobs"
    and inv: "pipe_inv reads jobs (map fst ls @ p_chan s) s"
  shows "pipe_inv reads jobs (map fst (ls @ ms) @ p_chan s') s'"
  using assms(1)
proof cases
  case (pipe_start i j js cs e)
  have j: "j \<in> set jobs" "of_job j (map fst ls @ p_chan s) = []" "j \<notin> set js" "distinct js" "set js \<subseteq> set jobs"
    using inv pipe_start(5) unfolding pipe_inv_def by auto
  have nb: "p_workers s ! i' \<noteq> Busy j cs' e'" if "i' < length (p_workers s)" for i' cs' e'
    using inv that pipe_start(5) unfolding pipe_inv_def by fastforce
  show ?thesis
    unfolding pipe_inv_def
  proof (intro conjI allI impI)
    show "set (p_todo s') \<subseteq> set jobs" "distinct (p_todo s')" using j pipe_start by simp_all
  next
    fix i' k cs' e' assume i': "i' < length (p_workers s')" "p_workers s' ! i' = Busy k cs' e'"
    have "k \<in> set jobs \<and> k \<notin> set js \<and> reads k = Some (of_job k (map fst ls @ p_chan s) @ cs', e')"
    proof (cases "i' = i")
      case True
      then show ?thesis using i' pipe_start j by simp
    next
      case False
      then show ?thesis using i' inv pipe_start unfolding pipe_inv_def by auto
    qed
    then show "k \<in> set jobs" "k \<notin> set (p_todo s')" "reads k = Some (of_job k (map fst (ls @ ms) @ p_chan s') @ cs', e')"
      using pipe_start by simp_all
  next
    fix i1 i2 k cs1 e1 cs2 e2
    assume "i1 < length (p_workers s')" "i2 < length (p_workers s')" "p_workers s' ! i1 = Busy k cs1 e1" "p_workers s' ! i2 = Busy k cs2 e2"
    then show "i1 = i2"
      using inv nb pipe_start unfolding pipe_inv_def by (simp add: nth_list_update split: if_splits)
  qed (use inv j pipe_start in \<open>auto simp: pipe_inv_def\<close>)
next
  case (pipe_send i j c cs e)
  let ?xs = "map fst ls @ p_chan s"
  have j: "j \<in> set jobs" "j \<notin> set (p_todo s)" and r: "reads j = Some (of_job j ?xs @ c # cs, e)"
    using inv pipe_send(3,4) unfolding pipe_inv_def by auto
  have c: "chunk_ok j c" using rf j r unfolding reads_files_def file_chunks_def by fastforce
  have own: "KKey c = job_key j" using c by (simp add: chunk_ok_def)
  have other: "KKey c \<noteq> job_key k" if "k \<in> set jobs" "k \<noteq> j" for k
    using rf that j(1) own by (auto simp: reads_files_def distinct_map dest: inj_onD)
  have sent: "of_job k (?xs @ [c]) = (if k = j then of_job j ?xs @ [c] else of_job k ?xs)" if "k \<in> set jobs" for k
    using other [OF that] own by auto
  have xs': "map fst (ls @ ms) @ p_chan s' = ?xs @ [c]" using pipe_send by simp
  have w': "length (p_workers s') = length (p_workers s)" "p_todo s' = p_todo s"
    "\<And>i'. i' < length (p_workers s) \<Longrightarrow> p_workers s' ! i' = (if i' = i then Busy j cs e else p_workers s ! i')"
    using pipe_send by (auto simp: nth_list_update)
  show ?thesis
    unfolding pipe_inv_def xs'
  proof (intro conjI allI impI ballI)
    show "set (p_todo s') \<subseteq> set jobs" "distinct (p_todo s')" using inv w'(2) by (simp_all add: pipe_inv_def)
  next
    fix i' k cs' e' assume i': "i' < length (p_workers s')" "p_workers s' ! i' = Busy k cs' e'"
    have "k \<in> set jobs \<and> k \<notin> set (p_todo s) \<and> reads k = Some (of_job k (?xs @ [c]) @ cs', e')"
    proof (cases "i' = i")
      case True
      then show ?thesis using i' w' j r sent [OF j(1)] by simp
    next
      case False
      then have b: "p_workers s ! i' = Busy k cs' e'" "i' < length (p_workers s)" using i' w' by simp_all
      then have k: "k \<in> set jobs" "k \<notin> set (p_todo s)" "reads k = Some (of_job k ?xs @ cs', e')"
        using inv unfolding pipe_inv_def by auto
      have "k \<noteq> j" using b False inv pipe_send(3,4) unfolding pipe_inv_def by blast
      then show ?thesis using k sent [OF k(1)] by simp
    qed
    then show "k \<in> set jobs" "k \<notin> set (p_todo s')" "reads k = Some (of_job k (?xs @ [c]) @ cs', e')" using w'(2) by simp_all
  next
    fix i1 i2 k cs1 e1 cs2 e2
    assume "i1 < length (p_workers s')" "i2 < length (p_workers s')" "p_workers s' ! i1 = Busy k cs1 e1" "p_workers s' ! i2 = Busy k cs2 e2"
    then have "\<exists>x y. p_workers s ! i1 = Busy k x y" "\<exists>x y. p_workers s ! i2 = Busy k x y"
      "i1 < length (p_workers s)" "i2 < length (p_workers s)"
      using w' pipe_send(4) by (auto split: if_splits)
    then show "i1 = i2" using inv unfolding pipe_inv_def by blast
  next
    fix k assume "k \<in> set (p_todo s')"
    then have k: "k \<in> set jobs" "k \<noteq> j" "of_job k ?xs = []" using inv w'(2) j(2) unfolding pipe_inv_def by auto
    show "of_job k (?xs @ [c]) = []" unfolding sent [OF k(1)] using k by simp
  next
    fix k assume k: "k \<in> set jobs"
    then have "of_job k ?xs = [] \<or> (\<exists>r e. reads k = Some (of_job k ?xs @ r, e))" using inv unfolding pipe_inv_def by blast
    then show "of_job k (?xs @ [c]) = [] \<or> (\<exists>r e. reads k = Some (of_job k (?xs @ [c]) @ r, e))"
      unfolding sent [OF k] using r by auto
  next
    fix d assume "d \<in> set (?xs @ [c])"
    then show "\<exists>j \<in> set jobs. chunk_ok j d" using inv c j(1) unfolding pipe_inv_def by auto
  qed
qed (use inv in \<open>auto simp: pipe_inv_def nth_list_update split: if_splits\<close>)

lemma pipe_step_write: "pipe_step reads wr rec s ms s' \<Longrightarrow> p_write s' = take_all wr rec ms (p_write s)"
  by (induction rule: pipe_step.induct) (auto simp: take_all_def)

lemma pipe_start_inv: "reads_files reads jobs \<Longrightarrow> pipe_inv reads jobs [] (start_pipe jobs n db l)"
  by (auto simp: pipe_inv_def reads_files_def start_pipe_def distinct_map)

lemma pipe_run_inv:
  assumes "pipe_run reads wr rec (start_pipe jobs n db l) ls s" and rf: "reads_files reads jobs"
  shows "pipe_inv reads jobs (map fst ls @ p_chan s) s
    \<and> p_write s = take_all wr rec ls (p_write (start_pipe jobs n db l))"
  using assms(1)
proof (induction "start_pipe jobs n db l" ls s rule: pipe_run.induct)
  case here
  then show ?case using pipe_start_inv [OF rf, of n db l] by (simp add: start_pipe_def)
next
  case (more ls t ms u)
  then show ?case
    using pipe_step_inv [OF more(3) rf] pipe_step_write [OF more(3)] by (simp add: take_all_def)
qed

subsection \<open>Every file is accounted for\<close>

definition end_marks :: "chunk list \<Rightarrow> nat" where
  "end_marks xs = length (filter (\<lambda>c. KRows c = None) xs)"

definition worker_due :: "worker \<Rightarrow> nat" where
  "worker_due w = (case w of Busy j cs e \<Rightarrow> if e = None then end_marks cs else 1 | _ \<Rightarrow> 0)"

definition files_due :: "chunk list \<Rightarrow> 'db pipe \<Rightarrow> nat" where
  "files_due xs s = end_marks xs + sum_list (map worker_due (p_workers s)) + length (p_todo s)"

lemma end_marks_append [simp]: "end_marks (xs @ ys) = end_marks xs + end_marks ys"
  by (simp add: end_marks_def)

lemma end_marks_simps [simp]: "end_marks [] = 0" "end_marks (c # cs) = (if KRows c = None then 1 else 0) + end_marks cs"
  by (simp_all add: end_marks_def)

lemma end_marks_file:
  assumes "file_chunks j cs None"
  shows "end_marks cs = 1"
proof -
  have ne: "cs \<noteq> []" and m: "KRows (last cs) = None" and b: "\<forall>c \<in> set (butlast cs). KRows c \<noteq> None"
    using assms by (simp_all add: file_chunks_def)
  have "end_marks (butlast cs) = 0" unfolding end_marks_def using b by (simp add: filter_empty_conv)
  then have "end_marks (butlast cs @ [last cs]) = 1" using m by simp
  then show ?thesis using ne by simp
qed

lemma due_update:
  assumes "i < length ws"
  shows "sum_list (map worker_due (ws[i := w])) + worker_due (ws ! i) = sum_list (map worker_due ws) + worker_due w"
  using assms by (induction ws arbitrary: i) (auto split: nat.split simp: nth_Cons' less_Suc_eq_0_disj)

lemma due_at: "i < length ws \<Longrightarrow> worker_due (ws ! i) \<le> sum_list (map worker_due ws)"
  by (induction ws arbitrary: i) (auto simp: less_Suc_eq_0_disj intro: trans_le_add2)

lemma pipe_step_due:
  assumes "pipe_step reads wr rec s ms s'" and rf: "reads_files reads jobs"
    and inv: "pipe_inv reads jobs (map fst ls @ p_chan s) s" and good: "\<not> p_cancelled s'" "p_errs s' = []"
  shows "\<not> p_cancelled s \<and> p_errs s = []
    \<and> files_due (map fst (ls @ ms) @ p_chan s') s' = files_due (map fst ls @ p_chan s) s"
  using assms(1)
proof cases
  case (pipe_start i j js cs e)
  have "j \<in> set jobs" using inv pipe_start(5) by (auto simp: pipe_inv_def)
  then have f: "file_chunks j cs e" using rf pipe_start(6) by (auto simp: reads_files_def)
  have "worker_due (Busy j cs e) = 1" using f end_marks_file by (cases e) (auto simp: worker_due_def)
  then show ?thesis
    using due_update [OF pipe_start(3), of "Busy j cs e"] pipe_start good by (simp add: files_due_def worker_due_def)
next
  case (pipe_send i j c cs e)
  have "j \<in> set jobs" and r: "reads j = Some (of_job j (map fst ls @ p_chan s) @ c # cs, e)"
    using inv pipe_send(3,4) unfolding pipe_inv_def by auto
  then have "file_chunks j (of_job j (map fst ls @ p_chan s) @ c # cs) e" using rf by (auto simp: reads_files_def)
  then have "e = None" by (auto simp: file_chunks_def split: if_splits)
  then show ?thesis
    using due_update [OF pipe_send(3), of "Busy j cs e"] pipe_send good by (simp add: files_due_def worker_due_def)
next
  case (pipe_done i j)
  then show ?thesis using due_update [OF pipe_done(3), of Idle] good by (simp add: files_due_def worker_due_def)
next
  case (pipe_quit i)
  then show ?thesis using due_update [OF pipe_quit(3), of Exited] good by (simp add: files_due_def worker_due_def)
qed (use good in \<open>auto simp: files_due_def\<close>)

lemma pipe_run_due:
  assumes "pipe_run reads wr rec (start_pipe jobs n db l) ls s" and rf: "reads_files reads jobs"
    and "\<not> p_cancelled s" "p_errs s = []"
  shows "files_due (map fst ls @ p_chan s) s = length jobs"
  using assms(1,3,4)
proof (induction "start_pipe jobs n db l" ls s rule: pipe_run.induct)
  case here
  have "sum_list (map worker_due (replicate n Idle)) = 0" by (induction n) (simp_all add: worker_due_def)
  then show ?case by (simp add: files_due_def start_pipe_def)
next
  case (more ls t ms u)
  note inv = pipe_run_inv [OF more(1) rf, THEN conjunct1]
  show ?case using pipe_step_due [OF more(3) rf inv more(4,5)] more(2) by simp
qed

lemma drained_due: "drained s \<Longrightarrow> files_due xs s = end_marks xs + length (p_todo s)"
proof -
  assume "drained s"
  then have "\<forall>w \<in> set (p_workers s). worker_due w = 0" by (auto simp: drained_def worker_due_def)
  then have "sum_list (map worker_due (p_workers s)) = 0" by (simp add: sum_list_eq_0_iff)
  then show ?thesis by (simp add: files_due_def)
qed

text \<open>Work left when nothing was cancelled and no worker failed means a worker is still there to take it.\<close>

lemma pipe_idle_todo:
  assumes "pipe_run reads wr rec (start_pipe jobs n db l) ls s" and "\<not> p_cancelled s" "p_errs s = []"
  shows "p_todo s = [] \<or> (\<forall>w \<in> set (p_workers s). w \<noteq> Exited)"
  using assms
proof (induction "start_pipe jobs n db l" ls s rule: pipe_run.induct)
  case here
  then show ?case by (simp add: start_pipe_def)
next
  case (more ls t ms u)
  from more(3) more(2,4,5) show ?case
    by (cases rule: pipe_step.cases) (auto dest: set_update_subset_insert [THEN subsetD])
qed

lemma pipe_run_workers: "pipe_run reads wr rec s ls t \<Longrightarrow> length (p_workers t) = length (p_workers s)"
proof (induction rule: pipe_run.induct)
  case (more ls t ms u)
  from more(2,3) show ?case by (cases rule: pipe_step.cases) auto
qed simp

subsection \<open>The end of a run\<close>

definition worker_work :: "worker \<Rightarrow> nat" where
  "worker_work w = (case w of Idle \<Rightarrow> 1 | Busy j cs e \<Rightarrow> 2 * length cs + 2 | Exited \<Rightarrow> 0)"

definition work_left :: "(job \<Rightarrow> (chunk list \<times> read_error option) option) \<Rightarrow> 'db pipe \<Rightarrow> nat" where
  "work_left reads s =
     sum_list (map (\<lambda>j. case reads j of None \<Rightarrow> 0 | Some (cs, e) \<Rightarrow> 2 * length cs + 2) (p_todo s))
     + length (p_todo s) + sum_list (map worker_work (p_workers s)) + length (p_chan s) + (if p_cancelled s then 0 else 1)"

lemma work_update:
  assumes "i < length ws"
  shows "sum_list (map worker_work (ws[i := w])) + worker_work (ws ! i) = sum_list (map worker_work ws) + worker_work w"
  using assms by (induction ws arbitrary: i) (auto split: nat.split simp: nth_Cons' less_Suc_eq_0_disj)

lemma pipe_step_work: "pipe_step reads wr rec s ms s' \<Longrightarrow> work_left reads s' < work_left reads s"
proof (induction rule: pipe_step.induct)
  case (pipe_start i s j js cs e)
  then show ?case using work_update [OF pipe_start(1), of "Busy j cs e"] by (simp add: work_left_def worker_work_def)
next
  case (pipe_send i s j c cs e)
  then show ?case using work_update [OF pipe_send(1), of "Busy j cs e"] by (simp add: work_left_def worker_work_def)
next
  case (pipe_skip i s j c cs e)
  then show ?case using work_update [OF pipe_skip(1), of Idle] by (simp add: work_left_def worker_work_def)
next
  case (pipe_abandon i s j c cs e)
  then show ?case using work_update [OF pipe_abandon(1), of Exited] by (simp add: work_left_def worker_work_def)
next
  case (pipe_done i s j)
  then show ?case using work_update [OF pipe_done(1), of Idle] by (simp add: work_left_def worker_work_def)
next
  case (pipe_fail i s j x)
  then show ?case using work_update [OF pipe_fail(1), of Exited] by (simp add: work_left_def worker_work_def)
next
  case (pipe_quit i s)
  then show ?case using work_update [OF pipe_quit(1), of Exited] by (simp add: work_left_def worker_work_def)
qed (auto simp: work_left_def)

lemma pipe_progress:
  assumes inv: "pipe_inv reads jobs xs s" and tot: "\<forall>j \<in> set jobs. reads j \<noteq> None" and nd: "\<not> drained s"
  shows "\<exists>ms s'. pipe_step reads wr rec s ms s'"
proof (cases "p_chan s")
  case (Cons c cs)
  then show ?thesis using pipe_step.pipe_take [OF Cons] by blast
next
  case Nil
  then obtain w where "w \<in> set (p_workers s)" and wx: "w \<noteq> Exited" using nd by (auto simp: drained_def)
  then obtain i where i: "i < length (p_workers s)" and w: "p_workers s ! i = w" by (metis in_set_conv_nth)
  show ?thesis
  proof (cases w)
    case Idle
    show ?thesis
    proof (cases "p_todo s")
      case Nil
      then show ?thesis using pipe_step.pipe_quit [OF i] w Idle by blast
    next
      case (Cons j js)
      then have "j \<in> set jobs" using inv by (auto simp: pipe_inv_def)
      then obtain cs e where "reads j = Some (cs, e)" using tot by fastforce
      then show ?thesis using pipe_step.pipe_start [OF i _ Cons] w Idle by blast
    qed
  next
    case (Busy j cs e)
    show ?thesis
    proof (cases cs)
      case Nil
      then show ?thesis
        using pipe_step.pipe_done [OF i, of j] pipe_step.pipe_fail [OF i, of j] w Busy by (cases e) blast+
    next
      case (Cons c cs')
      have room: "length (p_chan s) < length (p_workers s)" using \<open>p_chan s = []\<close> i by (cases "p_workers s") simp_all
      show ?thesis using pipe_step.pipe_send [OF i _ room] w Busy Cons by blast
    qed
  qed (use wx in simp)
qed

section \<open>The store behind the pipeline\<close>

text \<open>A row the database holds: its match is there, with a participant for each of the two players.\<close>

definition row_held :: "source \<Rightarrow> match_row \<Rightarrow> idb \<Rightarrow> bool" where
  "row_held so r db \<longleftrightarrow>
     (\<exists>k i m wi lo. match_of so db r = Some k \<and> map_of (i_matches db) k = Some (i, m)
        \<and> lookup_player db (MSourceID (MWinner r), STour so) = Some wi \<and> lookup_player db (MSourceID (MLoser r), STour so) = Some lo
        \<and> (i, wi) \<in> keys (i_parts db) \<and> (i, lo) \<in> keys (i_parts db))"

text \<open>Ids and keys only grow.\<close>

definition db_grows :: "idb \<Rightarrow> idb \<Rightarrow> bool" where
  "db_grows db db' \<longleftrightarrow>
     (\<forall>k i. lookup_player db k = Some i \<longrightarrow> lookup_player db' k = Some i)
     \<and> (\<forall>k i. map_option fst (map_of (i_tours db) k) = Some i \<longrightarrow> map_option fst (map_of (i_tours db') k) = Some i)
     \<and> (\<forall>k i. map_option fst (map_of (i_matches db) k) = Some i \<longrightarrow> map_option fst (map_of (i_matches db') k) = Some i)
     \<and> keys (i_parts db) \<subseteq> keys (i_parts db')"

lemma match_of_Some:
  "match_of so db r = Some k \<longleftrightarrow> (\<exists>t w l. map_option fst (map_of (i_tours db) (tourney_key (STour so) r)) = Some t
     \<and> lookup_player db (MSourceID (MWinner r), STour so) = Some w \<and> lookup_player db (MSourceID (MLoser r), STour so) = Some l
     \<and> k = new_match_key t (MatchNum r) (is_qualifying r) w l)"
  by (auto simp: match_of_def bind_eq_Some_conv)

lemma row_held_grows:
  assumes h: "row_held so r db" and g: "db_grows db db'"
  shows "row_held so r db'"
proof -
  from h obtain k i m wi lo where k: "match_of so db r = Some k" and m: "map_of (i_matches db) k = Some (i, m)"
    and w: "lookup_player db (MSourceID (MWinner r), STour so) = Some wi" "lookup_player db (MSourceID (MLoser r), STour so) = Some lo"
    and p: "(i, wi) \<in> keys (i_parts db)" "(i, lo) \<in> keys (i_parts db)"
    unfolding row_held_def by blast
  obtain t w' l' where t: "map_option fst (map_of (i_tours db) (tourney_key (STour so) r)) = Some t"
    and l: "lookup_player db (MSourceID (MWinner r), STour so) = Some w'" "lookup_player db (MSourceID (MLoser r), STour so) = Some l'"
    and k': "k = new_match_key t (MatchNum r) (is_qualifying r) w' l'" using k unfolding match_of_Some by blast
  have "map_option fst (map_of (i_tours db') (tourney_key (STour so) r)) = Some t" using t g unfolding db_grows_def by blast
  moreover have "lookup_player db' (MSourceID (MWinner r), STour so) = Some w'" "lookup_player db' (MSourceID (MLoser r), STour so) = Some l'"
    using l g unfolding db_grows_def by blast+
  ultimately have "match_of so db' r = Some k" unfolding match_of_Some using k' by auto
  moreover have "map_option fst (map_of (i_matches db) k) = Some i" using m by simp
  then have "map_option fst (map_of (i_matches db') k) = Some i" using g unfolding db_grows_def by blast
  then obtain m' where "map_of (i_matches db') k = Some (i, m')" by auto
  moreover have "lookup_player db' (MSourceID (MWinner r), STour so) = Some wi" "lookup_player db' (MSourceID (MLoser r), STour so) = Some lo"
    using w g unfolding db_grows_def by blast+
  moreover have "(i, wi) \<in> keys (i_parts db')" "(i, lo) \<in> keys (i_parts db')" using p g unfolding db_grows_def by blast+
  ultimately show ?thesis unfolding row_held_def by blast
qed

lemma rows_held:
  assumes ok: "idb_ok db" and w: "write_batch ul po to so rows db = Inr (res, db1)"
    and orders: "\<And>t. mset (po (seen_players t rows)) = mset (seen_players t rows)"
      "\<And>t. mset (to (seen_tourneys t rows)) = mset (seen_tourneys t rows)"
  shows "\<forall>r \<in> set rows. row_held so r db1" "RMatches res + RCollapsed res = length rows" "db_grows db db1"
proof -
  have "(\<forall>r \<in> set rows. row_held so r db1) \<and> RMatches res + RCollapsed res = length rows \<and> db_grows db db1"
  proof (cases "rows = []")
    case True
    then show ?thesis using w by (auto simp: write_batch_def db_grows_def)
  next
    case ne: False
    let ?S = "seen_players (STour so) rows" and ?U = "seen_tourneys (STour so) rows"
    obtain P dbp T nt tt M c nm tm where
        p: "upsert_players ul (STour so) (po ?S) ([], db) = Inr (P, dbp)"
      and tf: "\<forall>(k, r) \<in> set (to ?U). tourney_fits so r"
      and t: "upsert_all (merge_tourney so) (to ?U) ([], i_seq dbp, i_tours dbp) = (T, nt, tt)"
      and mf: "rows_fit so P T rows"
      and m: "upsert_all (merge_row so) (keyed so P T rows) ([], nt, i_matches dbp) = (M, nm, tm)"
      and len: "length M + c = length rows" and pf: "parts_fit so P T M rows"
      and db1: "db1 = dbp\<lparr>i_tours := tt, i_matches := tm, i_seq := nm, i_parts := parts_put so P T M rows (i_parts dbp)\<rparr>"
      and played: "played_both db1" and res: "res = \<lparr>RMatches = length M, RPlayers = length P, RCollapsed = c\<rparr>"
      by (rule write_batch_steps [OF w ne])
    have same: "i_players db1 = i_players dbp" "i_aliases db1 = i_aliases dbp" by (simp_all add: db1)
    note hyp = p ok seen_order(1,2) [of po, OF orders(1)]
    have frame: "i_tours dbp = i_tours db" "i_matches dbp = i_matches db" "i_parts dbp = i_parts db"
      using players_frame [OF hyp] by (simp_all add: players_only_def)
    have keep: "lookup_player db k = Some i \<Longrightarrow> lookup_player db1 k = Some i" for k i
      using upsert_players_facts [OF hyp, THEN conjunct2, THEN conjunct2, THEN conjunct2, THEN conjunct1] same_players [OF same] by (cases k) simp
    have Pk: "map_of P k = lookup_player db1 k" if "map_of P k = Some x" for k x
      using players_ids [OF hyp, of k] that unfolding same_players [OF same] by (simp split: if_splits)
    have Tk: "map_option fst (map_of (i_tours db1) k) = Some x" if "map_of T k = Some x" for k x
      using all_ids [OF t, of k] that by (simp add: db1 split: if_splits)
    have told: "map_option fst (map_of tt k) = Some i" if "map_option fst (map_of (i_tours db) k) = Some i" for k i
      using all_old [OF t, of k] that unfolding frame by auto
    have mold: "map_option fst (map_of tm k) = Some i" if "map_option fst (map_of (i_matches db) k) = Some i" for k i
      using all_old [OF m, of k] that unfolding frame by auto
    have "keys (i_parts db) \<subseteq> keys (i_parts db1)"
      unfolding db1 by (simp add: parts_put_def keys_fold_put frame)
    then have grows: "db_grows db db1" unfolding db_grows_def using keep told mold by (simp add: db1)
    have "row_held so r db1" if r: "r \<in> set rows" for r
    proof -
      obtain t' w' l' where ids: "ids_of so P T r = (t', w', l')" by (metis prod_cases3)
      then have ri: "row_ids so P T r = Inr (t', w', l')" using mf r by (simp add: rows_fit_def)
      let ?k = "key_of so P T r"
      have k: "?k = new_match_key t' (MatchNum r) (is_qualifying r) w' l'" by (simp add: key_of_def ids)
      have wl: "lookup_player db1 (MSourceID (MWinner r), STour so) = Some w'" "lookup_player db1 (MSourceID (MLoser r), STour so) = Some l'"
        using ri Pk unfolding row_ids_Inr by metis+
      moreover have "map_option fst (map_of (i_tours db1) (tourney_key (STour so) r)) = Some t'" using ri Tk unfolding row_ids_Inr by blast
      ultimately have mo: "match_of so db1 r = Some ?k" unfolding match_of_Some k by blast
      have "?k \<in> keys (keyed so P T rows)" unfolding keys_keyed using r by simp
      then have "map_of M ?k = map_option fst (map_of tm ?k)" using all_ids [OF m, of ?k] by simp
      moreover have "map_of M ?k \<noteq> None" using pf r by (simp add: parts_fit_def)
      ultimately obtain i x where M: "map_of M ?k = Some i" and tm: "map_of tm ?k = Some (i, x)" by auto
      have "{(i, w'), (i, l')} \<subseteq> keys (parts_list so P T M rows)"
      proof -
        obtain as bs where sp: "rows = as @ r # bs" using r by (meson split_list)
        show ?thesis unfolding sp parts_list_append using ids M by (simp add: parts_list_def)
      qed
      then have "(i, w') \<in> keys (i_parts db1)" "(i, l') \<in> keys (i_parts db1)"
        unfolding db1 by (auto simp: parts_put_def keys_fold_put)
      then show ?thesis unfolding row_held_def using mo tm wl by (auto simp: db1)
    qed
    then show ?thesis using grows len by (simp add: res)
  qed
  then show "\<forall>r \<in> set rows. row_held so r db1" "RMatches res + RCollapsed res = length rows" "db_grows db db1" by blast+
qed

text \<open>Map orders that are permutations; anything else stands for the identity.\<close>

definition perm_of :: "('a list \<Rightarrow> 'a list) \<Rightarrow> 'a list \<Rightarrow> 'a list" where
  "perm_of f xs = (if mset (f xs) = mset xs then f xs else xs)"

lemma mset_perm_of: "mset (perm_of f xs) = mset xs"
  by (simp add: perm_of_def)

interpretation ingest_store: batch_store "write_batch ul (perm_of po) (perm_of to)" idb_ok
  "\<lambda>so rows db. \<forall>r \<in> set rows. row_held so r db" for ul po to
proof unfold_locales
  fix db so rows res db' so' rows'
  assume ok: "idb_ok db" and w: "write_batch ul (perm_of po) (perm_of to) so rows db = Inr (res, db')"
  show "idb_ok db'" using batch_ok [OF ok w] by (simp add: mset_perm_of)
  note h = rows_held [OF ok w mset_perm_of mset_perm_of]
  show "RMatches res + RCollapsed res = length rows" by (rule h(2))
  show "\<forall>r \<in> set rows. row_held so r db'" by (rule h(1))
  show "\<forall>r \<in> set rows'. row_held so' r db'" if "\<forall>r \<in> set rows'. row_held so' r db" using that row_held_grows h(3) by blast
qed

section \<open>Runs\<close>

lemma plan_reads_files:
  assumes v: "validate_registry g = None" and o: "distinct (OTours opt)" "distinct (OSeasons opt)"
  shows "reads_files (job_reads fl f opt known) (plan g opt)"
  unfolding reads_files_def
proof (intro conjI ballI allI impI)
  show "distinct (map job_key (plan g opt))" by (rule plan_keys_distinct [OF v o])
  show "file_chunks j cs e" if "job_reads fl f opt known j = Some (cs, e)" for j cs e
    using read_file_facts that unfolding job_reads_def by blast
qed

text \<open>
  The chunks before a closing chunk, when the writer takes it, are all the others of its file.
\<close>

lemma closing_is_last:
  assumes "pipe_inv reads jobs (xs @ c # ys) s" and rf: "reads_files reads jobs" and c: "closing c"
  shows "\<exists>j \<in> set jobs. KKey c = job_key j \<and> reads j = Some (of_job j xs @ [c], None)
    \<and> (\<forall>d \<in> set (of_job j xs). chunk_ok j d \<and> KRows d \<noteq> None)"
proof -
  obtain j where j: "j \<in> set jobs" and cj: "chunk_ok j c" using assms(1) unfolding pipe_inv_def by auto
  then have k: "KKey c = job_key j" by (simp add: chunk_ok_def)
  have split: "of_job j (xs @ c # ys) = of_job j xs @ c # of_job j ys" using k by simp
  have ne: "of_job j (xs @ c # ys) \<noteq> []" unfolding split by simp
  have "of_job j (xs @ c # ys) = [] \<or> (\<exists>r e. reads j = Some (of_job j (xs @ c # ys) @ r, e))"
    using assms(1) j unfolding pipe_inv_def by blast
  with ne obtain r e where r: "reads j = Some (of_job j xs @ c # of_job j ys @ r, e)" unfolding split by auto
  then have f: "file_chunks j (of_job j xs @ c # of_job j ys @ r) e" using rf j unfolding reads_files_def by blast
  then have e: "e = None" by (auto simp: file_chunks_def split: if_splits)
  have "of_job j ys @ r = []"
  proof (rule ccontr)
    assume "of_job j ys @ r \<noteq> []"
    moreover have "c \<in> set (butlast (us @ c # zs))" if "zs \<noteq> []" for us zs using that by (simp add: butlast_append)
    ultimately have "c \<in> set (butlast (of_job j xs @ c # of_job j ys @ r))" by metis
    then show False using f c unfolding file_chunks_def closing_def by blast
  qed
  then have all: "reads j = Some (of_job j xs @ [c], None)" using r e by simp
  have "\<forall>d \<in> set (of_job j xs). chunk_ok j d \<and> KRows d \<noteq> None"
    using f \<open>of_job j ys @ r = []\<close> unfolding file_chunks_def by (simp add: butlast_append)
  then show ?thesis using j k all by blast
qed

text \<open>
  C32: A file in the ledger is a file the database holds. Whatever the interleaving of workers, feeder and writer,
  whatever batches fail and wherever the run is cancelled, an entry the run changed is that of a planned file which
  was opened, read to the end of its body, and recorded under the validator it was opened with; and every row of
  it that could be read is in the database: its match under its natural key, with a participant for each player.
\<close>

theorem recorded_file_is_held:
  assumes v: "validate_registry g = None" and o: "distinct (OTours opt)" "distinct (OSeasons opt)" and ok: "idb_ok db"
    and run: "run_pipeline fl procs f (write_batch ul (perm_of po) (perm_of to)) rec g opt db l res s"
    and k: "map_of (w_ledger (p_write s)) k \<noteq> map_of l k"
  shows "\<exists>j known body valid t rows. j \<in> set (plan g opt) \<and> job_key j = k \<and> known_files f opt (Inr l) = Inr known
    \<and> map_of (w_ledger (p_write s)) k = Some (valid, t)
    \<and> open_file f j (case known k of None \<Rightarrow> [] | Some w \<Rightarrow> w) = Opened body valid \<and> whole_file fl j body rows
    \<and> (\<forall>r \<in> set rows. row_held (JSource j) r (w_db (p_write s)))"
  using run
proof cases
  case (ran known ls)
  let ?wr = "write_batch ul (perm_of po) (perm_of to)" and ?reads = "job_reads fl f opt known"
  let ?w0 = "p_write (start_pipe (plan g opt) (nat (workers_of procs opt)) db l)"
  note rf = plan_reads_files [OF v o, of fl f known]
  note inv = pipe_run_inv [OF ran(4) rf]
  have w0: "w_ledger ?w0 = l" "w_db ?w0 = db" by (simp_all add: start_pipe_def)
  have fin: "p_write s = take_all ?wr rec ls ?w0" using inv by blast
  obtain l1 c down l2 t where ls: "ls = l1 @ (c, down) # l2" and ck: "KKey c = k" and c: "closing c"
    and err: "w_err (take_all ?wr rec l1 ?w0) = None" and e: "map_of (w_ledger (p_write s)) k = Some (KValidator c, t)"
    using recorded_split [of ?wr rec ls ?w0 k] k unfolding fin w0 by blast
  have "pipe_inv ?reads (plan g opt) (map fst l1 @ c # (map fst l2 @ p_chan s)) s" using inv by (simp add: ls)
  from closing_is_last [OF this rf c] obtain j where j: "j \<in> set (plan g opt)" and kj: "KKey c = job_key j"
    and r: "?reads j = Some (of_job j (map fst l1) @ [c], None)"
    and ds: "\<forall>d \<in> set (of_job j (map fst l1)). chunk_ok j d \<and> KRows d \<noteq> None" by blast
  have valid: "\<exists>body. open_file f j (case known k of None \<Rightarrow> [] | Some w \<Rightarrow> w) = Opened body (KValidator c)
      \<and> whole_file fl j body (concat (map chunk_rows (of_job j (map fst l1) @ [c])))"
    using read_file_facts [OF r [unfolded job_reads_def], THEN conjunct2] c unfolding kj [symmetric] ck by simp
  have held: "row_held (JSource j) r (w_db (p_write s))" if r: "r \<in> set (concat (map chunk_rows (of_job j (map fst l1) @ [c])))" for r
  proof -
    have "chunk_rows c = []" using c by (simp add: closing_def chunk_rows_def)
    then obtain x where x: "x \<in> set l1" "fst x \<in> set (of_job j (map fst l1))" "r \<in> set (chunk_rows (fst x))" using r by auto
    have chunks: "\<forall>x \<in> set l1. \<exists>j. chunk_ok j (fst x)" using inv unfolding pipe_inv_def by (auto simp: ls)
    have so: "KSource (fst x) = JSource j" "KRows (fst x) \<noteq> None" using bspec [OF ds x(2)] by (simp_all add: chunk_ok_def)
    have okw: "idb_ok (w_db ?w0)" using ok by (simp add: w0)
    have "\<forall>r \<in> set (chunk_rows (fst x)). row_held (KSource (fst x)) r (w_db (take_all ?wr rec l1 ?w0))"
      using ingest_store.all_held [OF okw chunks err, THEN conjunct2] x(1) so(2) by blast
    from ingest_store.all_keep [OF okw this, of "(c, down) # l2"] show ?thesis
      unfolding fin ls so(1) using x(3) by blast
  qed
  have all_held: "\<forall>r \<in> set (concat (map chunk_rows (of_job j (map fst l1) @ [c]))). row_held (JSource j) r (w_db (p_write s))"
    using held by (rule ballI)
  obtain body where b: "open_file f j (case known k of None \<Rightarrow> [] | Some w \<Rightarrow> w) = Opened body (KValidator c)"
      "whole_file fl j body (concat (map chunk_rows (of_job j (map fst l1) @ [c])))" using valid by blast
  have jk: "job_key j = k" using kj ck by simp
  show ?thesis by (intro exI conjI) (rule j jk ran(3) e b all_held)+
qed (use k in \<open>simp_all add: start_pipe_def\<close>)

text \<open>
  C33: The summary of a run balances. A run that reports success has counted every row it was given once, as written,
  rejected or collapsed into another row of its batch, and, unless it was cancelled, has accounted for every planned
  file once, as read, missing or unchanged.
\<close>

theorem run_balances:
  assumes v: "validate_registry g = None" and o: "distinct (OTours opt)" "distinct (OSeasons opt)" and ok: "idb_ok db"
    and procs: "0 < procs"
    and run: "run_pipeline fl procs f (write_batch ul (perm_of po) (perm_of to)) rec g opt db l None s"
  shows "RowsSeen (w_stats (p_write s)) =
      RowsWritten (w_stats (p_write s)) + RowsRejected (w_stats (p_write s)) + RowsCollapsed (w_stats (p_write s))
    \<and> (\<not> p_cancelled s \<longrightarrow>
        FilesRead (w_stats (p_write s)) + FilesMissing (w_stats (p_write s)) + FilesSkipped (w_stats (p_write s)) = length (plan g opt))"
  using run
proof cases
  case (ran known ls)
  let ?wr = "write_batch ul (perm_of po) (perm_of to)" and ?n = "nat (workers_of procs opt)"
  let ?w0 = "p_write (start_pipe (plan g opt) ?n db l)"
  note rf = plan_reads_files [OF v o, of fl f known]
  note inv = pipe_run_inv [OF ran(4) rf]
  have fin: "p_write s = take_all ?wr rec ls ?w0" using inv by blast
  have err: "w_err (p_write s) = None" "p_errs s = []" using ran(1) by (auto simp: run_outcome_def split: option.splits list.splits)
  have chunks: "\<forall>x \<in> set ls. \<exists>j. chunk_ok j (fst x)" using inv unfolding pipe_inv_def by auto
  have w0: "idb_ok (w_db ?w0)" "balanced (w_stats ?w0)" "files_done (w_stats ?w0) = 0"
    using ok by (simp_all add: start_pipe_def balanced_def files_done_def no_stats_def)
  have "balanced (w_stats (p_write s))"
    using ingest_store.all_held [OF w0(1) chunks err(1) [unfolded fin]] w0(2) unfolding fin by blast
  moreover have "files_done (w_stats (p_write s)) = length (plan g opt)" if "\<not> p_cancelled s"
  proof -
    have "0 < ?n" using procs by (simp add: workers_of_def)
    then have "p_workers s \<noteq> []" using pipe_run_workers [OF ran(4)] by (auto simp: start_pipe_def)
    then have "p_todo s = []" using pipe_idle_todo [OF ran(4) that err(2)] ran(5) by (cases "p_workers s") (auto simp: drained_def)
    then have "end_marks (map fst ls) = length (plan g opt)"
      using pipe_run_due [OF ran(4) rf that err(2)] drained_due [OF ran(5)] ran(5) by (simp add: drained_def)
    moreover have "length (filter (\<lambda>x. KRows (fst x) = None) ls) = end_marks (map fst ls)"
      by (simp add: end_marks_def filter_map comp_def)
    ultimately show ?thesis using ingest_store.all_files [OF chunks] w0(3) unfolding fin by simp
  qed
  ultimately show ?thesis by (simp add: balanced_def files_done_def)
qed

lemma read_loop_returns:
  "body (n + m) = CsvEnd \<Longrightarrow> finite (rd_synthetic r) \<Longrightarrow> card (rd_synthetic r) + m \<le> 31000 \<Longrightarrow>
    read_loop fl sz j body n r batch seen rejected out \<noteq> None"
proof (induction m arbitrary: n r batch seen rejected out)
  case 0
  then show ?case by (subst read_loop.simps) simp
next
  case (Suc m)
  show ?case
  proof (cases "body n")
    case CsvEnd
    then show ?thesis by (subst read_loop.simps) simp
  next
    case CsvError
    have "read_loop fl sz j body (n + 1) r batch (seen + 1) (rejected + 1) out \<noteq> None"
      using Suc.prems by (intro Suc.IH) simp_all
    then show ?thesis using CsvError by (subst read_loop.simps) simp
  next
    case (CsvRecord rec)
    obtain x r1 where x: "reader_next fl rec r = Some (x, r1)" "finite (rd_synthetic r1)" "card (rd_synthetic r1) \<le> card (rd_synthetic r) + 1"
      using reader_next_returns [of r fl rec] Suc.prems(2,3) by auto
    have "read_loop fl sz j body (n + 1) r1 batch' seen' rejected' out' \<noteq> None" for batch' seen' rejected' out'
      using Suc.prems x by (intro Suc.IH) simp_all
    then show ?thesis using CsvRecord x(1) by (subst read_loop.simps) (auto split: sum.split)
  qed
qed

lemma job_reads_returns:
  assumes ends: "\<And>body valid. open_file f j (case known (job_key j) of None \<Rightarrow> [] | Some w \<Rightarrow> w) = Opened body valid \<Longrightarrow>
      \<exists>m \<le> 31000. body (m + 1) = CsvEnd"
  shows "job_reads fl f opt known j \<noteq> None"
proof (cases "open_file f j (case known (job_key j) of None \<Rightarrow> [] | Some w \<Rightarrow> w)")
  case (Opened body valid)
  obtain m where m: "m \<le> 31000" "body (m + 1) = CsvEnd" using ends [OF Opened] by blast
  have "read_loop fl (batch_size_of opt) j body 1 r [] 0 0 [] \<noteq> None" if "new_reader (SProfile (JSource j)) header = Inr r" for header r
  proof (rule read_loop_returns)
    have "rd_synthetic r = {}" using that by (auto simp: new_reader_def split: sum.splits)
    then show "finite (rd_synthetic r)" "card (rd_synthetic r) + m \<le> 31000" using m(1) by simp_all
    show "body (1 + m) = CsvEnd" using m(2) by (simp add: add.commute)
  qed
  then show ?thesis using Opened by (auto simp: job_reads_def read_file_def split: csv_read.split sum.split)
qed (auto simp: job_reads_def read_file_def)

text \<open>
  C34: A run over files that end, ends. Provided the body of every planned file that opens reaches its end within
  31000 calls of the CSV reader (without that a reader may spin on one file for ever, \<open>failing_body_never_ends\<close>), no
  interleaving of the goroutines goes on for ever and none gets stuck: from every state they reach, either the channel
  is closed and drained, so that the writer's loop is over, or some goroutine can take a step.
\<close>

theorem pipeline_ends:
  assumes v: "validate_registry g = None" and o: "distinct (OTours opt)" "distinct (OSeasons opt)"
    and ends: "\<And>j body valid. j \<in> set (plan g opt) \<Longrightarrow>
      open_file f j (case known (job_key j) of None \<Rightarrow> [] | Some w \<Rightarrow> w) = Opened body valid \<Longrightarrow> \<exists>m \<le> 31000. body (m + 1) = CsvEnd"
    and run: "pipe_run (job_reads fl f opt known) wr rec (start_pipe (plan g opt) n db l) ls s"
  shows "wf {(u, t). \<exists>ms. pipe_step (job_reads fl f opt known) wr rec t ms u}
    \<and> (drained s \<or> (\<exists>ms u. pipe_step (job_reads fl f opt known) wr rec s ms u))"
proof
  show "wf {(u, t). \<exists>ms. pipe_step (job_reads fl f opt known) wr rec t ms u}"
    by (rule wf_subset [OF wf_measure [of "work_left (job_reads fl f opt known)"]]) (auto dest: pipe_step_work)
  note inv = pipe_run_inv [OF run plan_reads_files [OF v o], THEN conjunct1]
  have "\<forall>j \<in> set (plan g opt). job_reads fl f opt known j \<noteq> None" using job_reads_returns ends by blast
  then show "drained s \<or> (\<exists>ms u. pipe_step (job_reads fl f opt known) wr rec s ms u)" using pipe_progress [OF inv] by blast
qed

section \<open>A small run\<close>

lemma pipe_run_step: "pipe_run reads wr rec s ls t \<Longrightarrow> pipe_step reads wr rec t [] u \<Longrightarrow> pipe_run reads wr rec s ls u"
  using pipe_run.more [of reads wr rec s ls t "[]" u] by simp

text \<open>One worker and one file, with every chunk written as it is sent.\<close>

lemma drive_worker:
  assumes "pipe_run reads wr rec s0 ls s" and "p_workers s = [Busy j cs None]" and "p_chan s = []" and "p_todo s = []"
  shows "\<exists>s'. pipe_run reads wr rec s0 (ls @ map (\<lambda>c. (c, False)) cs) s' \<and> drained s' \<and> p_cancelled s' = p_cancelled s \<and> p_errs s' = p_errs s"
  using assms
proof (induction cs arbitrary: ls s)
  case Nil
  let ?s = "s\<lparr>p_workers := [Idle]\<rparr>"
  have "pipe_run reads wr rec s0 ls ?s"
    using pipe_run_step [OF Nil(1) pipe_step.pipe_done [of 0 s j]] Nil(2) by simp
  then have "pipe_run reads wr rec s0 ls (?s\<lparr>p_workers := [Exited]\<rparr>)"
    using pipe_run_step [OF _ pipe_step.pipe_quit [of 0 ?s]] Nil(4) by simp
  then show ?case using Nil(3) by (intro exI [of _ "?s\<lparr>p_workers := [Exited]\<rparr>"]) (simp add: drained_def)
next
  case (Cons c cs)
  let ?s = "s\<lparr>p_chan := [c], p_workers := [Busy j cs None]\<rparr>"
  let ?t = "?s\<lparr>p_chan := [], p_write := take_chunk (flaky False wr) rec c (p_write ?s)\<rparr>"
  have "pipe_run reads wr rec s0 ls ?s"
    using pipe_run_step [OF Cons(2) pipe_step.pipe_send [of 0 s j c cs None]] Cons(3,4) by simp
  from pipe_run.more [OF this pipe_step.pipe_take [of ?s c "[]" reads wr rec False]]
  have "pipe_run reads wr rec s0 (ls @ [(c, False)]) ?t" by simp
  from Cons.IH [OF this] Cons(5) show ?case by simp
qed

lemma one_file_run:
  assumes "reads j = Some (cs, None)"
  shows "\<exists>s. pipe_run reads wr rec (start_pipe [j] 1 db l) (map (\<lambda>c. (c, False)) cs) s \<and> drained s \<and> \<not> p_cancelled s \<and> p_errs s = []"
proof -
  let ?s = "(start_pipe [j] 1 db l)\<lparr>p_todo := [], p_workers := [Busy j cs None]\<rparr>"
  have "pipe_run reads wr rec (start_pipe [j] 1 db l) [] ?s"
    using pipe_run_step [OF pipe_run.here pipe_step.pipe_start [of 0 "start_pipe [j] 1 db l" j "[]" reads cs None]] assms
    by (simp add: start_pipe_def)
  from drive_worker [OF this, of j cs] show ?thesis by (simp add: start_pipe_def)
qed

definition feed_source :: source where
  "feed_source = (sample_feed ''tml'' ''atp'' 1)\<lparr>SProfile := ''tml'', SFirstSeason := 2025, SLastSeason := 2025\<rparr>"

definition feed_registry :: registry where
  "feed_registry = \<lparr>GSources = [feed_source], GReference = [], GCharting = []\<rparr>"

definition feed_options :: options where
  "feed_options = \<lparr>OWorkers = 1, OBatchSize = 0, OSeasons = [], OTours = [], OForce = False\<rparr>"

definition feed_job :: job where
  "feed_job = \<lparr>JSource = feed_source, JSeason = 2025\<rparr>"

definition feed_record :: "string list" where
  "feed_record = sample_record[4 := ''101'']"

definition feed_body :: "nat \<Rightarrow> csv_read" where
  "feed_body n = (if n = 0 then CsvRecord sample_header else if n = 1 then CsvRecord feed_record else CsvEnd)"

definition feed :: fetcher where
  "feed = \<lparr>conditional = True, open_plain = (\<lambda>_ _. Absent), open_if_changed = (\<lambda>_ _ _. Opened feed_body ''v1'')\<rparr>"

definition feed_idb :: idb where
  "feed_idb = empty_idb\<lparr>i_players := [((''S0AG'', ''atp''), (1, blank_player ''jannik-sinner'')), ((''V0AB'', ''atp''), (2, blank_player ''vit-kopriva''))],
     i_seq := 3\<rparr>"

lemma feed_plan: "validate_registry feed_registry = None" "plan feed_registry feed_options = [feed_job]" "nat (workers_of 4 feed_options) = 1"
  by code_simp+

lemma feed_idb_ok: "idb_ok feed_idb"
  by (auto simp: idb_ok_def feed_idb_def empty_idb_def player_ids_def)

lemma perm_of_id: "perm_of (\<lambda>xs. xs) = (\<lambda>xs. xs)"
  by (rule ext) (simp add: perm_of_def)

lemma feed_row:
  "\<exists>r row r1 res db1. new_reader ''tml'' sample_header = Inr r \<and> reader_next (\<lambda>_. None) feed_record r = Some (Inr row, r1)
    \<and> write_batch (\<lambda>_. False) (perm_of (\<lambda>xs. xs)) (perm_of (\<lambda>xs. xs)) feed_source [row] feed_idb = Inr (res, db1)"
proof -
  have h: "(case new_reader ''tml'' sample_header of Inl _ \<Rightarrow> False | Inr r \<Rightarrow>
      (case reader_next (\<lambda>_. None) feed_record r of None \<Rightarrow> False | Some (x, r1) \<Rightarrow>
      (case x of Inl _ \<Rightarrow> False | Inr row \<Rightarrow>
      (case write_batch (\<lambda>_. False) (\<lambda>xs. xs) (\<lambda>xs. xs) feed_source [row] feed_idb of Inl _ \<Rightarrow> False | Inr _ \<Rightarrow> True))))"
    by code_simp
  obtain r where r: "new_reader ''tml'' sample_header = Inr r" using h by (cases "new_reader ''tml'' sample_header") simp_all
  obtain x r1 where n: "reader_next (\<lambda>_. None) feed_record r = Some (x, r1)"
    using h r by (cases "reader_next (\<lambda>_. None) feed_record r") auto
  obtain row where x: "x = Inr row" using h r n by (cases x) simp_all
  obtain y where "write_batch (\<lambda>_. False) (\<lambda>xs. xs) (\<lambda>xs. xs) feed_source [row] feed_idb = Inr y"
    using h r n x by (cases "write_batch (\<lambda>_. False) (\<lambda>xs. xs) (\<lambda>xs. xs) feed_source [row] feed_idb") simp_all
  then show ?thesis unfolding perm_of_id using r n x by (cases y) blast
qed

text \<open>One file of one row is read, written and recorded.\<close>

lemma feed_run:
  "\<exists>s. run_pipeline (\<lambda>_. None) 4 feed (write_batch (\<lambda>_. False) (perm_of (\<lambda>xs. xs)) (perm_of (\<lambda>xs. xs))) (\<lambda>_. True)
      feed_registry feed_options feed_idb [] None s
    \<and> map_of (w_ledger (p_write s)) (job_key feed_job) \<noteq> None \<and> \<not> p_cancelled s"
proof -
  let ?wr = "write_batch (\<lambda>_. False) (perm_of (\<lambda>xs. xs)) (perm_of (\<lambda>xs. xs))"
  let ?reads = "job_reads (\<lambda>_. None) feed feed_options (\<lambda>_. None)"
  obtain r row r1 res db1 where r: "new_reader ''tml'' sample_header = Inr r" and n: "reader_next (\<lambda>_. None) feed_record r = Some (Inr row, r1)"
    and w: "?wr feed_source [row] feed_idb = Inr (res, db1)" using feed_row by blast
  let ?c1 = "rows_chunk feed_job [row] 1 0" and ?c2 = "(blank_chunk feed_job)\<lparr>KValidator := ''v1''\<rparr>"
  have size: "batch_size_of feed_options = 2000" by (simp add: batch_size_of_def feed_options_def default_batch_size_def)
  have src: "JSource feed_job = feed_source" "SProfile feed_source = ''tml''" by (simp_all add: feed_job_def feed_source_def)
  have "read_loop (\<lambda>_. None) 2000 feed_job feed_body 2 r1 [row] 1 0 [] = Some [?c1]"
    by (subst read_loop.simps) (simp add: feed_body_def)
  then have "read_loop (\<lambda>_. None) 2000 feed_job feed_body 1 r [] 0 0 [] = Some [?c1]"
    by (subst read_loop.simps) (simp add: feed_body_def n numeral_2_eq_2)
  then have reads: "?reads feed_job = Some ([?c1, ?c2], None)"
    by (simp add: job_reads_def read_file_def open_file_def feed_def size src r feed_body_def)
  from one_file_run [where reads = ?reads, OF reads, of ?wr "\<lambda>_. True" feed_idb "[]"] obtain s where
      run: "pipe_run ?reads ?wr (\<lambda>_. True) (start_pipe [feed_job] 1 feed_idb []) [(?c1, False), (?c2, False)] s"
    and s: "drained s" "\<not> p_cancelled s" "p_errs s = []" by auto
  have rf: "reads_files ?reads [feed_job]"
    using plan_reads_files [OF feed_plan(1), of feed_options] feed_plan(2) by (simp add: feed_options_def)
  have fin: "p_write s = take_all ?wr (\<lambda>_. True) [(?c1, False), (?c2, False)] (p_write (start_pipe [feed_job] 1 feed_idb []))"
    using pipe_run_inv [OF run rf] by blast
  have wrote: "w_err (p_write s) = None" "FilesRead (w_stats (p_write s)) = 1" "map_of (w_ledger (p_write s)) (job_key feed_job) \<noteq> None"
    unfolding fin take_all_def using w
    by (simp_all add: take_chunk_def rows_chunk_def blank_chunk_def start_pipe_def no_stats_def flaky_def src record_file_def put_ledger_def)
  have out: "run_outcome (length (plan feed_registry feed_options)) s = None" using wrote s(3) by (simp add: run_outcome_def)
  have "known_files feed feed_options (Inr []) = Inr (\<lambda>_. None)" by (simp add: known_files_def load_ledger_def feed_def feed_options_def)
  from run_pipeline.ran [OF _ this, of feed_registry "\<lambda>_. None" ?wr "\<lambda>_. True" 4 feed_idb "[(?c1, False), (?c2, False)]" s]
  have "run_pipeline (\<lambda>_. None) 4 feed ?wr (\<lambda>_. True) feed_registry feed_options feed_idb [] None s"
    using run s(1) unfolding feed_plan(2,3) out [unfolded feed_plan(2)] by simp
  then show ?thesis using wrote(3) s(2) by blast
qed

lemma feed_distinct: "distinct (OTours feed_options)" "distinct (OSeasons feed_options)"
  by (simp_all add: feed_options_def)

theorem recorded_file_is_held_witness:
  "\<exists>s j body rows. run_pipeline (\<lambda>_. None) 4 feed (write_batch (\<lambda>_. False) (perm_of (\<lambda>xs. xs)) (perm_of (\<lambda>xs. xs))) (\<lambda>_. True)
      feed_registry feed_options feed_idb [] None s
    \<and> whole_file (\<lambda>_. None) j body rows \<and> (\<forall>r \<in> set rows. row_held (JSource j) r (w_db (p_write s)))"
proof -
  obtain s where run: "run_pipeline (\<lambda>_. None) 4 feed (write_batch (\<lambda>_. False) (perm_of (\<lambda>xs. xs)) (perm_of (\<lambda>xs. xs))) (\<lambda>_. True)
      feed_registry feed_options feed_idb [] None s"
    and k: "map_of (w_ledger (p_write s)) (job_key feed_job) \<noteq> map_of [] (job_key feed_job)" using feed_run by auto
  show ?thesis using recorded_file_is_held [OF feed_plan(1) feed_distinct feed_idb_ok run k] run by blast
qed

theorem run_balances_witness:
  "\<exists>s. run_pipeline (\<lambda>_. None) 4 feed (write_batch (\<lambda>_. False) (perm_of (\<lambda>xs. xs)) (perm_of (\<lambda>xs. xs))) (\<lambda>_. True)
      feed_registry feed_options feed_idb [] None s
    \<and> FilesRead (w_stats (p_write s)) + FilesMissing (w_stats (p_write s)) + FilesSkipped (w_stats (p_write s)) = 1"
proof -
  obtain s where run: "run_pipeline (\<lambda>_. None) 4 feed (write_batch (\<lambda>_. False) (perm_of (\<lambda>xs. xs)) (perm_of (\<lambda>xs. xs))) (\<lambda>_. True)
      feed_registry feed_options feed_idb [] None s" and c: "\<not> p_cancelled s" using feed_run by blast
  show ?thesis using run_balances [OF feed_plan(1) feed_distinct feed_idb_ok _ run] run c feed_plan(2) by auto
qed

theorem pipeline_ends_witness:
  "drained (start_pipe (plan feed_registry feed_options) 1 feed_idb [])
    \<or> (\<exists>ms u. pipe_step (job_reads (\<lambda>_. None) feed feed_options (\<lambda>_. None)) (write_batch (\<lambda>_. False) (perm_of rev) (perm_of rev)) (\<lambda>_. True)
          (start_pipe (plan feed_registry feed_options) 1 feed_idb []) ms u)"
proof -
  have e: "\<exists>m \<le> 31000. body (m + 1) = CsvEnd" if "open_file feed j v = Opened body valid" for j v body valid
  proof -
    have "body = feed_body" using that by (simp add: open_file_def feed_def)
    then show ?thesis by (intro exI [of _ 1]) (simp add: feed_body_def)
  qed
  show ?thesis
    by (rule pipeline_ends [where f = feed and known = "\<lambda>_. None", OF feed_plan(1) feed_distinct e pipe_run.here, THEN conjunct2])
qed

text \<open>
  A run that is cancelled between two files reports success: the feeder stops handing out files, the workers find
  nothing more to do, and no error was raised.
\<close>

lemma cancelled_run_succeeds:
  assumes "p_workers s = [Idle]" and "p_chan s = []" and "p_errs s = []" and "p_todo s \<noteq> []"
    and "w_err (p_write s) = None" and "FilesRead (w_stats (p_write s)) > 0" and "\<not> p_cancelled s"
    and run: "pipe_run reads wr rec s0 ls s"
  shows "\<exists>t. pipe_run reads wr rec s0 ls t \<and> drained t \<and> run_outcome planned t = None \<and> p_write t = p_write s"
proof -
  let ?a = "s\<lparr>p_cancelled := True\<rparr>"
  let ?b = "?a\<lparr>p_todo := []\<rparr>"
  have "pipe_run reads wr rec s0 ls ?b"
    using pipe_run_step [OF pipe_run_step [OF run pipe_step.pipe_cancel] pipe_step.pipe_stop] assms(4,7) by simp
  then have "pipe_run reads wr rec s0 ls (?b\<lparr>p_workers := [Exited]\<rparr>)"
    using pipe_run_step [OF _ pipe_step.pipe_quit [of 0 ?b]] assms(1) by simp
  then show ?thesis
    using assms(2,3,5,6) by (intro exI [of _ "?b\<lparr>p_workers := [Exited]\<rparr>"]) (simp add: drained_def run_outcome_def)
qed

end
