(* ===== verification/Charting.thy ===== *)
theory Charting
  imports IngestStoreFacts
begin

text \<open>
  \<open>internal/charting\<close>, up to the database: \<open>charting.go\<close> (the rows of the project's files), \<open>reader.go\<close> (reading
  them by header) and \<open>resolve.go\<close> (finding the one match a charted match is). What the CSV decoder returns is a
  parameter: the records it yields, then the end of the file or an error. A date is year, month and day; the
  difference of two instants at midnight UTC is a number of days.
\<close>

section \<open>Days\<close>

definition year_start :: "int \<Rightarrow> int" where
  "year_start y = 365 * (y - 1) + (y - 1) div 4 - (y - 1) div 100 + (y - 1) div 400"

text \<open>The days between the first of January of the year 1 and a date.\<close>

definition day_number :: "civil \<Rightarrow> int" where
  "day_number = (\<lambda>(y, m, d). year_start y + sum_list (map (\<lambda>i. days_in i y) [1..m - 1]) + d - 1)"

section \<open>The rows\<close>

record charted =
  CId :: string
  CTour :: string
  CPlayer1 :: string
  CPlayer2 :: string
  CPlayedOn :: civil
  CEvent :: string
  CRound :: string
  CChartedBy :: string

record set_figures =
  FgServePoints :: int
  FgAces :: int
  FgDoubleFaults :: int
  FgFirstIn :: int
  FgFirstWon :: int
  FgSecondIn :: int
  FgSecondWon :: int
  FgBPFaced :: int
  FgBPSaved :: int
  FgReturnPoints :: int
  FgReturnPointsWon :: int
  FgWinners :: int
  FgWinnersFH :: int
  FgWinnersBH :: int
  FgUnforced :: int
  FgUnforcedFH :: int
  FgUnforcedBH :: int

record charted_stat =
  SMatchID :: string
  SPlayer :: string
  SSet :: int
  SFigures :: set_figures

record counts =
  NSeen :: nat
  NKept :: nat
  NRejected :: nat

section \<open>Reading\<close>

record csv_file =
  csv_records :: "string list list"
  csv_fails :: bool

datatype charting_error =
  NoHeader
| NoColumn string
| BadCsv nat

text \<open>\<open>columns\<close>: the wanted names in order, the first missing one an error.\<close>

definition chart_columns :: "string list \<Rightarrow> string list \<Rightarrow> charting_error + (string \<rightharpoonup> nat)" where
  "chart_columns header want =
     (case filter (\<lambda>w. header_index header w = None) want of
        w # _ \<Rightarrow> Inl (NoColumn w)
      | [] \<Rightarrow> Inr (\<lambda>w. if w \<in> set want then header_index header w else None))"

text \<open>\<open>rec[col[name]]\<close>: Go's map answers 0 for a name that is not there.\<close>

definition col_text :: "(string \<rightharpoonup> nat) \<Rightarrow> string list \<Rightarrow> string \<Rightarrow> string" where
  "col_text col rec name = trim_space (rec ! (case col name of None \<Rightarrow> 0 | Some i \<Rightarrow> i))"

definition compact_date :: "string \<Rightarrow> bool" where
  "compact_date s \<longleftrightarrow> length s = 8 \<and> list_all is_digit s"

definition reject_row :: "counts \<Rightarrow> counts" where
  "reject_row c = c\<lparr>NSeen := NSeen c + 1, NRejected := NRejected c + 1\<rparr>"

definition keep_row :: "counts \<Rightarrow> counts" where
  "keep_row c = c\<lparr>NSeen := NSeen c + 1, NKept := NKept c + 1\<rparr>"

definition no_counts :: counts where
  "no_counts = \<lparr>NSeen = 0, NKept = 0, NRejected = 0\<rparr>"

definition match_columns :: "string list" where
  "match_columns = [''match_id'', ''Player 1'', ''Player 2'', ''Date'', ''Tournament'', ''Round'', ''Charted by'']"

fun read_match_rows :: "string \<Rightarrow> string list \<Rightarrow> (string \<rightharpoonup> nat) \<Rightarrow> string list list \<Rightarrow> string list
    \<Rightarrow> charted list \<Rightarrow> counts \<Rightarrow> charted list \<times> counts" where
  "read_match_rows tour header col [] seen out st = (out, st)"
| "read_match_rows tour header col (rec # recs) seen out st =
     (if length rec \<noteq> length header then read_match_rows tour header col recs seen out (reject_row st)
      else
        let i = col_text col rec ''match_id''; date = col_text col rec ''Date''
        in if \<not> compact_date date \<or> \<not> has_prefix i date then read_match_rows tour header col recs seen out (reject_row st)
        else case parse_yyyymmdd date of
          None \<Rightarrow> read_match_rows tour header col recs seen out (reject_row st)
        | Some played \<Rightarrow>
            if i \<in> set seen then read_match_rows tour header col recs seen out (reject_row st)
            else read_match_rows tour header col recs (i # seen)
              (out @ [\<lparr>CId = i, CTour = tour, CPlayer1 = col_text col rec ''Player 1'', CPlayer2 = col_text col rec ''Player 2'',
                 CPlayedOn = played, CEvent = col_text col rec ''Tournament'', CRound = col_text col rec ''Round'',
                 CChartedBy = col_text col rec ''Charted by''\<rparr>]) (keep_row st))"

text \<open>Any error of the decoder ends the read, with the rows before it thrown away.\<close>

definition read_matches :: "string \<Rightarrow> csv_file \<Rightarrow> charting_error + (charted list \<times> counts)" where
  "read_matches tour f =
     (case csv_records f of
        [] \<Rightarrow> Inl NoHeader
      | header # recs \<Rightarrow>
          (case chart_columns header match_columns of
             Inl e \<Rightarrow> Inl e
           | Inr col \<Rightarrow>
               let (out, st) = read_match_rows tour header col recs [] [] no_counts
               in if csv_fails f then Inl (BadCsv (NSeen st + 2)) else Inr (out, st)))"

definition figure_columns :: "string list" where
  "figure_columns =
     [''serve_pts'', ''aces'', ''dfs'', ''first_in'', ''first_won'', ''second_in'', ''second_won'',
      ''bk_pts'', ''bp_saved'', ''return_pts'', ''return_pts_won'',
      ''winners'', ''winners_fh'', ''winners_bh'', ''unforced'', ''unforced_fh'', ''unforced_bh'']"

text \<open>The set number: \<open>None\<close> is a row to reject.\<close>

definition set_number :: "string \<Rightarrow> int option" where
  "set_number s =
     (if s = ''Total'' then Some 0
      else case atoi s of None \<Rightarrow> None | Some n \<Rightarrow> if n < 1 \<or> n > 5 then None else Some n)"

fun figure_values :: "(string \<rightharpoonup> nat) \<Rightarrow> string list \<Rightarrow> string list \<Rightarrow> int list option" where
  "figure_values col rec [] = Some []"
| "figure_values col rec (name # names) =
     (case atoi (col_text col rec name) of
        None \<Rightarrow> None
      | Some n \<Rightarrow> if n < 0 \<or> n > 1000 then None else map_option ((#) (to_int16 n)) (figure_values col rec names))"

definition make_figures :: "int list \<Rightarrow> set_figures" where
  "make_figures f =
     \<lparr>FgServePoints = f ! 0, FgAces = f ! 1, FgDoubleFaults = f ! 2, FgFirstIn = f ! 3, FgFirstWon = f ! 4,
      FgSecondIn = f ! 5, FgSecondWon = f ! 6, FgBPFaced = f ! 7, FgBPSaved = f ! 8,
      FgReturnPoints = f ! 9, FgReturnPointsWon = f ! 10,
      FgWinners = f ! 11, FgWinnersFH = f ! 12, FgWinnersBH = f ! 13,
      FgUnforced = f ! 14, FgUnforcedFH = f ! 15, FgUnforcedBH = f ! 16\<rparr>"

definition read_stat_row :: "string list \<Rightarrow> (string \<rightharpoonup> nat) \<Rightarrow> string list \<Rightarrow> charted_stat option" where
  "read_stat_row header col rec =
     (if length rec \<noteq> length header then None
      else case set_number (col_text col rec ''set'') of
        None \<Rightarrow> None
      | Some n \<Rightarrow>
          (case figure_values col rec figure_columns of
             None \<Rightarrow> None
           | Some f \<Rightarrow> Some \<lparr>SMatchID = col_text col rec ''match_id'', SPlayer = col_text col rec ''player'',
               SSet = n, SFigures = make_figures f\<rparr>))"

fun read_stat_rows :: "string list \<Rightarrow> (string \<rightharpoonup> nat) \<Rightarrow> string list list \<Rightarrow> charted_stat list \<Rightarrow> counts
    \<Rightarrow> charted_stat list \<times> counts" where
  "read_stat_rows header col [] out st = (out, st)"
| "read_stat_rows header col (rec # recs) out st =
     (case read_stat_row header col rec of
        None \<Rightarrow> read_stat_rows header col recs out (reject_row st)
      | Some s \<Rightarrow> read_stat_rows header col recs (out @ [s]) (keep_row st))"

definition read_stats :: "csv_file \<Rightarrow> charting_error + (charted_stat list \<times> counts)" where
  "read_stats f =
     (case csv_records f of
        [] \<Rightarrow> Inl NoHeader
      | header # recs \<Rightarrow>
          (case chart_columns header ([''match_id'', ''player'', ''set''] @ figure_columns) of
             Inl e \<Rightarrow> Inl e
           | Inr col \<Rightarrow>
               let (out, st) = read_stat_rows header col recs [] no_counts
               in if csv_fails f then Inl (BadCsv (NSeen st + 2)) else Inr (out, st)))"

section \<open>The same person\<close>

definition particles :: "string set" where
  "particles =
     {''de'', ''del'', ''della'', ''der'', ''den'', ''di'', ''da'', ''do'', ''dos'', ''du'', ''van'', ''von'', ''la'', ''le'',
      ''el'', ''al'', ''y'', ''e'', ''jr'', ''sr'', ''ii'', ''iii''}"

text \<open>\<open>name.Normalise\<close> on a Go string, as words.\<close>

definition norm_name :: "(rune \<Rightarrow> bool) \<Rightarrow> string \<Rightarrow> string" where
  "norm_name ul s = normalise ul (runes_of s)"

definition surnames :: "(rune \<Rightarrow> bool) \<Rightarrow> string \<Rightarrow> string list" where
  "surnames ul full =
     (let ws = str_fields (norm_name ul full)
      in if length ws \<le> 1 then ws
      else let rest = tl ws;
               out = filter (\<lambda>w. w \<notin> particles) rest @ (if length rest > 1 then [join rest []] else [])
           in if out = [] then rest else out)"

definition shares_given_name :: "string \<Rightarrow> string \<Rightarrow> bool" where
  "shares_given_name a b =
     (let wa = str_fields a; wb = str_fields b
      in wa \<noteq> [] \<and> wb \<noteq> [] \<and> (hd wa \<in> set wb \<or> hd wb \<in> set wa))"

definition no_spaces :: "string \<Rightarrow> string" where
  "no_spaces s = filter (\<lambda>c. c \<noteq> CHR '' '') s"

definition same_person :: "(rune \<Rightarrow> bool) \<Rightarrow> string \<Rightarrow> string \<Rightarrow> bool" where
  "same_person ul a_name b_name =
     (let a = norm_name ul a_name; b = norm_name ul b_name
      in if a = b \<or> no_spaces a = no_spaces b then True
      else if a = [] \<or> b = [] \<or> (hd a \<noteq> hd b \<and> \<not> shares_given_name a b) then False
      else list_ex (\<lambda>x. x \<in> set (surnames ul b_name)) (surnames ul a_name))"

section \<open>The index\<close>

record candidate =
  DMatchID :: int
  DWinnerID :: int
  DLoserID :: int
  DWinner :: string
  DLoser :: string
  DRound :: string
  DPlayedOn :: civil

record resolution =
  RsMatchID :: int
  RsPlayer1ID :: int
  RsPlayer2ID :: int

definition before_days :: int where "before_days = 7"
definition after_days :: int where "after_days = 21"

definition index_key :: "string \<Rightarrow> string \<Rightarrow> string \<Rightarrow> string" where
  "index_key rnd a b =
     (let (a, b) = (if a > b then (b, a) else (a, b)) in trim_space rnd @ ''|'' @ a @ ''|'' @ b)"

type_synonym index = "(string \<times> candidate list) list"

definition index_rows :: "index \<Rightarrow> string \<Rightarrow> candidate list" where
  "index_rows ix k = (case map_of ix k of None \<Rightarrow> [] | Some cs \<Rightarrow> cs)"

definition add_key :: "candidate \<Rightarrow> string \<Rightarrow> index \<Rightarrow> index" where
  "add_key c k ix = put_append k c ix"

definition index_keys :: "(rune \<Rightarrow> bool) \<Rightarrow> candidate \<Rightarrow> string list" where
  "index_keys ul c = concat (map (\<lambda>a. concat (map (\<lambda>b. [index_key (DRound c) a b, index_key [] a b]) (surnames ul (DLoser c))))
     (surnames ul (DWinner c)))"

definition new_index :: "(rune \<Rightarrow> bool) \<Rightarrow> candidate list \<Rightarrow> index" where
  "new_index ul cands = fold (\<lambda>c. fold (add_key c) (index_keys ul c)) cands []"

definition in_window :: "civil \<Rightarrow> civil \<Rightarrow> bool" where
  "in_window played start \<longleftrightarrow>
     \<not> day_number played < day_number start - before_days \<and> \<not> day_number played > day_number start + after_days"

definition distance :: "civil \<Rightarrow> civil \<Rightarrow> int" where
  "distance played start =
     (let d = day_number played - day_number start in if d < 0 then - d + after_days else d)"

definition both_persons :: "(rune \<Rightarrow> bool) \<Rightarrow> charted \<Rightarrow> candidate \<Rightarrow> bool" where
  "both_persons ul m c \<longleftrightarrow>
     same_person ul (CPlayer1 m) (DWinner c) \<and> same_person ul (CPlayer2 m) (DLoser c) \<or>
     same_person ul (CPlayer1 m) (DLoser c) \<and> same_person ul (CPlayer2 m) (DWinner c)"

definition take_candidate :: "(rune \<Rightarrow> bool) \<Rightarrow> charted \<Rightarrow> candidate \<Rightarrow> candidate list \<Rightarrow> candidate list" where
  "take_candidate ul m c found =
     (if DMatchID c \<in> DMatchID ` set found \<or> \<not> in_window (CPlayedOn m) (DPlayedOn c) then found
      else if both_persons ul m c then found @ [c] else found)"

definition asked_keys :: "(rune \<Rightarrow> bool) \<Rightarrow> charted \<Rightarrow> string \<Rightarrow> string list" where
  "asked_keys ul m rnd = concat (map (\<lambda>s1. map (\<lambda>s2. index_key rnd s1 s2) (surnames ul (CPlayer2 m))) (surnames ul (CPlayer1 m)))"

definition found_rows :: "(rune \<Rightarrow> bool) \<Rightarrow> index \<Rightarrow> charted \<Rightarrow> string \<Rightarrow> candidate list" where
  "found_rows ul ix m rnd =
     fold (\<lambda>k found. fold (take_candidate ul m) (index_rows ix k) found) (asked_keys ul m rnd) []"

datatype reason = NoMatch | ManyMatches

definition reason_text :: "reason \<Rightarrow> string" where
  "reason_text r =
     (case r of NoMatch \<Rightarrow> ''no match on that date with those players in that round''
      | ManyMatches \<Rightarrow> ''more than one match on that date with those players in that round'')"

definition resolution_of :: "(rune \<Rightarrow> bool) \<Rightarrow> charted \<Rightarrow> candidate \<Rightarrow> resolution" where
  "resolution_of ul m c =
     (if same_person ul (CPlayer1 m) (DWinner c)
      then \<lparr>RsMatchID = DMatchID c, RsPlayer1ID = DWinnerID c, RsPlayer2ID = DLoserID c\<rparr>
      else \<lparr>RsMatchID = DMatchID c, RsPlayer1ID = DLoserID c, RsPlayer2ID = DWinnerID c\<rparr>)"

definition resolve_match :: "(rune \<Rightarrow> bool) \<Rightarrow> index \<Rightarrow> charted \<Rightarrow> reason + resolution" where
  "resolve_match ul ix m =
     (let found = found_rows ul ix m (CRound m);
          found = (if found = [] \<and> CRound m \<noteq> [] then found_rows ul ix m [] else found)
      in case found of
        [] \<Rightarrow> Inl NoMatch
      | [c] \<Rightarrow> Inr (resolution_of ul m c)
      | _ \<Rightarrow>
          let found = sort_slice (\<lambda>a b. distance (CPlayedOn m) (DPlayedOn a) < distance (CPlayedOn m) (DPlayedOn b)) found
          in if distance (CPlayedOn m) (DPlayedOn (found ! 0)) = distance (CPlayedOn m) (DPlayedOn (found ! 1))
             then Inl ManyMatches else Inr (resolution_of ul m (found ! 0)))"

end
