(* ===== verification/ChartingStore.thy ===== *)
theory ChartingStore
  imports Charting
begin

text \<open>
  \<open>internal/charting\<close>, the database side: \<open>store.go\<close> (the candidates, a batch of charted matches attached to
  their rows, the unresolved ones) and \<open>loader.go\<close> (a run over the sources, resumable through the ledger). The
  loader is generic in its store, as the Go code is: \<open>store_ops\<close> is the interface \<open>Store\<close>, \<open>pg_store\<close> the
  implementation on Postgres.
\<close>

section \<open>Tables\<close>

record attachment =
  AMatch :: charted
  ARow :: resolution
  AStats :: "charted_stat list"

record charted_row =
  KCharting :: string
  KPlayedOn :: civil
  KChartedBy :: "string option"
  KFrom :: string

text \<open>
  \<open>k_rows\<close> is \<open>matches\<close> joined with its tournament and its two players: the tour, and the row as a candidate.
  \<open>charted_matches\<close> and \<open>charted_stats\<close> are keyed by their primary keys.
\<close>

record chart_db =
  k_rows :: "(string \<times> candidate) list"
  k_players :: "int list"
  k_matches :: "(int \<times> charted_row) list"
  k_stats :: "((int \<times> int \<times> int) \<times> set_figures) list"
  k_unresolved :: "((string \<times> string \<times> string) \<times> nat) list"

definition stats_consistent :: "set_figures \<Rightarrow> bool" where
  "stats_consistent f \<longleftrightarrow>
     FgFirstIn f \<le> FgServePoints f \<and> FgFirstWon f \<le> FgFirstIn f \<and> FgSecondWon f \<le> FgSecondIn f
     \<and> FgBPSaved f \<le> FgBPFaced f \<and> FgReturnPointsWon f \<le> FgReturnPoints f"

definition charting_constraints :: "(string \<times> (chart_db \<Rightarrow> bool)) list" where
  "charting_constraints =
     [(''charted_matches_pkey'', \<lambda>db. distinct (map fst (k_matches db))),
      (''charted_matches_charting_id_key'', \<lambda>db. distinct (map (KCharting \<circ> snd) (k_matches db))),
      (''charted_matches_match_id_fkey'', \<lambda>db. \<forall>i \<in> keys (k_matches db). \<exists>r \<in> set (k_rows db). DMatchID (snd r) = i),
      (''charted_stats_pkey'', \<lambda>db. distinct (map fst (k_stats db))),
      (''charted_stats_match_id_fkey'', \<lambda>db. \<forall>(i, p, n) \<in> keys (k_stats db). i \<in> keys (k_matches db)),
      (''charted_stats_player_id_fkey'', \<lambda>db. \<forall>(i, p, n) \<in> keys (k_stats db). p \<in> set (k_players db)),
      (''charted_stats_consistent'', \<lambda>db. \<forall>f \<in> snd ` set (k_stats db). stats_consistent f)]"

text \<open>What the text columns take: valid UTF-8 with no zero byte.\<close>

definition text_ok :: "string \<Rightarrow> bool" where
  "text_ok s \<longleftrightarrow> valid_utf8 s \<and> CHR 0x00 \<notin> set s"

section \<open>The store\<close>

definition pg_candidates :: "string \<Rightarrow> int \<Rightarrow> int \<Rightarrow> chart_db \<Rightarrow> candidate list" where
  "pg_candidates tour from_day to_day db =
     map snd (filter (\<lambda>r. fst r = tour \<and> from_day \<le> day_number (DPlayedOn (snd r)) \<and> day_number (DPlayedOn (snd r)) \<le> to_day) (k_rows db))"

text \<open>\<open>DELETE FROM charted_matches\<close>; the figures of the rows go with them.\<close>

definition delete_charted :: "(int \<Rightarrow> string \<Rightarrow> bool) \<Rightarrow> chart_db \<Rightarrow> chart_db" where
  "delete_charted p db =
     (let kept = filter (\<lambda>r. \<not> p (fst r) (KCharting (snd r))) (k_matches db)
      in db\<lparr>k_matches := kept, k_stats := filter (\<lambda>s. fst (fst s) \<in> keys kept) (k_stats db)\<rparr>)"

definition insert_charted :: "string \<Rightarrow> attachment \<Rightarrow> chart_db \<Rightarrow> chart_db" where
  "insert_charted source a db =
     db\<lparr>k_matches := k_matches db @ [(RsMatchID (ARow a),
          \<lparr>KCharting = CId (AMatch a), KPlayedOn = CPlayedOn (AMatch a), KChartedBy = null_if_empty (CChartedBy (AMatch a)), KFrom = source\<rparr>)]\<rparr>"

text \<open>
  Which player a stat line is of: the first charted name it carries. A row's checks come before the conflict with
  a row that is there already.
\<close>

definition line_player :: "attachment \<Rightarrow> charted_stat \<Rightarrow> int option" where
  "line_player a st =
     (if SPlayer st = CPlayer1 (AMatch a) then Some (RsPlayer1ID (ARow a))
      else if SPlayer st = CPlayer2 (AMatch a) then Some (RsPlayer2ID (ARow a))
      else None)"

definition insert_stat :: "attachment \<Rightarrow> charted_stat \<Rightarrow> chart_db \<Rightarrow> sql_error + chart_db" where
  "insert_stat a st db =
     (case line_player a st of
        None \<Rightarrow> Inr db
      | Some p \<Rightarrow>
          and_then (checked (stats_consistent (SFigures st)) ''charted_stats_consistent'' db)
            (exec charting_constraints (\<lambda>db. db\<lparr>k_stats := insert_new ((RsMatchID (ARow a), p, SSet st), SFigures st) (k_stats db)\<rparr>)))"

fun insert_stats :: "attachment \<Rightarrow> charted_stat list \<Rightarrow> chart_db \<Rightarrow> sql_error + chart_db" where
  "insert_stats a [] db = Inr db"
| "insert_stats a (st # sts) db = and_then (insert_stat a st db) (insert_stats a sts)"

definition forget_unresolved :: "string \<Rightarrow> string \<Rightarrow> chart_db \<Rightarrow> chart_db" where
  "forget_unresolved source i db = db\<lparr>k_unresolved := filter (\<lambda>u. \<not> (fst (fst u) = source \<and> snd (snd (fst u)) = i)) (k_unresolved db)\<rparr>"

definition attach :: "string \<Rightarrow> attachment \<Rightarrow> chart_db \<Rightarrow> sql_error + chart_db" where
  "attach source a db =
     and_then (checked (text_ok (CId (AMatch a)) \<and> text_ok (CChartedBy (AMatch a)) \<and> text_ok source) ''encoding'' db) (\<lambda>db.
     and_then (exec charting_constraints (delete_charted (\<lambda>i c. c = CId (AMatch a) \<or> i = RsMatchID (ARow a))) db) (\<lambda>db.
     and_then (exec charting_constraints (insert_charted source a) db) (\<lambda>db.
     and_then (insert_stats a (AStats a) db) (\<lambda>db.
     Inr (forget_unresolved source (CId (AMatch a)) db)))))"

fun attach_all :: "string \<Rightarrow> attachment list \<Rightarrow> chart_db \<Rightarrow> sql_error + chart_db" where
  "attach_all source [] db = Inr db"
| "attach_all source (a # as) db = and_then (attach source a db) (attach_all source as)"

text \<open>One transaction: the lines queued, and the state, or the error and nothing done.\<close>

definition queued :: "attachment list \<Rightarrow> nat" where
  "queued batch = sum_list (map (\<lambda>a. length (filter (\<lambda>st. line_player a st \<noteq> None) (AStats a))) batch)"

definition pg_write :: "string \<Rightarrow> attachment list \<Rightarrow> chart_db \<Rightarrow> sql_error + (nat \<times> chart_db)" where
  "pg_write source batch db =
     (if batch = [] then Inr (0, db)
      else and_then (attach_all source batch db) (\<lambda>db. Inr (queued batch, db)))"

text \<open>\<open>RecordUnresolved\<close>: detached first, and only then recorded, each on its own.\<close>

definition pg_unresolved :: "string \<Rightarrow> string \<Rightarrow> string list \<Rightarrow> chart_db \<Rightarrow> sql_error option \<times> chart_db" where
  "pg_unresolved source kind ids db =
     (if \<not> list_all text_ok ids then (Some (Violates ''encoding''), db)
      else
        let db = delete_charted (\<lambda>i c. c \<in> set ids) db
        in if ids = [] then (None, db)
        else if \<not> text_ok source then (Some (Violates ''encoding''), db)
        else (None, db\<lparr>k_unresolved := fold (\<lambda>i. put (source, kind, i) 1) ids (k_unresolved db)\<rparr>))"

record 'db store_ops =
  so_candidates :: "string \<Rightarrow> int \<Rightarrow> int \<Rightarrow> 'db \<Rightarrow> sql_error + candidate list"
  so_write :: "string \<Rightarrow> attachment list \<Rightarrow> 'db \<Rightarrow> sql_error + (nat \<times> 'db)"
  so_unresolved :: "string \<Rightarrow> string \<Rightarrow> string list \<Rightarrow> 'db \<Rightarrow> sql_error option \<times> 'db"

definition pg_store :: "chart_db store_ops" where
  "pg_store = \<lparr>so_candidates = (\<lambda>tour a b db. Inr (pg_candidates tour a b db)), so_write = pg_write, so_unresolved = pg_unresolved\<rparr>"

section \<open>The loader\<close>

record load_stats =
  LCharted :: nat
  LResolved :: nat
  LUnresolved :: "reason \<Rightarrow> nat"
  LStatsWritten :: nat
  LRowsRejected :: nat
  LFilesRead :: nat
  LFilesSkipped :: nat
  LFilesMissing :: nat

definition no_load :: load_stats where
  "no_load = \<lparr>LCharted = 0, LResolved = 0, LUnresolved = (\<lambda>_. 0), LStatsWritten = 0, LRowsRejected = 0,
     LFilesRead = 0, LFilesSkipped = 0, LFilesMissing = 0\<rparr>"

datatype fetched = FUnchanged string | FAbsent | FFailed | FBody csv_file string

record path_fetcher =
  pf_conditional :: bool
  pf_open :: "string \<Rightarrow> string \<Rightarrow> fetched"
  pf_open_if_changed :: "string \<Rightarrow> string \<Rightarrow> string \<Rightarrow> fetched"

datatype charting_failure =
  OpenError string
| FileError string charting_error
| StoreError sql_error
| LedgerError

type_synonym file_ledger = "((string \<times> string) \<times> (string \<times> nat \<times> nat)) list"

record 'db load_state =
  l_db :: 'db
  l_ledger :: file_ledger
  l_stats :: load_stats

text \<open>\<open>open\<close>: with a conditional fetcher and what the ledger knows of the file.\<close>

definition open_path :: "path_fetcher \<Rightarrow> ((string \<times> string) \<rightharpoonup> string) \<Rightarrow> charting_source \<Rightarrow> string \<Rightarrow> fetched" where
  "open_path pf known cs path =
     (if pf_conditional pf
      then pf_open_if_changed pf (CsBaseURL cs) path (case known (path_key (CsName cs) path) of None \<Rightarrow> [] | Some v \<Rightarrow> v)
      else case pf_open pf (CsBaseURL cs) path of FBody body _ \<Rightarrow> FBody body [] | FUnchanged _ \<Rightarrow> FUnchanged [] | res \<Rightarrow> res)"

text \<open>\<open>record\<close>; \<open>keeps\<close> is which entries the ledger can store, \<open>None\<close> stands for no ledger.\<close>

definition record_path :: "((string \<times> string) \<Rightarrow> bool) option \<Rightarrow> charting_source \<Rightarrow> string \<Rightarrow> string \<Rightarrow> nat \<Rightarrow> nat
    \<Rightarrow> 'db load_state \<Rightarrow> 'db load_state" where
  "record_path keeps cs path validator seen written s =
     (case keeps of
        None \<Rightarrow> s
      | Some k \<Rightarrow>
          if validator = [] \<or> \<not> k (path_key (CsName cs) path) then s
          else s\<lparr>l_ledger := put (path_key (CsName cs) path) (validator, seen, written) (l_ledger s)\<rparr>)"

definition absent :: "string \<Rightarrow> fetched \<Rightarrow> 'db load_state \<Rightarrow> charting_failure option \<times> 'db load_state" where
  "absent path res s =
     (if res = FAbsent then (None, s\<lparr>l_stats := (l_stats s)\<lparr>LFilesMissing := LFilesMissing (l_stats s) + 1\<rparr>\<rparr>)
      else (Some (OpenError path), s))"

definition year_of :: "charted \<Rightarrow> int" where
  "year_of m = fst (CPlayedOn m)"

definition years :: "charted list \<Rightarrow> int list" where
  "years ms = sort (remdups (map year_of ms))"

definition year_from :: "int \<Rightarrow> int" where "year_from y = day_number (y, 1, 1) - after_days"
definition year_to :: "int \<Rightarrow> int" where "year_to y = day_number (y, 12, 31) + before_days"

text \<open>The charted matches of one year: those that resolve with their lines, and the others with their reason.\<close>

definition year_batch :: "(rune \<Rightarrow> bool) \<Rightarrow> index \<Rightarrow> charted_stat list \<Rightarrow> charted list \<Rightarrow> attachment list \<times> (string \<times> reason) list" where
  "year_batch ul ix sts ms =
     fold (\<lambda>m (batch, un). case resolve_match ul ix m of
         Inl why \<Rightarrow> (batch, un @ [(CId m, why)])
       | Inr r \<Rightarrow> (batch @ [\<lparr>AMatch = m, ARow = r, AStats = filter (\<lambda>st. SMatchID st = CId m) sts\<rparr>], un)) ms ([], [])"

definition count_reasons :: "(string \<times> reason) list \<Rightarrow> (reason \<Rightarrow> nat) \<Rightarrow> (reason \<Rightarrow> nat)" where
  "count_reasons un f = (\<lambda>w. f w + length (filter (\<lambda>u. snd u = w) un))"

text \<open>
  The loop over the years. What it carries besides the state: the unresolved matches so far, and the numbers
  resolved and written for the ledger.
\<close>

fun load_years :: "'db store_ops \<Rightarrow> (rune \<Rightarrow> bool) \<Rightarrow> charting_source \<Rightarrow> charted list \<Rightarrow> charted_stat list \<Rightarrow> int list
    \<Rightarrow> (string \<times> reason) list \<Rightarrow> nat \<Rightarrow> nat \<Rightarrow> 'db load_state
    \<Rightarrow> charting_failure option \<times> (string \<times> reason) list \<times> nat \<times> nat \<times> 'db load_state" where
  "load_years ops ul cs ms sts [] un resolved written s = (None, un, resolved, written, s)"
| "load_years ops ul cs ms sts (y # ys) un resolved written s =
     (case so_candidates ops (CsTour cs) (year_from y) (year_to y) (l_db s) of
        Inl e \<Rightarrow> (Some (StoreError e), un, resolved, written, s)
      | Inr cands \<Rightarrow>
          let of_year = filter (\<lambda>m. year_of m = y) ms;
              (batch, new) = year_batch ul (new_index ul cands) sts of_year;
              st = l_stats s;
              st = st\<lparr>LCharted := LCharted st + length of_year, LUnresolved := count_reasons new (LUnresolved st)\<rparr>
          in case so_write ops (CsName cs) batch (l_db s) of
               Inl e \<Rightarrow> (Some (StoreError e), un @ new, resolved, written, s\<lparr>l_stats := st\<rparr>)
             | Inr (n, db) \<Rightarrow>
                 load_years ops ul cs ms sts ys (un @ new) (resolved + length batch) (written + n)
                   (s\<lparr>l_db := db, l_stats := st\<lparr>LResolved := LResolved st + length batch, LStatsWritten := LStatsWritten st + n\<rparr>\<rparr>))"

text \<open>
  The unresolved matches by reason, in the order \<open>order\<close> in which the map of reasons is ranged over.
\<close>

fun record_reasons :: "'db store_ops \<Rightarrow> charting_source \<Rightarrow> (string \<times> reason) list \<Rightarrow> reason list \<Rightarrow> 'db load_state
    \<Rightarrow> charting_failure option \<times> 'db load_state" where
  "record_reasons ops cs un [] s = (None, s)"
| "record_reasons ops cs un (why # order) s =
     (let ids = map fst (filter (\<lambda>u. snd u = why) un)
      in if ids = [] then record_reasons ops cs un order s
      else case so_unresolved ops (CsName cs) (reason_text why) ids (l_db s) of
        (Some e, db) \<Rightarrow> (Some (StoreError e), s\<lparr>l_db := db\<rparr>)
      | (None, db) \<Rightarrow> record_reasons ops cs un order (s\<lparr>l_db := db\<rparr>))"

text \<open>From two open files to the ledger.\<close>

definition load_bodies :: "'db store_ops \<Rightarrow> (rune \<Rightarrow> bool) \<Rightarrow> ((string \<times> string) \<Rightarrow> bool) option \<Rightarrow> reason list
    \<Rightarrow> charting_source \<Rightarrow> csv_file \<times> string \<Rightarrow> csv_file \<times> string \<Rightarrow> 'db load_state \<Rightarrow> charting_failure option \<times> 'db load_state" where
  "load_bodies ops ul keeps order cs = (\<lambda>(mbody, mtag) (sbody, stag) s.
     (case read_matches (CsTour cs) mbody of
        Inl e \<Rightarrow> (Some (FileError (CsMatches cs) e), s)
      | Inr (ms, mc) \<Rightarrow>
          (case read_stats sbody of
             Inl e \<Rightarrow> (Some (FileError (CsStats cs) e), s)
           | Inr (sts, sc) \<Rightarrow>
               let st = l_stats s;
                   s = s\<lparr>l_stats := st\<lparr>LFilesRead := LFilesRead st + 2, LRowsRejected := LRowsRejected st + NRejected mc + NRejected sc\<rparr>\<rparr>
               in case load_years ops ul cs ms sts (years ms) [] 0 0 s of
                    (Some e, _, _, _, s) \<Rightarrow> (Some e, s)
                  | (None, un, resolved, written, s) \<Rightarrow>
                      (case record_reasons ops cs un order s of
                         (Some e, s) \<Rightarrow> (Some e, s)
                       | (None, s) \<Rightarrow>
                           (None, record_path keeps cs (CsStats cs) stag (NSeen sc) written
                              (record_path keeps cs (CsMatches cs) mtag (NSeen mc) resolved s))))))"

definition load_source :: "'db store_ops \<Rightarrow> (rune \<Rightarrow> bool) \<Rightarrow> ((string \<times> string) \<Rightarrow> bool) option \<Rightarrow> reason list
    \<Rightarrow> path_fetcher \<Rightarrow> ((string \<times> string) \<rightharpoonup> string) \<Rightarrow> charting_source \<Rightarrow> 'db load_state \<Rightarrow> charting_failure option \<times> 'db load_state" where
  "load_source ops ul keeps order pf known cs s =
     (let go = load_bodies ops ul keeps order cs;
          again = (\<lambda>path. case pf_open pf (CsBaseURL cs) path of FBody body _ \<Rightarrow> Some body | _ \<Rightarrow> None)
      in case open_path pf known cs (CsMatches cs) of
        FAbsent \<Rightarrow> absent (CsMatches cs) FAbsent s
      | FFailed \<Rightarrow> absent (CsMatches cs) FFailed s
      | FBody mbody mtag \<Rightarrow>
          (case open_path pf known cs (CsStats cs) of
             FBody sbody stag \<Rightarrow> go (mbody, mtag) (sbody, stag) s
           | FUnchanged stag \<Rightarrow>
               (case again (CsStats cs) of None \<Rightarrow> (Some (OpenError (CsStats cs)), s) | Some sbody \<Rightarrow> go (mbody, mtag) (sbody, stag) s)
           | res \<Rightarrow> absent (CsStats cs) res s)
      | FUnchanged mtag \<Rightarrow>
          (case open_path pf known cs (CsStats cs) of
             FUnchanged _ \<Rightarrow> (None, s\<lparr>l_stats := (l_stats s)\<lparr>LFilesSkipped := LFilesSkipped (l_stats s) + 2\<rparr>\<rparr>)
           | FBody sbody stag \<Rightarrow>
               (case again (CsMatches cs) of None \<Rightarrow> (Some (OpenError (CsMatches cs)), s) | Some mbody \<Rightarrow> go (mbody, mtag) (sbody, stag) s)
           | res \<Rightarrow> absent (CsStats cs) res s))"

fun load_sources :: "(charting_source \<Rightarrow> 'db load_state \<Rightarrow> charting_failure option \<times> 'db load_state) \<Rightarrow> charting_source list \<Rightarrow> 'db load_state
    \<Rightarrow> charting_failure option \<times> 'db load_state" where
  "load_sources load [] s = (None, s)"
| "load_sources load (cs # css) s =
     (case load cs s of (Some e, s) \<Rightarrow> (Some e, s) | (None, s) \<Rightarrow> load_sources load css s)"

text \<open>\<open>Run\<close>: what the ledger holds is asked for once, and only where it can be used; \<open>readable\<close> is whether it answers.\<close>

definition run_charting :: "'db store_ops \<Rightarrow> (rune \<Rightarrow> bool) \<Rightarrow> ((string \<times> string) \<Rightarrow> bool) option \<Rightarrow> bool \<Rightarrow> bool \<Rightarrow> reason list
    \<Rightarrow> path_fetcher \<Rightarrow> charting_source list \<Rightarrow> 'db \<Rightarrow> file_ledger \<Rightarrow> charting_failure option \<times> 'db load_state" where
  "run_charting ops ul keeps readable force order pf css db l =
     (let s = \<lparr>l_db = db, l_ledger = l, l_stats = no_load\<rparr>
      in if pf_conditional pf \<and> keeps \<noteq> None \<and> \<not> force
         then if \<not> readable then (Some LedgerError, s)
           else load_sources (load_source ops ul keeps order pf (\<lambda>k. map_option fst (map_of l k))) css s
         else load_sources (load_source ops ul keeps order pf Map.empty) css s)"

end
