(* ===== verification/ChartingFacts.thy ===== *)
theory ChartingFacts
  imports Charting IngestRowFacts
begin

text \<open>
  What the reading of the charting files and the resolution of a charted match guarantee: the rows read are
  balanced and distinct, the index answers exactly the rows it was given, and the row a charted match resolves
  to is the one nearest match of the two players in the window.
\<close>

section \<open>Surnames\<close>

lemma norm_chars: "c \<in> set (norm_name ul s) \<Longrightarrow> slug_char c \<or> c = CHR '' ''"
proof -
  have "\<not> slug_char CHR '' ''" by (simp add: slug_char_def is_digit_def)
  then show "c \<in> set (norm_name ul s) \<Longrightarrow> slug_char c \<or> c = CHR '' ''"
    using folded_convert [of "CHR '' ''" ul "runes_of s"]
    by (simp add: norm_name_def normalise_def folded_def list_all_iff)
qed

lemma norm_word_chars:
  assumes "w \<in> set (str_fields (norm_name ul s))"
  shows "w \<noteq> [] \<and> list_all slug_char w"
proof -
  have "word_text w" using assms by (rule str_fields_words)
  then have "w \<noteq> []" "list_all (\<lambda>c. \<not> is_space c) w" by (auto simp: word_text_def)
  moreover have "slug_char c" if "c \<in> set w" for c
    using that str_fields_chars [OF assms] norm_chars [of c ul s] \<open>list_all (\<lambda>c. \<not> is_space c) w\<close>
    by (auto simp: list_all_iff is_space_def)
  ultimately show ?thesis by (auto simp: list_all_iff)
qed

lemma surname_chars:
  assumes "w \<in> set (surnames ul s)"
  shows "list_all slug_char w"
proof -
  let ?ws = "str_fields (norm_name ul s)"
  have "set w \<subseteq> (\<Union>x \<in> set ?ws. set x)"
  proof (cases "length ?ws \<le> 1")
    case True
    then show ?thesis using assms by (auto simp: surnames_def)
  next
    case False
    have tl: "set (tl ?ws) \<subseteq> set ?ws" by (cases ?ws) auto
    have "w \<in> set (tl ?ws) \<or> w = join (tl ?ws) []"
      using assms False by (auto simp: surnames_def Let_def split: if_splits)
    then show ?thesis using tl set_join [of "tl ?ws" "[]"] by fastforce
  qed
  then show ?thesis using norm_word_chars [of _ ul s] by (fastforce simp: list_all_iff)
qed

section \<open>Keys\<close>

lemma split_at_sep:
  assumes "x \<notin> set a" "x \<notin> set a'" "a @ x # b = a' @ x # b'"
  shows "a = a' \<and> b = b'"
  using assms
proof (induction a arbitrary: a')
  case Nil
  then show ?case by (cases a') auto
next
  case (Cons y a)
  then show ?case by (cases a') auto
qed

lemma bar_not_slug: "list_all slug_char w \<Longrightarrow> CHR ''|'' \<notin> set w"
proof -
  have "\<not> slug_char CHR ''|''" by (simp add: slug_char_def is_digit_def)
  then show "list_all slug_char w \<Longrightarrow> CHR ''|'' \<notin> set w" unfolding list_all_iff by blast
qed

lemma last_sep:
  assumes "x \<notin> set b" "x \<notin> set b'" "a @ x # b = a' @ x # b'"
  shows "a = a' \<and> b = b'"
proof -
  have "rev b @ x # rev a = rev b' @ x # rev a'"
    using arg_cong [OF assms(3), of rev] by simp
  then have "rev b = rev b' \<and> rev a = rev a'" using split_at_sep [of x "rev b" "rev b'" "rev a" "rev a'"] assms(1,2) by simp
  then show ?thesis by simp
qed

lemma key_parts:
  assumes "list_all slug_char a" "list_all slug_char b" "list_all slug_char a'" "list_all slug_char b'"
  shows "index_key r a b = index_key r' a' b' \<longleftrightarrow> trim_space r = trim_space r' \<and> (a = a' \<and> b = b' \<or> a = b' \<and> b = a')"
proof -
  note bars = assms [THEN bar_not_slug]
  have eq: "x @ ''|'' @ u @ ''|'' @ v = x' @ ''|'' @ u' @ ''|'' @ v' \<longleftrightarrow> x = x' \<and> u = u' \<and> v = v'"
    if "CHR ''|'' \<notin> set u" "CHR ''|'' \<notin> set v" "CHR ''|'' \<notin> set u'" "CHR ''|'' \<notin> set v'" for x u v x' u' v' :: string
    using that last_sep [of "CHR ''|''" v v' "x @ ''|'' @ u" "x' @ ''|'' @ u'"] last_sep [of "CHR ''|''" u u' x x'] by auto
  have one: "index_key r a b = trim_space r @ ''|'' @ min a b @ ''|'' @ max a b" for r and a b :: string
    by (auto simp: index_key_def min_def max_def)
  have "index_key r a b = index_key r' a' b' \<longleftrightarrow> trim_space r = trim_space r' \<and> min a b = min a' b' \<and> max a b = max a' b'"
    unfolding one by (rule eq) (use bars in \<open>auto simp: min_def max_def\<close>)
  then show ?thesis by (auto simp: min_def max_def split: if_splits)
qed

section \<open>The index\<close>

lemma lookup_add_key: "index_rows (add_key c k ix) k' = index_rows ix k' @ (if k = k' then [c] else [])"
  by (auto simp: index_rows_def add_key_def map_of_put_append)

lemma lookup_add_keys:
  "index_rows (fold (add_key c) ks ix) k = index_rows ix k @ map (\<lambda>_. c) (filter ((=) k) ks)"
  by (induction ks arbitrary: ix) (auto simp: lookup_add_key)

lemma lookup_new_index:
  "index_rows (new_index ul cands) k = concat (map (\<lambda>c. map (\<lambda>_. c) (filter ((=) k) (index_keys ul c))) cands)"
proof -
  have "index_rows (fold (\<lambda>c. fold (add_key c) (index_keys ul c)) cands ix) k
    = index_rows ix k @ concat (map (\<lambda>c. map (\<lambda>_. c) (filter ((=) k) (index_keys ul c))) cands)" for ix
    by (induction cands arbitrary: ix) (simp_all add: lookup_add_keys)
  then show ?thesis by (simp add: new_index_def index_rows_def)
qed

lemma set_lookup: "set (index_rows (new_index ul cands) k) = {c \<in> set cands. k \<in> set (index_keys ul c)}"
  by (auto simp: lookup_new_index)

lemma set_index_keys:
  "set (index_keys ul c) = (\<Union>a \<in> set (surnames ul (DWinner c)). \<Union>b \<in> set (surnames ul (DLoser c)). {index_key (DRound c) a b, index_key [] a b})"
  by (auto simp: index_keys_def)

text \<open>The two names on each side share a surname, crosswise or not.\<close>

definition surnames_meet :: "(rune \<Rightarrow> bool) \<Rightarrow> charted \<Rightarrow> candidate \<Rightarrow> bool" where
  "surnames_meet ul m c \<longleftrightarrow>
     (\<exists>s1 \<in> set (surnames ul (CPlayer1 m)). \<exists>s2 \<in> set (surnames ul (CPlayer2 m)).
        s1 \<in> set (surnames ul (DWinner c)) \<and> s2 \<in> set (surnames ul (DLoser c)) \<or>
        s2 \<in> set (surnames ul (DWinner c)) \<and> s1 \<in> set (surnames ul (DLoser c)))"

lemma asked_in_keys:
  "(\<exists>k \<in> set (asked_keys ul m rnd). k \<in> set (index_keys ul c)) \<longleftrightarrow>
     surnames_meet ul m c \<and> (trim_space rnd = [] \<or> trim_space rnd = trim_space (DRound c))"
  (is "?L \<longleftrightarrow> ?R")
proof
  have trim_nil: "trim_space [] = []" by (simp add: trim_space_def trim_by_def)
  note chars = surname_chars [of _ ul]
  {
    assume ?L
    then obtain s1 s2 a b where m: "s1 \<in> set (surnames ul (CPlayer1 m))" "s2 \<in> set (surnames ul (CPlayer2 m))"
      and c: "a \<in> set (surnames ul (DWinner c))" "b \<in> set (surnames ul (DLoser c))"
      and k: "index_key rnd s1 s2 = index_key (DRound c) a b \<or> index_key rnd s1 s2 = index_key [] a b"
      by (auto simp: asked_keys_def set_index_keys)
    from k have "s1 = a \<and> s2 = b \<or> s1 = b \<and> s2 = a" "trim_space rnd = [] \<or> trim_space rnd = trim_space (DRound c)"
      using key_parts [OF chars [OF m(1)] chars [OF m(2)] chars [OF c(1)] chars [OF c(2)]] trim_nil by auto
    then show ?R using m c by (auto simp: surnames_meet_def)
  }
  {
    assume r: ?R
    then obtain s1 s2 a b where m: "s1 \<in> set (surnames ul (CPlayer1 m))" "s2 \<in> set (surnames ul (CPlayer2 m))"
      and c: "a \<in> set (surnames ul (DWinner c))" "b \<in> set (surnames ul (DLoser c))"
      and ab: "s1 = a \<and> s2 = b \<or> s1 = b \<and> s2 = a"
      by (auto simp: surnames_meet_def)
    have "index_key rnd s1 s2 = index_key (DRound c) a b \<or> index_key rnd s1 s2 = index_key [] a b"
      using r ab key_parts [OF chars [OF m(1)] chars [OF m(2)] chars [OF c(1)] chars [OF c(2)]] trim_nil by auto
    moreover have "index_key rnd s1 s2 \<in> set (asked_keys ul m rnd)" using m by (auto simp: asked_keys_def)
    ultimately show ?L using c by (auto simp: set_index_keys)
  }
qed

section \<open>Candidates\<close>

lemma candidates_concat:
  "found_rows ul ix m rnd = fold (take_candidate ul m) (concat (map (index_rows ix) (asked_keys ul m rnd))) []"
proof -
  have "fold (\<lambda>k found. fold (take_candidate ul m) (index_rows ix k) found) ks acc
    = fold (take_candidate ul m) (concat (map (index_rows ix) ks)) acc" for ks acc
    by (induction ks arbitrary: acc) simp_all
  then show ?thesis by (simp add: found_rows_def)
qed

lemma take_candidates:
  assumes "inj_on DMatchID (set cs \<union> set acc)"
  shows "set (fold (take_candidate ul m) cs acc)
      = set acc \<union> {c \<in> set cs. in_window (CPlayedOn m) (DPlayedOn c) \<and> both_persons ul m c}
    \<and> (distinct acc \<longrightarrow> distinct (fold (take_candidate ul m) cs acc))"
  using assms
proof (induction cs arbitrary: acc)
  case (Cons c cs)
  let ?acc = "take_candidate ul m c acc"
  have "set ?acc \<subseteq> insert c (set acc)" by (auto simp: take_candidate_def)
  then have inj: "inj_on DMatchID (set cs \<union> set ?acc)"
    by (intro inj_on_subset [OF Cons.prems]) auto
  have dup: "DMatchID c \<in> DMatchID ` set acc \<longleftrightarrow> c \<in> set acc"
    using Cons.prems by (auto simp: inj_on_def)
  then have "set ?acc = set acc \<union> (if in_window (CPlayedOn m) (DPlayedOn c) \<and> both_persons ul m c then {c} else {})"
    and "distinct acc \<Longrightarrow> distinct ?acc"
    unfolding take_candidate_def by auto
  then show ?case using Cons.IH [OF inj] by auto
qed simp

text \<open>The rows of the table a charted match might be: in the window, in the round asked for, and by name.\<close>

definition fits_row :: "(rune \<Rightarrow> bool) \<Rightarrow> charted \<Rightarrow> string \<Rightarrow> candidate \<Rightarrow> bool" where
  "fits_row ul m rnd c \<longleftrightarrow> in_window (CPlayedOn m) (DPlayedOn c) \<and> surnames_meet ul m c \<and> both_persons ul m c
     \<and> (trim_space rnd = [] \<or> trim_space rnd = trim_space (DRound c))"

lemma candidates_fit:
  assumes "inj_on DMatchID (set cands)"
  shows "set (found_rows ul (new_index ul cands) m rnd) = {c \<in> set cands. fits_row ul m rnd c}"
    and "distinct (found_rows ul (new_index ul cands) m rnd)"
proof -
  let ?cs = "concat (map (index_rows (new_index ul cands)) (asked_keys ul m rnd))"
  have cs: "set ?cs = {c \<in> set cands. surnames_meet ul m c \<and> (trim_space rnd = [] \<or> trim_space rnd = trim_space (DRound c))}"
    using asked_in_keys [of ul m rnd] by (auto simp: set_lookup)
  have "inj_on DMatchID (set ?cs \<union> set [])" by (rule inj_on_subset [OF assms]) (use cs in auto)
  from take_candidates [OF this, of ul m]
  show "set (found_rows ul (new_index ul cands) m rnd) = {c \<in> set cands. fits_row ul m rnd c}"
    and "distinct (found_rows ul (new_index ul cands) m rnd)"
    unfolding candidates_concat cs by (auto simp: fits_row_def)
qed

section \<open>Resolution\<close>

lemma list_cases_two [case_names Nil One Two]:
  "(xs = [] \<Longrightarrow> P) \<Longrightarrow> (\<And>a. xs = [a] \<Longrightarrow> P) \<Longrightarrow> (\<And>a b ys. xs = a # b # ys \<Longrightarrow> P) \<Longrightarrow> P"
  by (cases xs; cases "tl xs") auto

text \<open>The rows the match could be: those of its round, or of any round when there is none.\<close>

definition eligible :: "(rune \<Rightarrow> bool) \<Rightarrow> candidate list \<Rightarrow> charted \<Rightarrow> candidate set" where
  "eligible ul cands m =
     (if \<exists>c \<in> set cands. fits_row ul m (CRound m) c then {c \<in> set cands. fits_row ul m (CRound m) c}
      else {c \<in> set cands. fits_row ul m [] c})"

definition gap :: "charted \<Rightarrow> candidate \<Rightarrow> int" where
  "gap m c = distance (CPlayedOn m) (DPlayedOn c)"

definition the_nearest :: "charted \<Rightarrow> candidate set \<Rightarrow> candidate \<Rightarrow> bool" where
  "the_nearest m S c \<longleftrightarrow> c \<in> S \<and> (\<forall>c' \<in> S. c' \<noteq> c \<longrightarrow> gap m c < gap m c')"

interpretation gap_slice: slice_order "\<lambda>a b. gap m a < gap m b"
  by unfold_locales auto

lemma first_two:
  assumes "found = a # b # rest" and "distinct found"
    and "byd = sort_slice (\<lambda>a b. gap m a < gap m b) found"
  shows "if gap m (byd ! 0) = gap m (byd ! 1) then \<nexists>c. the_nearest m (set found) c
    else the_nearest m (set found) (byd ! 0)"
proof -
  have arr: "sorted_wrt (\<lambda>x y. \<not> gap m y < gap m x) byd"
    using gap_slice.arranged_sort_slice [of m found] assms(3) by (simp add: gap_slice.arranged_def)
  have same: "set byd = set found" "distinct byd" "length byd = length found" using assms(2,3) by simp_all
  then obtain x y zs where xs: "byd = x # y # zs" using assms(1) by (cases byd; cases "tl byd") auto
  have least: "gap m x \<le> gap m z" "z \<noteq> x \<Longrightarrow> gap m y \<le> gap m z" if "z \<in> set found" for z
  proof -
    have z: "z \<in> set byd" using that same(1) by simp
    show "gap m x \<le> gap m z" using z arr by (auto simp: xs not_less)
    show "z \<noteq> x \<Longrightarrow> gap m y \<le> gap m z" using z arr by (auto simp: xs not_less)
  qed
  have xy: "x \<noteq> y" "x \<in> set found" "y \<in> set found" using same by (auto simp: xs)
  show ?thesis
  proof (cases "gap m x = gap m y")
    case True
    have False if "the_nearest m (set found) c" for c
      using that xy least(1) [of c] True unfolding the_nearest_def by (metis order.strict_iff_not)
    then show ?thesis using True by (auto simp: xs)
  next
    case False
    then have "gap m x < gap m y" using least(1) [OF xy(3)] by simp
    then have "the_nearest m (set found) x" unfolding the_nearest_def using xy least(2) by fastforce
    then show ?thesis using False by (simp add: xs)
  qed
qed

lemma resolve_cases:
  assumes "inj_on DMatchID (set cands)"
  shows "resolve_match ul (new_index ul cands) m = Inr r \<longleftrightarrow> (\<exists>c. the_nearest m (eligible ul cands m) c \<and> r = resolution_of ul m c)"
    and "resolve_match ul (new_index ul cands) m = Inl NoMatch \<longleftrightarrow> eligible ul cands m = {}"
proof -
  let ?ix = "new_index ul cands"
  define found where "found = (if found_rows ul ?ix m (CRound m) = [] \<and> CRound m \<noteq> [] then found_rows ul ?ix m [] else found_rows ul ?ix m (CRound m))"
  note fit = candidates_fit [OF assms]
  have nil: "found_rows ul ?ix m rnd = [] \<longleftrightarrow> \<not> (\<exists>c \<in> set cands. fits_row ul m rnd c)" for rnd
    using fit(1) [of ul m rnd] by (metis (mono_tags, lifting) empty_Collect_eq set_empty)
  have el: "set found = eligible ul cands m"
    by (auto simp: found_def eligible_def fit(1) nil)
  have d: "distinct found" by (simp add: found_def fit(2))
  have res: "resolve_match ul ?ix m = (case found of [] \<Rightarrow> Inl NoMatch | [c] \<Rightarrow> Inr (resolution_of ul m c)
      | _ \<Rightarrow> let s = sort_slice (\<lambda>a b. gap m a < gap m b) found
            in if gap m (s ! 0) = gap m (s ! 1) then Inl ManyMatches else Inr (resolution_of ul m (s ! 0)))"
    unfolding resolve_match_def gap_def Let_def found_def by (rule refl)
  have uniq: "the_nearest m S c \<Longrightarrow> the_nearest m S c' \<Longrightarrow> c = c'" for S c c'
    unfolding the_nearest_def by (metis order.asym)
  have "(resolve_match ul ?ix m = Inr r \<longleftrightarrow> (\<exists>c. the_nearest m (set found) c \<and> r = resolution_of ul m c))
    \<and> (resolve_match ul ?ix m = Inl NoMatch \<longleftrightarrow> set found = {})"
  proof (cases found rule: list_cases_two)
    case Nil
    then show ?thesis by (simp add: res the_nearest_def)
  next
    case (One c)
    then show ?thesis by (auto simp: res the_nearest_def)
  next
    case (Two a b rest)
    let ?s = "sort_slice (\<lambda>a b. gap m a < gap m b) found"
    have r: "resolve_match ul ?ix m = (if gap m (?s ! 0) = gap m (?s ! 1) then Inl ManyMatches else Inr (resolution_of ul m (?s ! 0)))"
      using Two by (simp only: res list.case Let_def)
    show ?thesis using first_two [OF Two d refl, of m] uniq Two unfolding r by (auto split: if_splits)
  qed
  then show "resolve_match ul ?ix m = Inr r \<longleftrightarrow> (\<exists>c. the_nearest m (eligible ul cands m) c \<and> r = resolution_of ul m c)"
    and "resolve_match ul ?ix m = Inl NoMatch \<longleftrightarrow> eligible ul cands m = {}"
    unfolding el by auto
qed

section \<open>One year's rows are enough\<close>

lemma year_days:
  assumes "civil_ok (y, m, d)"
  shows "day_number (y, 1, 1) \<le> day_number (y, m, d) \<and> day_number (y, m, d) \<le> day_number (y, 12, 31)"
proof -
  have "1 \<le> m" "m \<le> 12" and d: "1 \<le> d" "d \<le> days_in m y" using assms by (auto simp: civil_ok_def)
  then have "m \<in> {1, 2, 3, 4, 5, 6, 7, 8, 9, 10, 11, 12}" by simp presburger
  then show ?thesis using d by (auto simp: day_number_def days_in_def upto_rec1 split: if_splits)
qed

lemma lookup_filter: "index_rows (new_index ul (filter p cands)) k = filter p (index_rows (new_index ul cands) k)"
proof -
  have step: "concat (map f (filter p cs)) = filter p (concat (map f cs))" if "\<And>c. set (f c) \<subseteq> {c}" for f :: "candidate \<Rightarrow> candidate list" and cs
  proof (induction cs)
    case (Cons c cs)
    have "filter p (f c) = (if p c then f c else [])"
      using that [of c] by (auto simp: filter_id_conv filter_empty_conv)
    then show ?case using Cons by simp
  qed simp
  then show ?thesis unfolding lookup_new_index by (intro step) auto
qed

lemma take_filter:
  assumes "\<And>c. in_window (CPlayedOn m) (DPlayedOn c) \<Longrightarrow> p c"
  shows "fold (take_candidate ul m) (filter p cs) found = fold (take_candidate ul m) cs found"
proof (induction cs arbitrary: found)
  case (Cons c cs)
  have "take_candidate ul m c found = found" if "\<not> p c" using that assms by (auto simp: take_candidate_def)
  then show ?case using Cons by (cases "p c") simp_all
qed simp

lemma resolve_filter:
  assumes "\<And>c. in_window (CPlayedOn m) (DPlayedOn c) \<Longrightarrow> p c"
  shows "resolve_match ul (new_index ul (filter p cands)) m = resolve_match ul (new_index ul cands) m"
proof -
  have "found_rows ul (new_index ul (filter p cands)) m rnd = found_rows ul (new_index ul cands) m rnd" for rnd
    by (simp only: found_rows_def lookup_filter take_filter [where p = p, OF assms])
  then show ?thesis by (simp only: resolve_match_def)
qed

section \<open>What is read\<close>

definition charted_row_ok :: "string \<Rightarrow> charted \<Rightarrow> bool" where
  "charted_row_ok tour m \<longleftrightarrow> CTour m = tour \<and> civil_ok (CPlayedOn m)
     \<and> (\<exists>date. compact_date date \<and> has_prefix (CId m) date \<and> parse_yyyymmdd date = Some (CPlayedOn m))"

definition counts_ok :: "counts \<Rightarrow> nat \<Rightarrow> bool" where
  "counts_ok st n \<longleftrightarrow> NKept st = n \<and> NSeen st = NKept st + NRejected st"

lemma counts_ok_steps: "counts_ok st n \<Longrightarrow> counts_ok (reject_row st) n" "counts_ok st n \<Longrightarrow> counts_ok (keep_row st) (Suc n)"
  "NSeen (reject_row st) = Suc (NSeen st)" "NSeen (keep_row st) = Suc (NSeen st)"
  by (simp_all add: counts_ok_def reject_row_def keep_row_def)

lemma parse_yyyymmdd_ok:
  assumes "parse_yyyymmdd s = Some d"
  shows "civil_ok d"
proof -
  have "s \<noteq> []" using assms by (auto simp: parse_yyyymmdd_def)
  then show ?thesis using parse_date_ok [of s d] assms by (simp add: parse_tourney_date_def)
qed

lemma read_match_rows_ok:
  assumes "read_match_rows tour header col recs seen out st = (out', st')"
    and "distinct (map CId out) \<and> set (map CId out) = set seen \<and> counts_ok st (length out) \<and> (\<forall>m \<in> set out. charted_row_ok tour m)"
  shows "distinct (map CId out') \<and> counts_ok st' (length out') \<and> (\<forall>m \<in> set out'. charted_row_ok tour m)
    \<and> NSeen st' = NSeen st + length recs"
  using assms
proof (induction tour header col recs seen out st rule: read_match_rows.induct)
  case (2 tour header col rec recs seen out st)
  let ?i = "col_text col rec ''match_id''" and ?date = "col_text col rec ''Date''"
  note IH = 2(1) 2(2) [OF _ refl refl] 2(3,4,5) [OF _ refl refl]
  note inv = "2.prems"(2)
  have rej: "distinct (map CId out) \<and> set (map CId out) = set seen \<and> counts_ok (reject_row st) (length out) \<and> (\<forall>m \<in> set out. charted_row_ok tour m)"
    using inv counts_ok_steps by blast
  consider (short) "length rec \<noteq> length header" | (date) "length rec = length header" "\<not> compact_date ?date \<or> \<not> has_prefix ?i ?date"
    | (day) "length rec = length header" "\<not> (\<not> compact_date ?date \<or> \<not> has_prefix ?i ?date)" "parse_yyyymmdd ?date = None"
    | (dup) d where "length rec = length header" "\<not> (\<not> compact_date ?date \<or> \<not> has_prefix ?i ?date)" "parse_yyyymmdd ?date = Some d" "?i \<in> set seen"
    | (new) d where "length rec = length header" "\<not> (\<not> compact_date ?date \<or> \<not> has_prefix ?i ?date)" "parse_yyyymmdd ?date = Some d" "?i \<notin> set seen"
    by (cases "parse_yyyymmdd ?date") blast+
  then show ?case
  proof cases
    case short
    then show ?thesis using IH(1) rej "2.prems"(1) by (simp add: counts_ok_steps)
  next
    case date
    then show ?thesis using IH(2) rej "2.prems"(1) by (auto simp: counts_ok_steps Let_def)
  next
    case day
    then show ?thesis using IH(3) rej "2.prems"(1) by (auto simp: counts_ok_steps Let_def)
  next
    case dup
    then show ?thesis using IH(4) rej "2.prems"(1) by (auto simp: counts_ok_steps Let_def)
  next
    case new
    let ?m = "\<lparr>CId = ?i, CTour = tour, CPlayer1 = col_text col rec ''Player 1'', CPlayer2 = col_text col rec ''Player 2'',
                 CPlayedOn = d, CEvent = col_text col rec ''Tournament'', CRound = col_text col rec ''Round'',
                 CChartedBy = col_text col rec ''Charted by''\<rparr>"
    have "charted_row_ok tour ?m"
      using new parse_yyyymmdd_ok by (auto simp: charted_row_ok_def)
    then have "distinct (map CId (out @ [?m])) \<and> set (map CId (out @ [?m])) = set (?i # seen)
        \<and> counts_ok (keep_row st) (length (out @ [?m])) \<and> (\<forall>m \<in> set (out @ [?m]). charted_row_ok tour m)"
      using inv new(4) counts_ok_steps(2) [of st "length out"] by auto
    moreover have "read_match_rows tour header col recs (?i # seen) (out @ [?m]) (keep_row st) = (out', st')"
      using "2.prems"(1) new by (simp add: Let_def)
    ultimately show ?thesis using IH(5) new by (simp add: counts_ok_steps)
  qed
qed simp

lemma read_matches_ok:
  assumes "read_matches tour f = Inr (ms, st)"
  shows "distinct (map CId ms) \<and> counts_ok st (length ms) \<and> (\<forall>m \<in> set ms. charted_row_ok tour m)
    \<and> Suc (NSeen st) = length (csv_records f)"
proof -
  obtain header recs col where f: "csv_records f = header # recs"
    and r: "read_match_rows tour header col recs [] [] no_counts = (ms, st)"
    using assms by (auto simp: read_matches_def Let_def split: list.splits sum.splits prod.splits if_splits)
  show ?thesis using read_match_rows_ok [OF r] by (simp add: f counts_ok_def no_counts_def)
qed

definition figure_list :: "set_figures \<Rightarrow> int list" where
  "figure_list f =
     [FgServePoints f, FgAces f, FgDoubleFaults f, FgFirstIn f, FgFirstWon f, FgSecondIn f, FgSecondWon f, FgBPFaced f, FgBPSaved f,
      FgReturnPoints f, FgReturnPointsWon f, FgWinners f, FgWinnersFH f, FgWinnersBH f, FgUnforced f, FgUnforcedFH f, FgUnforcedBH f]"

definition stat_row_ok :: "charted_stat \<Rightarrow> bool" where
  "stat_row_ok s \<longleftrightarrow> 0 \<le> SSet s \<and> SSet s \<le> 5 \<and> (\<forall>n \<in> set (figure_list (SFigures s)). 0 \<le> n \<and> n \<le> 1000)"

lemma figure_values_ok:
  "figure_values col rec names = Some f \<Longrightarrow> length f = length names \<and> (\<forall>n \<in> set f. 0 \<le> n \<and> n \<le> 1000)"
proof (induction names arbitrary: f)
  case (Cons name names)
  obtain n g where n: "0 \<le> n" "n \<le> 1000" and g: "figure_values col rec names = Some g" and f: "f = to_int16 n # g"
    using Cons.prems by (auto split: option.splits if_splits intro: that [rotated 3])
  have "to_int16 n = n" using n by (intro to_int16_id) simp_all
  then show ?case using Cons.IH [OF g] n f by simp
qed simp

lemma make_figures_list: "length f = 17 \<Longrightarrow> figure_list (make_figures f) = f"
  by (rule nth_equalityI) (auto simp: figure_list_def make_figures_def less_Suc_eq numeral_eq_Suc nth_Cons')

lemma read_stat_row_ok:
  assumes "read_stat_row header col rec = Some s"
  shows "stat_row_ok s"
proof -
  obtain n f where n: "set_number (col_text col rec ''set'') = Some n" and f: "figure_values col rec figure_columns = Some f"
    and s: "s = \<lparr>SMatchID = col_text col rec ''match_id'', SPlayer = col_text col rec ''player'', SSet = n, SFigures = make_figures f\<rparr>"
    using assms by (auto simp: read_stat_row_def split: if_splits option.splits)
  have "0 \<le> n \<and> n \<le> 5" using n by (auto simp: set_number_def split: if_splits option.splits)
  moreover have "length f = 17" "\<forall>k \<in> set f. 0 \<le> k \<and> k \<le> 1000"
    using figure_values_ok [OF f] by (simp_all add: figure_columns_def)
  ultimately show ?thesis by (simp add: stat_row_ok_def s make_figures_list)
qed

lemma read_stats_ok:
  assumes "read_stats f = Inr (ss, st)"
  shows "counts_ok st (length ss) \<and> (\<forall>s \<in> set ss. stat_row_ok s) \<and> Suc (NSeen st) = length (csv_records f)"
proof -
  obtain header recs col where f: "csv_records f = header # recs"
    and r: "read_stat_rows header col recs [] no_counts = (ss, st)"
    using assms by (auto simp: read_stats_def Let_def split: list.splits sum.splits prod.splits if_splits)
  have "counts_ok st' (length out') \<and> (\<forall>s \<in> set out'. stat_row_ok s) \<and> NSeen st' = NSeen st0 + length recs"
    if "read_stat_rows header col recs out st0 = (out', st')" "counts_ok st0 (length out)" "\<forall>s \<in> set out. stat_row_ok s" for out st0 out' st' recs
    using that
  proof (induction recs arbitrary: out st0)
    case (Cons rec recs)
    show ?case
    proof (cases "read_stat_row header col rec")
      case None
      then show ?thesis using Cons.prems Cons.IH [of out "reject_row st0"] by (simp add: counts_ok_steps)
    next
      case (Some s)
      then show ?thesis using Cons.prems Cons.IH [of "out @ [s]" "keep_row st0"] read_stat_row_ok [OF Some]
        by (simp add: counts_ok_steps)
    qed
  qed simp
  from this [OF r] show ?thesis by (simp add: f counts_ok_def no_counts_def)
qed

section \<open>The match a charted match is\<close>

text \<open>
  C35: A charted match resolves to a row exactly when, among the rows of its tour in the window around its date
  with both players by name and a surname in common on each side (in its round, or in any round when its round has
  none), one event starts strictly nearer than every other, and it is that row; it is reported as having no match
  exactly when there is no such row at all. Neither the order of the rows nor the index matters.
\<close>

theorem resolve_unique_nearest:
  assumes "inj_on DMatchID (set cands)"
  shows "(resolve_match ul (new_index ul cands) m = Inr r \<longleftrightarrow>
      (\<exists>c \<in> eligible ul cands m.
         (\<forall>c' \<in> eligible ul cands m. c' \<noteq> c \<longrightarrow> distance (CPlayedOn m) (DPlayedOn c) < distance (CPlayedOn m) (DPlayedOn c'))
         \<and> r = resolution_of ul m c))
    \<and> (resolve_match ul (new_index ul cands) m = Inl NoMatch \<longleftrightarrow> eligible ul cands m = {})"
  using resolve_cases [OF assms, of ul m] by (auto simp: the_nearest_def gap_def)

definition kristyna :: string where "kristyna = ''Kristyna Pliskova''"
definition karolina :: string where "karolina = ''Karolina Pliskova''"

definition twin_row :: candidate where
  "twin_row = \<lparr>DMatchID = 9, DWinnerID = 1, DLoserID = 2, DWinner = kristyna, DLoser = karolina, DRound = ''R32'', DPlayedOn = (2016, 6, 6)\<rparr>"

definition twin_match :: charted where
  "twin_match = \<lparr>CId = ''20160608-W-Birmingham'', CTour = ''wta'', CPlayer1 = karolina, CPlayer2 = kristyna, CPlayedOn = (2016, 6, 8),
     CEvent = ''Birmingham'', CRound = ''R32'', CChartedBy = []\<rparr>"

lemma norm_of_runes:
  assumes "runes_of s = r" "trim_text r = r" "map lower_rune r = l" "trim_set (convert_loop ul CHR '' '' l [] True) '' '' = t"
  shows "norm_name ul s = t"
  using assms by (simp add: norm_name_def normalise_def convert_def)

lemma norm_kristyna: "norm_name (\<lambda>_. False) kristyna = ''kristyna pliskova''"
proof (rule norm_of_runes)
  show r: "runes_of kristyna = [75, 114, 105, 115, 116, 121, 110, 97, 32, 80, 108, 105, 115, 107, 111, 118, 97]" by code_simp
  show "trim_text [75, 114, 105, 115, 116, 121, 110, 97, 32, 80, 108, 105, 115, 107, 111, 118, 97]
      = [75, 114, 105, 115, 116, 121, 110, 97, 32, 80, 108, 105, 115, 107, 111, 118, 97]"
    by (simp add: trim_text_def space_rune_def)
  show "map lower_rune [75, 114, 105, 115, 116, 121, 110, 97, 32, 80, 108, 105, 115, 107, 111, 118, 97]
      = [107, 114, 105, 115, 116, 121, 110, 97, 32, 112, 108, 105, 115, 107, 111, 118, 97]" by (simp add: lower_rune_def)
  have "fold_rune 32 = []" by (simp add: fold_rune_def fold_table_def)
  then have c: "convert_loop (\<lambda>_. False) CHR '' '' [107, 114, 105, 115, 116, 121, 110, 97, 32, 112, 108, 105, 115, 107, 111, 118, 97] [] True
      = ''kristyna pliskova''"
    by (simp add: ascii_alnum_def char_of_def bit_0)
  show "trim_set (convert_loop (\<lambda>_. False) CHR '' '' [107, 114, 105, 115, 116, 121, 110, 97, 32, 112, 108, 105, 115, 107, 111, 118, 97] [] True) '' ''
      = ''kristyna pliskova''" unfolding c by code_simp
qed

lemma norm_karolina: "norm_name (\<lambda>_. False) karolina = ''karolina pliskova''"
proof (rule norm_of_runes)
  show r: "runes_of karolina = [75, 97, 114, 111, 108, 105, 110, 97, 32, 80, 108, 105, 115, 107, 111, 118, 97]" by code_simp
  show "trim_text [75, 97, 114, 111, 108, 105, 110, 97, 32, 80, 108, 105, 115, 107, 111, 118, 97]
      = [75, 97, 114, 111, 108, 105, 110, 97, 32, 80, 108, 105, 115, 107, 111, 118, 97]"
    by (simp add: trim_text_def space_rune_def)
  show "map lower_rune [75, 97, 114, 111, 108, 105, 110, 97, 32, 80, 108, 105, 115, 107, 111, 118, 97]
      = [107, 97, 114, 111, 108, 105, 110, 97, 32, 112, 108, 105, 115, 107, 111, 118, 97]" by (simp add: lower_rune_def)
  have "fold_rune 32 = []" by (simp add: fold_rune_def fold_table_def)
  then have c: "convert_loop (\<lambda>_. False) CHR '' '' [107, 97, 114, 111, 108, 105, 110, 97, 32, 112, 108, 105, 115, 107, 111, 118, 97] [] True
      = ''karolina pliskova''"
    by (simp add: ascii_alnum_def char_of_def bit_0)
  show "trim_set (convert_loop (\<lambda>_. False) CHR '' '' [107, 97, 114, 111, 108, 105, 110, 97, 32, 112, 108, 105, 115, 107, 111, 118, 97] [] True) '' ''
      = ''karolina pliskova''" unfolding c by code_simp
qed

lemma twin_surnames: "surnames (\<lambda>_. False) kristyna = [''pliskova'']" "surnames (\<lambda>_. False) karolina = [''pliskova'']"
proof -
  have w: "str_fields ''kristyna pliskova'' = [''kristyna'', ''pliskova'']" "str_fields ''karolina pliskova'' = [''karolina'', ''pliskova'']"
    by code_simp+
  show "surnames (\<lambda>_. False) kristyna = [''pliskova'']" "surnames (\<lambda>_. False) karolina = [''pliskova'']"
    unfolding surnames_def norm_kristyna norm_karolina w by (simp_all add: particles_def)
qed

lemma twins_same_person:
  "same_person (\<lambda>_. False) karolina kristyna" "same_person (\<lambda>_. False) kristyna karolina"
  "same_person ul s s"
  by (simp_all add: same_person_def norm_kristyna norm_karolina twin_surnames Let_def)

text \<open>
  Both names of the charted match are exactly those of the row, and still the first charted player, Karolina, is given
  the id of Kristyna: the first test that holds is the shared initial and surname.
\<close>

theorem resolve_unique_nearest_witness:
  "resolve_match (\<lambda>_. False) (new_index (\<lambda>_. False) [twin_row]) twin_match = Inr \<lparr>RsMatchID = 9, RsPlayer1ID = 1, RsPlayer2ID = 2\<rparr>"
proof -
  have "inj_on DMatchID (set [twin_row])" by simp
  note res = resolve_unique_nearest [OF this, of "\<lambda>_. False" twin_match]
  have "day_number (2016, 6, 8) = day_number (2016, 6, 6) + 2" by (simp add: day_number_def)
  then have "fits_row (\<lambda>_. False) twin_match (CRound twin_match) twin_row"
    by (simp add: fits_row_def twin_row_def twin_match_def in_window_def before_days_def after_days_def surnames_meet_def both_persons_def
        twin_surnames twins_same_person)
  then have el: "eligible (\<lambda>_. False) [twin_row] twin_match = {twin_row}" by (auto simp: eligible_def)
  have "resolution_of (\<lambda>_. False) twin_match twin_row = \<lparr>RsMatchID = 9, RsPlayer1ID = 1, RsPlayer2ID = 2\<rparr>"
    by (simp add: resolution_of_def twin_row_def twin_match_def twins_same_person)
  then show ?thesis using res unfolding el by auto
qed

end
