(* ===== verification/ChartingStoreFacts.thy ===== *)
theory ChartingStoreFacts
  imports ChartingStore ChartingFacts
begin

text \<open>
  What the charting loader guarantees of any store that keeps the laws of \<open>charting_store\<close>, and that the store
  on Postgres keeps them.
\<close>

section \<open>One attachment\<close>

definition charted_ok :: "chart_db \<Rightarrow> bool" where
  "charted_ok db \<longleftrightarrow> list_all (\<lambda>c. snd c db) charting_constraints"

definition attached_to :: "chart_db \<Rightarrow> string \<Rightarrow> int option" where
  "attached_to db = map_of (map (\<lambda>r. (KCharting (snd r), fst r)) (k_matches db))"

definition waiting :: "chart_db \<Rightarrow> string \<Rightarrow> string \<Rightarrow> string \<Rightarrow> bool" where
  "waiting db source kind i \<longleftrightarrow> (source, kind, i) \<in> keys (k_unresolved db)"

definition tour_rows :: "chart_db \<Rightarrow> string \<Rightarrow> candidate list" where
  "tour_rows db tour = map snd (filter (\<lambda>r. fst r = tour) (k_rows db))"

text \<open>What a write does to the charting ids: the row goes to the new one and is taken from any other.\<close>

definition att_step :: "attachment \<Rightarrow> (string \<Rightarrow> int option) \<Rightarrow> string \<Rightarrow> int option" where
  "att_step a f = (\<lambda>i. if i = CId (AMatch a) then Some (RsMatchID (ARow a))
     else if f i = Some (RsMatchID (ARow a)) then None else f i)"

lemma insert_stats_keeps:
  "insert_stats a sts db = Inr db' \<Longrightarrow>
    k_matches db' = k_matches db \<and> k_rows db' = k_rows db \<and> k_players db' = k_players db \<and> k_unresolved db' = k_unresolved db
    \<and> (charted_ok db \<longrightarrow> charted_ok db')"
proof (induction sts arbitrary: db)
  case (Cons st sts)
  then obtain db1 where one: "insert_stat a st db = Inr db1" and more: "insert_stats a sts db1 = Inr db'"
    by (auto simp: and_then_Inr)
  have "k_matches db1 = k_matches db \<and> k_rows db1 = k_rows db \<and> k_players db1 = k_players db \<and> k_unresolved db1 = k_unresolved db
    \<and> (charted_ok db \<longrightarrow> charted_ok db1)"
    using one by (auto simp: insert_stat_def and_then_Inr exec_Inr checked_def charted_ok_def split: option.splits if_splits)
  then show ?case using Cons.IH [OF more] by simp
qed simp

lemma charted_ok_unresolved [simp]: "charted_ok (db\<lparr>k_unresolved := u\<rparr>) = charted_ok db"
  by (simp add: charted_ok_def charting_constraints_def)

lemma attached_to_unresolved [simp]: "attached_to (db\<lparr>k_unresolved := u\<rparr>) = attached_to db"
  by (simp add: attached_to_def)

lemma distinct_filter_map: "distinct (map f xs) \<Longrightarrow> distinct (map f (filter p xs))"
  by (induction xs) auto

lemma delete_charted_ok:
  assumes "charted_ok db"
  shows "charted_ok (delete_charted p db)"
proof -
  let ?kept = "filter (\<lambda>r. \<not> p (fst r) (KCharting (snd r))) (k_matches db)"
  have "\<forall>(i, q, n) \<in> keys (filter (\<lambda>s. fst (fst s) \<in> keys ?kept) (k_stats db)). i \<in> keys ?kept"
    by auto
  then show ?thesis
    using assms unfolding charted_ok_def charting_constraints_def delete_charted_def Let_def
    by (simp add: distinct_filter_map)
qed

lemma attached_to_delete:
  assumes "distinct (map (KCharting \<circ> snd) (k_matches db))"
  shows "attached_to (delete_charted p db) i = (case attached_to db i of None \<Rightarrow> None | Some r \<Rightarrow> if p r i then None else Some r)"
proof -
  have "map_of (map (\<lambda>r. (KCharting (snd r), fst r)) (filter (\<lambda>r. \<not> p (fst r) (KCharting (snd r))) rs)) i
    = (case map_of (map (\<lambda>r. (KCharting (snd r), fst r)) rs) i of None \<Rightarrow> None | Some r \<Rightarrow> if p r i then None else Some r)"
    if "distinct (map (KCharting \<circ> snd) rs)" for rs
    using that
  proof (induction rs)
    case (Cons r rs)
    have "map_of (map (\<lambda>r. (KCharting (snd r), fst r)) (filter q rs)) i = None" if "KCharting (snd r) = i" for q
      using Cons.prems that by (auto simp: map_of_eq_None_iff image_iff)
    then show ?case using Cons by auto
  qed simp
  then show ?thesis using assms by (simp add: attached_to_def delete_charted_def Let_def)
qed

lemma attach_effect:
  assumes "charted_ok db" and "attach source a db = Inr db'"
  shows "charted_ok db' \<and> k_rows db' = k_rows db \<and> k_players db' = k_players db
    \<and> attached_to db' = att_step a (attached_to db)
    \<and> (waiting db' so k i \<longleftrightarrow> waiting db so k i \<and> \<not> (so = source \<and> i = CId (AMatch a)))"
proof -
  let ?p = "\<lambda>i c. c = CId (AMatch a) \<or> i = RsMatchID (ARow a)"
  let ?del = "delete_charted ?p db"
  obtain db1 where ins: "insert_stats a (AStats a) (insert_charted source a ?del) = Inr db1"
    and ok: "charted_ok (insert_charted source a ?del)" and db': "db' = forget_unresolved source (CId (AMatch a)) db1"
    using assms(2) by (auto simp: attach_def and_then_Inr exec_Inr checked_def charted_ok_def split: if_splits)
  note eff = insert_stats_keeps [OF ins]
  have dist: "distinct (map (KCharting \<circ> snd) (k_matches db))"
    using assms(1) by (simp add: charted_ok_def charting_constraints_def)
  have none: "attached_to ?del i \<noteq> Some (RsMatchID (ARow a))" "attached_to ?del (CId (AMatch a)) = None" for i
    by (auto simp: attached_to_delete [OF dist] split: option.splits if_splits)
  have "attached_to (insert_charted source a ?del) i = att_step a (attached_to db) i" for i
  proof -
    have "attached_to (insert_charted source a ?del) i
        = (case attached_to ?del i of Some r \<Rightarrow> Some r | None \<Rightarrow> if i = CId (AMatch a) then Some (RsMatchID (ARow a)) else None)"
      by (auto simp: attached_to_def insert_charted_def map_add_def split: option.splits)
    then show ?thesis using none
      by (auto simp: att_step_def attached_to_delete [OF dist] split: option.splits if_splits)
  qed
  moreover have "attached_to db' = attached_to (insert_charted source a ?del)"
    using eff by (simp add: db' forget_unresolved_def attached_to_def)
  moreover have "waiting db' so k i \<longleftrightarrow> waiting db so k i \<and> \<not> (so = source \<and> i = CId (AMatch a))"
  proof -
    have "k_unresolved db1 = k_unresolved db" using eff by (simp add: insert_charted_def delete_charted_def Let_def)
    then show ?thesis by (force simp: waiting_def db' forget_unresolved_def)
  qed
  moreover have "charted_ok db'" using eff ok by (simp add: db' forget_unresolved_def)
  moreover have "k_rows db' = k_rows db \<and> k_players db' = k_players db"
    using eff by (simp add: db' forget_unresolved_def insert_charted_def delete_charted_def Let_def)
  ultimately show ?thesis by (simp add: fun_eq_iff)
qed

lemma attach_all_effect:
  "charted_ok db \<Longrightarrow> attach_all source as db = Inr db' \<Longrightarrow>
    charted_ok db' \<and> k_rows db' = k_rows db \<and> k_players db' = k_players db
    \<and> attached_to db' = fold att_step as (attached_to db)
    \<and> (waiting db' so k i \<longleftrightarrow> waiting db so k i \<and> \<not> (so = source \<and> i \<in> (CId \<circ> AMatch) ` set as))"
proof (induction as arbitrary: db)
  case (Cons a as)
  then obtain db1 where one: "attach source a db = Inr db1" and more: "attach_all source as db1 = Inr db'"
    by (auto simp: and_then_Inr)
  note e = attach_effect [OF Cons.prems(1) one, of so k i]
  then have ok: "charted_ok db1" by simp
  show ?case using e Cons.IH [OF ok more] by auto
qed simp

end
