(* ===== verification/ChartingLoad.thy ===== *)
theory ChartingLoad
  imports ChartingStoreFacts
begin

text \<open>
  The contract of the loader with its store, the loader's lemmas under it, and the store on Postgres as its
  interpretation.
\<close>

section \<open>The batches of a load\<close>

definition attachment_of :: "charted_stat list \<Rightarrow> charted \<Rightarrow> resolution \<Rightarrow> attachment" where
  "attachment_of sts m r = \<lparr>AMatch = m, ARow = r, AStats = filter (\<lambda>st. SMatchID st = CId m) sts\<rparr>"

definition resolved_of :: "(charted \<Rightarrow> reason + resolution) \<Rightarrow> charted_stat list \<Rightarrow> charted list \<Rightarrow> attachment list" where
  "resolved_of res sts ms = concat (map (\<lambda>m. case res m of Inl _ \<Rightarrow> [] | Inr r \<Rightarrow> [attachment_of sts m r]) ms)"

definition unresolved_of :: "(charted \<Rightarrow> reason + resolution) \<Rightarrow> charted list \<Rightarrow> (string \<times> reason) list" where
  "unresolved_of res ms = concat (map (\<lambda>m. case res m of Inl why \<Rightarrow> [(CId m, why)] | Inr r \<Rightarrow> []) ms)"

lemma year_batch_eq: "year_batch ul ix sts ms = (resolved_of (resolve_match ul ix) sts ms, unresolved_of (resolve_match ul ix) ms)"
proof -
  have "fold (\<lambda>m (batch, un). case resolve_match ul ix m of
         Inl why \<Rightarrow> (batch, un @ [(CId m, why)])
       | Inr r \<Rightarrow> (batch @ [\<lparr>AMatch = m, ARow = r, AStats = filter (\<lambda>st. SMatchID st = CId m) sts\<rparr>], un)) ms (b, u)
    = (b @ resolved_of (resolve_match ul ix) sts ms, u @ unresolved_of (resolve_match ul ix) ms)" for b u
  proof (induction ms arbitrary: b u)
    case (Cons m ms)
    show ?case
      by (cases "resolve_match ul ix m") (simp_all add: Cons resolved_of_def unresolved_of_def attachment_of_def)
  qed (simp add: resolved_of_def unresolved_of_def)
  then show ?thesis by (simp add: year_batch_def)
qed

lemma resolved_of_cong:
  assumes "\<And>m. m \<in> set ms \<Longrightarrow> res m = res' m"
  shows "resolved_of res sts ms = resolved_of res' sts ms" "unresolved_of res ms = unresolved_of res' ms"
  using assms by (auto simp: resolved_of_def unresolved_of_def intro!: arg_cong [of _ _ concat])

lemma set_resolved_of: "a \<in> set (resolved_of res sts ms) \<longleftrightarrow> (\<exists>m \<in> set ms. \<exists>r. res m = Inr r \<and> a = attachment_of sts m r)"
  unfolding resolved_of_def by (force split: sum.splits)

lemma resolved_rows: "(\<exists>b \<in> set (resolved_of res sts ms). Q (ARow b)) \<longleftrightarrow> (\<exists>m \<in> set ms. \<exists>r. res m = Inr r \<and> Q r)"
  by (induction ms) (auto simp: resolved_of_def attachment_of_def split: sum.splits)

lemma set_unresolved_of: "(i, why) \<in> set (unresolved_of res ms) \<longleftrightarrow> (\<exists>m \<in> set ms. res m = Inl why \<and> i = CId m)"
  unfolding unresolved_of_def by (force split: sum.splits)

lemma of_year_lengths:
  "length (resolved_of res sts ms) + length (filter (\<lambda>u. snd u = NoMatch) (unresolved_of res ms))
     + length (filter (\<lambda>u. snd u = ManyMatches) (unresolved_of res ms)) = length ms"
proof (induction ms)
  case (Cons m ms)
  show ?case
  proof (cases "res m")
    case (Inl why)
    then show ?thesis using Cons by (cases why) (simp_all add: resolved_of_def unresolved_of_def)
  next
    case (Inr r)
    then show ?thesis using Cons by (simp add: resolved_of_def unresolved_of_def)
  qed
qed (simp add: resolved_of_def unresolved_of_def)

lemma resolved_ids: "map (CId \<circ> AMatch) (resolved_of res sts ms) = map CId (filter (\<lambda>m. \<exists>r. res m = Inr r) ms)"
  by (induction ms) (auto simp: resolved_of_def attachment_of_def split: sum.splits)

text \<open>The matches in the order of the loop over the years.\<close>

definition by_year :: "int list \<Rightarrow> charted list \<Rightarrow> charted list" where
  "by_year ys ms = concat (map (\<lambda>y. filter (\<lambda>m. year_of m = y) ms) ys)"

lemma by_year_simps [simp]: "by_year [] ms = []" "by_year (y # ys) ms = filter (\<lambda>m. year_of m = y) ms @ by_year ys ms"
  by (simp_all add: by_year_def)

lemma set_by_year: "set (by_year ys ms) = {m \<in> set ms. year_of m \<in> set ys}"
  by (induction ys) auto

lemma distinct_by_year:
  assumes "distinct ys" and "distinct (map CId ms)"
  shows "distinct (map CId (by_year ys ms))"
  using assms(1)
proof (induction ys)
  case (Cons y ys)
  have "CId m \<noteq> CId m'" if "m \<in> set ms" "year_of m = y" "m' \<in> set (by_year ys ms)" for m m'
  proof
    assume "CId m = CId m'"
    moreover have "m' \<in> set ms" "year_of m' \<noteq> y" using that(3) Cons.prems by (auto simp: set_by_year)
    ultimately show False using that assms(2) by (auto simp: distinct_map inj_on_def)
  qed
  then show ?case using Cons distinct_filter_map [OF assms(2), of "\<lambda>m. year_of m = y"] by auto
qed simp

lemma years_cover: "distinct (years ms)" "set (years ms) = year_of ` set ms"
  by (simp_all add: years_def)

lemma length_by_year:
  assumes "distinct ys" and "year_of ` set ms \<subseteq> set ys"
  shows "length (by_year ys ms) = length ms"
  using assms
proof (induction ms)
  case Nil
  show ?case by (induction ys) auto
next
  case (Cons m ms)
  have "length (by_year ys (m # ms)) = length (by_year ys ms) + (if year_of m \<in> set ys then 1 else 0)"
    using Cons.prems(1) by (induction ys) auto
  then show ?case using Cons by simp
qed

lemma resolved_of_append:
  "resolved_of res sts (xs @ ys) = resolved_of res sts xs @ resolved_of res sts ys"
  "unresolved_of res (xs @ ys) = unresolved_of res xs @ unresolved_of res ys"
  by (simp_all add: resolved_of_def unresolved_of_def)

text \<open>The loop goes over the charted matches by year, in the order of the file within a year.\<close>

lemma by_year_sorts: "by_year (years ms) ms = sort_key year_of ms"
proof -
  have same: "filter (\<lambda>m. year_of m = k) (by_year ys ms) = (if k \<in> set ys then filter (\<lambda>m. year_of m = k) ms else [])"
    if "distinct ys" for k ys
    using that by (induction ys) (auto simp: filter_empty_conv set_by_year intro: filter_cong)
  have count: "count (mset (by_year ys ms)) m = (if year_of m \<in> set ys then count (mset ms) m else 0)" if "distinct ys" for m ys
    using that by (induction ys) auto
  have "mset (by_year (years ms) ms) = mset ms"
    by (rule multiset_eqI) (use years_cover [of ms] in \<open>auto simp: count not_in_iff dest: count_eq_zero_iff [THEN iffD1]\<close>)
  moreover have "filter (\<lambda>m. year_of k = year_of m) (by_year (years ms) ms) = filter (\<lambda>m. year_of k = year_of m) ms" if "k \<in> set ms" for k
    using same [OF years_cover(1) [of ms], of "year_of k"] that years_cover(2) [of ms] by (simp add: eq_commute [of "year_of k"])
  moreover have "sorted (map year_of (by_year ys ms))" if "sorted ys" for ys
    using that
  proof (induction ys)
    case (Cons y ys)
    have "map year_of (filter (\<lambda>m. year_of m = y) ms) = replicate (length (filter (\<lambda>m. year_of m = y) ms)) y"
      by (induction ms) auto
    then show ?case using Cons by (auto simp: sorted_append set_by_year)
  qed simp
  ultimately show ?thesis
    by (intro properties_for_sort_key [symmetric]) (auto simp: years_def set_by_year)
qed

text \<open>Where the charting ids are after a series of attachments: a row is its last one's.\<close>

lemma attached_last:
  assumes "distinct (map (CId \<circ> AMatch) (xs @ a # ys))"
  shows "fold att_step (xs @ a # ys) f (CId (AMatch a))
    = (if \<exists>b \<in> set ys. RsMatchID (ARow b) = RsMatchID (ARow a) then None else Some (RsMatchID (ARow a)))"
  using assms
proof (induction ys rule: rev_induct)
  case Nil
  then show ?case by (simp add: att_step_def)
next
  case (snoc z ys)
  have d: "distinct (map (CId \<circ> AMatch) (xs @ a # ys))" and z: "CId (AMatch a) \<noteq> CId (AMatch z)"
    using snoc.prems by (simp_all add: comp_def)
  have "fold att_step (xs @ a # ys @ [z]) f = att_step z (fold att_step (xs @ a # ys) f)" by simp
  then show ?case using snoc.IH [OF d] z by (auto simp: att_step_def)
qed

section \<open>The contract\<close>

definition in_days :: "int \<Rightarrow> int \<Rightarrow> candidate \<Rightarrow> bool" where
  "in_days a b c \<longleftrightarrow> a \<le> day_number (DPlayedOn c) \<and> day_number (DPlayedOn c) \<le> b"

locale charting_store =
  fixes ops :: "'db store_ops" and ok :: "'db \<Rightarrow> bool" and rows :: "'db \<Rightarrow> string \<Rightarrow> candidate list"
    and attached :: "'db \<Rightarrow> string \<Rightarrow> int option" and waits :: "'db \<Rightarrow> string \<Rightarrow> string \<Rightarrow> string \<Rightarrow> bool"
  assumes cands: "ok db \<Longrightarrow> so_candidates ops tour a b db = Inr cs \<Longrightarrow> cs = filter (in_days a b) (rows db tour)"
    and written: "ok db \<Longrightarrow> so_write ops source batch db = Inr (n, db') \<Longrightarrow>
        ok db' \<and> rows db' = rows db \<and> attached db' = fold att_step batch (attached db)
        \<and> (waits db' so k i \<longleftrightarrow> waits db so k i \<and> \<not> (so = source \<and> i \<in> (CId \<circ> AMatch) ` set batch))"
    and recorded: "ok db \<Longrightarrow> so_unresolved ops source kind ids db = (e, db') \<Longrightarrow>
        ok db' \<and> rows db' = rows db
        \<and> (e = None \<longrightarrow> attached db' = (\<lambda>i. if i \<in> set ids then None else attached db i)
             \<and> (waits db' so k i \<longleftrightarrow> waits db so k i \<or> so = source \<and> k = kind \<and> i \<in> set ids))"
begin

definition sound :: "'db load_state \<Rightarrow> 'db load_state \<Rightarrow> bool" where
  "sound s s' \<longleftrightarrow> ok (l_db s') \<and> rows (l_db s') = rows (l_db s)"

lemma load_years_sound:
  "ok (l_db s) \<Longrightarrow> load_years ops ul cs ms sts ys un n w s = (e, un', n', w', s') \<Longrightarrow> sound s s'"
proof (induction ys arbitrary: un n w s)
  case (Cons y ys)
  show ?case
  proof (cases "so_candidates ops (CsTour cs) (year_from y) (year_to y) (l_db s)")
    case (Inl x)
    then show ?thesis using Cons.prems by (simp add: sound_def)
  next
    case (Inr cs')
    obtain batch new where b: "year_batch ul (new_index ul cs') sts (filter (\<lambda>m. year_of m = y) ms) = (batch, new)"
      by fastforce
    show ?thesis
    proof (cases "so_write ops (CsName cs) batch (l_db s)")
      case (Inl x)
      then show ?thesis using Cons.prems Inr b by (auto simp: sound_def Let_def)
    next
      case w: (Inr p)
      obtain k db where p: "p = (k, db)" by fastforce
      note wr = written [OF Cons.prems(1) w [unfolded p]]
      show ?thesis
        using Cons.prems(2) Inr b w p
        by (auto simp: Let_def sound_def wr dest!: Cons.IH [rotated 1])
    qed
  qed
qed (simp add: sound_def)

lemma load_years_result:
  assumes "ok (l_db s)" and "\<forall>m \<in> set ms. civil_ok (CPlayedOn m)"
    and "load_years ops ul cs ms sts ys un n w s = (None, un', n', w', s')"
    and "res = resolve_match ul (new_index ul (rows (l_db s) (CsTour cs)))"
  shows "un' = un @ unresolved_of res (by_year ys ms)
    \<and> attached (l_db s') = fold att_step (resolved_of res sts (by_year ys ms)) (attached (l_db s))
    \<and> (waits (l_db s') so k i \<longleftrightarrow> waits (l_db s) so k i
         \<and> \<not> (so = CsName cs \<and> i \<in> (CId \<circ> AMatch) ` set (resolved_of res sts (by_year ys ms))))
    \<and> LCharted (l_stats s') = LCharted (l_stats s) + length (by_year ys ms)
    \<and> LResolved (l_stats s') = LResolved (l_stats s) + length (resolved_of res sts (by_year ys ms))
    \<and> LUnresolved (l_stats s') why = LUnresolved (l_stats s) why + length (filter (\<lambda>u. snd u = why) (unresolved_of res (by_year ys ms)))"
  using assms(1,3,4)
proof (induction ys arbitrary: un n w s)
  case Nil
  then show ?case by (simp add: resolved_of_def unresolved_of_def)
next
  case (Cons y ys)
  let ?ym = "filter (\<lambda>m. year_of m = y) ms"
  obtain cs' where c: "so_candidates ops (CsTour cs) (year_from y) (year_to y) (l_db s) = Inr cs'"
    using Cons.prems(2) by (auto split: sum.splits)
  have cs': "cs' = filter (in_days (year_from y) (year_to y)) (rows (l_db s) (CsTour cs))"
    by (rule cands [OF Cons.prems(1) c])
  have same: "resolve_match ul (new_index ul cs') m = res m" if "m \<in> set ?ym" for m
  proof -
    have m: "m \<in> set ms" "year_of m = y" using that by simp_all
    obtain mo d where d: "CPlayedOn m = (y, mo, d)" "civil_ok (y, mo, d)"
    proof (cases "CPlayedOn m")
      case (fields y' mo d)
      then have "y' = y" "civil_ok (y', mo, d)" using m assms(2) by (auto simp: year_of_def)
      then show ?thesis using fields that by blast
    qed
    show ?thesis unfolding cs' Cons.prems(3)
      by (rule resolve_filter) (use year_days [OF d(2)] in \<open>auto simp: d(1) in_days_def year_from_def year_to_def in_window_def\<close>)
  qed
  define batch where "batch = resolved_of res sts ?ym"
  define new where "new = unresolved_of res ?ym"
  have b: "year_batch ul (new_index ul cs') sts ?ym = (batch, new)"
    unfolding year_batch_eq batch_def new_def
    using resolved_of_cong(1) [of ?ym "resolve_match ul (new_index ul cs')" res sts] resolved_of_cong(2) [of ?ym "resolve_match ul (new_index ul cs')" res] same
    by simp
  obtain k1 db where wr: "so_write ops (CsName cs) batch (l_db s) = Inr (k1, db)"
    using Cons.prems(2) c b by (auto simp: Let_def split: sum.splits)
  note eff = written [OF Cons.prems(1) wr, of so k i]
  let ?st = "(l_stats s)\<lparr>LCharted := LCharted (l_stats s) + length ?ym, LUnresolved := count_reasons new (LUnresolved (l_stats s))\<rparr>"
  let ?s = "s\<lparr>l_db := db, l_stats := ?st\<lparr>LResolved := LResolved ?st + length batch, LStatsWritten := LStatsWritten ?st + k1\<rparr>\<rparr>"
  have run: "load_years ops ul cs ms sts ys (un @ new) (n + length batch) (w + k1) ?s = (None, un', n', w', s')"
    using Cons.prems(2) c b wr by (simp add: Let_def)
  have "ok (l_db ?s)" "res = resolve_match ul (new_index ul (rows (l_db ?s) (CsTour cs)))" using eff Cons.prems(3) by simp_all
  from Cons.IH [OF this(1) run this(2)] eff show ?case
    by (auto simp: resolved_of_append batch_def new_def count_reasons_def)
qed

lemma record_reasons_result:
  assumes "ok (l_db s)" and "record_reasons ops cs un order s = (None, s')"
  shows "attached (l_db s') i = (if \<exists>why \<in> set order. (i, why) \<in> set un then None else attached (l_db s) i)
    \<and> (waits (l_db s') so k i \<longleftrightarrow> waits (l_db s) so k i
         \<or> so = CsName cs \<and> (\<exists>why \<in> set order. (i, why) \<in> set un \<and> k = reason_text why))
    \<and> l_stats s' = l_stats s"
  using assms
proof (induction order arbitrary: s)
  case (Cons why order)
  let ?ids = "map fst (filter (\<lambda>u. snd u = why) un)"
  have ids: "set ?ids = {j. (j, why) \<in> set un}" by force
  show ?case
  proof (cases "?ids = []")
    case True
    then have none: "(j, why) \<notin> set un" for j using ids by auto
    have "record_reasons ops cs un order s = (None, s')" using Cons.prems(2) True by (simp add: Let_def)
    from Cons.IH [OF Cons.prems(1) this] none show ?thesis by auto
  next
    case False
    then obtain db where u: "so_unresolved ops (CsName cs) (reason_text why) ?ids (l_db s) = (None, db)"
      and run: "record_reasons ops cs un order (s\<lparr>l_db := db\<rparr>) = (None, s')"
      using Cons.prems(2) by (auto simp: Let_def split: prod.splits option.splits)
    note rec = recorded [OF Cons.prems(1) u, of so k i]
    then have "ok (l_db (s\<lparr>l_db := db\<rparr>))" by simp
    from Cons.IH [OF this run] rec show ?thesis unfolding ids by auto
  qed
qed simp

definition settled :: "charting_source \<Rightarrow> (charted \<Rightarrow> reason + resolution) \<Rightarrow> charted list \<Rightarrow> 'db \<Rightarrow> charted \<Rightarrow> bool" where
  "settled cs res later db m \<longleftrightarrow>
     (case res m of
        Inl why \<Rightarrow> attached db (CId m) = None \<and> waits db (CsName cs) (reason_text why) (CId m)
      | Inr r \<Rightarrow> attached db (CId m)
            = (if \<exists>m' \<in> set later. \<exists>r'. res m' = Inr r' \<and> RsMatchID r' = RsMatchID r then None else Some (RsMatchID r))
          \<and> (\<forall>k. \<not> waits db (CsName cs) k (CId m)))"

definition counted :: "load_stats \<Rightarrow> load_stats \<Rightarrow> charted list \<Rightarrow> bool" where
  "counted st st' ms \<longleftrightarrow> LCharted st' = LCharted st + length ms
     \<and> LCharted st' + LResolved st + LUnresolved st NoMatch + LUnresolved st ManyMatches
       = LCharted st + LResolved st' + LUnresolved st' NoMatch + LUnresolved st' ManyMatches"

lemma load_bodies_steps:
  assumes "load_bodies ops ul keeps order cs (mb, mt) (sb, stag) s = (None, s')"
    and "read_matches (CsTour cs) mb = Inr (ms, mc)"
  obtains sts sc s1 un n w s2 s3 where "read_stats sb = Inr (sts, sc)" "l_db s1 = l_db s" "LCharted (l_stats s1) = LCharted (l_stats s)"
    "LResolved (l_stats s1) = LResolved (l_stats s)" "LUnresolved (l_stats s1) = LUnresolved (l_stats s)"
    "load_years ops ul cs ms sts (years ms) [] 0 0 s1 = (None, un, n, w, s2)" "record_reasons ops cs un order s2 = (None, s3)"
    "l_db s' = l_db s3" "l_stats s' = l_stats s3"
proof -
  obtain sts sc where st: "read_stats sb = Inr (sts, sc)"
    using assms by (cases "read_stats sb") (auto simp: load_bodies_def)
  define s1 where "s1 = s\<lparr>l_stats := (l_stats s)\<lparr>LFilesRead := LFilesRead (l_stats s) + 2,
      LRowsRejected := LRowsRejected (l_stats s) + NRejected mc + NRejected sc\<rparr>\<rparr>"
  obtain e un n w s2 where ly: "load_years ops ul cs ms sts (years ms) [] 0 0 s1 = (e, un, n, w, s2)"
    by (cases "load_years ops ul cs ms sts (years ms) [] 0 0 s1") auto
  have e: "e = None" using assms st ly by (cases e) (auto simp: load_bodies_def Let_def s1_def)
  obtain e' s3 where rr: "record_reasons ops cs un order s2 = (e', s3)" by fastforce
  have e': "e' = None" using assms st ly e rr by (cases e') (auto simp: load_bodies_def Let_def s1_def)
  have fin: "l_db s' = l_db s3" "l_stats s' = l_stats s3"
    using assms st ly e rr e' by (auto simp: load_bodies_def Let_def s1_def record_path_def split: option.splits)
  show thesis by (rule that [OF st _ _ _ _ ly [unfolded e] rr [unfolded e'] fin]) (simp_all add: s1_def)
qed

theorem load_bodies_settles:
  assumes "ok (l_db s)" and "read_matches (CsTour cs) mb = Inr (ms, mc)"
    and "load_bodies ops ul keeps order cs (mb, mt) (sb, stag) s = (None, s')" and "set order = {NoMatch, ManyMatches}"
    and "res = resolve_match ul (new_index ul (rows (l_db s) (CsTour cs)))" and "sort_key year_of ms = earlier @ m # later"
  shows "settled cs res later (l_db s') m \<and> counted (l_stats s) (l_stats s') ms"
proof -
  from load_bodies_steps [OF assms(3,2)] obtain sts sc s1 un n w s2 s3 where
    s1: "l_db s1 = l_db s" "LCharted (l_stats s1) = LCharted (l_stats s)"
    "LResolved (l_stats s1) = LResolved (l_stats s)" "LUnresolved (l_stats s1) = LUnresolved (l_stats s)"
    and ly: "load_years ops ul cs ms sts (years ms) [] 0 0 s1 = (None, un, n, w, s2)"
    and rr: "record_reasons ops cs un order s2 = (None, s3)" and s': "l_db s' = l_db s3" "l_stats s' = l_stats s3" by metis
  have ok1: "ok (l_db s1)" and res: "res = resolve_match ul (new_index ul (rows (l_db s1) (CsTour cs)))" using assms(1,5) s1 by simp_all
  have rd: "distinct (map CId ms)" "\<forall>m \<in> set ms. civil_ok (CPlayedOn m)"
    using read_matches_ok [OF assms(2)] by (auto simp: charted_row_ok_def)
  let ?L = "by_year (years ms) ms"
  let ?as = "resolved_of res sts ?L"
  note eff = load_years_result [OF ok1 rd(2) ly res]
  have un: "un = unresolved_of res ?L" using eff by simp
  have ok2: "ok (l_db s2)" using load_years_sound [OF ok1 ly] by (simp add: sound_def)
  note rec = record_reasons_result [OF ok2 rr]
  have all: "set ?L = set ms" "length ?L = length ms"
    using years_cover [of ms] length_by_year [of "years ms" ms] by (auto simp: set_by_year)
  have ids: "distinct (map CId ?L)" by (rule distinct_by_year [OF years_cover(1) rd(1)])
  then have dist: "distinct (map (CId \<circ> AMatch) ?as)" unfolding resolved_ids by (rule distinct_filter_map)
  have L: "?L = earlier @ m # later" unfolding by_year_sorts by (rule assms(6))
  then have m: "m \<in> set ms" using all(1) by auto
  have inj: "m = m'" if "m \<in> set ms" "m' \<in> set ms" "CId m = CId m'" for m m'
    using that rd(1) by (auto simp: distinct_map inj_on_def)
  have unset: "(\<exists>why \<in> set order. (CId m, why) \<in> set un) \<longleftrightarrow> (\<exists>why. res m = Inl why)" if "m \<in> set ms" for m
  proof -
    have "why \<in> set order" for why using assms(4) by (cases why) auto
    then show ?thesis using that inj all(1) unfolding un set_unresolved_of by auto
  qed
  have at: "attached (l_db s') (CId m) = (if \<exists>why. res m = Inl why then None else fold att_step ?as (attached (l_db s1)) (CId m))"
    if "m \<in> set ms" for m
    using rec [of "CId m"] unset [OF that] eff s'(1) by simp
  have "settled cs res later (l_db s') m"
  proof (cases "res m")
    case (Inl why)
    have "why \<in> set order" using assms(4) by (cases why) auto
    moreover have "(CId m, why) \<in> set un" using Inl m all(1) unfolding un set_unresolved_of by auto
    ultimately have "waits (l_db s') (CsName cs) (reason_text why) (CId m)"
      using rec [of "CId m" "CsName cs" "reason_text why"] s'(1) by auto
    then show ?thesis using at [OF m] Inl by (simp add: settled_def)
  next
    case (Inr r)
    let ?a = "attachment_of sts m r"
    have fields: "CId (AMatch (attachment_of sts m r)) = CId m" "ARow (attachment_of sts m r) = r" for m r
      by (simp_all add: attachment_of_def)
    have as: "?as = resolved_of res sts earlier @ ?a # resolved_of res sts later"
      unfolding L by (simp add: resolved_of_def Inr)
    then have a: "?a \<in> set ?as" by simp
    have "(\<exists>b \<in> set (resolved_of res sts later). RsMatchID (ARow b) = RsMatchID (ARow ?a))
        \<longleftrightarrow> (\<exists>m' \<in> set later. \<exists>r'. res m' = Inr r' \<and> RsMatchID r' = RsMatchID r)"
      unfolding fields by (rule resolved_rows)
    then have "attached (l_db s') (CId m)
        = (if \<exists>m' \<in> set later. \<exists>r'. res m' = Inr r' \<and> RsMatchID r' = RsMatchID r then None else Some (RsMatchID r))"
      using at [OF m] Inr attached_last [OF dist [unfolded as], of "attached (l_db s1)"] unfolding as by (simp add: fields)
    moreover have "\<not> waits (l_db s') (CsName cs) k (CId m)" for k
    proof -
      have "CId m \<in> (CId \<circ> AMatch) ` set ?as" using a fields(1) [of m r] by (metis comp_apply imageI)
      moreover have "(CId m, why) \<notin> set un" for why
      proof
        assume "(CId m, why) \<in> set un"
        then obtain m2 where "m2 \<in> set ms" "res m2 = Inl why" "CId m = CId m2"
          using all(1) unfolding un set_unresolved_of by auto
        then show False using inj [OF m] Inr by fastforce
      qed
      ultimately show ?thesis using rec [of "CId m" "CsName cs" k] eff [of "CsName cs" k "CId m"] s'(1) by auto
    qed
    ultimately show ?thesis using Inr by (simp add: settled_def)
  qed
  moreover have "counted (l_stats s) (l_stats s') ms"
    using eff rec s1 s'(2) all(2) of_year_lengths [of res sts ?L] by (simp add: counted_def)
  ultimately show ?thesis by blast
qed

end

section \<open>Postgres keeps the contract\<close>

interpretation pg: charting_store pg_store charted_ok tour_rows attached_to waiting
proof
  fix db tour a b cs
  assume "so_candidates pg_store tour a b db = Inr cs"
  then show "cs = filter (in_days a b) (tour_rows db tour)"
    by (auto simp: pg_store_def pg_candidates_def tour_rows_def in_days_def filter_map comp_def conj_commute intro!: arg_cong [of _ _ "map snd"] filter_cong)
next
  fix db db' :: chart_db and source so k i and batch :: "attachment list" and n
  assume ok: "charted_ok db" and w: "so_write pg_store source batch db = Inr (n, db')"
  show "charted_ok db' \<and> tour_rows db' = tour_rows db \<and> attached_to db' = fold att_step batch (attached_to db)
      \<and> (waiting db' so k i \<longleftrightarrow> waiting db so k i \<and> \<not> (so = source \<and> i \<in> (CId \<circ> AMatch) ` set batch))"
  proof (cases "batch = []")
    case True
    then show ?thesis using w ok by (simp add: pg_store_def pg_write_def)
  next
    case False
    then have "attach_all source batch db = Inr db'" using w by (auto simp: pg_store_def pg_write_def and_then_Inr)
    from attach_all_effect [OF ok this, of so k i] show ?thesis by (auto simp: tour_rows_def fun_eq_iff)
  qed
next
  fix db db' :: chart_db and source kind so k i :: string and ids e
  assume ok: "charted_ok db" and u: "so_unresolved pg_store source kind ids db = (e, db')"
  let ?d = "delete_charted (\<lambda>i c. c \<in> set ids) db"
  have dist: "distinct (map (KCharting \<circ> snd) (k_matches db))"
    using ok by (simp add: charted_ok_def charting_constraints_def)
  have d: "charted_ok ?d" "tour_rows ?d = tour_rows db" "k_unresolved ?d = k_unresolved db"
    by (rule delete_charted_ok [OF ok], simp_all add: fun_eq_iff tour_rows_def delete_charted_def Let_def)
  have at: "attached_to ?d = (\<lambda>i. if i \<in> set ids then None else attached_to db i)"
    by (auto simp: fun_eq_iff attached_to_delete [OF dist] split: option.splits)
  have ks: "keys (fold (\<lambda>i. put (source, kind, i) 1) js un) = keys un \<union> (\<lambda>i. (source, kind, i)) ` set js" for js and un :: "((string \<times> string \<times> string) \<times> nat) list"
    by (induction js arbitrary: un) auto
  have rows: "tour_rows (?d\<lparr>k_unresolved := x\<rparr>) = tour_rows ?d" for x by (simp add: fun_eq_iff tour_rows_def)
  show "charted_ok db' \<and> tour_rows db' = tour_rows db
      \<and> (e = None \<longrightarrow> attached_to db' = (\<lambda>i. if i \<in> set ids then None else attached_to db i)
           \<and> (waiting db' so k i \<longleftrightarrow> waiting db so k i \<or> so = source \<and> k = kind \<and> i \<in> set ids))"
  proof (cases "list_all text_ok ids")
    case False
    then show ?thesis using u ok by (auto simp: pg_store_def pg_unresolved_def)
  next
    case True
    consider "ids = []" "db' = ?d" | "ids \<noteq> []" "e \<noteq> None" "db' = ?d"
      | "e = None" "db' = ?d\<lparr>k_unresolved := fold (\<lambda>i. put (source, kind, i) 1) ids (k_unresolved ?d)\<rparr>"
      using u True by (auto simp: pg_store_def pg_unresolved_def Let_def split: if_splits)
    then show ?thesis
    proof cases
      case 1
      then show ?thesis using d at by (simp add: waiting_def)
    next
      case 2
      then show ?thesis using d by auto
    next
      case 3
      have "waiting db' so k i \<longleftrightarrow> waiting db so k i \<or> so = source \<and> k = kind \<and> i \<in> set ids"
        unfolding waiting_def 3(2) by (simp del: One_nat_def add: ks d(3)) blast
      moreover have "charted_ok db' \<and> tour_rows db' = tour_rows db \<and> attached_to db' = attached_to ?d"
        unfolding 3(2) using d rows by simp
      ultimately show ?thesis using at by simp
    qed
  qed
qed

section \<open>A load settles every charted match\<close>

text \<open>
  C36: When the two files of a source are loaded without an error, every charted match of the file has been
  resolved against all the rows of its tour (each year's own candidates are enough). A match that does not resolve is
  detached from whatever an earlier run found and recorded with its reason. One that does is recorded nowhere as
  unresolved and ends attached to its row, except when a later charted match of the file, by year and then in the
  order of the file, resolves to the same row: then the later one has it and the earlier is attached to none. Every
  match is counted once, as resolved, the displaced ones too, or under its reason.
\<close>

theorem load_settles_every_match:
  assumes "charted_ok (l_db s)" and "read_matches (CsTour cs) mbody = Inr (ms, mc)" and "set order = {NoMatch, ManyMatches}"
    and "load_bodies pg_store ul keeps order cs (mbody, mtag) (sbody, stag) s = (None, s')"
    and "sort_key year_of ms = earlier @ m # later"
  shows "(case resolve_match ul (new_index ul (tour_rows (l_db s) (CsTour cs))) m of
       Inl why \<Rightarrow> attached_to (l_db s') (CId m) = None \<and> waiting (l_db s') (CsName cs) (reason_text why) (CId m)
     | Inr r \<Rightarrow> attached_to (l_db s') (CId m)
           = (if \<exists>m' \<in> set later. \<exists>r'. resolve_match ul (new_index ul (tour_rows (l_db s) (CsTour cs))) m' = Inr r'
                \<and> RsMatchID r' = RsMatchID r then None else Some (RsMatchID r))
         \<and> (\<forall>k. \<not> waiting (l_db s') (CsName cs) k (CId m)))
    \<and> LCharted (l_stats s') = LCharted (l_stats s) + length ms
    \<and> LCharted (l_stats s') + LResolved (l_stats s) + LUnresolved (l_stats s) NoMatch + LUnresolved (l_stats s) ManyMatches
      = LCharted (l_stats s) + LResolved (l_stats s') + LUnresolved (l_stats s') NoMatch + LUnresolved (l_stats s') ManyMatches"
  using pg.load_bodies_settles [OF assms(1,2,4,3) refl assms(5)]
  unfolding pg.settled_def pg.counted_def .

text \<open>Two charted matches between the sisters of the same day, and the one row there is of them.\<close>

definition twin_file :: csv_file where
  "twin_file = \<lparr>csv_records = [match_columns,
       [''20160608-W-1'', karolina, kristyna, ''20160608'', ''Birmingham'', ''R32'', [] ],
       [''20160608-W-2'', karolina, kristyna, ''20160608'', ''Birmingham'', ''R32'', [] ]], csv_fails = False\<rparr>"

definition bare_stats :: csv_file where
  "bare_stats = \<lparr>csv_records = [[''match_id'', ''player'', ''set''] @ figure_columns], csv_fails = False\<rparr>"

definition chart_feed :: charting_source where
  "chart_feed = \<lparr>CsName = ''mcp'', CsTour = ''wta'', CsBaseURL = ''b'', CsMatches = ''m.csv'', CsStats = ''s.csv'', CsAttribution = ''c''\<rparr>"

definition empty_chart :: chart_db where
  "empty_chart = \<lparr>k_rows = [], k_players = [], k_matches = [], k_stats = [], k_unresolved = []\<rparr>"

definition twin_chart :: chart_db where
  "twin_chart = empty_chart\<lparr>k_rows := [(''wta'', twin_row)], k_players := [1, 2]\<rparr>"

definition fresh_load :: "chart_db load_state" where
  "fresh_load = \<lparr>l_db = twin_chart, l_ledger = [], l_stats = no_load\<rparr>"

definition twin_charted :: "string \<Rightarrow> charted" where
  "twin_charted i = twin_match\<lparr>CId := i\<rparr>"

lemma twin_read:
  "read_matches (CsTour chart_feed) twin_file
    = Inr ([twin_charted ''20160608-W-1'', twin_charted ''20160608-W-2''], \<lparr>NSeen = 2, NKept = 2, NRejected = 0\<rparr>)"
  by code_simp

lemma bare_read: "read_stats bare_stats = Inr ([], \<lparr>NSeen = 0, NKept = 0, NRejected = 0\<rparr>)"
  by code_simp

lemma twin_resolves:
  "resolve_match (\<lambda>_. False) (new_index (\<lambda>_. False) [twin_row]) (twin_charted i) = Inr \<lparr>RsMatchID = 9, RsPlayer1ID = 1, RsPlayer2ID = 2\<rparr>"
proof -
  have "inj_on DMatchID (set [twin_row])" by simp
  note res = resolve_cases(1) [OF this, of "\<lambda>_. False" "twin_charted i"]
  have "day_number (2016, 6, 8) = day_number (2016, 6, 6) + 2" by (simp add: day_number_def)
  then have "fits_row (\<lambda>_. False) (twin_charted i) (CRound (twin_charted i)) twin_row"
    by (simp add: fits_row_def twin_row_def twin_charted_def twin_match_def in_window_def before_days_def after_days_def surnames_meet_def
        both_persons_def twin_surnames twins_same_person)
  then have el: "eligible (\<lambda>_. False) [twin_row] (twin_charted i) = {twin_row}" by (auto simp: eligible_def)
  have "resolution_of (\<lambda>_. False) (twin_charted i) twin_row = \<lparr>RsMatchID = 9, RsPlayer1ID = 1, RsPlayer2ID = 2\<rparr>"
    by (simp add: resolution_of_def twin_row_def twin_charted_def twin_match_def twins_same_person)
  then show ?thesis using res unfolding el by (simp add: the_nearest_def)
qed

lemma same_year: "year_of (twin_charted i) = 2016"
  by (simp add: year_of_def twin_charted_def twin_match_def)

abbreviation twin_load :: "charting_failure option \<times> chart_db load_state" where
  "twin_load \<equiv> load_bodies pg_store (\<lambda>_. False) (Some (\<lambda>_. True)) [NoMatch, ManyMatches] chart_feed (twin_file, ''a'') (bare_stats, ''b'') fresh_load"

lemma twin_load: "fst twin_load = None"
proof -
  let ?r = "\<lparr>RsMatchID = 9, RsPlayer1ID = 1, RsPlayer2ID = 2\<rparr>"
  let ?ms = "[twin_charted ''20160608-W-1'', twin_charted ''20160608-W-2'']"
  let ?as = "[attachment_of [] (twin_charted ''20160608-W-1'') ?r, attachment_of [] (twin_charted ''20160608-W-2'') ?r]"
  have y: "years ?ms = [2016]" "filter (\<lambda>m. year_of m = 2016) ?ms = ?ms"
    by (simp_all add: years_def same_year)
  have c: "pg_candidates ''wta'' (year_from 2016) (year_to 2016) twin_chart = [twin_row]" by code_simp
  have b: "year_batch (\<lambda>_. False) (new_index (\<lambda>_. False) [twin_row]) [] ?ms = (?as, [])"
    by (simp add: year_batch_eq resolved_of_def unresolved_of_def twin_resolves)
  have w: "\<exists>n db. pg_write ''mcp'' ?as twin_chart = Inr (n, db)"
  proof -
    have "case pg_write ''mcp'' ?as twin_chart of Inl e \<Rightarrow> False | Inr p \<Rightarrow> True" by code_simp
    then show ?thesis by (cases "pg_write ''mcp'' ?as twin_chart") auto
  qed
  have db: "l_db fresh_load = twin_chart" "CsName chart_feed = ''mcp''" by (simp_all add: fresh_load_def chart_feed_def)
  have tour: "CsTour chart_feed = ''wta''" by (simp add: chart_feed_def)
  show ?thesis
    using w twin_read [unfolded tour] unfolding load_bodies_def
    by (auto simp: bare_read tour Let_def y same_year c b db pg_store_def count_reasons_def)
qed

lemma twin_chart_ok: "charted_ok (l_db fresh_load)"
  by (simp add: charted_ok_def charting_constraints_def fresh_load_def twin_chart_def empty_chart_def)

theorem load_settles_every_match_witness:
  "attached_to (l_db (snd twin_load)) ''20160608-W-1'' = None \<and> attached_to (l_db (snd twin_load)) ''20160608-W-2'' = Some 9"
proof -
  have r: "twin_load = (None, snd twin_load)" using twin_load by (metis prod.collapse)
  have rows: "tour_rows (l_db fresh_load) (CsTour chart_feed) = [twin_row]" by code_simp
  have order: "set [NoMatch, ManyMatches] = {NoMatch, ManyMatches}" by simp
  have ids: "CId (twin_charted i) = i" for i by (simp add: twin_charted_def)
  have s: "sort_key year_of [twin_charted ''20160608-W-1'', twin_charted ''20160608-W-2'']
      = [twin_charted ''20160608-W-1'', twin_charted ''20160608-W-2'']"
    by (simp add: same_year)
  have 1: "sort_key year_of [twin_charted ''20160608-W-1'', twin_charted ''20160608-W-2'']
      = [] @ twin_charted ''20160608-W-1'' # [twin_charted ''20160608-W-2'']"
    and 2: "sort_key year_of [twin_charted ''20160608-W-1'', twin_charted ''20160608-W-2'']
      = [twin_charted ''20160608-W-1''] @ twin_charted ''20160608-W-2'' # []" unfolding s by simp_all
  show ?thesis
    using load_settles_every_match [OF twin_chart_ok twin_read order r 1] load_settles_every_match [OF twin_chart_ok twin_read order r 2]
    unfolding rows by (simp add: twin_resolves ids)
qed

section \<open>A match without a row is not tried again\<close>

text \<open>
  A load records its two files in the ledger even when some of its charted matches found no row, so the run that
  finds the missing row in the database skips the files: those charted matches stay unresolved until a file changes.
\<close>

lemma unresolved_not_retried:
  assumes "load_bodies ops ul (Some k) order cs (mb, mt) (sb, stag) s = (None, s1)"
    and "k (path_key (CsName cs) (CsMatches cs))" "k (path_key (CsName cs) (CsStats cs))" "mt \<noteq> []" "stag \<noteq> []" "CsMatches cs \<noteq> CsStats cs"
    and "pf_conditional pf" "pf_open_if_changed pf (CsBaseURL cs) (CsMatches cs) mt = FUnchanged mt"
    and "pf_open_if_changed pf (CsBaseURL cs) (CsStats cs) stag = FUnchanged stag"
  shows "\<exists>t. load_source ops ul (Some k) order pf (\<lambda>f. map_option fst (map_of (l_ledger s1) f)) cs (s1\<lparr>l_db := db\<rparr>) = (None, t) \<and> l_db t = db"
proof -
  have "\<exists>x y. map_of (l_ledger s1) (path_key (CsName cs) (CsMatches cs)) = Some (mt, x)
      \<and> map_of (l_ledger s1) (path_key (CsName cs) (CsStats cs)) = Some (stag, y)"
    using assms(1-6)
    by (auto simp: load_bodies_def Let_def record_path_def path_key_def split: sum.splits prod.splits option.splits)
  then show ?thesis
    using assms(7-9) by (auto simp: load_source_def open_path_def)
qed

section \<open>When a batch lands\<close>

definition attachable :: "chart_db \<Rightarrow> attachment \<Rightarrow> bool" where
  "attachable db a \<longleftrightarrow> (\<exists>r \<in> set (k_rows db). DMatchID (snd r) = RsMatchID (ARow a))
     \<and> RsPlayer1ID (ARow a) \<in> set (k_players db) \<and> RsPlayer2ID (ARow a) \<in> set (k_players db)"

definition acceptable :: "string \<Rightarrow> attachment \<Rightarrow> bool" where
  "acceptable source a \<longleftrightarrow> text_ok (CId (AMatch a)) \<and> text_ok (CChartedBy (AMatch a)) \<and> text_ok source
     \<and> (\<forall>st \<in> set (AStats a). line_player a st \<noteq> None \<longrightarrow> stats_consistent (SFigures st))"

lemma line_player_in: "attachable db a \<Longrightarrow> line_player a st = Some p \<Longrightarrow> p \<in> set (k_players db)"
  by (auto simp: attachable_def line_player_def split: if_splits)

lemma insert_stat_lands:
  assumes "charted_ok db" "attachable db a" "RsMatchID (ARow a) \<in> keys (k_matches db)"
  shows "(\<exists>db'. insert_stat a st db = Inr db') \<longleftrightarrow> (line_player a st \<noteq> None \<longrightarrow> stats_consistent (SFigures st))"
proof (cases "line_player a st")
  case None
  then show ?thesis by (simp add: insert_stat_def)
next
  case (Some p)
  let ?t = "insert_new ((RsMatchID (ARow a), p, SSet st), SFigures st) (k_stats db)"
  have "charted_ok (db\<lparr>k_stats := ?t\<rparr>)" if "stats_consistent (SFigures st)"
    using assms that line_player_in [OF assms(2) Some]
    by (auto simp: charted_ok_def charting_constraints_def insert_new_def)
  then show ?thesis using Some
    by (auto simp: insert_stat_def checked_def exec_Inr charted_ok_def)
qed

lemma insert_stats_lands:
  assumes "charted_ok db" "attachable db a" "RsMatchID (ARow a) \<in> keys (k_matches db)"
  shows "(\<exists>db'. insert_stats a sts db = Inr db') \<longleftrightarrow> (\<forall>st \<in> set sts. line_player a st \<noteq> None \<longrightarrow> stats_consistent (SFigures st))"
  using assms
proof (induction sts arbitrary: db)
  case (Cons st sts)
  note one = insert_stat_lands [OF Cons.prems, of st]
  show ?case
  proof (cases "insert_stat a st db")
    case (Inl e)
    then show ?thesis using one by auto
  next
    case (Inr db1)
    then have "insert_stats a [st] db = Inr db1" by simp
    from insert_stats_keeps [OF this] Cons.prems
    have "charted_ok db1" "attachable db1 a" "RsMatchID (ARow a) \<in> keys (k_matches db1)" by (simp_all add: attachable_def)
    then show ?thesis using Cons.IH [of db1] Inr one by auto
  qed
qed simp

lemma charted_ok_insert:
  assumes "charted_ok db" "\<exists>r \<in> set (k_rows db). DMatchID (snd r) = RsMatchID (ARow a)"
    and "RsMatchID (ARow a) \<notin> keys (k_matches db)" "CId (AMatch a) \<notin> (KCharting \<circ> snd) ` set (k_matches db)"
  shows "charted_ok (insert_charted source a db)"
proof -
  have "\<forall>s \<in> set (k_stats db). fst (fst s) \<in> keys (k_matches db)"
    using assms(1) by (simp add: charted_ok_def charting_constraints_def split_def)
  then have "\<forall>s \<in> set (k_stats db). fst (fst s) = RsMatchID (ARow a) \<or> fst (fst s) \<in> keys (k_matches db)" by blast
  then show ?thesis
    using assms unfolding charted_ok_def charting_constraints_def insert_charted_def by (simp add: comp_def split_def)
qed

lemma insert_charted_ok:
  assumes "charted_ok db" and "attachable db a"
  shows "charted_ok (insert_charted source a (delete_charted (\<lambda>i c. c = CId (AMatch a) \<or> i = RsMatchID (ARow a)) db))"
proof -
  let ?d = "delete_charted (\<lambda>i c. c = CId (AMatch a) \<or> i = RsMatchID (ARow a)) db"
  have "RsMatchID (ARow a) \<notin> keys (k_matches ?d)" "CId (AMatch a) \<notin> (KCharting \<circ> snd) ` set (k_matches ?d)"
    by (auto simp: delete_charted_def Let_def)
  moreover have "charted_ok ?d" by (rule delete_charted_ok [OF assms(1)])
  moreover have "k_rows ?d = k_rows db" by (simp add: delete_charted_def Let_def)
  ultimately show ?thesis using assms(2) unfolding attachable_def by (intro charted_ok_insert) simp_all
qed

lemma attach_lands:
  assumes "charted_ok db" and "attachable db a"
  shows "(\<exists>db'. attach source a db = Inr db') \<longleftrightarrow> acceptable source a"
proof -
  let ?p = "\<lambda>i c. c = CId (AMatch a) \<or> i = RsMatchID (ARow a)"
  let ?n = "insert_charted source a (delete_charted ?p db)"
  have d: "exec charting_constraints (delete_charted ?p) db = Inr (delete_charted ?p db)"
    using delete_charted_ok [OF assms(1), of ?p] by (simp add: exec_ok charted_ok_def)
  have n: "exec charting_constraints (insert_charted source a) (delete_charted ?p db) = Inr ?n"
    using insert_charted_ok [OF assms, of source] by (simp add: exec_ok charted_ok_def)
  have "attachable ?n a" "RsMatchID (ARow a) \<in> keys (k_matches ?n)"
    using assms(2) by (simp_all add: attachable_def insert_charted_def delete_charted_def Let_def)
  from insert_stats_lands [OF insert_charted_ok [OF assms, of source] this, of "AStats a"]
  have "(\<exists>db'. and_then (insert_stats a (AStats a) ?n) (\<lambda>db. Inr (forget_unresolved source (CId (AMatch a)) db)) = Inr db')
    \<longleftrightarrow> (\<forall>st \<in> set (AStats a). line_player a st \<noteq> None \<longrightarrow> stats_consistent (SFigures st))"
    by (auto simp: and_then_Inr)
  then show ?thesis using d n unfolding attach_def acceptable_def checked_def
    by (cases "text_ok (CId (AMatch a)) \<and> text_ok (CChartedBy (AMatch a)) \<and> text_ok source") (auto simp: and_then_Inr)
qed

lemma attach_all_lands:
  assumes "charted_ok db" and "\<forall>a \<in> set as. attachable db a"
  shows "(\<exists>db'. attach_all source as db = Inr db') \<longleftrightarrow> (\<forall>a \<in> set as. acceptable source a)"
  using assms
proof (induction as arbitrary: db)
  case (Cons a as)
  have a: "attachable db a" using Cons.prems(2) by simp
  note one = attach_lands [OF Cons.prems(1) a, of source]
  show ?case
  proof (cases "attach source a db")
    case (Inl e)
    then show ?thesis using one by auto
  next
    case (Inr db1)
    note eff = attach_effect [OF Cons.prems(1) Inr]
    then have "charted_ok db1" "\<forall>b \<in> set as. attachable db1 b" using Cons.prems(2) by (simp_all add: attachable_def)
    then show ?thesis using Cons.IH [of db1] Inr one by auto
  qed
qed simp

text \<open>
  C37: A batch of charted matches resolved to rows of the database is written exactly when its text is storable and
  every line of figures it carries is one the table accepts: one line whose first serves in exceed its serve points, say,
  which the reader lets through, fails the whole batch and nothing of it is kept. No batch fails for a row or an
  id that is charted already.
\<close>

theorem batch_lands:
  assumes "charted_ok db" and "\<forall>a \<in> set batch. attachable db a"
  shows "(\<exists>db'. pg_write source batch db = Inr (queued batch, db')) \<longleftrightarrow>
    (\<forall>a \<in> set batch. text_ok (CId (AMatch a)) \<and> text_ok (CChartedBy (AMatch a)) \<and> text_ok source
       \<and> (\<forall>st \<in> set (AStats a). line_player a st \<noteq> None \<longrightarrow> stats_consistent (SFigures st)))"
proof (cases "batch = []")
  case True
  then show ?thesis by (simp add: pg_write_def queued_def)
next
  case False
  then have "(\<exists>db'. pg_write source batch db = Inr (queued batch, db')) \<longleftrightarrow> (\<exists>db'. attach_all source batch db = Inr db')"
    by (auto simp: pg_write_def and_then_Inr)
  then show ?thesis using attach_all_lands [OF assms, of source] by (simp add: acceptable_def)
qed

definition bad_line :: charted_stat where
  "bad_line = \<lparr>SMatchID = ''x'', SPlayer = ''A'', SSet = 1, SFigures = make_figures [10, 0, 0, 11, 0, 0, 0, 0, 0, 0, 0, 0, 0, 0, 0, 0, 0]\<rparr>"

definition bad_attachment :: attachment where
  "bad_attachment = \<lparr>AMatch = \<lparr>CId = ''x'', CTour = ''atp'', CPlayer1 = ''A'', CPlayer2 = ''B'', CPlayedOn = (2024, 1, 1), CEvent = [], CRound = [],
     CChartedBy = []\<rparr>, ARow = \<lparr>RsMatchID = 9, RsPlayer1ID = 1, RsPlayer2ID = 2\<rparr>, AStats = [bad_line]\<rparr>"

definition one_row_chart :: chart_db where
  "one_row_chart = empty_chart\<lparr>k_rows := [(''atp'', twin_row)], k_players := [1, 2]\<rparr>"

theorem batch_lands_witness:
  "stat_row_ok bad_line \<and> (\<nexists>db'. pg_write ''mcp'' [bad_attachment] one_row_chart = Inr (queued [bad_attachment], db'))"
proof -
  have ok: "charted_ok one_row_chart"
    by (simp add: charted_ok_def charting_constraints_def one_row_chart_def empty_chart_def)
  have at: "\<forall>a \<in> set [bad_attachment]. attachable one_row_chart a"
    by (simp add: attachable_def bad_attachment_def one_row_chart_def empty_chart_def twin_row_def)
  have "line_player bad_attachment bad_line = Some 1" by (simp add: line_player_def bad_attachment_def bad_line_def)
  moreover have "\<not> stats_consistent (SFigures bad_line)" by (simp add: stats_consistent_def bad_line_def make_figures_def)
  moreover have "bad_line \<in> set (AStats bad_attachment)" by (simp add: bad_attachment_def)
  ultimately have "\<nexists>db'. pg_write ''mcp'' [bad_attachment] one_row_chart = Inr (queued [bad_attachment], db')"
    using batch_lands [OF ok at, of "''mcp''"] by fastforce
  moreover have "stat_row_ok bad_line" by (simp add: stat_row_ok_def bad_line_def figure_list_def make_figures_def)
  ultimately show ?thesis by blast
qed

section \<open>Whose figures a row carries\<close>

definition figures_in :: "chart_db \<Rightarrow> int \<Rightarrow> int \<Rightarrow> int \<Rightarrow> set_figures option" where
  "figures_in db i p n = map_of (k_stats db) (i, p, n)"

definition own_figures :: "attachment \<Rightarrow> int \<Rightarrow> int \<Rightarrow> set_figures option" where
  "own_figures a p n = map_option SFigures (find (\<lambda>st. line_player a st = Some p \<and> SSet st = n) (AStats a))"

lemma own_line:
  "line_player a st = Some p \<and> SSet st = n \<longleftrightarrow> SSet st = n \<and>
     (if SPlayer st = CPlayer1 (AMatch a) then p = RsPlayer1ID (ARow a)
      else SPlayer st = CPlayer2 (AMatch a) \<and> p = RsPlayer2ID (ARow a))"
  by (auto simp: line_player_def)

lemma insert_stats_figures:
  "insert_stats a sts db = Inr db' \<Longrightarrow> figures_in db' i p n = (case figures_in db i p n of Some f \<Rightarrow> Some f
     | None \<Rightarrow> if i = RsMatchID (ARow a) then map_option SFigures (find (\<lambda>st. line_player a st = Some p \<and> SSet st = n) sts) else None)"
proof (induction sts arbitrary: db)
  case (Cons st sts)
  then obtain db1 where one: "insert_stat a st db = Inr db1" and more: "insert_stats a sts db1 = Inr db'"
    by (auto simp: and_then_Inr)
  have new: "map_of (insert_new r t) k = (case map_of t k of Some v \<Rightarrow> Some v | None \<Rightarrow> map_of [r] k)"
    for r :: "(int \<times> int \<times> int) \<times> set_figures" and t k
    using map_of_insert_ignore [of "[r]" t k] by (simp add: insert_ignore_def)
  have "figures_in db1 i p n = (case figures_in db i p n of Some f \<Rightarrow> Some f
     | None \<Rightarrow> if i = RsMatchID (ARow a) \<and> line_player a st = Some p \<and> SSet st = n then Some (SFigures st) else None)"
    using one by (auto simp: insert_stat_def and_then_Inr exec_Inr checked_def figures_in_def new split: option.splits if_splits)
  then show ?case using Cons.IH [OF more] by (auto split: option.splits)
qed (simp split: option.splits)

lemma figures_delete:
  "figures_in (delete_charted q db) i p n
    = (if \<exists>c. (i, c) \<in> set (k_matches db) \<and> \<not> q i (KCharting c) then figures_in db i p n else None)"
proof -
  have "i \<in> keys (filter (\<lambda>r. \<not> q (fst r) (KCharting (snd r))) (k_matches db))
      \<longleftrightarrow> (\<exists>c. (i, c) \<in> set (k_matches db) \<and> \<not> q i (KCharting c))" by force
  then show ?thesis
    using map_of_filter_keys [of "\<lambda>k. fst k \<in> keys (filter (\<lambda>r. \<not> q (fst r) (KCharting (snd r))) (k_matches db))" "k_stats db" "(i, p, n)"]
    by (simp add: figures_in_def delete_charted_def Let_def) blast
qed

lemma figures_need_row: "charted_ok db \<Longrightarrow> figures_in db i p n \<noteq> None \<Longrightarrow> i \<in> keys (k_matches db)"
  by (force simp: charted_ok_def charting_constraints_def figures_in_def dest: map_of_SomeD)

text \<open>What one attachment does to the row of a match and to its figures.\<close>

lemma attach_rows:
  assumes "charted_ok db" and "attach source a db = Inr db'"
  shows "map_of (k_matches db') i = (if i = RsMatchID (ARow a)
        then Some \<lparr>KCharting = CId (AMatch a), KPlayedOn = CPlayedOn (AMatch a), KChartedBy = null_if_empty (CChartedBy (AMatch a)), KFrom = source\<rparr>
        else case map_of (k_matches db) i of Some c \<Rightarrow> if KCharting c = CId (AMatch a) then None else Some c | None \<Rightarrow> None)"
    and "figures_in db' i p n = (if i = RsMatchID (ARow a) then own_figures a p n
        else case map_of (k_matches db) i of Some c \<Rightarrow> if KCharting c = CId (AMatch a) then None else figures_in db i p n | None \<Rightarrow> None)"
proof -
  let ?q = "\<lambda>i c. c = CId (AMatch a) \<or> i = RsMatchID (ARow a)"
  let ?del = "delete_charted ?q db"
  let ?ins = "insert_charted source a ?del"
  obtain db1 where ins: "insert_stats a (AStats a) ?ins = Inr db1" and db': "db' = forget_unresolved source (CId (AMatch a)) db1"
    using assms(2) by (auto simp: attach_def and_then_Inr exec_Inr checked_def split: if_splits)
  have dist: "distinct (map fst (k_matches db))" using assms(1) by (simp add: charted_ok_def charting_constraints_def)
  then have entry: "(i, c) \<in> set (k_matches db) \<longleftrightarrow> map_of (k_matches db) i = Some c" for c by simp
  have kept: "map_of (filter (\<lambda>r. \<not> ?q (fst r) (KCharting (snd r))) t) i
      = (case map_of t i of Some c \<Rightarrow> if ?q i (KCharting c) then None else Some c | None \<Rightarrow> None)"
    if "distinct (map fst t)" for t :: "(int \<times> charted_row) list"
    using that by (induction t) (auto simp: map_of_eq_None_iff image_iff split: option.splits)
  have "k_matches db' = k_matches ?ins" using insert_stats_keeps [OF ins] by (simp add: db' forget_unresolved_def)
  then show "map_of (k_matches db') i = (if i = RsMatchID (ARow a)
        then Some \<lparr>KCharting = CId (AMatch a), KPlayedOn = CPlayedOn (AMatch a), KChartedBy = null_if_empty (CChartedBy (AMatch a)), KFrom = source\<rparr>
        else case map_of (k_matches db) i of Some c \<Rightarrow> if KCharting c = CId (AMatch a) then None else Some c | None \<Rightarrow> None)"
    using kept [OF dist] by (auto simp: insert_charted_def delete_charted_def Let_def map_add_def split: option.splits)
  have "figures_in db' i p n = figures_in db1 i p n" by (simp add: db' forget_unresolved_def figures_in_def)
  moreover have "figures_in ?ins i p n = figures_in ?del i p n" by (simp add: insert_charted_def figures_in_def)
  ultimately show "figures_in db' i p n = (if i = RsMatchID (ARow a) then own_figures a p n
        else case map_of (k_matches db) i of Some c \<Rightarrow> if KCharting c = CId (AMatch a) then None else figures_in db i p n | None \<Rightarrow> None)"
    using insert_stats_figures [OF ins, of i p n]
    by (auto simp: figures_delete entry own_figures_def split: option.splits)
qed

lemma untouched_rows:
  assumes "charted_ok db" and "attach_all source as db = Inr db'"
    and "\<forall>b \<in> set as. RsMatchID (ARow b) \<noteq> i \<and> (\<forall>c. map_of (k_matches db) i = Some c \<longrightarrow> KCharting c \<noteq> CId (AMatch b))"
  shows "map_of (k_matches db') i = map_of (k_matches db) i \<and> figures_in db' i p n = figures_in db i p n"
  using assms
proof (induction as arbitrary: db)
  case (Cons a as)
  then obtain db1 where one: "attach source a db = Inr db1" and more: "attach_all source as db1 = Inr db'"
    by (auto simp: and_then_Inr)
  have i: "i \<noteq> RsMatchID (ARow a)" "map_of (k_matches db) i = Some c \<Longrightarrow> KCharting c \<noteq> CId (AMatch a)" for c
    using Cons.prems(3) by auto
  have m: "map_of (k_matches db1) i = map_of (k_matches db) i"
    using attach_rows(1) [OF Cons.prems(1) one, of i] i by (auto split: option.splits)
  have "figures_in db i p n = None" if "map_of (k_matches db) i = None"
    using that figures_need_row [OF Cons.prems(1)] by (metis map_of_eq_None_iff)
  then have f: "figures_in db1 i p n = figures_in db i p n"
    using attach_rows(2) [OF Cons.prems(1) one, of i p n] i by (auto split: option.splits)
  have "charted_ok db1" using attach_effect [OF Cons.prems(1) one] by simp
  from Cons.IH [OF this more] Cons.prems(3) m f show ?case by simp
qed simp

lemma attach_all_append:
  "attach_all source (xs @ ys) db = and_then (attach_all source xs db) (attach_all source ys)"
  by (induction xs arbitrary: db) (auto simp: and_then_def split: sum.splits)

text \<open>
  C38: After a batch is written, the row of every charted match of it that no later one of the batch takes over (the same
  row, or the same charting id) holds that match, with its day, its charter and the source, and exactly that match's
  figures: of each player and set the first of its lines, the line's player being the row's player that carries the
  charted name; of an earlier charting of the row nothing is left. A row that the batch does not name, and whose charted
  match it does not move, keeps its charted match and its figures.
\<close>

theorem row_carries_its_charting:
  assumes "charted_ok db" and "pg_write source (earlier @ a # later) db = Inr (written, db')"
    and "\<forall>b \<in> set later. RsMatchID (ARow b) \<noteq> RsMatchID (ARow a) \<and> CId (AMatch b) \<noteq> CId (AMatch a)"
    and "\<forall>b \<in> set (earlier @ a # later). RsMatchID (ARow b) \<noteq> other
           \<and> (\<forall>c. map_of (k_matches db) other = Some c \<longrightarrow> KCharting c \<noteq> CId (AMatch b))"
  shows "map_of (k_matches db') (RsMatchID (ARow a)) = Some \<lparr>KCharting = CId (AMatch a), KPlayedOn = CPlayedOn (AMatch a),
        KChartedBy = null_if_empty (CChartedBy (AMatch a)), KFrom = source\<rparr>
    \<and> map_of (k_stats db') (RsMatchID (ARow a), p, n)
        = map_option SFigures (find (\<lambda>st. SSet st = n \<and>
            (if SPlayer st = CPlayer1 (AMatch a) then p = RsPlayer1ID (ARow a)
             else SPlayer st = CPlayer2 (AMatch a) \<and> p = RsPlayer2ID (ARow a))) (AStats a))
    \<and> map_of (k_matches db') other = map_of (k_matches db) other
    \<and> map_of (k_stats db') (other, p, n) = map_of (k_stats db) (other, p, n)"
proof -
  have all: "attach_all source (earlier @ a # later) db = Inr db'"
    using assms(2) by (auto simp: pg_write_def and_then_Inr split: if_splits)
  then obtain db1 db2 where before: "attach_all source earlier db = Inr db1"
    and own: "attach source a db1 = Inr db2" and rest: "attach_all source later db2 = Inr db'"
    by (auto simp: attach_all_append and_then_Inr)
  have ok1: "charted_ok db1" using attach_all_effect [OF assms(1) before] by simp
  then have ok2: "charted_ok db2" using attach_effect [OF _ own] by simp
  note rows = attach_rows [OF ok1 own, of "RsMatchID (ARow a)"]
  have "\<forall>b \<in> set later. RsMatchID (ARow b) \<noteq> RsMatchID (ARow a)
      \<and> (\<forall>c. map_of (k_matches db2) (RsMatchID (ARow a)) = Some c \<longrightarrow> KCharting c \<noteq> CId (AMatch b))"
    using assms(3) rows(1) by auto
  from untouched_rows [OF ok2 rest this, of p n] rows untouched_rows [OF assms(1) all assms(4), of p n]
  show ?thesis by (simp add: figures_in_def own_figures_def own_line)
qed

definition charted_line :: "string \<Rightarrow> int \<Rightarrow> charted_stat" where
  "charted_line who pts = \<lparr>SMatchID = ''y'', SPlayer = who, SSet = 1, SFigures = make_figures [pts, 0, 0, 0, 0, 0, 0, 0, 0, 0, 0, 0, 0, 0, 0, 0, 0]\<rparr>"

definition good_attachment :: attachment where
  "good_attachment = bad_attachment\<lparr>AMatch := (AMatch bad_attachment)\<lparr>CId := ''y''\<rparr>, AStats := [charted_line ''B'' 30, charted_line ''B'' 40]\<rparr>"

theorem row_carries_its_charting_witness:
  "\<exists>db'. pg_write ''mcp'' [bad_attachment\<lparr>AStats := []\<rparr>, good_attachment] one_row_chart = Inr (2, db')
     \<and> map_of (k_matches db') 9 = Some \<lparr>KCharting = ''y'', KPlayedOn = (2024, 1, 1), KChartedBy = None, KFrom = ''mcp''\<rparr>
     \<and> map_of (k_stats db') (9, 2, 1) = Some (SFigures (charted_line ''B'' 30)) \<and> map_of (k_stats db') (9, 1, 1) = None"
proof -
  have ok: "charted_ok one_row_chart"
    by (simp add: charted_ok_def charting_constraints_def one_row_chart_def empty_chart_def)
  have "\<exists>db'. pg_write ''mcp'' ([bad_attachment\<lparr>AStats := []\<rparr>] @ good_attachment # []) one_row_chart = Inr (2, db')"
  proof -
    have "case pg_write ''mcp'' ([bad_attachment\<lparr>AStats := []\<rparr>] @ good_attachment # []) one_row_chart of Inl e \<Rightarrow> False | Inr p \<Rightarrow> fst p = 2"
      by code_simp
    then show ?thesis by (auto split: sum.splits)
  qed
  then obtain db' where w: "pg_write ''mcp'' ([bad_attachment\<lparr>AStats := []\<rparr>] @ good_attachment # []) one_row_chart = Inr (2, db')" by blast
  have "\<forall>b \<in> set ([bad_attachment\<lparr>AStats := []\<rparr>] @ good_attachment # []). RsMatchID (ARow b) \<noteq> 0
      \<and> (\<forall>c. map_of (k_matches one_row_chart) 0 = Some c \<longrightarrow> KCharting c \<noteq> CId (AMatch b))"
    by (simp add: one_row_chart_def empty_chart_def good_attachment_def bad_attachment_def)
  note claim = row_carries_its_charting [OF ok w _ this]
  have f: "RsMatchID (ARow good_attachment) = 9" "CId (AMatch good_attachment) = ''y''" "CPlayedOn (AMatch good_attachment) = (2024, 1, 1)"
    "null_if_empty (CChartedBy (AMatch good_attachment)) = None"
    by (simp_all add: good_attachment_def bad_attachment_def null_if_empty_def)
  have own: "find (\<lambda>st. SSet st = 1 \<and> (if SPlayer st = CPlayer1 (AMatch good_attachment) then p = RsPlayer1ID (ARow good_attachment)
      else SPlayer st = CPlayer2 (AMatch good_attachment) \<and> p = RsPlayer2ID (ARow good_attachment))) (AStats good_attachment)
    = (if p = 2 then Some (charted_line ''B'' 30) else None)" for p
    by (simp add: good_attachment_def bad_attachment_def charted_line_def)
  have "map_of (k_stats db') (9, 2, 1) = Some (SFigures (charted_line ''B'' 30))" "map_of (k_stats db') (9, 1, 1) = None"
    "map_of (k_matches db') 9 = Some \<lparr>KCharting = ''y'', KPlayedOn = (2024, 1, 1), KChartedBy = None, KFrom = ''mcp''\<rparr>"
    using claim [of 2 1, unfolded own] claim [of 1 1, unfolded own] by (simp_all add: f)
  then show ?thesis using w by simp
qed

end
