(* ===== verification/SimulateApi.thy ===== *)
theory SimulateApi
  imports SimChain SimAnchor SimDraw RatingElo
begin

text \<open>
  \<open>internal/httpapi/simulate.go\<close>: the two simulation endpoints, which put together what the simulator and the
  ratings provide: two blended ratings, the serve anchor, the inverted chain; or a whole draw with every entrant
  rated as of its first week. The queries on the database are a parameter, one field each; writing JSON is left
  out. The seasons of the database are not negative, so the division that makes a decade rounds down.
\<close>

section \<open>Replies and queries\<close>

datatype 'a reply = BadRequest string | NotFound string | Unprocessable draw_error | InternalError | Answer 'a

datatype 'a row_query = Row 'a | NoRow | QueryFailed

record sim_player =
  SpID :: int
  SpSlug :: string
  SpName :: string
  SpTour :: string
  SpCountry :: "string option"
  SpTier :: string
  SpSeason :: int

record series_row =
  SrSurface :: string
  SrElo :: real
  SrMatches :: int

record draw_edition =
  EdID :: int
  EdSlug :: string
  EdName :: string
  EdSeason :: int
  EdTour :: string
  EdTier :: string
  EdSurface :: string
  EdLevel :: string
  EdStart :: int

record draw_row =
  DwRound :: string
  DwWinner :: int
  DwWinnerSlug :: string
  DwWinnerName :: string
  DwWinnerSeed :: "int option"
  DwLoser :: int
  DwLoserSlug :: string
  DwLoserName :: string
  DwLoserSeed :: "int option"

record sim_queries =
  q_player :: "string \<Rightarrow> sim_player row_query"
  q_ratings :: "int \<Rightarrow> series_row list option"
  q_baselines :: "string \<Rightarrow> baseline list option"
  q_edition :: "string \<Rightarrow> int \<Rightarrow> draw_edition row_query"
  q_tournament :: "string \<Rightarrow> int \<Rightarrow> string \<Rightarrow> draw_edition row_query"
  q_draw :: "int \<Rightarrow> draw_row list option"
  q_elo_as_of :: "string \<Rightarrow> int \<Rightarrow> int list \<Rightarrow> (int \<times> real \<times> int) list option"

section \<open>Ratings\<close>

definition overall_series :: string where "overall_series = ''overall''"

definition rating_surfaces :: "string list" where
  "rating_surfaces = [overall_series, ''hard'', ''clay'', ''grass'', ''carpet'']"

definition parse_rating_surface :: "string \<Rightarrow> string option" where
  "parse_rating_surface raw = (if raw \<in> set rating_surfaces then Some raw else None)"

text \<open>The last row of a series; the loop overwrites. The overall series is tested first.\<close>

definition last_row :: "(series_row \<Rightarrow> bool) \<Rightarrow> series_row list \<Rightarrow> series_row option" where
  "last_row p rows = fold (\<lambda>r found. if p r then Some r else found) rows None"

definition blended_rating :: "series_row list \<Rightarrow> string \<Rightarrow> (real \<times> real \<times> int) option" where
  "blended_rating rows series =
     (let over = last_row (\<lambda>r. SrSurface r = overall_series) rows;
          surf = last_row (\<lambda>r. SrSurface r \<noteq> overall_series \<and> SrSurface r = series) rows
      in case over of
        None \<Rightarrow> None
      | Some o1 \<Rightarrow>
          (case surf of
             None \<Rightarrow> (let (elo, weight) = blend_optional None (SrElo o1) in Some (elo, weight, 0))
           | Some s \<Rightarrow> (let (elo, weight) = blend (SrElo s) (SrMatches s) (SrElo o1) in Some (elo, weight, SrMatches s))))"

definition tier_order :: "string \<Rightarrow> nat" where
  "tier_order t = (if t = ''challenger'' then 1 else if t = ''futures'' then 2 else if t = ''itf'' then 3 else 0)"

definition better_tier :: "string \<Rightarrow> string \<Rightarrow> string" where
  "better_tier a b = (if tier_order a \<le> tier_order b then a else b)"

section \<open>One match\<close>

datatype availability = Derived | Unrated | NoAnchor

record rated_side =
  RdPlayer :: sim_player
  RdElo :: "real option"
  RdWeight :: real
  RdMatches :: int

record sim_inputs =
  InAnchor :: "real option"
  InScope :: scope
  InPoints :: int
  InSurface :: string
  InTier :: string
  InDecade :: int
  InExpected :: "real option"
  InAchieved :: "real option"

record match_sim =
  MsSides :: "rated_side \<times> rated_side"
  MsBestOf :: int
  MsSurface :: string
  MsChain :: "chain option"
  MsInputs :: sim_inputs
  MsAvailability :: availability

definition rated_side_of :: "sim_player \<Rightarrow> series_row list \<Rightarrow> string \<Rightarrow> rated_side" where
  "rated_side_of p rows series =
     (case blended_rating rows series of
        Some (elo, weight, n) \<Rightarrow> \<lparr>RdPlayer = p, RdElo = Some elo, RdWeight = weight, RdMatches = n\<rparr>
      | None \<Rightarrow> \<lparr>RdPlayer = p, RdElo = None, RdWeight = 0, RdMatches = 0\<rparr>)"

definition chain_format :: "int \<Rightarrow> format" where
  "chain_format best_of = \<lparr>BestOf = best_of, FinalSetAdvantage = False\<rparr>"

definition derive_match :: "rated_side \<Rightarrow> rated_side \<Rightarrow> baseline list \<Rightarrow> string \<Rightarrow> int \<Rightarrow> match_sim" where
  "derive_match a b cells surface best_of =
     (let tier = better_tier (SpTier (RdPlayer a)) (SpTier (RdPlayer b));
          season = (if SpSeason (RdPlayer b) > SpSeason (RdPlayer a) then SpSeason (RdPlayer b) else SpSeason (RdPlayer a));
          decade = (season div 10) * 10;
          (anc, sc, points) = anchor cells tier surface decade;
          inputs = \<lparr>InAnchor = (if sc \<noteq> ScopeNone then Some anc else None), InScope = sc, InPoints = points,
                    InSurface = surface, InTier = tier, InDecade = decade, InExpected = None, InAchieved = None\<rparr>;
          sim = \<lparr>MsSides = (a, b), MsBestOf = best_of, MsSurface = surface, MsChain = None, MsInputs = inputs, MsAvailability = Derived\<rparr>
      in case (RdElo a, RdElo b) of
        (Some ea, Some eb) \<Rightarrow>
          if sc = ScopeNone then sim\<lparr>MsAvailability := NoAnchor\<rparr>
          else
            let target = expected ea eb;
                (pA, pB, achieved) = invert target anc (chain_format best_of)
            in sim\<lparr>MsInputs := inputs\<lparr>InExpected := Some target, InAchieved := Some achieved\<rparr>,
                   MsChain := Some (solve pA pB (chain_format best_of))\<rparr>
      | _ \<Rightarrow> sim\<lparr>MsAvailability := Unrated\<rparr>)"

definition simulate_match :: "sim_queries \<Rightarrow> sim_player \<Rightarrow> sim_player \<Rightarrow> string \<Rightarrow> string \<Rightarrow> int \<Rightarrow> match_sim option" where
  "simulate_match q a b series surface best_of =
     (case q_ratings q (SpID a) of
        None \<Rightarrow> None
      | Some ra \<Rightarrow>
          (case q_ratings q (SpID b) of
             None \<Rightarrow> None
           | Some rb \<Rightarrow>
               map_option (\<lambda>cells. derive_match (rated_side_of a ra series) (rated_side_of b rb series) cells surface best_of)
                 (q_baselines q (SpTour a))))"

text \<open>The two players in turn: an empty name, an unknown one and a failing query each end the request.\<close>

definition named_player :: "sim_queries \<Rightarrow> string \<Rightarrow> 'a reply + sim_player" where
  "named_player q name =
     (if name = [] then Inl (BadRequest ''Name two players, as a and b.'')
      else case q_player q name of
        NoRow \<Rightarrow> Inl (NotFound ''No player has that slug.'')
      | QueryFailed \<Rightarrow> Inl InternalError
      | Row p \<Rightarrow> Inr p)"

definition best_of_param :: "string \<Rightarrow> int option" where
  "best_of_param raw =
     (if raw = [] then Some 3
      else case atoi raw of None \<Rightarrow> None | Some n \<Rightarrow> if n \<noteq> 3 \<and> n \<noteq> 5 then None else Some n)"

definition default_surface :: string where "default_surface = ''hard''"

definition handle_match :: "sim_queries \<Rightarrow> (string \<Rightarrow> string) \<Rightarrow> match_sim reply" where
  "handle_match q get =
     (let surface = (if get ''surface'' = [] then default_surface else get ''surface'')
      in case parse_rating_surface surface of
        None \<Rightarrow> BadRequest ''surface must be hard, clay, grass or carpet.''
      | Some series \<Rightarrow>
          if series = overall_series then BadRequest ''surface must be hard, clay, grass or carpet.''
          else case best_of_param (get ''best_of'') of
            None \<Rightarrow> BadRequest ''best_of must be 3 or 5.''
          | Some best_of \<Rightarrow>
              (case named_player q (get ''a'') of
                 Inl e \<Rightarrow> e
               | Inr a \<Rightarrow>
                   (case named_player q (get ''b'') of
                      Inl e \<Rightarrow> e
                    | Inr b \<Rightarrow>
                        if SpID a = SpID b then BadRequest ''A player cannot be simulated against themselves.''
                        else case simulate_match q a b series surface best_of of
                          None \<Rightarrow> InternalError | Some sim \<Rightarrow> Answer sim)))"

section \<open>A whole draw\<close>

record draw_odds =
  DoSlug :: string
  DoName :: string
  DoSeed :: "int option"
  DoTitle :: real
  DoInterval :: real
  DoReached :: "real list"
  DoRating :: "real option"

record draw_sim =
  DsEvent :: draw_edition
  DsRounds :: "string list"
  DsOdds :: "draw_odds list"
  DsRuns :: int
  DsSeed :: nat
  DsInputs :: sim_inputs
  DsEntered :: int
  DsByes :: nat
  DsChampion :: "string option"

text \<open>\<open>math.Round\<close>: half away from zero.\<close>

definition go_round :: "real \<Rightarrow> real" where
  "go_round x = (if 0 \<le> x then of_int \<lfloor>x + 1 / 2\<rfloor> else of_int \<lceil>x - 1 / 2\<rceil>)"

definition round3 :: "real \<Rightarrow> real" where
  "round3 v = go_round (v * 1000) / 1000"

definition sort_odds_by_title :: "draw_odds list \<Rightarrow> draw_odds list" where
  "sort_odds_by_title os = sort_slice (\<lambda>x y. DoTitle x > DoTitle y) os"

definition bracket_match_of :: "draw_row \<Rightarrow> bracket_match" where
  "bracket_match_of m =
     \<lparr>Round = DwRound m, RoundIdx = int (round_rank (DwRound m)), WinnerID = DwWinner m, LoserID = DwLoser m\<rparr>"

definition add_entrants :: "draw_row \<Rightarrow> (int \<rightharpoonup> entrant) \<Rightarrow> (int \<rightharpoonup> entrant)" where
  "add_entrants m es =
     es(DwWinner m \<mapsto> \<lparr>PlayerID = DwWinner m, ESlug = DwWinnerSlug m, EName = DwWinnerName m, Seed = DwWinnerSeed m\<rparr>,
        DwLoser m \<mapsto> \<lparr>PlayerID = DwLoser m, ESlug = DwLoserSlug m, EName = DwLoserName m, Seed = DwLoserSeed m\<rparr>)"

definition entrants_of :: "draw_row list \<Rightarrow> (int \<rightharpoonup> entrant)" where
  "entrants_of rows = fold add_entrants rows Map.empty"

text \<open>Every entrant's blended rating, where there is an overall one.\<close>

definition draw_elos :: "(int \<rightharpoonup> real \<times> int) \<Rightarrow> (int \<rightharpoonup> real \<times> int) \<Rightarrow> bool \<Rightarrow> int \<rightharpoonup> real" where
  "draw_elos over surf on_surface i =
     (case over i of
        None \<Rightarrow> None
      | Some (base_elo, _) \<Rightarrow>
          (case surf i of
             Some (s_elo, s_matches) \<Rightarrow> Some (if on_surface then fst (blend s_elo s_matches base_elo) else base_elo)
           | None \<Rightarrow> Some base_elo))"

definition win_chance :: "(int \<rightharpoonup> real) \<Rightarrow> real \<Rightarrow> scope \<Rightarrow> format \<Rightarrow> entrant \<Rightarrow> entrant \<Rightarrow> real" where
  "win_chance elos anc sc f x y =
     (case (elos (PlayerID x), elos (PlayerID y)) of
        (Some ex, Some ey) \<Rightarrow>
          (let target = expected ex ey
           in if sc = ScopeNone then target
              else let (pA, pB, _) = invert target anc f in fst (MatchP (solve pA pB f)))
      | _ \<Rightarrow> 1 / 2)"

definition odds_row :: "(int \<rightharpoonup> real) \<Rightarrow> odds \<Rightarrow> draw_odds" where
  "odds_row elos od =
     \<lparr>DoSlug = ESlug (OEntrant od), DoName = EName (OEntrant od), DoSeed = Seed (OEntrant od),
      DoTitle = round3 (Title od), DoInterval = round3 (TitleInterval od), DoReached = map round3 (Reached od),
      DoRating = elos (PlayerID (OEntrant od))\<rparr>"

definition as_of_map :: "(int \<times> real \<times> int) list \<Rightarrow> (int \<rightharpoonup> real \<times> int)" where
  "as_of_map rows = fold (\<lambda>(i, elo, n) m. m(i \<mapsto> (elo, n))) rows Map.empty"

definition draw_format :: "draw_edition \<Rightarrow> format" where
  "draw_format ev = chain_format (if EdLevel ev = ''G'' then 5 else 3)"

text \<open>
  \<open>simulateDraw\<close> with the bracket built and the ratings read. \<open>None\<close> is a panic of the simulation.
\<close>

definition play_draw :: "nat \<Rightarrow> (nat \<Rightarrow> nat \<Rightarrow> nat \<Rightarrow> real) \<Rightarrow> draw_edition \<Rightarrow> (int \<rightharpoonup> entrant) \<Rightarrow> bracket \<Rightarrow> (int \<rightharpoonup> real)
    \<Rightarrow> baseline list \<Rightarrow> int \<Rightarrow> nat \<Rightarrow> draw_sim option" where
  "play_draw procs streams ev entrants br elos cells runs seed =
     (let decade = (EdSeason ev div 10) * 10;
          (anc, sc, points) = anchor cells (EdTier ev) (EdSurface ev) decade
      in map_option (\<lambda>res.
           \<lparr>DsEvent = ev, DsRounds = Rounds br, DsOdds = sort_odds_by_title (map (odds_row elos) (Odds res)),
            DsRuns = Runs res, DsSeed = RSeed res,
            DsInputs = \<lparr>InAnchor = (if sc \<noteq> ScopeNone then Some anc else None), InScope = sc, InPoints = points,
              InSurface = EdSurface ev, InTier = EdTier ev, InDecade = decade, InExpected = None, InAchieved = None\<rparr>,
            DsEntered = entered br, DsByes = Byes br, DsChampion = map_option ESlug (entrants (Champion br))\<rparr>)
         (run_draw procs streams br (win_chance elos anc sc (draw_format ev)) runs seed))"

definition simulate_draw :: "nat \<Rightarrow> (nat \<Rightarrow> nat \<Rightarrow> nat \<Rightarrow> real) \<Rightarrow> sim_queries \<Rightarrow> draw_edition \<Rightarrow> int \<Rightarrow> nat \<Rightarrow> draw_sim reply option" where
  "simulate_draw procs streams q ev runs seed =
     (case q_draw q (EdID ev) of
        None \<Rightarrow> Some InternalError
      | Some rows \<Rightarrow>
          let entrants = entrants_of rows
          in case build_bracket (map bracket_match_of rows) entrants of
            Inl e \<Rightarrow> Some (Unprocessable e)
          | Inr br \<Rightarrow>
              let ids = map PlayerID (filter (\<lambda>e. \<not> is_bye e) (Entrants br));
                  series = (case parse_rating_surface (EdSurface ev) of None \<Rightarrow> overall_series | Some s \<Rightarrow> s)
              in case q_elo_as_of q overall_series (EdStart ev) ids of
                None \<Rightarrow> Some InternalError
              | Some over \<Rightarrow>
                  (case (if series \<noteq> overall_series then q_elo_as_of q series (EdStart ev) ids else Some over) of
                     None \<Rightarrow> Some InternalError
                   | Some surf \<Rightarrow>
                       (case q_baselines q (EdTour ev) of
                          None \<Rightarrow> Some InternalError
                        | Some cells \<Rightarrow>
                            map_option Answer (play_draw procs streams ev entrants br
                              (\<lambda>i. if i \<in> set ids then draw_elos (as_of_map over) (as_of_map surf) (series \<noteq> overall_series) i else None)
                              cells runs seed))))"

definition draw_max_runs :: int where "draw_max_runs = 200000"

definition runs_param :: "string \<Rightarrow> int option" where
  "runs_param raw =
     (if raw = [] then Some defaultRuns
      else case atoi raw of None \<Rightarrow> None | Some n \<Rightarrow> if n < 1 \<or> n > draw_max_runs then None else Some n)"

text \<open>\<open>strconv.ParseUint(raw, 10, 64)\<close>: digits alone, and a value that fits.\<close>

definition seed_param :: "string \<Rightarrow> nat option" where
  "seed_param raw =
     (if raw = [] then Some 1
      else if list_all is_digit raw \<and> digits_val raw < 2 ^ 64 then Some (nat (digits_val raw)) else None)"

definition season_param :: "string \<Rightarrow> int option" where
  "season_param raw = (case atoi raw of None \<Rightarrow> None | Some n \<Rightarrow> if n < 1877 \<or> n > 2100 then None else Some n)"

definition handle_draw :: "nat \<Rightarrow> (nat \<Rightarrow> nat \<Rightarrow> nat \<Rightarrow> real) \<Rightarrow> sim_queries \<Rightarrow> (string \<Rightarrow> string) \<Rightarrow> draw_sim reply option" where
  "handle_draw procs streams q get =
     (let tour = get ''tour''
      in if tour \<noteq> [] \<and> tour \<noteq> ''atp'' \<and> tour \<noteq> ''wta'' then Some (BadRequest ''tour must be atp or wta.'')
      else case season_param (get ''season'') of
        None \<Rightarrow> Some (BadRequest ''season must be a year, for example 2019.'')
      | Some season \<Rightarrow>
          if get ''event'' = [] then Some (BadRequest ''Name the event by its slug, for example event=wimbledon-atp.'')
          else case runs_param (get ''runs'') of
            None \<Rightarrow> Some (BadRequest ''runs must be between 1 and 200000.'')
          | Some runs \<Rightarrow>
              (case seed_param (get ''seed'') of
                 None \<Rightarrow> Some (BadRequest ''seed must be a whole number.'')
               | Some seed \<Rightarrow>
                   (case (if tour = [] then q_edition q (get ''event'') season else q_tournament q tour season (get ''event'')) of
                      NoRow \<Rightarrow> Some (NotFound ''That event was not played that season.'')
                    | QueryFailed \<Rightarrow> Some InternalError
                    | Row ev \<Rightarrow> simulate_draw procs streams q ev runs seed)))"

end
