(* ===== verification/SimulateFacts.thy ===== *)
theory SimulateFacts
  imports SimulateApi
begin

text \<open>
  What the two simulation endpoints answer: one match is simulated exactly when both players are rated and the
  tour has service points on record, and a draw that reconstructs is simulated without failing, with odds that
  add up whatever the queries return.
\<close>

section \<open>One match\<close>












definition sample_player :: "int \<Rightarrow> string \<Rightarrow> sim_player" where
  "sample_player i slug = \<lparr>SpID = i, SpSlug = slug, SpName = slug, SpTour = ''atp'', SpCountry = None, SpTier = ''tour'', SpSeason = 2024\<rparr>"

definition sample_queries :: "series_row list \<Rightarrow> draw_row list \<Rightarrow> sim_queries" where
  "sample_queries rows draw =
     \<lparr>q_player = (\<lambda>slug. if slug = ''ann'' then Row (sample_player 1 slug) else if slug = ''bea'' then Row (sample_player 2 slug) else NoRow),
      q_ratings = (\<lambda>_. Some rows),
      q_baselines = (\<lambda>_. Some [\<lparr>BTier = ''tour'', BSurface = ''hard'', BDecade = 2020, ServePoints = 2000, ServeWon = 1300\<rparr>]),
      q_edition = (\<lambda>_ _. NoRow), q_tournament = (\<lambda>_ _ _. NoRow), q_draw = (\<lambda>_. Some draw), q_elo_as_of = (\<lambda>_ _ _. Some [])\<rparr>"





section \<open>The bracket of a draw\<close>

lemma even_halves_bye:
  assumes "even (length xs)" "no_double_bye xs" "no_double_bye ys"
  shows "no_double_bye (xs @ ys)"
proof -
  obtain k where k: "length xs = 2 * k" using assms(1) by (elim evenE)
  show ?thesis unfolding no_double_bye_def
  proof (intro allI impI)
    fix i assume i: "2 * i + 1 < length (xs @ ys)"
    show "\<not> (is_bye ((xs @ ys) ! (2 * i)) \<and> is_bye ((xs @ ys) ! (2 * i + 1)))"
    proof (cases "i < k")
      case True
      then show ?thesis using assms(2) k by (auto simp: no_double_bye_def nth_append)
    next
      case False
      then obtain j where j: "i = k + j" by (metis le_iff_add not_less)
      then have "2 * j + 1 < length ys" using i k by simp
      then show ?thesis using assms(3) k j by (auto simp: no_double_bye_def nth_append)
    qed
  qed
qed

lemma subtree_byes:
  assumes "subtree players groups rounds d w = Inr (es, k)" and "d < length groups"
    and "\<not> is_bye (lookup players w)"
    and "\<forall>g \<in> set groups. \<forall>m \<in> set g. \<not> is_bye (lookup players (WinnerID m)) \<and> \<not> is_bye (lookup players (LoserID m))"
  shows "no_double_bye es \<and> length (filter is_bye es) = k"
  using assms(1-3)
proof (induction d arbitrary: w es k)
  case 0
  have g: "groups ! 0 \<in> set groups" using 0(2) by simp
  show ?case
  proof (cases "won_by (groups ! 0) w")
    case None
    then show ?thesis using 0 by (auto simp: no_double_bye_def is_bye_def no_entrant_def less_Suc_eq)
  next
    case (Some m)
    then have "\<not> is_bye (lookup players (WinnerID m)) \<and> \<not> is_bye (lookup players (LoserID m))"
      using won_by_Some [OF Some] g assms(4) by blast
    then show ?thesis using 0 Some by (auto simp: no_double_bye_def less_Suc_eq)
  qed
next
  case (Suc d)
  from Suc.prems(1) obtain m xs j ys l where m: "won_by (groups ! Suc d) w = Some m"
    and left: "subtree players groups rounds d (WinnerID m) = Inr (xs, j)"
    and right: "subtree players groups rounds d (LoserID m) = Inr (ys, l)" and es: "es = xs @ ys" "k = j + l"
    by (rule subtree_SucE) blast
  have "groups ! Suc d \<in> set groups" using Suc.prems(2) by simp
  then have p: "\<not> is_bye (lookup players (WinnerID m))" "\<not> is_bye (lookup players (LoserID m))"
    using won_by_Some [OF m] assms(4) by blast+
  have d: "d < length groups" using Suc.prems(2) by simp
  have "even (length xs)" using subtree_length [OF left] by simp
  then show ?case using Suc.IH [OF left d p(1)] Suc.IH [OF right d p(2)] even_halves_bye by (auto simp: es)
qed

section \<open>The odds of a draw\<close>

lemma go_round_near: "\<bar>go_round x - x\<bar> \<le> 1 / 2"
proof (cases "0 \<le> x")
  case True
  have "of_int \<lfloor>x + 1 / 2\<rfloor> \<le> x + 1 / 2" "x + 1 / 2 < of_int \<lfloor>x + 1 / 2\<rfloor> + 1" by linarith+
  moreover have "go_round x = of_int \<lfloor>x + 1 / 2\<rfloor>" using True by (simp add: go_round_def)
  ultimately show ?thesis by linarith
next
  case False
  have "x - 1 / 2 \<le> of_int \<lceil>x - 1 / 2\<rceil>" "of_int \<lceil>x - 1 / 2\<rceil> - 1 < x - 1 / 2" by linarith+
  moreover have "go_round x = of_int \<lceil>x - 1 / 2\<rceil>" using False by (simp add: go_round_def)
  ultimately show ?thesis by linarith
qed

lemma round3_near: "\<bar>round3 v - v\<bar> \<le> 1 / 2000"
  using go_round_near [of "v * 1000"] by (simp add: round3_def abs_le_iff field_simps)

lemma round3_unit: "0 \<le> v \<Longrightarrow> v \<le> 1 \<Longrightarrow> 0 \<le> round3 v \<and> round3 v \<le> 1"
proof -
  assume v: "0 \<le> v" "v \<le> 1"
  have "0 \<le> \<lfloor>v * 1000 + 1 / 2\<rfloor>" using v by simp
  moreover have "\<lfloor>v * 1000 + 1 / 2\<rfloor> \<le> 1000" using v by (simp add: floor_le_iff)
  ultimately have "0 \<le> (of_int \<lfloor>v * 1000 + 1 / 2\<rfloor> :: real) \<and> (of_int \<lfloor>v * 1000 + 1 / 2\<rfloor> :: real) \<le> 1000"
    by linarith
  then show ?thesis using v by (simp add: round3_def go_round_def)
qed

lemma sum_round3: "\<bar>(\<Sum>x \<leftarrow> xs. round3 (f x)) - (\<Sum>x \<leftarrow> xs. f x)\<bar> \<le> real (length xs) / 2000"
proof (induction xs)
  case (Cons x xs)
  have "\<bar>(\<Sum>x \<leftarrow> x # xs. round3 (f x)) - (\<Sum>x \<leftarrow> x # xs. f x)\<bar>
      \<le> \<bar>round3 (f x) - f x\<bar> + \<bar>(\<Sum>x \<leftarrow> xs. round3 (f x)) - (\<Sum>x \<leftarrow> xs. f x)\<bar>"
    by simp
  also have "\<dots> \<le> 1 / 2000 + real (length xs) / 2000" by (intro add_mono round3_near Cons)
  finally show ?case by (simp add: add_divide_distrib)
qed simp

interpretation title_slice: slice_order "\<lambda>x y. DoTitle x > DoTitle y"
  by unfold_locales auto

lemma sorted_by_title: "sorted_wrt (\<lambda>x y. DoTitle y \<le> DoTitle x) (sort_odds_by_title os)"
  using title_slice.arranged_sort_slice [of os] by (simp add: sort_odds_by_title_def title_slice.arranged_def not_less)

lemma sum_list_mset_eq: "mset xs = mset ys \<Longrightarrow> sum_list (map f xs) = (sum_list (map f ys) :: real)"
  by (metis mset_map sum_mset_sum_list)

lemma entrants_of_id: "entrants_of rows i = Some e \<Longrightarrow> PlayerID e = i"
proof -
  have ids: "(\<forall>j e. m j = Some e \<longrightarrow> PlayerID e = j) \<Longrightarrow> fold add_entrants rows m i = Some e \<Longrightarrow> PlayerID e = i" for m
  proof (induction rows arbitrary: m)
    case (Cons r rows)
    have "\<forall>j e. add_entrants r m j = Some e \<longrightarrow> PlayerID e = j" using Cons.prems(1) by (auto simp: add_entrants_def)
    then show ?case using Cons.IH [of "add_entrants r m"] Cons.prems(2) by simp
  qed simp
  then show "entrants_of rows i = Some e \<Longrightarrow> PlayerID e = i"
    using ids [of Map.empty] by (simp add: entrants_of_def)
qed

lemma entrants_of_dom: "m \<in> set rows \<Longrightarrow> entrants_of rows (DwWinner m) \<noteq> None \<and> entrants_of rows (DwLoser m) \<noteq> None"
proof -
  have kept: "es j \<noteq> None \<Longrightarrow> fold add_entrants rs es j \<noteq> None" for es j and rs :: "draw_row list"
  proof (induction rs arbitrary: es)
    case (Cons r rs)
    have "add_entrants r es j \<noteq> None" using Cons.prems by (simp add: add_entrants_def)
    then show ?case using Cons.IH [of "add_entrants r es"] by simp
  qed simp
  have "m \<in> set rows \<Longrightarrow> fold add_entrants rows es (DwWinner m) \<noteq> None \<and> fold add_entrants rows es (DwLoser m) \<noteq> None" for es
  proof (induction rows arbitrary: es)
    case (Cons r rows)
    show ?case
    proof (cases "m = r")
      case True
      have "add_entrants r es (DwWinner r) \<noteq> None" "add_entrants r es (DwLoser r) \<noteq> None"
        by (simp_all add: add_entrants_def)
      then show ?thesis using True kept by (auto simp del: not_None_eq)
    next
      case False
      then show ?thesis using Cons by simp
    qed
  qed simp
  then show "m \<in> set rows \<Longrightarrow> entrants_of rows (DwWinner m) \<noteq> None \<and> entrants_of rows (DwLoser m) \<noteq> None"
    by (simp add: entrants_of_def)
qed

lemma built_bracket_facts:
  assumes "build_bracket (map bracket_match_of rows) (entrants_of rows) = Inr br"
    and pos: "\<forall>m \<in> set rows. DwWinner m \<noteq> 0 \<and> DwLoser m \<noteq> 0"
  shows "bracket_size br = 2 ^ length (Rounds br)" "0 < length (Rounds br)" "no_double_bye (Entrants br)"
    "length (filter (\<lambda>e. \<not> is_bye e) (Entrants br)) = length rows + 1" "entered br = int (length rows) + 1"
    "entrants_of rows (Champion br) \<noteq> None"
proof -
  let ?ms = "map bracket_match_of rows" and ?pl = "entrants_of rows"
  note b = build_bracket_Inr [OF assms(1)] and fin = final_group [OF build_bracket_Inr(1) [OF assms(1)]]
  show size: "bracket_size br = 2 ^ length (Rounds br)" using bracket_is_played [OF assms(1)] by blast
  have groups: "0 < length (round_groups ?ms)" using fin(1) by (simp add: length_round_groups)
  then show "0 < length (Rounds br)" using b(2) by simp
  have nobye: "\<not> is_bye (lookup ?pl i)" if "?pl i \<noteq> None" "i \<noteq> 0" for i
    using that entrants_of_id [of rows i] by (auto simp: lookup_def is_bye_def)
  have mem: "m \<in> set ?ms" if "g \<in> set (round_groups ?ms)" "m \<in> set g" for g m
    using that by (auto simp: round_groups_eq)
  have all: "\<not> is_bye (lookup ?pl (WinnerID m)) \<and> \<not> is_bye (lookup ?pl (LoserID m))" if "m \<in> set ?ms" for m
    using that nobye entrants_of_dom pos by (auto simp: bracket_match_of_def)
  obtain fm where fm: "fm \<in> set rows" "Champion br = DwWinner fm"
    using b(4) fin(2) by (auto simp: bracket_match_of_def)
  then show "?pl (Champion br) \<noteq> None" using entrants_of_dom by auto
  have top: "\<not> is_bye (lookup ?pl (Champion br))" using fm nobye entrants_of_dom pos by auto
  have byes: "no_double_bye (Entrants br) \<and> length (filter is_bye (Entrants br)) = Byes br"
    by (rule subtree_byes [OF b(3)]) (use groups top all mem in auto)
  then show "no_double_bye (Entrants br)" by blast
  show ent: "entered br = int (length rows) + 1" using b(5) by simp
  have "length (filter (\<lambda>e. \<not> is_bye e) (Entrants br)) + length (filter is_bye (Entrants br)) = length (Entrants br)"
    using sum_length_filter_compl [of is_bye "Entrants br"] by simp
  then show "length (filter (\<lambda>e. \<not> is_bye e) (Entrants br)) = length rows + 1"
    using byes ent by (simp add: entered_def)
qed

lemma failing_query:
  "good InternalError \<Longrightarrow> (\<And>v. \<exists>res. answer v = Some res \<and> good res) \<Longrightarrow>
    \<exists>res. (case found of None \<Rightarrow> Some InternalError | Some v \<Rightarrow> answer v) = Some res \<and> good res"
  by (cases found) simp_all

text \<open>
  C0: A draw simulation of stored matches never panics, for any ratings, anchor, seed and number of processors:
  a draw that does not reconstruct is refused with the reason, a failing query is an internal error, and
  everything else is answered with one row for each of the players (one more than there were matches), favourites
  first, every chance between 0 and 1, the rounded title chances adding up to one within half a thousandth a
  player, and a champion who played in it.
\<close>

theorem draw_simulation_answers:
  assumes "q_draw q (EdID ev) = Some rows" and "\<forall>m \<in> set rows. DwWinner m \<noteq> 0 \<and> DwLoser m \<noteq> 0"
    and "0 < procs" and "\<And>w. in_unit (streams seed w)"
  shows "\<exists>res. simulate_draw procs streams q ev runs seed = Some res \<and>
    (case res of
       Unprocessable e \<Rightarrow> build_bracket (map bracket_match_of rows) (entrants_of rows) = Inl e
     | Answer sim \<Rightarrow>
         length (DsOdds sim) = length rows + 1 \<and> DsEntered sim = int (length rows) + 1 \<and> DsChampion sim \<noteq> None
         \<and> sorted_wrt (\<lambda>x y. DoTitle y \<le> DoTitle x) (DsOdds sim)
         \<and> \<bar>(\<Sum>x \<leftarrow> DsOdds sim. DoTitle x) - 1\<bar> \<le> real (length rows + 1) / 2000
         \<and> (\<forall>x \<in> set (DsOdds sim). length (DoReached x) = length (DsRounds sim) \<and> DoTitle x = last (DoReached x)
              \<and> (\<forall>p \<in> set (DoReached x). 0 \<le> p \<and> p \<le> 1))
     | InternalError \<Rightarrow> True
     | _ \<Rightarrow> False)"
proof (cases "build_bracket (map bracket_match_of rows) (entrants_of rows)")
  case (Inl e)
  then show ?thesis by (simp add: simulate_draw_def assms(1) Let_def)
next
  case (Inr br)
  note f = built_bracket_facts [OF Inr assms(2)]
  have played: "\<exists>sim. play_draw procs streams ev (entrants_of rows) br elos cells runs seed = Some sim
      \<and> length (DsOdds sim) = length rows + 1 \<and> DsEntered sim = int (length rows) + 1 \<and> DsChampion sim \<noteq> None
         \<and> sorted_wrt (\<lambda>x y. DoTitle y \<le> DoTitle x) (DsOdds sim)
         \<and> \<bar>(\<Sum>x \<leftarrow> DsOdds sim. DoTitle x) - 1\<bar> \<le> real (length rows + 1) / 2000
         \<and> (\<forall>x \<in> set (DsOdds sim). length (DoReached x) = length (DsRounds sim) \<and> DoTitle x = last (DoReached x)
              \<and> (\<forall>p \<in> set (DoReached x). 0 \<le> p \<and> p \<le> 1))" for elos cells
  proof -
    obtain anc sc points where an: "anchor cells (EdTier ev) (EdSurface ev) (EdSeason ev div 10 * 10) = (anc, sc, points)"
      by (rule prod_cases3)
    obtain res where run: "run_draw procs streams br (win_chance elos anc sc (draw_format ev)) runs seed = Some res"
      and names: "map OEntrant (Odds res) = filter (\<lambda>e. \<not> is_bye e) (Entrants br)"
      and total: "(\<Sum>e \<leftarrow> Odds res. Title e) = 1"
      and rows: "list_all (\<lambda>e. length (Reached e) = length (Rounds br) \<and> Title e = last (Reached e)
          \<and> list_all (\<lambda>p. 0 \<le> p \<and> p \<le> 1) (Reached e) \<and> sorted_wrt (\<ge>) (Reached e)) (Odds res)"
      using run_draw_odds [where streams = streams and seed = seed, OF f(1,2) assms(3,4) f(3), of "win_chance elos anc sc (draw_format ev)" runs]
      by blast
    let ?os = "map (odds_row elos) (Odds res)"
    have len: "length (Odds res) = length rows + 1" using arg_cong [OF names, of length] f(4) by simp
    have m: "mset (sort_odds_by_title ?os) = mset ?os" by (simp add: sort_odds_by_title_def)
    have sum: "(\<Sum>x \<leftarrow> sort_odds_by_title ?os. DoTitle x) = (\<Sum>e \<leftarrow> Odds res. round3 (Title e))"
      using sum_list_mset_eq [OF m, of DoTitle] by (simp add: odds_row_def o_def)
    have row: "length (DoReached x) = length (Rounds br) \<and> DoTitle x = last (DoReached x) \<and> (\<forall>p \<in> set (DoReached x). 0 \<le> p \<and> p \<le> 1)"
      if x: "x \<in> set (sort_odds_by_title ?os)" for x
    proof -
      obtain e where e: "e \<in> set (Odds res)" "x = odds_row elos e" using x by (auto simp: sort_odds_by_title_def)
      have "length (Reached e) = length (Rounds br)" "Title e = last (Reached e)" "\<forall>p \<in> set (Reached e). 0 \<le> p \<and> p \<le> 1"
        using rows e(1) by (auto simp: list_all_iff)
      moreover have "Reached e \<noteq> []" using calculation(1) f(2) by auto
      ultimately show ?thesis using round3_unit by (auto simp: e(2) odds_row_def last_map)
    qed
    obtain sim where sim: "play_draw procs streams ev (entrants_of rows) br elos cells runs seed = Some sim"
      "DsOdds sim = sort_odds_by_title ?os" "DsEntered sim = entered br" "DsRounds sim = Rounds br"
      "DsChampion sim = map_option ESlug (entrants_of rows (Champion br))"
      by (simp add: play_draw_def Let_def an run)
    have "length (sort_odds_by_title ?os) = length rows + 1" using len by (simp add: sort_odds_by_title_def)
    then show ?thesis
      using sum_round3 [of Title "Odds res"] sorted_by_title [of ?os] row f(5,6) len total sum
      by (intro exI [of _ sim]) (simp add: sim)
  qed
  let ?good = "\<lambda>res. case res of
       Unprocessable e \<Rightarrow> build_bracket (map bracket_match_of rows) (entrants_of rows) = Inl e
     | Answer sim \<Rightarrow>
         length (DsOdds sim) = length rows + 1 \<and> DsEntered sim = int (length rows) + 1 \<and> DsChampion sim \<noteq> None
         \<and> sorted_wrt (\<lambda>x y. DoTitle y \<le> DoTitle x) (DsOdds sim)
         \<and> \<bar>(\<Sum>x \<leftarrow> DsOdds sim. DoTitle x) - 1\<bar> \<le> real (length rows + 1) / 2000
         \<and> (\<forall>x \<in> set (DsOdds sim). length (DoReached x) = length (DsRounds sim) \<and> DoTitle x = last (DoReached x)
              \<and> (\<forall>p \<in> set (DoReached x). 0 \<le> p \<and> p \<le> 1))
     | InternalError \<Rightarrow> True
     | _ \<Rightarrow> False"
  have answer: "\<exists>res. map_option Answer (play_draw procs streams ev (entrants_of rows) br elos cells runs seed) = Some res \<and> ?good res"
    for elos cells
  proof -
    obtain sim where sim: "play_draw procs streams ev (entrants_of rows) br elos cells runs seed = Some sim" "?good (Answer sim)"
      unfolding reply.case using played by blast
    show ?thesis by (rule exI [of _ "Answer sim"], rule conjI, simp only: sim(1) option.map, rule sim(2))
  qed
  show ?thesis unfolding simulate_draw_def assms(1) option.case(2) Let_def Inr sum.case
    by (rule failing_query, simp, rule failing_query, simp, rule failing_query, simp, rule answer [unfolded Inr])
qed

text \<open>A final, drawn by the streams: neither finalist is rated, so either is as likely.\<close>

definition final_rows :: "draw_row list" where
  "final_rows = [\<lparr>DwRound = ''F'', DwWinner = 1, DwWinnerSlug = ''ann'', DwWinnerName = ''Ann'', DwWinnerSeed = Some 1,
     DwLoser = 2, DwLoserSlug = ''bea'', DwLoserName = ''Bea'', DwLoserSeed = None\<rparr>]"

definition small_open :: draw_edition where
  "small_open = \<lparr>EdID = 7, EdSlug = ''open'', EdName = ''Open'', EdSeason = 2020, EdTour = ''atp'', EdTier = ''tour'', EdSurface = ''hard'',
     EdLevel = ''A'', EdStart = 0\<rparr>"

theorem draw_simulation_answers_witness:
  "\<exists>res. simulate_draw 4 (\<lambda>_ _ _. 1 / 4) (sample_queries [] final_rows) small_open 100 1 = Some res
     \<and> (\<forall>sim. res = Answer sim \<longrightarrow> DsEntered sim = 2 \<and> length (DsOdds sim) = 2)
     \<and> (\<forall>e. res = Unprocessable e \<longrightarrow> build_bracket (map bracket_match_of final_rows) (entrants_of final_rows) = Inl e)"
proof -
  have q: "q_draw (sample_queries [] final_rows) (EdID small_open) = Some final_rows" by (simp add: sample_queries_def)
  have ids: "\<forall>m \<in> set final_rows. DwWinner m \<noteq> 0 \<and> DwLoser m \<noteq> 0" by (simp add: final_rows_def)
  have u: "in_unit (\<lambda>_. 1 / 4)" by (simp add: in_unit_def)
  have n: "length final_rows = 1" by (simp add: final_rows_def)
  from draw_simulation_answers [where procs = 4 and streams = "\<lambda>_ _ _. 1 / 4" and seed = 1 and runs = 100, OF q ids _ u]
  show ?thesis unfolding n by auto
qed

end
