(* ===== verification/SimPlay.thy ===== *)
theory SimPlay
  imports SimChain
begin

text \<open>
  \<open>Tiebreak\<close> and \<open>Set\<close> of \<open>internal/simulate/match.go\<close> against the rules of play, stated without the tables: a
  tiebreak of any length, point by point, and a set of any length, game by game, each won by two clear. The chances
  of play are any bounded function of the score that satisfies the rules; there is exactly one. Up to six-all the
  tables are these chances; at six-all the code puts another value, and the difference is exact.
\<close>

section \<open>The rules\<close>

text \<open>
  \<open>p k\<close> is A's chance of the k-th point or game, counted from 0. The first to \<open>n\<close> wins if two clear.
\<close>

definition play_step :: "nat \<Rightarrow> (nat \<Rightarrow> real) \<Rightarrow> (nat \<Rightarrow> nat \<Rightarrow> real) \<Rightarrow> nat \<Rightarrow> nat \<Rightarrow> real" where
  "play_step n p V a b =
     (if n \<le> a \<and> b + 2 \<le> a then 1
      else if n \<le> b \<and> a + 2 \<le> b then 0
      else p (a + b) * V (a + 1) b + (1 - p (a + b)) * V a (b + 1))"

definition plays_out :: "nat \<Rightarrow> (nat \<Rightarrow> real) \<Rightarrow> (nat \<Rightarrow> nat \<Rightarrow> real) \<Rightarrow> bool" where
  "plays_out n p V \<longleftrightarrow> (\<forall>a b. prob (V a b)) \<and> (\<forall>a b. V a b = play_step n p V a b)"

text \<open>Play that stops at six-all, which is worth \<open>t\<close>; scores past six-all do not occur.\<close>

definition plays_to_tie :: "nat \<Rightarrow> (nat \<Rightarrow> real) \<Rightarrow> real \<Rightarrow> (nat \<Rightarrow> nat \<Rightarrow> real) \<Rightarrow> bool" where
  "plays_to_tie n p t V \<longleftrightarrow> V 6 6 = t \<and> (\<forall>a b. \<not> (6 \<le> a \<and> 6 \<le> b) \<longrightarrow> V a b = play_step n p V a b)"

lemma plays_out_to_tie: "plays_out n p V \<Longrightarrow> plays_to_tie n p (V 6 6) V"
  unfolding plays_out_def plays_to_tie_def by blast

text \<open>
  A serves the first point, B the next two, A the next two, and so on; A serves the games of even number.
\<close>

definition point_to_A :: "real \<Rightarrow> real \<Rightarrow> nat \<Rightarrow> real" where
  "point_to_A pA pB k = (if even ((k + 1) div 2) then pA else 1 - pB)"

definition game_to_A :: "real \<Rightarrow> real \<Rightarrow> nat \<Rightarrow> real" where
  "game_to_A pA pB k = (if even k then game pA else 1 - game pB)"

lemma serverIsA_order: "serverIsA k \<longleftrightarrow> even ((k + 1) div 2)"
  unfolding serverIsA_def by presburger

text \<open>The chance that a score is reached from which it is six-all.\<close>

function reach_six :: "nat \<Rightarrow> (nat \<Rightarrow> real) \<Rightarrow> nat \<Rightarrow> nat \<Rightarrow> real" where
  "reach_six n p a b =
     (if 6 \<le> a \<and> 6 \<le> b then 1
      else if n \<le> a \<and> b + 2 \<le> a \<or> n \<le> b \<and> a + 2 \<le> b then 0
      else p (a + b) * reach_six n p (a + 1) b + (1 - p (a + b)) * reach_six n p a (b + 1))"
  by pat_completeness auto
termination by (relation "measure (\<lambda>(n, p, a, b). 2 * n + 20 - (a + b))") auto

declare reach_six.simps [simp del]

section \<open>The chances of play are determined\<close>

text \<open>
  From a level score both sides serve once each; \<open>w\<close> is the chance that A takes both, \<open>l\<close> that B does.
\<close>

definition pairs_up :: "(nat \<Rightarrow> real) \<Rightarrow> real \<Rightarrow> real \<Rightarrow> bool" where
  "pairs_up p w l \<longleftrightarrow> (\<forall>k. prob (p k))
     \<and> (\<forall>k. p (2 * k) * p (2 * k + 1) = w \<and> (1 - p (2 * k)) * (1 - p (2 * k + 1)) = l)"

lemma pairs_up_bounds:
  assumes "pairs_up p w l"
  shows "0 \<le> w" "0 \<le> l" "w + l \<le> 1"
proof -
  have p: "prob (p 0)" "prob (p 1)" and wl: "w = p 0 * p 1" "l = (1 - p 0) * (1 - p 1)"
    using assms unfolding pairs_up_def by (metis mult_0_right add_0)+
  show "0 \<le> w" "0 \<le> l" using p wl by (auto simp: prob_def)
  have "w \<le> p 0" using p wl by (simp add: prob_def mult_left_le)
  moreover have "l \<le> 1 - p 0" using p wl by (simp add: prob_def mult_left_le)
  ultimately show "w + l \<le> 1" by simp
qed

lemma level_step:
  assumes V: "plays_out n p V" and p: "pairs_up p w l" and "n \<le> 7" "6 \<le> k"
  shows "V k k = w + (1 - w - l) * V (k + 1) (k + 1)"
proof -
  have s: "V a b = play_step n p V a b" for a b using V by (simp add: plays_out_def)
  have 2: "V (k + 2) k = 1" "V k (k + 2) = 0" using assms(3,4) by (subst s, simp add: play_step_def)+
  have 1: "V (k + 1) k = p (2 * k + 1) * V (k + 2) k + (1 - p (2 * k + 1)) * V (k + 1) (k + 1)"
    "V k (k + 1) = p (2 * k + 1) * V (k + 1) (k + 1) + (1 - p (2 * k + 1)) * V k (k + 2)"
    by (subst s, simp add: play_step_def mult_2)+
  have "V k k = p (2 * k) * V (k + 1) k + (1 - p (2 * k)) * V k (k + 1)"
    by (subst s) (simp add: play_step_def mult_2)
  then have "V k k = p (2 * k) * p (2 * k + 1)
      + (p (2 * k) * (1 - p (2 * k + 1)) + (1 - p (2 * k)) * p (2 * k + 1)) * V (k + 1) (k + 1)"
    unfolding 1 2 by (simp add: algebra_simps)
  moreover have "w = p (2 * k) * p (2 * k + 1)" "l = (1 - p (2 * k)) * (1 - p (2 * k + 1))"
    using p by (simp_all add: pairs_up_def)
  moreover from this have "1 - w - l = p (2 * k) * (1 - p (2 * k + 1)) + (1 - p (2 * k)) * p (2 * k + 1)"
    by (simp add: algebra_simps)
  ultimately show ?thesis by simp
qed

lemma six_all_value:
  assumes V: "plays_out n p V" and p: "pairs_up p w l" and "n \<le> 7" and pos: "0 < w + l"
  shows "V 6 6 = w / (w + l)"
proof -
  define x where "x = w / (w + l)"
  let ?c = "1 - w - l" and ?x = x
  have c: "0 \<le> ?c" "?c < 1" using pairs_up_bounds [OF p] pos by simp_all
  have fixp: "?x = w + ?c * ?x" using pos by (simp add: x_def field_simps)
  have diff: "V k k - ?x = ?c * (V (k + 1) (k + 1) - ?x)" if "6 \<le> k" for k
  proof -
    have "V k k - ?x = (w + ?c * V (k + 1) (k + 1)) - (w + ?c * ?x)"
      using level_step [OF V p assms(3) that] fixp by linarith
    then show ?thesis by (simp add: right_diff_distrib)
  qed
  have pow: "V 6 6 - ?x = ?c ^ m * (V (6 + m) (6 + m) - ?x)" for m
  proof (induction m)
    case (Suc m)
    have "V 6 6 - ?x = ?c ^ m * (?c * (V (6 + Suc m) (6 + Suc m) - ?x))"
      using Suc diff [of "6 + m"] by simp
    then show ?case by (simp only: power_Suc mult.assoc mult.left_commute)
  qed simp
  have x: "0 \<le> ?x" "?x \<le> 1" using pairs_up_bounds [OF p] pos by (simp_all add: x_def)
  have small: "\<bar>V 6 6 - ?x\<bar> \<le> ?c ^ m" for m
  proof -
    have "prob (V (6 + m) (6 + m))" using V unfolding plays_out_def by blast
    then have "\<bar>V (6 + m) (6 + m) - ?x\<bar> \<le> 1" using x by (auto simp: prob_def abs_le_iff)
    then have "?c ^ m * \<bar>V (6 + m) (6 + m) - ?x\<bar> \<le> ?c ^ m * 1" using c by (intro mult_left_mono) simp_all
    then show ?thesis using pow [of m] c by (simp add: abs_mult)
  qed
  have "\<not> 0 < \<bar>V 6 6 - ?x\<bar>"
  proof
    assume "0 < \<bar>V 6 6 - ?x\<bar>"
    then obtain m where "?c ^ m < \<bar>V 6 6 - ?x\<bar>" using real_arch_pow_inv [of "\<bar>V 6 6 - ?x\<bar>" ?c] c by blast
    then show False using small [of m] by simp
  qed
  then show ?thesis by (simp add: x_def)
qed

lemma reach_six_ended: "n \<le> a \<and> b + 2 \<le> a \<or> n \<le> b \<and> a + 2 \<le> b \<Longrightarrow> a < 6 \<or> b < 6 \<Longrightarrow> reach_six n p a b = 0"
  by (subst reach_six.simps) auto

lemma mix_error:
  fixes p :: real
  assumes "x = p * x1 + (1 - p) * x2" and "v = p * v1 + (1 - p) * v2" and "r = p * r1 + (1 - p) * r2"
    and "x1 = v1 + r1 * e" and "x2 = v2 + r2 * e"
  shows "x = v + r * e"
  unfolding assms by (simp add: algebra_simps)

section \<open>The tables\<close>

lemma tiebreak_by_points:
  assumes V: "plays_to_tie 7 (point_to_A pA pB) t V" and r: "r = twoPointRace (pA * (1 - pB)) ((1 - pA) * pB)"
  shows "a \<le> 7 \<Longrightarrow> b \<le> 7 \<Longrightarrow> (a = 7 \<longrightarrow> b < 6) \<Longrightarrow> (b = 7 \<longrightarrow> a < 6) \<Longrightarrow>
    tiebreak_from pA pB a b = V a b + reach_six 7 (point_to_A pA pB) a b * (r - t)"
proof (induction "14 - (a + b)" arbitrary: a b rule: less_induct)
  case less
  let ?p = "point_to_A pA pB"
  have step: "V a b = play_step 7 ?p V a b" if "\<not> (6 \<le> a \<and> 6 \<le> b)"
    using V that by (simp add: plays_to_tie_def)
  consider "a = 7" | "b = 7" | "a = 6" "b = 6" | "a < 7" "b < 7" "\<not> (a = 6 \<and> b = 6)"
    using less.prems by linarith
  then show ?case
  proof cases
    case 1
    then show ?thesis using less.prems step by (auto simp: play_step_def tiebreak_from.simps reach_six_ended)
  next
    case 2
    then show ?thesis using less.prems step by (auto simp: play_step_def tiebreak_from.simps reach_six_ended)
  next
    case 3
    then show ?thesis using V r by (simp add: plays_to_tie_def tiebreak_from.simps reach_six.simps [of _ _ 6 6])
  next
    case 4
    then have n: "\<not> (6 \<le> a \<and> 6 \<le> b)" by linarith
    have IH: "tiebreak_from pA pB (a + 1) b = V (a + 1) b + reach_six 7 ?p (a + 1) b * (r - t)"
      "tiebreak_from pA pB a (b + 1) = V a (b + 1) + reach_six 7 ?p a (b + 1) * (r - t)"
      using 4 n by (intro less.hyps; linarith)+
    have "tiebreak_from pA pB a b = ?p (a + b) * tiebreak_from pA pB (a + 1) b + (1 - ?p (a + b)) * tiebreak_from pA pB a (b + 1)"
      using 4 n by (subst tiebreak_from.simps) (auto simp: point_to_A_def serverIsA_order Let_def)
    moreover have "V a b = ?p (a + b) * V (a + 1) b + (1 - ?p (a + b)) * V a (b + 1)"
      using step [OF n] 4 by (simp add: play_step_def)
    moreover have "reach_six 7 ?p a b = ?p (a + b) * reach_six 7 ?p (a + 1) b + (1 - ?p (a + b)) * reach_six 7 ?p a (b + 1)"
      using 4 n by (subst reach_six.simps) auto
    ultimately show ?thesis using IH by (rule mix_error)
  qed
qed

lemma set_by_games:
  assumes U: "plays_to_tie 6 (game_to_A pA pB) t U"
  shows "a \<le> 7 \<Longrightarrow> b \<le> 7 \<Longrightarrow> (a = 7 \<longrightarrow> b < 6) \<Longrightarrow> (b = 7 \<longrightarrow> a < 6) \<Longrightarrow>
    set_from (game pA) (game pB) six a b = U a b + reach_six 6 (game_to_A pA pB) a b * (six - t)"
proof (induction "14 - (a + b)" arbitrary: a b rule: less_induct)
  case less
  let ?p = "game_to_A pA pB" and ?s = "set_from (game pA) (game pB) six"
  have step: "U a b = play_step 6 ?p U a b" if "\<not> (6 \<le> a \<and> 6 \<le> b)"
    using U that by (simp add: plays_to_tie_def)
  consider "a = 7 \<or> a = 6 \<and> b \<le> 4" | "b = 7 \<or> b = 6 \<and> a \<le> 4" "\<not> (a = 7 \<or> a = 6 \<and> b \<le> 4)" | "a = 6" "b = 6"
    | "a < 7" "b < 7" "\<not> (a = 6 \<and> b = 6)" "\<not> (a = 6 \<and> b \<le> 4)" "\<not> (b = 6 \<and> a \<le> 4)"
    using less.prems by linarith
  then show ?case
  proof cases
    case 1
    then show ?thesis using less.prems step by (auto simp: play_step_def set_from.simps reach_six_ended)
  next
    case 2
    then show ?thesis using less.prems step by (auto simp: play_step_def set_from.simps reach_six_ended)
  next
    case 3
    then show ?thesis using U by (simp add: plays_to_tie_def set_from.simps reach_six.simps [of _ _ 6 6])
  next
    case 4
    then have n: "\<not> (6 \<le> a \<and> 6 \<le> b)" by linarith
    have open_score: "\<not> (6 \<le> a \<and> b + 2 \<le> a)" "\<not> (6 \<le> b \<and> a + 2 \<le> b)" using 4 by linarith+
    have unfinished: "\<not> (7 \<le> a \<or> a = 6 \<and> b \<le> 4)" "\<not> (7 \<le> b \<or> b = 6 \<and> a \<le> 4)" "\<not> (a = 6 \<and> b = 6)"
      using 4 by linarith+
    have next_ok: "a + 1 \<le> 7" "b + 1 \<le> 7" "a + 1 = 7 \<longrightarrow> b < 6" "b + 1 = 7 \<longrightarrow> a < 6" "b = 7 \<longrightarrow> a + 1 < 6" "a = 7 \<longrightarrow> b + 1 < 6"
      "14 - ((a + 1) + b) < 14 - (a + b)" "14 - (a + (b + 1)) < 14 - (a + b)" "a \<le> 7" "b \<le> 7"
      using 4 by auto
    have IH: "?s (a + 1) b = U (a + 1) b + reach_six 6 ?p (a + 1) b * (six - t)"
      "?s a (b + 1) = U a (b + 1) + reach_six 6 ?p a (b + 1) * (six - t)"
      by (rule less.hyps; rule next_ok)+
    have "?s a b = ?p (a + b) * ?s (a + 1) b + (1 - ?p (a + b)) * ?s a (b + 1)"
      by (subst set_from.simps) (simp only: unfinished if_False Let_def game_to_A_def)
    moreover have "U a b = ?p (a + b) * U (a + 1) b + (1 - ?p (a + b)) * U a (b + 1)"
      using step [OF n] open_score by (simp only: play_step_def if_False)
    moreover have "reach_six 6 ?p a b = ?p (a + b) * reach_six 6 ?p (a + 1) b + (1 - ?p (a + b)) * reach_six 6 ?p a (b + 1)"
      by (subst reach_six.simps) (simp only: n open_score if_False simp_thms)
    ultimately show ?thesis using IH by (rule mix_error)
  qed
qed

section \<open>The code against the rules\<close>

lemma game_strict:
  assumes "0 < p" "p < 1"
  shows "0 < game p" "game p < 1"
proof -
  let ?q = "1 - p"
  let ?straight = "p * p * p * p * (1 + 4 * ?q + 10 * ?q * ?q)" and ?deuce = "20 * p * p * p * ?q * ?q * ?q"
  have "0 < ?straight" using assms by (intro mult_pos_pos add_pos_nonneg) simp_all
  moreover have "0 \<le> ?deuce" using assms by simp
  moreover have "0 \<le> twoPointRace p ?q" "twoPointRace p ?q \<le> 1" using prob_race [of p ?q] by (simp_all add: prob_def)
  ultimately have "0 < ?straight + ?deuce * twoPointRace p ?q" "?straight + ?deuce * twoPointRace p ?q \<le> ?straight + ?deuce"
    by (simp_all add: add_pos_nonneg mult_left_le)
  moreover have "?straight + ?deuce = 1 - ?q * ?q * ?q * ?q * (1 + 4 * p + 10 * p * p)" by (simp add: algebra_simps)
  moreover have "0 < ?q * ?q * ?q * ?q * (1 + 4 * p + 10 * p * p)"
    using assms by (intro mult_pos_pos add_pos_nonneg) simp_all
  ultimately show "0 < game p" "game p < 1" by (simp_all add: game_def Let_def)
qed

lemma pairs_up_points: "prob pA \<Longrightarrow> prob pB \<Longrightarrow> pairs_up (point_to_A pA pB) (pA * (1 - pB)) ((1 - pA) * pB)"
  by (auto simp: pairs_up_def point_to_A_def mult.commute)

lemma pairs_up_games:
  "prob pA \<Longrightarrow> prob pB \<Longrightarrow> pairs_up (game_to_A pA pB) (game pA * (1 - game pB)) ((1 - game pA) * game pB)"
  by (auto simp: pairs_up_def game_to_A_def prob_game)

text \<open>
  C5: The tables of \<open>Tiebreak\<close> and \<open>Set\<close> against the rules of play. Let \<open>V\<close> be the chances of a tiebreak played
  point by point with no limit to its length, \<open>U\<close> those of an advantage set played game by game, and \<open>S\<close> those of
  a set that goes to such a tiebreak at six-all; rules and boundedness leave only one of each. Then \<open>Tiebreak\<close> and
  \<open>Set\<close> give exactly these chances plus the chance of reaching six-all times the error of the value the code puts
  there: \<open>w^2 / (w^2 + l^2)\<close>, where the rules give \<open>w / (w + l)\<close> for the chances \<open>w\<close> and \<open>l\<close> of taking both of a
  pair of points or games. A set with a tiebreak inherits the tiebreak's error, weighted with the chance of six-all.
\<close>

theorem tables_against_the_rules:
  assumes "0 < pA" "pA < 1" "0 < pB" "pB < 1"
    and V: "plays_out 7 (point_to_A pA pB) V" and U: "plays_out 6 (game_to_A pA pB) U"
    and S: "plays_to_tie 6 (game_to_A pA pB) (V 0 0) S"
    and w: "w = pA * (1 - pB)" "l = (1 - pA) * pB" "wg = game pA * (1 - game pB)" "lg = (1 - game pA) * game pB"
  shows "tiebreak pA pB = V 0 0 + reach_six 7 (point_to_A pA pB) 0 0 * (w * w / (w * w + l * l) - w / (w + l))
    \<and> set_prob pA pB True = U 0 0 + reach_six 6 (game_to_A pA pB) 0 0 * (wg * wg / (wg * wg + lg * lg) - wg / (wg + lg))
    \<and> set_prob pA pB False = S 0 0 + reach_six 6 (game_to_A pA pB) 0 0 * (tiebreak pA pB - V 0 0)"
proof (intro conjI)
  have p: "prob pA" "prob pB" using assms(1-4) by (simp_all add: prob_def)
  note g = game_strict [OF assms(1,2)] game_strict [OF assms(3,4)]
  have pos: "0 < w" "0 < l" "0 < wg" "0 < lg" using assms(1-4) g by (simp_all add: w)
  have six: "V 6 6 = w / (w + l)" "U 6 6 = wg / (wg + lg)"
    using six_all_value [OF V, of w l] six_all_value [OF U, of wg lg] pairs_up_points [OF p] pairs_up_games [OF p] pos
    by (simp_all add: w)
  have race: "twoPointRace w l = w * w / (w * w + l * l)" "twoPointRace wg lg = wg * wg / (wg * wg + lg * lg)"
    using pos by (simp_all add: race_quotient)
  show "tiebreak pA pB = V 0 0 + reach_six 7 (point_to_A pA pB) 0 0 * (w * w / (w * w + l * l) - w / (w + l))"
    using tiebreak_by_points [OF plays_out_to_tie [OF V] refl, of 0 0] race six by (simp add: tiebreak_recursion w)
  show "set_prob pA pB True = U 0 0 + reach_six 6 (game_to_A pA pB) 0 0 * (wg * wg / (wg * wg + lg * lg) - wg / (wg + lg))"
    using set_by_games [OF plays_out_to_tie [OF U], of 0 0] race six by (simp add: set_recursion six_all_def w)
  show "set_prob pA pB False = S 0 0 + reach_six 6 (game_to_A pA pB) 0 0 * (tiebreak pA pB - V 0 0)"
    using set_by_games [OF S, of 0 0] by (simp add: set_recursion six_all_def)
qed

text \<open>Chances that satisfy the rules exist.\<close>

function rules_value :: "nat \<Rightarrow> (nat \<Rightarrow> real) \<Rightarrow> real \<Rightarrow> nat \<Rightarrow> nat \<Rightarrow> real" where
  "rules_value n p x a b =
     (if n \<le> a \<and> b + 2 \<le> a then 1
      else if n \<le> b \<and> a + 2 \<le> b then 0
      else if 6 \<le> a \<and> 6 \<le> b then
        (if a = b then x else if b < a then p (a + b) + (1 - p (a + b)) * x else p (a + b) * x)
      else p (a + b) * rules_value n p x (a + 1) b + (1 - p (a + b)) * rules_value n p x a (b + 1))"
  by pat_completeness auto
termination by (relation "measure (\<lambda>(n, p, x, a, b). 2 * n + 20 - (a + b))") auto

declare rules_value.simps [simp del]

lemma rules_value_prob: "(\<And>k. prob (p k)) \<Longrightarrow> prob x \<Longrightarrow> prob (rules_value n p x a b)"
proof (induction n p x a b rule: rules_value.induct)
  case (1 n p x a b)
  have one: "prob (p (a + b) + (1 - p (a + b)) * x)" using prob_mix [of "p (a + b)" 1 x] 1 by (simp add: prob_def)
  have two: "prob (p (a + b) * x)" using prob_mult 1 by blast
  show ?case
    by (subst rules_value.simps) (use 1 one two in \<open>auto simp: prob_def [of 1] prob_def [of 0] intro!: prob_mix\<close>)
qed

lemma rules_value_to_tie: "plays_to_tie n p x (rules_value n p x)"
proof -
  have "rules_value n p x 6 6 = x" by (subst rules_value.simps) simp
  moreover have "rules_value n p x a b = play_step n p (rules_value n p x) a b" if "\<not> (6 \<le> a \<and> 6 \<le> b)" for a b
    by (subst rules_value.simps) (simp only: play_step_def that if_False)
  ultimately show ?thesis by (simp add: plays_to_tie_def)
qed

lemma rules_value_level:
  assumes p: "pairs_up p w l" and pos: "0 < w + l" and x: "x = w / (w + l)" and n: "n \<le> 7" and "6 \<le> a" "6 \<le> b"
  shows "rules_value n p x a b = play_step n p (rules_value n p x) a b"
proof -
  let ?V = "rules_value n p x"
  have lev: "?V a a = x" if "6 \<le> a" for a using that by (subst rules_value.simps) simp
  have up: "?V (a + 1) a = p (2 * a + 1) + (1 - p (2 * a + 1)) * x" if "6 \<le> a" for a
    using that by (subst rules_value.simps) (simp add: mult_2)
  have down: "?V a (a + 1) = p (2 * a + 1) * x" if "6 \<le> a" for a
    using that by (subst rules_value.simps) (simp add: mult_2)
  have won: "?V a b = 1" if "6 \<le> b" "b + 2 \<le> a" for a b using that n by (subst rules_value.simps) simp
  have lost: "?V a b = 0" if "6 \<le> a" "a + 2 \<le> b" for a b using that n by (subst rules_value.simps) simp
  have fixp: "x = w + (1 - w - l) * x" using pos by (simp add: x field_simps)
  consider "b + 2 \<le> a" | "a + 2 \<le> b" | "a = b" | "a = b + 1" | "b = a + 1" by linarith
  then show ?thesis
  proof cases
    case 1
    then show ?thesis using won assms n by (simp add: play_step_def)
  next
    case 2
    then show ?thesis using lost assms n by (simp add: play_step_def)
  next
    case 3
    have "play_step n p ?V a a = p (2 * a) * ?V (a + 1) a + (1 - p (2 * a)) * ?V a (a + 1)"
      by (simp add: play_step_def mult_2)
    also have "\<dots> = p (2 * a) * p (2 * a + 1)
        + (1 - p (2 * a) * p (2 * a + 1) - (1 - p (2 * a)) * (1 - p (2 * a + 1))) * x"
      unfolding up [OF assms(5)] down [OF assms(5)] by (simp add: algebra_simps)
    also have "\<dots> = w + (1 - w - l) * x" using p by (simp add: pairs_up_def)
    finally show ?thesis using 3 lev [OF assms(5)] fixp by simp
  next
    case 4
    then show ?thesis using up [of b] won [of b "b + 2"] lev [of "b + 1"] assms
      by (simp add: play_step_def mult_2 add.commute)
  next
    case 5
    then show ?thesis using down [of a] lost [of a "a + 2"] lev [of "a + 1"] assms
      by (simp add: play_step_def mult_2 add.commute)
  qed
qed

lemma rules_value_plays_out:
  assumes p: "pairs_up p w l" and pos: "0 < w + l" and n: "n \<le> 7"
  shows "plays_out n p (rules_value n p (w / (w + l)))"
proof -
  let ?x = "w / (w + l)"
  have "prob ?x" using pairs_up_bounds [OF p] pos by (simp add: prob_def)
  then have "prob (rules_value n p ?x a b)" for a b using p by (intro rules_value_prob) (simp_all add: pairs_up_def)
  moreover have "rules_value n p ?x a b = play_step n p (rules_value n p ?x) a b" for a b
  proof (cases "6 \<le> a \<and> 6 \<le> b")
    case True
    then show ?thesis using rules_value_level [OF p pos refl n] by blast
  next
    case False
    then show ?thesis using rules_value_to_tie [of n p ?x] unfolding plays_to_tie_def by blast
  qed
  ultimately show ?thesis by (simp add: plays_out_def)
qed

text \<open>A player who serves at 70 percent against one at 60 percent.\<close>

theorem tables_against_the_rules_witness:
  "\<exists>V. plays_out 7 (point_to_A (7 / 10) (6 / 10)) V
     \<and> tiebreak (7 / 10) (6 / 10) = V 0 0 + reach_six 7 (point_to_A (7 / 10) (6 / 10)) 0 0 * (196 / 277 - 28 / 46)"
proof -
  let ?A = "7 / 10 :: real" and ?B = "6 / 10 :: real"
  have p: "prob ?A" "prob ?B" by (simp_all add: prob_def)
  have g: "0 < game ?A" "game ?A < 1" "0 < game ?B" "game ?B < 1" using game_strict [of ?A] game_strict [of ?B] by simp_all
  let ?w = "?A * (1 - ?B)" and ?l = "(1 - ?A) * ?B"
  let ?wg = "game ?A * (1 - game ?B)" and ?lg = "(1 - game ?A) * game ?B"
  let ?V = "rules_value 7 (point_to_A ?A ?B) (?w / (?w + ?l))"
  have V: "plays_out 7 (point_to_A ?A ?B) ?V" by (rule rules_value_plays_out [OF pairs_up_points [OF p]]) simp_all
  have pos: "0 < ?wg + ?lg" using g by (simp add: add_pos_pos)
  have U: "plays_out 6 (game_to_A ?A ?B) (rules_value 6 (game_to_A ?A ?B) (?wg / (?wg + ?lg)))"
    by (rule rules_value_plays_out [OF pairs_up_games [OF p] pos]) simp
  have o: "0 < ?A" "?A < 1" "0 < ?B" "?B < 1" by simp_all
  note t = tables_against_the_rules [OF o V U rules_value_to_tie refl refl refl refl, THEN conjunct1]
  show ?thesis using V t by (intro exI [of _ ?V]) simp
qed

end
