(* ===== verification/Spec2Isabelle.thy ===== *)
theory Spec2Isabelle
  imports ScoreFacts Name SimChain SimAnchor SimDraw RatingStore IdentityStore EventsStore RateLimit HttpCache IngestRowFacts PipelineFacts ChartingLoad SimulateFacts SimPlay
begin

text \<open>
  tennis-wiki: the core of a tennis statistics service written in Go. Source files of results are ingested into
  Postgres, the players of different sources are reconciled, tournaments are joined into events, ratings are
  replayed, and an HTTP API answers from the database behind a rate limiter and a cache, simulating matches and
  draws on request. The theories model the Go code of these stages and prove what makes each of them correct.

  The parts, in the order data flows through them, with the theories that model them (a theory whose name ends in
  Facts, Links, Decisions or Replay holds lemmas and properties of the definitions it imports):

  \<^item> Scores, \<open>internal/score\<close>: Score (\<open>score.go\<close>: outcomes, sets, every figure read
    off them, printing), ScoreParse (\<open>parse.go\<close>: the scanner, tokens, markers and
    \<open>Parse\<close>), ScoreFacts (printing and parsing are inverse, what is accepted is stable under printing,
    figures stay within bounds).
  \<^item> Names, \<open>internal/name\<close>: Name (folding of names to slugs and search keys).
  \<^item> Ingest, \<open>internal/ingest\<close>: IngestRow (\<open>profile.go\<close>, \<open>row.go\<close>,
    \<open>classify.go\<close>, the \<open>Reader\<close> of \<open>reader.go\<close>: columns by name, cleaning,
    fields, statistics, synthetic match numbers), IngestSource (\<open>source.go\<close> and the sources of
    \<open>reference.go\<close>: the registry, its validation and the plan of jobs), IngestStore
    (\<open>store.go\<close>, \<open>slug.go\<close>: a batch as one transaction), Pipeline
    (\<open>pipeline.go\<close>, \<open>ledger.go\<close>: readers, channel, single writer and ledger as a step
    relation); IngestRowFacts, IngestStoreFacts, PipelineFacts: rows are well formed whatever the file holds, a
    batch stores every row and writing it again changes nothing where its source ids are different players, a
    recorded file is held under every interleaving, counts balance, a run over files that end ends.
  \<^item> Identity, \<open>internal/identity\<close>: Identity (\<open>identity.go\<close>: keys, scoring, folding,
    \<open>Reconcile\<close>), IdentityLinks, IdentityDecisions (\<open>overrides.go\<close>: the index of human
    decisions and \<open>Apply\<close>), IdentityStore (\<open>store.go\<close>, \<open>runner.go\<close>: merging
    two players over all tables under the constraints of the migrations, and the pass).
  \<^item> Events, \<open>internal/events\<close>: Events (\<open>events.go\<close>, \<open>overrides.go\<close>:
    tournaments joined into events by number, override, bridge and name), EventsFacts, EventsStore
    (\<open>store.go\<close>, \<open>run.go\<close>: slugs, upserts, links).
  \<^item> Ratings, \<open>internal/rating\<close>: RatingElo (arithmetic, K, weights, round order in Go and in SQL,
    the blend), RatingEngine (the weekly engine), RatingReplay (snapshots against a reference replay), RatingStore
    (the stream of matches, the batching writer, recompute as one transaction that any failure of the database
    undoes).
  \<^item> Simulation, \<open>internal/simulate\<close>: SimMatch and SimChain (\<open>match.go\<close>: the chain
    from a point to a match and its inversion), SimPlay (a tiebreak and a set played by the rules, and how far the
    tables of the code are from them), SimAnchor (\<open>anchor.go\<close>), SimBracket (\<open>draw.go\<close>),
    SimDraw (\<open>montecarlo.go\<close>).
  \<^item> Charting, \<open>internal/charting\<close>: Charting (\<open>reader.go\<close>,
    \<open>resolve.go\<close>: the two files and the one row a charted match is of), ChartingFacts, ChartingStore
    (\<open>store.go\<close>, \<open>loader.go\<close>: a batch attached to its rows, the unresolved ones, the run),
    ChartingStoreFacts, ChartingLoad (what a load leaves behind, and whose figures a row carries).
  \<^item> Serving, \<open>internal/httpapi\<close> and \<open>internal/cache\<close>: RateLimit
    (\<open>ratelimit.go\<close> and the client of \<open>middleware.go\<close>), Cache (\<open>cache.go\<close>),
    HttpCache (\<open>httpapi/cache.go\<close>, \<open>etag.go\<close>), SimulateApi (\<open>simulate.go\<close>:
    the two simulation endpoints over their queries), SimulateFacts (what they answer, and when).
  \<^item> Shared ground: Prelude (64-bit wrap-around, \<open>sort.Slice\<close> as a locale, association lists as
    Go maps), GoStrings (the functions of \<open>strings\<close> and \<open>strconv\<close> the code uses), Sql
    (statements as functions of a state that fail on a broken constraint, upserts, transactions).

  How the code is read. A struct is a record, an enumeration a datatype, an error the left of a sum.
  \<open>int\<close> is \<open>int\<close> with \<open>wrap64\<close> or \<open>to_int16\<close> written out where
  an overflow can be reached; counters of rows and files are \<open>nat\<close>. \<open>float64\<close> is
  \<open>real\<close>: rounding is not modelled. A string is a list of bytes; its case functions are those of ASCII;
  text whose runes matter (names) is a list of code points, and the tables of package \<open>unicode\<close> above
  ASCII are a parameter \<open>ul\<close>. A map is an association list or a function; where the code ranges over a
  map the order is a parameter or the theorem holds for every order. \<open>strconv.ParseFloat\<close> is a
  parameter \<open>fl\<close>, whose values are a number, an infinity or NaN. Dates are triples or day numbers,
  instants are integers. A statement of SQL is a function of the tables it touches, with the constraints of
  \<open>migrations/\<close>, immediate or deferred to the commit. In a recompute of the ratings every call of the
  driver may fail (\<open>db_link\<close>: the query, a row, the end of the stream, \<open>BEGIN\<close>,
  \<open>TRUNCATE\<close>, \<open>COPY\<close>, \<open>COMMIT\<close>); in the other stages a statement fails on a
  constraint, and of the failures of the connection only those a named parameter stands for are there. Redis is a
  store of keys in which every operation may fail. Random streams, GOMAXPROCS, digests, fetchers and the CSV decoder
  are parameters.

  Interfaces are locales, each interpreted on the definitions of the model: \<open>slice_order\<close> (a strict
  weak order, what \<open>sort.Slice\<close> needs; interpreted on every comparison the code sorts with),
  \<open>overlay\<close> (new columns laid over old ones by an upsert; interpreted on tournaments and matches),
  \<open>byte_cache\<close> (what a handler relies on of the cache), \<open>batch_store\<close> (what the pipeline
  relies on of \<open>WriteBatch\<close>; interpreted on \<open>write_batch\<close>), \<open>charting_store\<close>
  (what the charting loader relies on of its store; interpreted on the store on Postgres) and
  \<open>score_table\<close> (what the two loops that fill a win table have in common; interpreted on those of
  \<open>Tiebreak\<close> and \<open>Set\<close>).

  Bounds and loops. Loops over data are structural recursion. Loops the code does not bound are
  \<open>partial_function\<close>, where None is a call that does not return: \<open>probe\<close> (a free match
  number; returns for files of at most 31000 records, the size of its range, and not when every number of it is
  taken, \<open>probe_stuck\<close>), \<open>mint_loop\<close> (a free slug; always returns),
  \<open>read_loop\<close> (a file; returns exactly when its body ends). The bisection of \<open>Invert\<close> runs
  its 60 steps. The pipeline's step relation has a measure that every step lowers.

  What the lemmas show about the code that is not as its comments say is listed with the findings of the manifest;
  the lemmas that establish them are in the theories above (\<open>six_all_race_overstates\<close>,
  \<open>parse_wraps_long_numbers\<close>, \<open>queued_fold_hides_candidate\<close>,
  \<open>decision_keeps_direction\<close>, \<open>source_of_swallows_errors\<close>,
  \<open>fill_survives_flush\<close>, \<open>key_collision\<close>, \<open>repeated_row_is_two_matches\<close>,
  \<open>aliases_overwrite\<close>, \<open>namesakes_race\<close>, \<open>failing_body_never_ends\<close>,
  \<open>cancelled_run_succeeds\<close>, \<open>seed_and_processors\<close>, \<open>nan_age_kept\<close>,
  \<open>negative_line_passes\<close>, \<open>fold_ignores_rivals\<close>, \<open>unresolved_not_retried\<close>).

  Limits of the statements. The limiter is taken at instants that do not go back; the code reads the clock before it
  takes the lock. Go maps that the code ranges over in the identity pass are taken in the order of the lists that
  stand for them. Ages are as parsed; the rounding of the column that stores them is not applied.

  Not modelled: \<open>internal/db\<close> (generated by sqlc from \<open>queries/\<close>; the handlers' queries
  are rows of the database and carry no logic of their own in Go); the remaining handlers of
  \<open>internal/httpapi\<close>, which read parameters, run one query and copy columns into JSON structs, and the
  plumbing around them (router, server, problem responses, configuration, health); the fetchers of
  \<open>ingest/reader.go\<close> (files and HTTP); the rest of \<open>internal/ingest\<close> (the reference loader
  and the derived tables of the \<open>store_*\<close> files, which are single statements of SQL, and pruning);
  \<open>internal/validate\<close>, \<open>internal/dataqual\<close> and \<open>internal/ongoing\<close>;
  \<open>cmd/\<close> (flags, wiring and printing); \<open>internal/testdb\<close> (containers for tests); the web
  client and the deployment files.
\<close>

end
